(* ===== verification/QD_Prelude.thy ===== *)
theory QD_Prelude
  imports Main
begin

text \<open>
  Shared vocabulary of the development.

  Every concurrent component is a labelled transition system with a deterministic, executable
  step function \<open>step :: 'l \<Rightarrow> 's \<Rightarrow> 's option\<close>: the label says which thread moves (and, for an idle
  thread, which member function it calls), \<open>None\<close> says that this thread cannot make that move in
  that state. One step is one atomic access to shared memory, so a list of labels is an
  interleaving of the threads, chosen by an arbitrary scheduler. The memory model is sequential
  consistency: the \<open>std::memory_order\<close> arguments of the source are not modelled.

  The theory holds runs and reachable states, the locale of inductive invariants, the locale of
  simulations between two such systems, and small facts on lists that several components share.
\<close>

type_synonym tid = nat

named_theorems step_simps \<open>step functions and the operations they are made of\<close>
named_theorems inv_simps \<open>invariants and the state predicates they are made of\<close>

section \<open>Runs and reachable states\<close>

fun run :: "('l \<Rightarrow> 's \<Rightarrow> 's option) \<Rightarrow> 'l list \<Rightarrow> 's \<Rightarrow> 's option" where
  "run step [] s = Some s"
| "run step (l # ls) s = (case step l s of None \<Rightarrow> None | Some s' \<Rightarrow> run step ls s')"

inductive reachable :: "('l \<Rightarrow> 's \<Rightarrow> 's option) \<Rightarrow> 's \<Rightarrow> 's \<Rightarrow> bool"
  for step :: "'l \<Rightarrow> 's \<Rightarrow> 's option" and init :: 's
where
  start: "reachable step init init"
| move: "reachable step init s \<Longrightarrow> step l s = Some s' \<Longrightarrow> reachable step init s'"

lemma run_append:
  "run step (ls @ ms) s = (case run step ls s of None \<Rightarrow> None | Some s' \<Rightarrow> run step ms s')"
  by (induction ls arbitrary: s) (auto split: option.splits)

lemma run_snoc:
  "run step (ls @ [l]) s = (case run step ls s of None \<Rightarrow> None | Some s' \<Rightarrow> step l s')"
  by (auto simp: run_append split: option.splits)

lemma reachable_run:
  assumes "reachable step init s" and "run step ls s = Some s'"
  shows "reachable step init s'"
  using assms
proof (induction ls arbitrary: s)
  case Nil
  then show ?case by simp
next
  case (Cons l ls)
  then show ?case by (auto split: option.splits intro: reachable.move)
qed

lemma run_reachable: "run step ls init = Some s \<Longrightarrow> reachable step init s"
  by (rule reachable_run [OF reachable.start])

lemma reachable_iff_run: "reachable step init s \<longleftrightarrow> (\<exists>ls. run step ls init = Some s)"
proof
  assume "reachable step init s"
  then show "\<exists>ls. run step ls init = Some s"
  proof (induction rule: reachable.induct)
    case start
    show ?case by (rule exI [of _ "[]"]) simp
  next
    case (move s l s')
    then obtain ls where "run step ls init = Some s" by blast
    with move.hyps(2) have "run step (ls @ [l]) init = Some s'" by (simp add: run_snoc)
    then show ?case by blast
  qed
qed (auto intro: run_reachable)

text \<open>The events a run produces, when each step is labelled with the events it stands for.\<close>

fun trace :: "('l \<Rightarrow> 's \<Rightarrow> 's option) \<Rightarrow> ('s \<Rightarrow> 'l \<Rightarrow> 'e list) \<Rightarrow> 'l list \<Rightarrow> 's \<Rightarrow> 'e list" where
  "trace step ev [] s = []"
| "trace step ev (l # ls) s =
     ev s l @ (case step l s of None \<Rightarrow> [] | Some s' \<Rightarrow> trace step ev ls s')"

lemma trace_append:
  "run step ls s = Some s' \<Longrightarrow> trace step ev (ls @ ms) s = trace step ev ls s @ trace step ev ms s'"
  by (induction ls arbitrary: s) (auto split: option.splits)

text \<open>A system with fewer moves has the same runs and traces, as far as it can move.\<close>

lemma run_restricted:
  assumes "\<And>l s s'. step' l s = Some s' \<Longrightarrow> step l s = Some s'" and "run step' ls s = Some s'"
  shows "run step ls s = Some s' \<and> trace step' ev ls s = trace step ev ls s"
  using assms(2) by (induction ls arbitrary: s) (auto split: option.splits dest: assms(1))

section \<open>Inductive invariants\<close>

locale invariant_system =
  fixes step :: "'l \<Rightarrow> 's \<Rightarrow> 's option"
    and init :: 's
    and inv :: "'s \<Rightarrow> bool"
  assumes inv_init: "inv init"
    and inv_step: "inv s \<Longrightarrow> step l s = Some s' \<Longrightarrow> inv s'"
begin

lemma inv_run: "inv s \<Longrightarrow> run step ls s = Some s' \<Longrightarrow> inv s'"
  by (induction ls arbitrary: s) (auto split: option.splits dest: inv_step)

lemma inv_reachable: "reachable step init s \<Longrightarrow> inv s"
  by (induction rule: reachable.induct) (auto intro: inv_init dest: inv_step)

end

section \<open>Simulations\<close>

text \<open>
  A concrete system implements an abstract one when each concrete step is matched by the abstract
  steps it stands for (its events), the two states staying related.
\<close>

locale simulation = invariant_system step init inv
  for step :: "'l \<Rightarrow> 's \<Rightarrow> 's option" and init :: 's and inv :: "'s \<Rightarrow> bool" +
  fixes astep :: "'e \<Rightarrow> 'a \<Rightarrow> 'a option"
    and ainit :: 'a
    and rel :: "'s \<Rightarrow> 'a \<Rightarrow> bool"
    and ev :: "'s \<Rightarrow> 'l \<Rightarrow> 'e list"
  assumes rel_init: "rel init ainit"
    and rel_step: "inv s \<Longrightarrow> rel s a \<Longrightarrow> step l s = Some s' \<Longrightarrow>
                   \<exists>a'. run astep (ev s l) a = Some a' \<and> rel s' a'"
begin

lemma run_simulated_from:
  assumes "inv s" and "rel s a" and "run step ls s = Some s'"
  shows "\<exists>a'. run astep (trace step ev ls s) a = Some a' \<and> rel s' a'"
  using assms
proof (induction ls arbitrary: s a)
  case Nil
  then show ?case by simp
next
  case (Cons l ls)
  then obtain s1 where s1: "step l s = Some s1" "run step ls s1 = Some s'"
    by (auto split: option.splits)
  obtain a1 where a1: "run astep (ev s l) a = Some a1" "rel s1 a1"
    using rel_step [OF Cons.prems(1,2) s1(1)] by blast
  obtain a' where "run astep (trace step ev ls s1) a1 = Some a'" "rel s' a'"
    using Cons.IH [OF inv_step [OF Cons.prems(1) s1(1)] a1(2) s1(2)] by blast
  with a1 s1 show ?case by (auto simp: run_append)
qed

lemma run_simulated:
  "run step ls init = Some s \<Longrightarrow>
   \<exists>a. run astep (trace step ev ls init) ainit = Some a \<and> rel s a"
  by (rule run_simulated_from [OF inv_init rel_init])

end

text \<open>
  Often the relation to the abstract state already says everything about the concrete one; then it
  is its own invariant.
\<close>

locale forward_simulation =
  fixes step :: "'l \<Rightarrow> 's \<Rightarrow> 's option"
    and init :: 's
    and astep :: "'e \<Rightarrow> 'a \<Rightarrow> 'a option"
    and ainit :: 'a
    and rel :: "'s \<Rightarrow> 'a \<Rightarrow> bool"
    and ev :: "'s \<Rightarrow> 'l \<Rightarrow> 'e list"
  assumes sim_init: "rel init ainit"
    and sim_step: "rel s a \<Longrightarrow> step l s = Some s' \<Longrightarrow>
                   \<exists>a'. run astep (ev s l) a = Some a' \<and> rel s' a'"

sublocale forward_simulation \<subseteq> simulation step init "\<lambda>s. \<exists>a. rel s a" astep ainit rel ev
  by unfold_locales (use sim_init sim_step in blast)+

end
