(* ===== verification/Lock_Spec.thy ===== *)
theory Lock_Spec
  imports QD_Prelude
begin

text \<open>
  The contract of a mutual exclusion lock (the \<open>MLock\<close> template parameter of the delegation
  locks), and the locale every lock of \<open>locks/\<close> is shown to satisfy.

  The abstract lock is the identity of its owner. A lock of the library implements it when every
  run of the lock is, seen through its acquisitions and releases, a run of the abstract lock.
\<close>

section \<open>Calls and moves\<close>

text \<open>
  What a thread does in one step: enter a member function (an idle thread may call \<open>lock\<close>,
  \<open>try_lock\<close> or \<open>try_lock_or_wait\<close>, a thread in its critical section may call \<open>unlock\<close>), perform
  the next atomic access of the function it is in, or return spuriously from a blocking system
  call.
\<close>

datatype lock_act = Lock | TryLock | TryLockOrWait | Unlock | Wake | Go | Intr

section \<open>The abstract lock\<close>

datatype lock_event = Acquire tid | Release tid

fun alock_step :: "lock_event \<Rightarrow> tid option \<Rightarrow> tid option option" where
  "alock_step (Acquire t) None = Some (Some t)"
| "alock_step (Acquire t) (Some u) = None"
| "alock_step (Release t) (Some u) = (if t = u then Some None else None)"
| "alock_step (Release t) None = None"

text \<open>The event of a step, read off the set of owners before and after it.\<close>

definition lock_events ::
  "(tid \<times> lock_act \<Rightarrow> 's \<Rightarrow> 's option) \<Rightarrow> (tid \<Rightarrow> 's \<Rightarrow> bool) \<Rightarrow> 's \<Rightarrow> tid \<times> lock_act \<Rightarrow> lock_event list"
where
  "lock_events step holds s l =
     (case step l s of
        None \<Rightarrow> []
      | Some s' \<Rightarrow>
          if holds (fst l) s' \<and> \<not> holds (fst l) s then [Acquire (fst l)]
          else if holds (fst l) s \<and> \<not> holds (fst l) s' then [Release (fst l)]
          else [])"

definition owner_rel :: "(tid \<Rightarrow> 's \<Rightarrow> bool) \<Rightarrow> 's \<Rightarrow> tid option \<Rightarrow> bool" where
  "owner_rel holds s h \<longleftrightarrow> (\<forall>t. holds t s \<longleftrightarrow> h = Some t)"

text \<open>
  The owner after a step of thread \<open>t\<close>: only \<open>t\<close> can have gained or lost the lock.
\<close>

definition next_owner :: "(tid \<Rightarrow> 's \<Rightarrow> bool) \<Rightarrow> tid \<Rightarrow> 's \<Rightarrow> tid option \<Rightarrow> tid option" where
  "next_owner holds t s' h = (if holds t s' then Some t else if h = Some t then None else h)"

lemma owner_rel_next:
  assumes rel: "owner_rel holds s h"
    and others: "\<And>u. u \<noteq> t \<Longrightarrow> holds u s' = holds u s"
    and free: "holds t s' \<Longrightarrow> h = None \<or> h = Some t"
  shows "owner_rel holds s' (next_owner holds t s' h)"
  unfolding owner_rel_def
proof
  fix u
  show "holds u s' = (next_owner holds t s' h = Some u)"
    using rel others [of u] free by (cases "u = t") (auto simp: owner_rel_def next_owner_def)
qed

lemma owner_rel_unique: "owner_rel holds s h \<Longrightarrow> holds t s \<Longrightarrow> holds u s \<Longrightarrow> t = u"
  by (simp add: owner_rel_def)

lemma owner_rel_SomeD: "owner_rel holds s h \<Longrightarrow> holds t s \<Longrightarrow> h = Some t"
  by (simp add: owner_rel_def)

lemma owner_rel_NoneD: "owner_rel holds s h \<Longrightarrow> \<not> holds t s \<Longrightarrow> h \<noteq> Some t"
  by (auto simp: owner_rel_def)

section \<open>The contract\<close>

text \<open>
  \<open>holds t s\<close>: thread \<open>t\<close> owns the lock. \<open>crit t s\<close>: a locking call of \<open>t\<close> has returned
  successfully and \<open>t\<close> has not called \<open>unlock\<close> since. \<open>locked s\<close>: what \<open>is_locked\<close> returns.
\<close>

locale lock_impl = invariant_system step init inv
  for step :: "tid \<times> lock_act \<Rightarrow> 's \<Rightarrow> 's option" and init :: 's and inv :: "'s \<Rightarrow> bool" +
  fixes holds :: "tid \<Rightarrow> 's \<Rightarrow> bool"
    and crit :: "tid \<Rightarrow> 's \<Rightarrow> bool"
    and locked :: "'s \<Rightarrow> bool"
  assumes init_free: "\<not> holds t init"
    and excl: "inv s \<Longrightarrow> holds t s \<Longrightarrow> holds u s \<Longrightarrow> t = u"
    and frame: "inv s \<Longrightarrow> step (t, a) s = Some s' \<Longrightarrow> u \<noteq> t \<Longrightarrow> holds u s' = holds u s"
    and crit_holds: "crit t s \<Longrightarrow> holds t s"
    and crit_locked: "inv s \<Longrightarrow> crit t s \<Longrightarrow> locked s"
begin

lemma owner_step:
  assumes inv: "inv s" and rel: "owner_rel holds s h" and st: "step l s = Some s'"
  shows "\<exists>h'. run alock_step (lock_events step holds s l) h = Some h' \<and> owner_rel holds s' h'"
proof -
  obtain t a where l: "l = (t, a)" by (cases l)
  note others = frame [OF inv st [unfolded l]]
  have free: "h = None \<or> h = Some t" if "holds t s'"
  proof (cases h)
    case (Some u)
    then have "holds u s" using rel by (simp add: owner_rel_def)
    then show ?thesis using that excl [OF inv_step [OF inv st]] others Some by blast
  qed simp
  have "run alock_step (lock_events step holds s l) h = Some (next_owner holds t s' h)"
    using st l free owner_rel_SomeD [OF rel, of t] owner_rel_NoneD [OF rel, of t]
    by (cases "holds t s"; cases "holds t s'") (auto simp: lock_events_def next_owner_def)
  moreover have "owner_rel holds s' (next_owner holds t s' h)"
    by (rule owner_rel_next [OF rel others free])
  ultimately show ?thesis by blast
qed

lemma mutual_exclusion:
  "reachable step init s \<Longrightarrow> crit t s \<Longrightarrow> crit u s \<Longrightarrow> t = u"
  using inv_reachable excl crit_holds by blast

lemma crit_is_locked: "reachable step init s \<Longrightarrow> crit t s \<Longrightarrow> locked s"
  using inv_reachable crit_locked by blast

end

text \<open>Every lock that satisfies the contract simulates the abstract lock.\<close>

sublocale lock_impl \<subseteq> owner: simulation step init inv alock_step None "owner_rel holds"
  "lock_events step holds"
  by unfold_locales (auto simp: owner_rel_def init_free dest: owner_step)

context lock_impl begin

text \<open>
  Seen through acquisitions and releases, a run is a run of the abstract lock; threads whose locking
  call returned own the lock and see it locked.
\<close>

lemma linearizable:
  assumes r: "run step ls init = Some s"
  shows "\<exists>h. run alock_step (trace step (lock_events step holds) ls init) None = Some h \<and>
             owner_rel holds s h \<and> (\<forall>t. crit t s \<longrightarrow> h = Some t \<and> locked s)"
proof -
  obtain h where h: "run alock_step (trace step (lock_events step holds) ls init) None = Some h"
      "owner_rel holds s h"
    using owner.run_simulated [OF r] by blast
  have "h = Some t \<and> locked s" if "crit t s" for t
    using that owner_rel_SomeD [OF h(2) crit_holds] crit_is_locked [OF run_reachable [OF r]] by blast
  then show ?thesis using h by blast
qed

end

section \<open>Locks without \<open>try_lock_or_wait\<close>\<close>

text \<open>
  \<open>extended_lock\<close> of \<open>qd.hpp\<close> gives a lock that has no \<open>try_lock_or_wait\<close> one that is \<open>try_lock\<close>. It keeps the contract.
\<close>

definition extended_step :: "(tid \<times> lock_act \<Rightarrow> 's \<Rightarrow> 's option) \<Rightarrow> tid \<times> lock_act \<Rightarrow> 's \<Rightarrow> 's option" where
  "extended_step step l = step (fst l, if snd l = TryLockOrWait then TryLock else snd l)"

context lock_impl begin

lemma extended: "lock_impl (extended_step step) init inv holds crit locked"
proof unfold_locales
  show "inv s \<Longrightarrow> extended_step step l s = Some s' \<Longrightarrow> inv s'" for s l s'
    unfolding extended_step_def by (rule inv_step)
  show "inv s \<Longrightarrow> extended_step step (t, a) s = Some s' \<Longrightarrow> u \<noteq> t \<Longrightarrow> holds u s' = holds u s" for s t a s' u
    unfolding extended_step_def fst_conv snd_conv by (rule frame)
qed (use inv_init init_free excl crit_holds crit_locked in auto)

end

end
