(* ===== verification/Tatas_Lock.thy ===== *)
theory Tatas_Lock
  imports Lock_Spec
begin

text \<open>
  The test-and-test-and-set lock of \<open>locks/tatas_lock.hpp\<close>.
\<close>

section \<open>State\<close>

text \<open>
  Where a thread is: outside (\<open>TIdle\<close>), in \<open>try_lock\<close> before its load of \<open>locked\<close> (\<open>TLoad\<close>) or
  before its exchange (\<open>TXchg\<close>), in its critical section (\<open>TCrit\<close>), in \<open>unlock\<close> before its store.
  The flag of \<open>TLoad\<close> and \<open>TXchg\<close> tells a \<open>try_lock\<close> called from the loop of \<open>lock\<close> from one
  called by the user.
\<close>

datatype tatas_pc = TIdle | TLoad bool | TXchg bool | TCrit | TUnlock

record tatas_lock =
  ts_locked :: bool
  ts_pc :: "tid \<Rightarrow> tatas_pc"

definition tatas_init :: tatas_lock where
  "tatas_init = \<lparr>ts_locked = False, ts_pc = (\<lambda>_. TIdle)\<rparr>"

definition tatas_goto :: "tid \<Rightarrow> tatas_pc \<Rightarrow> tatas_lock \<Rightarrow> tatas_lock" where
  "tatas_goto t p s = s\<lparr>ts_pc := (ts_pc s)(t := p)\<rparr>"

section \<open>Operations\<close>

definition tatas_is_locked :: "tatas_lock \<Rightarrow> bool" where
  "tatas_is_locked s = ts_locked s"

text \<open>A failed \<open>try_lock\<close> returns to the user, or to the loop of \<open>lock\<close>, which tries again.\<close>

fun tatas_failed :: "bool \<Rightarrow> tatas_pc" where
  "tatas_failed True = TLoad True"
| "tatas_failed False = TIdle"

fun tatas_try_lock :: "tid \<Rightarrow> tatas_lock \<Rightarrow> tatas_lock option" where
  "tatas_try_lock t s =
     (case ts_pc s t of
        TLoad loop \<Rightarrow>
          Some (tatas_goto t (if tatas_is_locked s then tatas_failed loop else TXchg loop) s)
      | TXchg loop \<Rightarrow>
          Some (tatas_goto t (if ts_locked s then tatas_failed loop else TCrit)
                 (s\<lparr>ts_locked := True\<rparr>))
      | _ \<Rightarrow> None)"

fun tatas_unlock :: "tid \<Rightarrow> tatas_lock \<Rightarrow> tatas_lock option" where
  "tatas_unlock t s =
     (if ts_pc s t = TUnlock then Some (tatas_goto t TIdle (s\<lparr>ts_locked := False\<rparr>)) else None)"

fun tatas_call :: "lock_act \<Rightarrow> tatas_pc \<Rightarrow> tatas_pc option" where
  "tatas_call Lock TIdle = Some (TLoad True)"
| "tatas_call TryLock TIdle = Some (TLoad False)"
| "tatas_call Unlock TCrit = Some TUnlock"
| "tatas_call _ _ = None"

fun tatas_step :: "tid \<times> lock_act \<Rightarrow> tatas_lock \<Rightarrow> tatas_lock option" where
  "tatas_step (t, Go) s =
     (case ts_pc s t of TUnlock \<Rightarrow> tatas_unlock t s | _ \<Rightarrow> tatas_try_lock t s)"
| "tatas_step (t, a) s = map_option (\<lambda>p. tatas_goto t p s) (tatas_call a (ts_pc s t))"

section \<open>Invariant and contract\<close>

definition tatas_crit :: "tid \<Rightarrow> tatas_lock \<Rightarrow> bool" where
  "tatas_crit t s \<longleftrightarrow> ts_pc s t = TCrit"

definition tatas_holds :: "tid \<Rightarrow> tatas_lock \<Rightarrow> bool" where
  "tatas_holds t s \<longleftrightarrow> ts_pc s t \<in> {TCrit, TUnlock}"

text \<open>The flag is set exactly while the lock has an owner, and there is one owner at most.\<close>

definition tatas_inv :: "tatas_lock \<Rightarrow> bool" where
  "tatas_inv s \<longleftrightarrow> (\<exists>h. owner_rel tatas_holds s h \<and> (ts_locked s \<longleftrightarrow> h \<noteq> None))"

lemmas tatas_defs = tatas_holds_def tatas_goto_def tatas_crit_def tatas_is_locked_def

lemma tatas_failed_not_held [simp]: "tatas_failed b \<noteq> TCrit" "tatas_failed b \<noteq> TUnlock"
  by (cases b; simp)+

lemma tatas_call_holds:
  "tatas_call a p = Some p' \<Longrightarrow> (p' \<in> {TCrit, TUnlock}) = (p \<in> {TCrit, TUnlock})"
  by (cases "(a, p)" rule: tatas_call.cases) auto

lemma tatas_invI:
  assumes "owner_rel tatas_holds s h" and "ts_locked s \<longleftrightarrow> h \<noteq> None"
    and "\<And>u. u \<noteq> t \<Longrightarrow> ts_pc s' u = ts_pc s u"
    and "tatas_holds t s' \<Longrightarrow> h = None \<or> h = Some t"
    and "ts_locked s' \<longleftrightarrow> next_owner tatas_holds t s' h \<noteq> None"
  shows "tatas_inv s'"
  unfolding tatas_inv_def
  using owner_rel_next [OF assms(1), of t s'] assms by (auto simp: tatas_holds_def)

lemma tatas_goto_inv:
  assumes "tatas_inv s" and "p \<in> {TCrit, TUnlock} \<longleftrightarrow> tatas_holds t s"
  shows "tatas_inv (tatas_goto t p s)"
proof -
  have "tatas_holds u (tatas_goto t p s) = tatas_holds u s" for u
    using assms(2) by (auto simp: tatas_defs)
  then show ?thesis using assms(1) by (simp add: tatas_inv_def owner_rel_def tatas_goto_def)
qed

lemma tatas_try_lock_inv:
  assumes inv: "tatas_inv s" and st: "tatas_try_lock t s = Some s'"
  shows "tatas_inv s'"
proof (cases "ts_pc s t")
  case (TLoad loop)
  then have "tatas_goto t (if tatas_is_locked s then tatas_failed loop else TXchg loop) s = s'"
    using st by simp
  then show ?thesis using TLoad inv
    by (auto simp: tatas_holds_def intro!: tatas_goto_inv split: if_splits)
next
  case (TXchg loop)
  from inv obtain h where h: "owner_rel tatas_holds s h" "ts_locked s \<longleftrightarrow> h \<noteq> None"
    by (auto simp: tatas_inv_def)
  show ?thesis
    by (rule tatas_invI [OF h, of t])
      (use h TXchg st owner_rel_NoneD [OF h(1), of t] in \<open>auto simp: tatas_defs next_owner_def\<close>)
qed (use st in auto)

lemma tatas_unlock_inv:
  assumes inv: "tatas_inv s" and st: "tatas_unlock t s = Some s'"
  shows "tatas_inv s'"
proof -
  from inv obtain h where h: "owner_rel tatas_holds s h" "ts_locked s \<longleftrightarrow> h \<noteq> None"
    by (auto simp: tatas_inv_def)
  show ?thesis
    by (rule tatas_invI [OF h, of t])
      (use h st owner_rel_SomeD [OF h(1), of t] in \<open>auto simp: tatas_defs next_owner_def split: if_splits\<close>)
qed

lemma tatas_step_inv:
  assumes "tatas_inv s" and "tatas_step l s = Some s'"
  shows "tatas_inv s'"
proof (cases "(l, s)" rule: tatas_step.cases)
  case (1 t s0)
  with assms show ?thesis
    by (auto split: tatas_pc.splits simp del: tatas_try_lock.simps tatas_unlock.simps
        dest: tatas_try_lock_inv tatas_unlock_inv)
qed (use assms in \<open>auto intro!: tatas_goto_inv dest: tatas_call_holds simp: tatas_holds_def\<close>)

lemma tatas_step_frame:
  "tatas_step (t, a) s = Some s' \<Longrightarrow> u \<noteq> t \<Longrightarrow> ts_pc s' u = ts_pc s u"
  by (cases a) (auto simp: tatas_goto_def split: tatas_pc.splits if_splits)

interpretation tatas: lock_impl tatas_step tatas_init tatas_inv tatas_holds tatas_crit tatas_is_locked
proof unfold_locales
  show "tatas_inv tatas_init" by (simp add: tatas_inv_def owner_rel_def tatas_defs tatas_init_def)
  show "\<And>s l s'. tatas_inv s \<Longrightarrow> tatas_step l s = Some s' \<Longrightarrow> tatas_inv s'"
    by (rule tatas_step_inv)
  show "\<And>s t a s' u. tatas_inv s \<Longrightarrow> tatas_step (t, a) s = Some s' \<Longrightarrow> u \<noteq> t \<Longrightarrow>
      tatas_holds u s' = tatas_holds u s"
    by (simp add: tatas_holds_def tatas_step_frame)
  show "\<And>s t u. tatas_inv s \<Longrightarrow> tatas_holds t s \<Longrightarrow> tatas_holds u s \<Longrightarrow> t = u"
    by (auto simp: tatas_inv_def dest: owner_rel_unique)
  show "\<And>s t. tatas_inv s \<Longrightarrow> tatas_crit t s \<Longrightarrow> tatas_is_locked s"
    by (auto simp: tatas_inv_def tatas_crit_def tatas_is_locked_def owner_rel_def tatas_holds_def)
qed (auto simp: tatas_defs tatas_init_def)

interpretation extended_tatas: lock_impl "extended_step tatas_step" tatas_init tatas_inv tatas_holds tatas_crit tatas_is_locked
  by (rule tatas.extended)

text \<open>
  The test-and-test-and-set lock is a lock: in every run, whatever the schedule, acquisitions
  and releases alternate with a single owner, two threads are never both past a successful
  locking call, and \<open>is_locked\<close> returns true while one is.
\<close>
theorem tatas_correct:
  assumes "run tatas_step ls tatas_init = Some s"
  shows "\<exists>h. run alock_step (trace tatas_step (lock_events tatas_step tatas_holds) ls tatas_init) None = Some h
             \<and> owner_rel tatas_holds s h \<and> (\<forall>t. tatas_crit t s \<longrightarrow> h = Some t \<and> tatas_is_locked s)"
  by (rule tatas.linearizable [OF assms])

text \<open>
  A schedule in which thread 1 finds the lock free, thread 0 takes it first, and thread 1's
  exchange fails.
\<close>
theorem tatas_correct_witness:
  "\<exists>s h. run tatas_step [(0, Lock), (1, TryLock), (1, Go), (0, Go), (0, Go), (1, Go)] tatas_init = Some s
         \<and> h = Some 0 \<and> owner_rel tatas_holds s h"
proof -
  let ?ls = "[(0, Lock), (1, TryLock), (1, Go), (0, Go), (0, Go), (1, Go)]"
  obtain s where s: "run tatas_step ?ls tatas_init = Some s" "tatas_crit 0 s"
    by (simp add: tatas_defs tatas_init_def)
  from tatas_correct [OF s(1)] s show ?thesis by blast
qed

end
