(* ===== verification/Futex.thy ===== *)
theory Futex
  imports QD_Prelude
begin

text \<open>
  The futex system call, as the locks of \<open>locks/\<close> use it through their wrapper \<open>sys_futex\<close>.

  The kernel is not part of the repository: it is a parameter of the models, a record of
  operations on an opaque kernel state. \<open>futex_ok\<close> states the documented behaviour of
  \<open>FUTEX_WAIT\<close> and \<open>FUTEX_WAKE\<close> that the locks rely on, and \<open>list_kernel\<close> is a concrete kernel
  that has it, for the witnesses.
\<close>

section \<open>The interface\<close>

text \<open>
  \<open>k_wait t a cur exp\<close>: thread \<open>t\<close> calls \<open>FUTEX_WAIT\<close> on address \<open>a\<close>, whose word is \<open>cur\<close> at that
  moment, with expected value \<open>exp\<close>. \<open>k_wake a n\<close>: \<open>FUTEX_WAKE\<close> of at most \<open>n\<close> threads, with the
  number woken. \<open>k_intr t\<close>: the wait of \<open>t\<close> ends without a wake (a signal). \<open>k_blocked k a t\<close>:
  thread \<open>t\<close> sleeps on address \<open>a\<close>.
\<close>

record ('a, 'k) futex_kernel =
  k_init :: 'k
  k_wait :: "tid \<Rightarrow> 'a \<Rightarrow> int \<Rightarrow> int \<Rightarrow> 'k \<Rightarrow> 'k"
  k_wake :: "'a \<Rightarrow> nat \<Rightarrow> 'k \<Rightarrow> nat \<times> 'k"
  k_intr :: "tid \<Rightarrow> 'k \<Rightarrow> 'k"
  k_blocked :: "'k \<Rightarrow> 'a \<Rightarrow> tid \<Rightarrow> bool"

text \<open>
  A wait puts the caller to sleep exactly when the word still has the expected value. A wake wakes
  sleepers on its address only, at most as many as asked for; it reports their number: when that is
  less than asked for, none is left, and when it is not zero, a sleeper was woken.
\<close>

definition futex_wait_ok :: "('a, 'k) futex_kernel \<Rightarrow> bool" where
  "futex_wait_ok K \<longleftrightarrow>
     (\<forall>t a cur expected k b u.
        k_blocked K (k_wait K t a cur expected k) b u \<longleftrightarrow>
        k_blocked K k b u \<or> (cur = expected \<and> b = a \<and> u = t))"

definition futex_wake_ok :: "('a, 'k) futex_kernel \<Rightarrow> bool" where
  "futex_wake_ok K \<longleftrightarrow>
     (\<forall>a n k. fst (k_wake K a n k) \<le> n \<and>
        (\<forall>b u. k_blocked K (snd (k_wake K a n k)) b u \<longrightarrow> k_blocked K k b u) \<and>
        (\<forall>b u. b \<noteq> a \<longrightarrow> k_blocked K (snd (k_wake K a n k)) b u = k_blocked K k b u) \<and>
        (fst (k_wake K a n k) < n \<longrightarrow> (\<forall>u. \<not> k_blocked K (snd (k_wake K a n k)) a u)) \<and>
        (0 < fst (k_wake K a n k) \<longrightarrow> (\<exists>u. k_blocked K k a u \<and> \<not> k_blocked K (snd (k_wake K a n k)) a u)))"

definition futex_intr_ok :: "('a, 'k) futex_kernel \<Rightarrow> bool" where
  "futex_intr_ok K \<longleftrightarrow>
     (\<forall>t k b u. k_blocked K (k_intr K t k) b u \<longleftrightarrow> k_blocked K k b u \<and> u \<noteq> t)"

definition futex_ok :: "('a, 'k) futex_kernel \<Rightarrow> bool" where
  "futex_ok K \<longleftrightarrow> (\<forall>b u. \<not> k_blocked K (k_init K) b u) \<and>
     futex_wait_ok K \<and> futex_wake_ok K \<and> futex_intr_ok K"

lemma futex_okD:
  assumes "futex_ok K"
  shows futex_init_blocked: "\<not> k_blocked K (k_init K) b u"
    and futex_wait_blocked: "k_blocked K (k_wait K t a cur expected k) b u \<longleftrightarrow>
          k_blocked K k b u \<or> (cur = expected \<and> b = a \<and> u = t)"
    and futex_intr_blocked: "k_blocked K (k_intr K t k) b u \<longleftrightarrow> k_blocked K k b u \<and> u \<noteq> t"
    and futex_wake_count: "k_wake K a n k = (w, k') \<Longrightarrow> w \<le> n"
    and futex_wake_blocked: "k_wake K a n k = (w, k') \<Longrightarrow> k_blocked K k' b u \<Longrightarrow> k_blocked K k b u"
    and futex_wake_other: "k_wake K a n k = (w, k') \<Longrightarrow> b \<noteq> a \<Longrightarrow> k_blocked K k' b u = k_blocked K k b u"
    and futex_wake_all: "k_wake K a n k = (w, k') \<Longrightarrow> w < n \<Longrightarrow> \<not> k_blocked K k' a u"
    and futex_wake_some: "k_wake K a n k = (w, k') \<Longrightarrow> 0 < w \<Longrightarrow> \<exists>u. k_blocked K k a u \<and> \<not> k_blocked K k' a u"
proof -
  show "\<not> k_blocked K (k_init K) b u" using assms by (simp add: futex_ok_def)
  show "k_blocked K (k_wait K t a cur expected k) b u \<longleftrightarrow>
      k_blocked K k b u \<or> (cur = expected \<and> b = a \<and> u = t)"
    using assms by (simp add: futex_ok_def futex_wait_ok_def)
  show "k_blocked K (k_intr K t k) b u \<longleftrightarrow> k_blocked K k b u \<and> u \<noteq> t"
    using assms by (simp add: futex_ok_def futex_intr_ok_def)
  have wake: "futex_wake_ok K" using assms by (simp add: futex_ok_def)
  show "w \<le> n" if "k_wake K a n k = (w, k')"
    using wake [unfolded futex_wake_ok_def, rule_format, of a n k] that by simp
  show "k_blocked K k b u" if "k_wake K a n k = (w, k')" "k_blocked K k' b u"
    using wake [unfolded futex_wake_ok_def, rule_format, of a n k] that by simp
  show "k_blocked K k' b u = k_blocked K k b u" if "k_wake K a n k = (w, k')" "b \<noteq> a"
    using wake [unfolded futex_wake_ok_def, rule_format, of a n k] that by simp
  show "\<not> k_blocked K k' a u" if "k_wake K a n k = (w, k')" "w < n"
    using wake [unfolded futex_wake_ok_def, rule_format, of a n k] that by simp
  show "\<exists>u. k_blocked K k a u \<and> \<not> k_blocked K k' a u" if "k_wake K a n k = (w, k')" "0 < w"
    using wake [unfolded futex_wake_ok_def, rule_format, of a n k] that by simp
qed

section \<open>A kernel with a list of sleepers\<close>

text \<open>Sleepers are kept in the order of their waits, and a wake takes them from the front.\<close>

function take_sleepers :: "'a \<Rightarrow> nat \<Rightarrow> ('a \<times> tid) list \<Rightarrow> nat \<times> ('a \<times> tid) list" where
  "take_sleepers a n [] = (0, [])"
| "take_sleepers a n ((b, t) # k) =
     (if b = a \<and> 0 < n then (let (w, k') = take_sleepers a (n - 1) (filter (\<lambda>x. x \<noteq> (b, t)) k) in (Suc w, k'))
      else (let (w, k') = take_sleepers a n k in (w, (b, t) # k')))"
  by pat_completeness auto
termination
  by (relation "measure (\<lambda>(a, n, k). length k)") (auto simp: le_imp_less_Suc)

definition list_kernel :: "('a, ('a \<times> tid) list) futex_kernel" where
  "list_kernel =
     \<lparr>k_init = [],
      k_wait = (\<lambda>t a cur expected k. if cur = expected then k @ [(a, t)] else k),
      k_wake = take_sleepers,
      k_intr = (\<lambda>t k. filter (\<lambda>(b, u). u \<noteq> t) k),
      k_blocked = (\<lambda>k a t. (a, t) \<in> set k)\<rparr>"

lemma take_sleepers_count: "fst (take_sleepers a n k) \<le> n"
  by (induction a n k rule: take_sleepers.induct) (auto simp: case_prod_beta)

lemma take_sleepers_subset: "set (snd (take_sleepers a n k)) \<subseteq> set k"
  by (induction a n k rule: take_sleepers.induct) (auto simp: case_prod_beta split: if_splits)

lemma take_sleepers_other:
  "b \<noteq> a \<Longrightarrow> (b, u) \<in> set (snd (take_sleepers a n k)) \<longleftrightarrow> (b, u) \<in> set k"
  by (induction a n k rule: take_sleepers.induct) (auto simp: case_prod_beta)

lemma take_sleepers_all:
  "fst (take_sleepers a n k) < n \<Longrightarrow> (a, u) \<notin> set (snd (take_sleepers a n k))"
  by (induction a n k rule: take_sleepers.induct) (auto simp: case_prod_beta split: if_splits)

lemma take_sleepers_some:
  "0 < fst (take_sleepers a n k) \<Longrightarrow> \<exists>u. (a, u) \<in> set k \<and> (a, u) \<notin> set (snd (take_sleepers a n k))"
proof (induction a n k rule: take_sleepers.induct)
  case (2 a n b t k)
  show ?case
  proof (cases "b = a \<and> 0 < n")
    case True
    have "(a, t) \<notin> set (snd (take_sleepers a (n - 1) (filter (\<lambda>x. x \<noteq> (a, t)) k)))"
      using take_sleepers_subset [of a "n - 1" "filter (\<lambda>x. x \<noteq> (a, t)) k"] by auto
    then show ?thesis using True by (intro exI [of _ t]) (auto simp: case_prod_beta)
  next
    case False
    have "0 < fst (take_sleepers a n k)" using "2.prems" False by (auto simp: case_prod_beta split: if_splits)
    then obtain u where u: "(a, u) \<in> set k" "(a, u) \<notin> set (snd (take_sleepers a n k))" using "2.IH"(2) [OF False] by blast
    then have "(a, u) \<noteq> (b, t) \<or> n = 0" using False by auto
    moreover have "n \<noteq> 0" using \<open>0 < fst (take_sleepers a n k)\<close> take_sleepers_count [of a n k] by simp
    ultimately show ?thesis using u False by (intro exI [of _ u]) (auto simp: case_prod_beta)
  qed
qed simp

lemma list_kernel_ok: "futex_ok list_kernel"
proof -
  have "futex_wake_ok list_kernel"
    using take_sleepers_count
    by (auto simp: futex_wake_ok_def list_kernel_def take_sleepers_other take_sleepers_all
        intro: take_sleepers_subset [THEN subsetD] dest: take_sleepers_some)
  then show ?thesis
    by (auto simp: futex_ok_def futex_wait_ok_def futex_intr_ok_def list_kernel_def)
qed

text \<open>\<open>WAKE_AT_ONCE\<close> of the \<open>notify_all\<close> functions.\<close>

definition wake_at_once :: nat where
  "wake_at_once = 32768"

end
