(* ===== verification/Futex_Lock.thy ===== *)
theory Futex_Lock
  imports Lock_Spec Futex
begin

text \<open>
  The futex lock of \<open>locks/futex_lock.hpp\<close>: one word with the states free, taken and contended, on
  which threads sleep in the kernel. The kernel is the parameter \<open>K\<close> of the model.
\<close>

section \<open>State\<close>

datatype fx_field = Free | Taken | Contended

text \<open>The enumeration's values, as the kernel sees the word.\<close>

fun fx_val :: "fx_field \<Rightarrow> int" where
  "fx_val Free = 0"
| "fx_val Taken = 1"
| "fx_val Contended = 2"

text \<open>
  Where a thread is, one constructor per atomic access: in \<open>lock\<close> before the compare-exchange, an
  exchange, the wait system call or asleep in it; the same for \<open>try_lock\<close> and
  \<open>try_lock_or_wait\<close>; in the critical section; in \<open>unlock\<close> before its exchange or in the loop of
  \<open>notify_all\<close>.
\<close>

datatype fx_pc = FxIdle
  | FxLockCas | FxLockXchg | FxLockWait | FxLockSleep
  | FxTryLoad | FxTryCas
  | FxTlwLoad | FxTlwCas | FxTlwXchg | FxTlwWait | FxTlwSleep
  | FxCrit | FxUnlXchg | FxNotify

record 'k futex_lock =
  fx_locked :: fx_field
  fx_pc :: "tid \<Rightarrow> fx_pc"
  fx_kernel :: 'k

definition futex_init :: "(unit, 'k) futex_kernel \<Rightarrow> 'k futex_lock" where
  "futex_init K = \<lparr>fx_locked = Free, fx_pc = (\<lambda>_. FxIdle), fx_kernel = k_init K\<rparr>"

definition fx_goto :: "tid \<Rightarrow> fx_pc \<Rightarrow> 'k futex_lock \<Rightarrow> 'k futex_lock" where
  "fx_goto t p s = s\<lparr>fx_pc := (fx_pc s)(t := p)\<rparr>"

definition fx_asleep :: "(unit, 'k) futex_kernel \<Rightarrow> 'k futex_lock \<Rightarrow> tid \<Rightarrow> bool" where
  "fx_asleep K s t = k_blocked K (fx_kernel s) () t"

section \<open>Operations\<close>

text \<open>\<open>wait\<close>: the kernel compares the word with \<open>contended\<close> and puts the thread to sleep.\<close>

definition fx_wait :: "(unit, 'k) futex_kernel \<Rightarrow> tid \<Rightarrow> 'k futex_lock \<Rightarrow> 'k futex_lock" where
  "fx_wait K t s =
     s\<lparr>fx_kernel := k_wait K t () (fx_val (fx_locked s)) (fx_val Contended) (fx_kernel s)\<rparr>"

definition fx_lock :: "(unit, 'k) futex_kernel \<Rightarrow> tid \<Rightarrow> 'k futex_lock \<Rightarrow> 'k futex_lock option" where
  "fx_lock K t s =
     (case fx_pc s t of
        FxLockCas \<Rightarrow>
          Some (if fx_locked s = Free then fx_goto t FxCrit (s\<lparr>fx_locked := Taken\<rparr>)
                else if fx_locked s \<noteq> Contended then fx_goto t FxLockXchg s
                else fx_goto t FxLockWait s)
      | FxLockXchg \<Rightarrow>
          Some (fx_goto t (if fx_locked s \<noteq> Free then FxLockWait else FxCrit)
                 (s\<lparr>fx_locked := Contended\<rparr>))
      | FxLockWait \<Rightarrow> Some (fx_goto t FxLockSleep (fx_wait K t s))
      | FxLockSleep \<Rightarrow> (if fx_asleep K s t then None else Some (fx_goto t FxLockXchg s))
      | _ \<Rightarrow> None)"

definition fx_is_locked :: "'k futex_lock \<Rightarrow> bool" where
  "fx_is_locked s \<longleftrightarrow> fx_locked s \<noteq> Free"

definition fx_try_lock :: "tid \<Rightarrow> 'k futex_lock \<Rightarrow> 'k futex_lock option" where
  "fx_try_lock t s =
     (case fx_pc s t of
        FxTryLoad \<Rightarrow> Some (fx_goto t (if fx_is_locked s then FxIdle else FxTryCas) s)
      | FxTryCas \<Rightarrow>
          Some (if fx_locked s = Free then fx_goto t FxCrit (s\<lparr>fx_locked := Taken\<rparr>)
                else fx_goto t FxIdle s)
      | _ \<Rightarrow> None)"

definition fx_try_lock_or_wait :: "(unit, 'k) futex_kernel \<Rightarrow> tid \<Rightarrow> 'k futex_lock \<Rightarrow> 'k futex_lock option" where
  "fx_try_lock_or_wait K t s =
     (case fx_pc s t of
        FxTlwLoad \<Rightarrow>
          Some (if fx_locked s = Free then fx_goto t FxTlwCas s
                else if fx_locked s \<noteq> Contended then fx_goto t FxTlwXchg s
                else fx_goto t FxTlwWait s)
      | FxTlwCas \<Rightarrow>
          Some (if fx_locked s = Free then fx_goto t FxCrit (s\<lparr>fx_locked := Taken\<rparr>)
                else if fx_locked s \<noteq> Contended then fx_goto t FxTlwXchg s
                else fx_goto t FxTlwWait s)
      | FxTlwXchg \<Rightarrow>
          Some (fx_goto t (if fx_locked s = Free then FxCrit else FxTlwWait)
                 (s\<lparr>fx_locked := Contended\<rparr>))
      | FxTlwWait \<Rightarrow> Some (fx_goto t FxTlwSleep (fx_wait K t s))
      | FxTlwSleep \<Rightarrow> (if fx_asleep K s t then None else Some (fx_goto t FxIdle s))
      | _ \<Rightarrow> None)"

text \<open>\<open>notify_all\<close> repeats the wake call for as long as it wakes \<open>WAKE_AT_ONCE\<close> threads.\<close>

definition fx_notify_all :: "(unit, 'k) futex_kernel \<Rightarrow> tid \<Rightarrow> 'k futex_lock \<Rightarrow> 'k futex_lock option" where
  "fx_notify_all K t s =
     (if fx_pc s t = FxNotify
      then (let (woken, k) = k_wake K () wake_at_once (fx_kernel s) in
            Some (fx_goto t (if woken = wake_at_once then FxNotify else FxIdle) (s\<lparr>fx_kernel := k\<rparr>)))
      else None)"

definition fx_unlock :: "tid \<Rightarrow> 'k futex_lock \<Rightarrow> 'k futex_lock option" where
  "fx_unlock t s =
     (if fx_pc s t = FxUnlXchg
      then Some (fx_goto t (if fx_locked s = Contended then FxNotify else FxIdle)
                  (s\<lparr>fx_locked := Free\<rparr>))
      else None)"

fun fx_call :: "lock_act \<Rightarrow> fx_pc \<Rightarrow> fx_pc option" where
  "fx_call Lock FxIdle = Some FxLockCas"
| "fx_call TryLock FxIdle = Some FxTryLoad"
| "fx_call TryLockOrWait FxIdle = Some FxTlwLoad"
| "fx_call Unlock FxCrit = Some FxUnlXchg"
| "fx_call _ _ = None"

definition fx_go :: "(unit, 'k) futex_kernel \<Rightarrow> tid \<Rightarrow> 'k futex_lock \<Rightarrow> 'k futex_lock option" where
  "fx_go K t s =
     (if fx_pc s t \<in> {FxTryLoad, FxTryCas} then fx_try_lock t s
      else if fx_pc s t = FxUnlXchg then fx_unlock t s
      else if fx_pc s t = FxNotify then fx_notify_all K t s
      else if fx_pc s t \<in> {FxTlwLoad, FxTlwCas, FxTlwXchg, FxTlwWait, FxTlwSleep}
      then fx_try_lock_or_wait K t s
      else fx_lock K t s)"

fun futex_step :: "(unit, 'k) futex_kernel \<Rightarrow> tid \<times> lock_act \<Rightarrow> 'k futex_lock \<Rightarrow> 'k futex_lock option" where
  "futex_step K (t, Go) s = fx_go K t s"
| "futex_step K (t, Intr) s = Some (s\<lparr>fx_kernel := k_intr K t (fx_kernel s)\<rparr>)"
| "futex_step K (t, a) s = map_option (\<lambda>p. fx_goto t p s) (fx_call a (fx_pc s t))"

lemmas fx_ops = fx_lock_def fx_try_lock_def fx_try_lock_or_wait_def fx_unlock_def fx_notify_all_def
  fx_wait_def fx_goto_def fx_is_locked_def

section \<open>Invariant\<close>

definition fx_crit :: "tid \<Rightarrow> 'k futex_lock \<Rightarrow> bool" where
  "fx_crit t s \<longleftrightarrow> fx_pc s t = FxCrit"

definition fx_holds :: "tid \<Rightarrow> 'k futex_lock \<Rightarrow> bool" where
  "fx_holds t s \<longleftrightarrow> fx_pc s t \<in> {FxCrit, FxUnlXchg}"

text \<open>The word is free exactly while nobody owns the lock.\<close>

definition fx_owner_inv :: "tid option \<Rightarrow> 'k futex_lock \<Rightarrow> bool" where
  "fx_owner_inv h s \<longleftrightarrow> owner_rel fx_holds s h \<and> (fx_locked s \<noteq> Free \<longleftrightarrow> h \<noteq> None)"

text \<open>
  Only threads inside a wait sleep, and while one sleeps the word is contended, so that the owner
  will wake it, or a thread that released the lock is about to.
\<close>

definition fx_sleep_inv :: "(unit, 'k) futex_kernel \<Rightarrow> 'k futex_lock \<Rightarrow> bool" where
  "fx_sleep_inv K s \<longleftrightarrow>
     (\<forall>t. fx_asleep K s t \<longrightarrow> fx_pc s t \<in> {FxLockSleep, FxTlwSleep}) \<and>
     ((\<exists>t. fx_asleep K s t) \<longrightarrow> fx_locked s = Contended \<or> (\<exists>u. fx_pc s u = FxNotify))"

definition futex_inv :: "(unit, 'k) futex_kernel \<Rightarrow> 'k futex_lock \<Rightarrow> bool" where
  "futex_inv K s \<longleftrightarrow> (\<exists>h. fx_owner_inv h s) \<and> fx_sleep_inv K s"

lemma fx_val_Contended [simp]: "fx_val x = 2 \<longleftrightarrow> x = Contended"
  by (cases x) auto

lemma fx_go_frame: "fx_go K t s = Some s' \<Longrightarrow> u \<noteq> t \<Longrightarrow> fx_pc s' u = fx_pc s u"
  by (auto simp: fx_go_def fx_ops split: fx_pc.splits if_splits prod.splits)

lemma futex_step_frame: "futex_step K (t, a) s = Some s' \<Longrightarrow> u \<noteq> t \<Longrightarrow> fx_pc s' u = fx_pc s u"
  by (cases a) (auto simp: fx_goto_def dest: fx_go_frame)

lemma fx_call_pcs:
  "fx_call a p = Some p' \<Longrightarrow>
   (p' \<in> {FxCrit, FxUnlXchg}) = (p \<in> {FxCrit, FxUnlXchg}) \<and>
   p \<notin> {FxLockSleep, FxTlwSleep, FxNotify}"
  by (cases "(a, p)" rule: fx_call.cases) auto

lemma fx_owner_invI:
  fixes s s' :: "'k futex_lock"
  assumes "fx_owner_inv h s"
    and "\<And>u. u \<noteq> t \<Longrightarrow> fx_pc s' u = fx_pc s u"
    and "fx_holds t s' \<Longrightarrow> h = None \<or> h = Some t"
    and "fx_locked s' \<noteq> Free \<longleftrightarrow> next_owner fx_holds t s' h \<noteq> None"
  shows "\<exists>h'. fx_owner_inv h' s'"
  using owner_rel_next [of fx_holds s h t s'] assms by (auto simp: fx_owner_inv_def fx_holds_def)

lemma fx_go_owner:
  assumes inv: "fx_owner_inv h s" and st: "fx_go K t s = Some s'"
  shows "\<exists>h'. fx_owner_inv h' s'"
proof -
  have free: "fx_locked s = Free \<longleftrightarrow> h = None" and hold: "fx_holds t s \<longleftrightarrow> h = Some t"
    using inv by (auto simp: fx_owner_inv_def owner_rel_def)
  have new: "fx_holds t s' \<Longrightarrow> h = None \<or> h = Some t"
    and word: "fx_locked s' \<noteq> Free \<longleftrightarrow> next_owner fx_holds t s' h \<noteq> None"
    using st free hold
    by (cases "fx_pc s t";
        auto simp: fx_go_def fx_ops fx_holds_def next_owner_def split: if_splits prod.splits)+
  show ?thesis
    by (rule fx_owner_invI [OF inv fx_go_frame [OF st] new word])
qed

lemma fx_go_sleep:
  assumes K: "futex_ok K" and inv: "fx_sleep_inv K s" and st: "fx_go K t s = Some s'"
  shows "fx_sleep_inv K s'"
proof -
  have asleep: "fx_pc s u \<in> {FxLockSleep, FxTlwSleep}" if "fx_asleep K s u" for u
    using inv that by (auto simp: fx_sleep_inv_def)
  have sleepers: "fx_asleep K s' u \<Longrightarrow>
      fx_asleep K s u \<and> u \<noteq> t \<or> u = t \<and> fx_pc s' t \<in> {FxLockSleep, FxTlwSleep} \<and> fx_locked s' = Contended" for u
    using st asleep [of u]
    by (cases "fx_pc s t")
      (auto simp: fx_go_def fx_ops fx_asleep_def futex_wait_blocked [OF K]
        dest: futex_wake_blocked [OF K] split: if_splits prod.splits)
  have waker: "fx_locked s' = Contended \<or> (\<exists>u. fx_pc s' u = FxNotify)"
    if "fx_asleep K s' u" "fx_asleep K s u" for u
  proof -
    from that(2) inv consider "fx_locked s = Contended" | v where "fx_pc s v = FxNotify"
      by (auto simp: fx_sleep_inv_def)
    then show ?thesis
    proof cases
      case 1
      then show ?thesis using st fx_go_frame [OF st]
        by (cases "fx_pc s t")
          (auto simp: fx_go_def fx_ops split: if_splits prod.splits)
    next
      case 2
      show ?thesis
      proof (cases "v = t")
        case False
        then show ?thesis using fx_go_frame [OF st, of v] 2 by auto
      next
        case True
        obtain w k where wk: "k_wake K () wake_at_once (fx_kernel s) = (w, k)" by fastforce
        have "w \<le> wake_at_once" by (rule futex_wake_count [OF K wk])
        moreover have "\<not> k_blocked K k () u" if "w < wake_at_once"
          by (rule futex_wake_all [OF K wk that])
        ultimately show ?thesis using st 2 that(1) True wk
          by (auto simp: fx_go_def fx_ops fx_asleep_def split: if_splits)
      qed
    qed
  qed
  show ?thesis unfolding fx_sleep_inv_def
  proof (intro conjI allI impI)
    fix u
    assume "fx_asleep K s' u"
    then show "fx_pc s' u \<in> {FxLockSleep, FxTlwSleep}"
      using sleepers [of u] asleep [of u] fx_go_frame [OF st, of u] by auto
  next
    assume "\<exists>u. fx_asleep K s' u"
    then obtain u where "fx_asleep K s' u" by blast
    then show "fx_locked s' = Contended \<or> (\<exists>u. fx_pc s' u = FxNotify)"
      using sleepers [of u] waker [of u] by auto
  qed
qed

lemma fx_call_inv:
  assumes inv: "futex_inv K s" and call: "fx_call a (fx_pc s t) = Some p"
  shows "futex_inv K (fx_goto t p s)"
proof -
  note pcs = fx_call_pcs [OF call]
  obtain h where h: "fx_owner_inv h s" using inv by (auto simp: futex_inv_def)
  have "fx_holds u (fx_goto t p s) = fx_holds u s" for u
    using pcs by (auto simp: fx_holds_def fx_goto_def)
  then have "fx_owner_inv h (fx_goto t p s)"
    using h by (simp add: fx_owner_inv_def owner_rel_def fx_goto_def)
  moreover have "fx_sleep_inv K (fx_goto t p s)"
    using inv pcs
    unfolding futex_inv_def fx_sleep_inv_def fx_asleep_def fx_goto_def by auto
  ultimately show ?thesis by (auto simp: futex_inv_def)
qed

lemma fx_intr_inv:
  assumes K: "futex_ok K" and inv: "futex_inv K s"
  shows "futex_inv K (s\<lparr>fx_kernel := k_intr K t (fx_kernel s)\<rparr>)"
  using inv
  by (auto simp: futex_inv_def fx_owner_inv_def owner_rel_def fx_holds_def fx_sleep_inv_def
      fx_asleep_def futex_intr_blocked [OF K])

lemma futex_step_inv:
  assumes K: "futex_ok K" and inv: "futex_inv K s" and st: "futex_step K l s = Some s'"
  shows "futex_inv K s'"
proof (cases "(K, l, s)" rule: futex_step.cases)
  case (1 K0 t s0)
  with st have "fx_go K t s = Some s'" by simp
  with inv show ?thesis
    unfolding futex_inv_def by (blast intro: fx_go_owner fx_go_sleep [OF K])
next
  case (2 K0 t s0)
  with st inv K show ?thesis by (auto intro: fx_intr_inv)
qed (use st inv in \<open>auto intro: fx_call_inv\<close>)

lemma futex_inv_init: "futex_ok K \<Longrightarrow> futex_inv K (futex_init K)"
  by (auto simp: futex_inv_def fx_owner_inv_def owner_rel_def fx_holds_def fx_sleep_inv_def
      fx_asleep_def futex_init_def futex_init_blocked)

lemma futex_lock_impl:
  assumes K: "futex_ok K"
  shows "lock_impl (futex_step K) (futex_init K) (futex_inv K) fx_holds fx_crit fx_is_locked"
proof unfold_locales
  show "futex_inv K (futex_init K)" by (rule futex_inv_init [OF K])
  show "\<And>s l s'. futex_inv K s \<Longrightarrow> futex_step K l s = Some s' \<Longrightarrow> futex_inv K s'"
    by (rule futex_step_inv [OF K])
  show "\<And>s t a s' u. futex_inv K s \<Longrightarrow> futex_step K (t, a) s = Some s' \<Longrightarrow> u \<noteq> t \<Longrightarrow>
      fx_holds u s' = fx_holds u s"
    by (simp add: fx_holds_def futex_step_frame)
  show "\<And>s t u. futex_inv K s \<Longrightarrow> fx_holds t s \<Longrightarrow> fx_holds u s \<Longrightarrow> t = u"
    by (auto simp: futex_inv_def fx_owner_inv_def dest: owner_rel_unique)
  show "\<And>s t. futex_inv K s \<Longrightarrow> fx_crit t s \<Longrightarrow> fx_is_locked s"
    by (auto simp: futex_inv_def fx_owner_inv_def owner_rel_def fx_crit_def fx_holds_def
        fx_is_locked_def)
qed (auto simp: fx_holds_def fx_crit_def futex_init_def)

interpretation list_futex: lock_impl "futex_step list_kernel" "futex_init list_kernel"
  "futex_inv list_kernel" fx_holds fx_crit fx_is_locked
  by (rule futex_lock_impl [OF list_kernel_ok])

section \<open>Correctness\<close>

text \<open>
  C22. The futex lock is a lock: on every kernel with the documented futex behaviour, every run of
  its member functions is, seen through acquisitions and releases, a run of a lock with one owner;
  a thread whose locking call returned is that owner and sees \<open>is_locked\<close> true.
\<close>
theorem futex_correct:
  assumes K: "futex_ok K" and r: "run (futex_step K) ls (futex_init K) = Some s"
  shows "\<exists>h. run alock_step (trace (futex_step K) (lock_events (futex_step K) fx_holds) ls (futex_init K)) None = Some h
             \<and> owner_rel fx_holds s h \<and> (\<forall>t. fx_crit t s \<longrightarrow> h = Some t \<and> fx_is_locked s)"
  by (rule lock_impl.linearizable [OF futex_lock_impl [OF K] r])

theorem futex_correct_witness:
  "\<exists>s h. run (futex_step list_kernel)
           [(0, Lock), (1, Lock), (0, Go), (1, Go), (1, Go), (1, Go), (0, Unlock), (0, Go), (0, Go), (1, Go), (1, Go)]
           (futex_init list_kernel) = Some s
         \<and> h = Some 1 \<and> owner_rel fx_holds s h"
proof -
  let ?ls = "[(0, Lock), (1, Lock), (0, Go), (1, Go), (1, Go), (1, Go), (0, Unlock), (0, Go), (0, Go), (1, Go), (1, Go)]"
  obtain s where s: "run (futex_step list_kernel) ?ls (futex_init list_kernel) = Some s" "fx_crit 1 s"
    by (simp add: fx_go_def fx_ops fx_crit_def fx_asleep_def futex_init_def list_kernel_def
        wake_at_once_def)
  from futex_correct [OF list_kernel_ok s(1)] s show ?thesis by blast
qed

text \<open>
  C24. No wakeup is lost and the lock does not deadlock: whenever a thread sleeps in the kernel, either
  the lock is owned and its word is contended, so that the owner's \<open>unlock\<close> will wake the sleepers,
  or a thread that released the lock is about to wake them; and some thread other than the sleepers
  is in its critical section or can take a step.
\<close>
theorem futex_no_lost_wakeup:
  assumes K: "futex_ok K" and r: "reachable (futex_step K) (futex_init K) s"
    and sleeper: "fx_asleep K s t"
  shows "((fx_locked s = Contended \<and> (\<exists>u. fx_holds u s)) \<or> (\<exists>u. fx_pc s u = FxNotify)) \<and>
         (\<exists>u. \<not> fx_asleep K s u \<and> (fx_crit u s \<or> futex_step K (u, Go) s \<noteq> None))"
proof
  have inv: "futex_inv K s"
    by (rule invariant_system.inv_reachable [OF lock_impl.axioms(1) [OF futex_lock_impl [OF K]] r])
  then obtain h where h: "fx_owner_inv h s" by (auto simp: futex_inv_def)
  show "(fx_locked s = Contended \<and> (\<exists>u. fx_holds u s)) \<or> (\<exists>u. fx_pc s u = FxNotify)"
    using inv h sleeper by (auto simp: futex_inv_def fx_sleep_inv_def fx_owner_inv_def owner_rel_def)
  then obtain u where u: "fx_holds u s \<or> fx_pc s u = FxNotify" by blast
  moreover have "\<not> fx_asleep K s u"
    using u inv by (auto simp: futex_inv_def fx_sleep_inv_def fx_holds_def)
  ultimately show "\<exists>u. \<not> fx_asleep K s u \<and> (fx_crit u s \<or> futex_step K (u, Go) s \<noteq> None)"
    by (intro exI [of _ u])
      (auto simp: fx_holds_def fx_crit_def fx_go_def fx_ops split: prod.splits)
qed

theorem futex_no_lost_wakeup_witness:
  "\<exists>s. run (futex_step list_kernel) [(0, Lock), (1, Lock), (0, Go), (1, Go), (1, Go), (1, Go)]
         (futex_init list_kernel) = Some s \<and> fx_asleep list_kernel s 1 \<and>
       ((fx_locked s = Contended \<and> (\<exists>u. fx_holds u s)) \<or> (\<exists>u. fx_pc s u = FxNotify))"
proof -
  let ?ls = "[(0, Lock), (1, Lock), (0, Go), (1, Go), (1, Go), (1, Go)]"
  obtain s where s: "run (futex_step list_kernel) ?ls (futex_init list_kernel) = Some s"
      "fx_asleep list_kernel s 1"
    by (simp add: fx_go_def fx_ops fx_asleep_def futex_init_def list_kernel_def)
  show ?thesis
    by (rule exI [of _ s])
      (use s futex_no_lost_wakeup [OF list_kernel_ok run_reachable [OF s(1)] s(2)] in simp)
qed

end
