(* ===== verification/Mutex_Lock.thy ===== *)
theory Mutex_Lock
  imports Lock_Spec
begin

text \<open>
  The locks of \<open>locks/mutex_lock.hpp\<close> and \<open>locks/pthreads_lock.hpp\<close>: a system mutex and a flag that
  lets \<open>is_locked\<close> and the first test of \<open>try_lock\<close> avoid the mutex. The two classes differ in the
  mutex they wrap only, so there is one model, over the operations of the mutex; \<open>std_mutex\<close> is
  \<open>std::mutex\<close>, and the pthreads mutex is a parameter with the behaviour stated in \<open>mutex_ok\<close>.
\<close>

section \<open>The wrapped mutex\<close>

text \<open>
  \<open>mx_try\<close> says whether the mutex was taken; \<open>mx_lock\<close> is \<open>None\<close> while the call blocks; \<open>mx_owner\<close>
  is the thread that has locked the mutex.
\<close>

record 'm mutex_api =
  mx_init :: 'm
  mx_try :: "tid \<Rightarrow> 'm \<Rightarrow> bool \<times> 'm"
  mx_lock :: "tid \<Rightarrow> 'm \<Rightarrow> 'm option"
  mx_unlock :: "tid \<Rightarrow> 'm \<Rightarrow> 'm"
  mx_owner :: "'m \<Rightarrow> tid option"

definition mutex_ok :: "'m mutex_api \<Rightarrow> bool" where
  "mutex_ok M \<longleftrightarrow>
     mx_owner M (mx_init M) = None \<and>
     (\<forall>t m. fst (mx_try M t m) \<longrightarrow> mx_owner M m = None \<and> mx_owner M (snd (mx_try M t m)) = Some t) \<and>
     (\<forall>t m. \<not> fst (mx_try M t m) \<longrightarrow> mx_owner M (snd (mx_try M t m)) = mx_owner M m) \<and>
     (\<forall>t m m'. mx_lock M t m = Some m' \<longrightarrow> mx_owner M m = None \<and> mx_owner M m' = Some t) \<and>
     (\<forall>t m. mx_owner M m = None \<longrightarrow> mx_lock M t m \<noteq> None) \<and>
     (\<forall>t m. mx_owner M m = Some t \<longrightarrow> mx_owner M (mx_unlock M t m) = None)"

lemma mutex_okD:
  assumes "mutex_ok M"
  shows mutex_try_got: "mx_try M t m = (True, m') \<Longrightarrow> mx_owner M m = None \<and> mx_owner M m' = Some t"
    and mutex_try_failed: "mx_try M t m = (False, m') \<Longrightarrow> mx_owner M m' = mx_owner M m"
    and mutex_lock_got: "mx_lock M t m = Some m' \<Longrightarrow> mx_owner M m = None \<and> mx_owner M m' = Some t"
    and mutex_unlock_owner: "mx_owner M m = Some t \<Longrightarrow> mx_owner M (mx_unlock M t m) = None"
  using assms unfolding mutex_ok_def by (metis fst_conv snd_conv)+

text \<open>\<open>std::mutex\<close> is its owner; an unlock by a thread that is not the owner is undefined.\<close>

definition std_mutex :: "tid option mutex_api" where
  "std_mutex =
     \<lparr>mx_init = None,
      mx_try = (\<lambda>t m. if m = None then (True, Some t) else (False, m)),
      mx_lock = (\<lambda>t m. if m = None then Some (Some t) else None),
      mx_unlock = (\<lambda>t m. None),
      mx_owner = (\<lambda>m. m)\<rparr>"

lemma std_mutex_ok: "mutex_ok std_mutex"
  by (auto simp: mutex_ok_def std_mutex_def)

section \<open>State\<close>

text \<open>
  A thread in \<open>try_lock\<close> is before the test of the flag (\<open>MxTryLoad\<close>), before the try call of the
  mutex (\<open>MxTryMutex\<close>) or before the store of the flag (\<open>MxSet\<close>); in \<open>lock\<close> it is before the lock
  call (\<open>MxLockMutex\<close>) or the same store; in \<open>unlock\<close> before the store (\<open>MxClear\<close>) or the unlock call.
\<close>

datatype mx_pc = MxIdle | MxTryLoad | MxTryMutex | MxLockMutex | MxSet | MxCrit | MxClear | MxUnlockMutex

record 'm mutex_lock =
  ml_locked :: bool
  ml_mutex :: 'm
  ml_pc :: "tid \<Rightarrow> mx_pc"

definition mutex_init :: "'m mutex_api \<Rightarrow> 'm mutex_lock" where
  "mutex_init M = \<lparr>ml_locked = False, ml_mutex = mx_init M, ml_pc = (\<lambda>_. MxIdle)\<rparr>"

definition ml_goto :: "tid \<Rightarrow> mx_pc \<Rightarrow> 'm mutex_lock \<Rightarrow> 'm mutex_lock" where
  "ml_goto t p s = s\<lparr>ml_pc := (ml_pc s)(t := p)\<rparr>"

section \<open>Operations\<close>

definition ml_is_locked :: "'m mutex_lock \<Rightarrow> bool" where
  "ml_is_locked s = ml_locked s"

definition ml_set_locked :: "tid \<Rightarrow> 'm mutex_lock \<Rightarrow> 'm mutex_lock option" where
  "ml_set_locked t s = Some (ml_goto t MxCrit (s\<lparr>ml_locked := True\<rparr>))"

definition ml_try_lock :: "'m mutex_api \<Rightarrow> tid \<Rightarrow> 'm mutex_lock \<Rightarrow> 'm mutex_lock option" where
  "ml_try_lock M t s =
     (case ml_pc s t of
        MxTryLoad \<Rightarrow> Some (ml_goto t (if ml_is_locked s then MxIdle else MxTryMutex) s)
      | MxTryMutex \<Rightarrow>
          (let (got, m) = mx_try M t (ml_mutex s) in
           Some (ml_goto t (if got then MxSet else MxIdle) (s\<lparr>ml_mutex := m\<rparr>)))
      | MxSet \<Rightarrow> ml_set_locked t s
      | _ \<Rightarrow> None)"

definition ml_lock :: "'m mutex_api \<Rightarrow> tid \<Rightarrow> 'm mutex_lock \<Rightarrow> 'm mutex_lock option" where
  "ml_lock M t s =
     (case ml_pc s t of
        MxLockMutex \<Rightarrow> map_option (\<lambda>m. ml_goto t MxSet (s\<lparr>ml_mutex := m\<rparr>)) (mx_lock M t (ml_mutex s))
      | MxSet \<Rightarrow> ml_set_locked t s
      | _ \<Rightarrow> None)"

definition ml_unlock :: "'m mutex_api \<Rightarrow> tid \<Rightarrow> 'm mutex_lock \<Rightarrow> 'm mutex_lock option" where
  "ml_unlock M t s =
     (case ml_pc s t of
        MxClear \<Rightarrow> Some (ml_goto t MxUnlockMutex (s\<lparr>ml_locked := False\<rparr>))
      | MxUnlockMutex \<Rightarrow> Some (ml_goto t MxIdle (s\<lparr>ml_mutex := mx_unlock M t (ml_mutex s)\<rparr>))
      | _ \<Rightarrow> None)"

fun ml_call :: "lock_act \<Rightarrow> mx_pc \<Rightarrow> mx_pc option" where
  "ml_call Lock MxIdle = Some MxLockMutex"
| "ml_call TryLock MxIdle = Some MxTryLoad"
| "ml_call Unlock MxCrit = Some MxClear"
| "ml_call _ _ = None"

definition ml_go :: "'m mutex_api \<Rightarrow> tid \<Rightarrow> 'm mutex_lock \<Rightarrow> 'm mutex_lock option" where
  "ml_go M t s =
     (if ml_pc s t \<in> {MxClear, MxUnlockMutex} then ml_unlock M t s
      else if ml_pc s t = MxLockMutex then ml_lock M t s
      else ml_try_lock M t s)"

text \<open>
  \<open>Intr\<close> is a spurious failure of the mutex's try call, which \<open>std::mutex::try_lock\<close> is allowed.
\<close>

fun mutex_step :: "'m mutex_api \<Rightarrow> tid \<times> lock_act \<Rightarrow> 'm mutex_lock \<Rightarrow> 'm mutex_lock option" where
  "mutex_step M (t, Go) s = ml_go M t s"
| "mutex_step M (t, Intr) s = (if ml_pc s t = MxTryMutex then Some (ml_goto t MxIdle s) else None)"
| "mutex_step M (t, a) s = map_option (\<lambda>p. ml_goto t p s) (ml_call a (ml_pc s t))"

text \<open>\<open>pthreads_lock\<close> is the same class over a mutex of the pthreads library.\<close>

definition pthreads_step :: "'m mutex_api \<Rightarrow> tid \<times> lock_act \<Rightarrow> 'm mutex_lock \<Rightarrow> 'm mutex_lock option" where
  "pthreads_step P = mutex_step P"

lemmas ml_ops = ml_go_def ml_lock_def ml_try_lock_def ml_unlock_def ml_set_locked_def ml_goto_def
  ml_is_locked_def

section \<open>Invariant and contract\<close>

definition ml_crit :: "tid \<Rightarrow> 'm mutex_lock \<Rightarrow> bool" where
  "ml_crit t s \<longleftrightarrow> ml_pc s t = MxCrit"

definition ml_holds :: "tid \<Rightarrow> 'm mutex_lock \<Rightarrow> bool" where
  "ml_holds t s \<longleftrightarrow> ml_pc s t \<in> {MxSet, MxCrit, MxClear, MxUnlockMutex}"

text \<open>
  The threads between a successful mutex call and the unlock call own the mutex. The flag is a
  lower bound of that: it is set exactly from the store in the locking call to the one in \<open>unlock\<close>.
\<close>

definition mutex_inv :: "'m mutex_api \<Rightarrow> 'm mutex_lock \<Rightarrow> bool" where
  "mutex_inv M s \<longleftrightarrow> owner_rel ml_holds s (mx_owner M (ml_mutex s)) \<and>
     (ml_locked s \<longleftrightarrow> (\<exists>t. ml_pc s t \<in> {MxCrit, MxClear}))"

lemma mutex_step_frame: "mutex_step M (t, a) s = Some s' \<Longrightarrow> u \<noteq> t \<Longrightarrow> ml_pc s' u = ml_pc s u"
  by (cases a) (auto simp: ml_ops split: mx_pc.splits if_splits prod.splits)

lemma ml_call_pcs:
  "ml_call a p = Some p' \<Longrightarrow>
   (p' \<in> {MxSet, MxCrit, MxClear, MxUnlockMutex}) = (p \<in> {MxSet, MxCrit, MxClear, MxUnlockMutex}) \<and>
   (p' \<in> {MxCrit, MxClear}) = (p \<in> {MxCrit, MxClear})"
  by (cases "(a, p)" rule: ml_call.cases) auto

lemma ml_goto_inv:
  assumes "mutex_inv M s"
    and "(p \<in> {MxSet, MxCrit, MxClear, MxUnlockMutex}) = (ml_pc s t \<in> {MxSet, MxCrit, MxClear, MxUnlockMutex})"
    and "(p \<in> {MxCrit, MxClear}) = (ml_pc s t \<in> {MxCrit, MxClear})"
  shows "mutex_inv M (ml_goto t p s)"
proof -
  have "ml_holds u (ml_goto t p s) = ml_holds u s"
    "(ml_pc (ml_goto t p s) u \<in> {MxCrit, MxClear}) = (ml_pc s u \<in> {MxCrit, MxClear})" for u
    using assms(2,3) by (auto simp: ml_holds_def ml_goto_def)
  then show ?thesis using assms(1) by (simp add: mutex_inv_def owner_rel_def ml_goto_def)
qed

lemma ml_owner_alone:
  assumes "mutex_inv M s" and "ml_holds t s"
  shows "mx_owner M (ml_mutex s) = Some t" "ml_pc s u \<in> {MxCrit, MxClear} \<Longrightarrow> u = t"
  using assms by (auto simp: mutex_inv_def owner_rel_def ml_holds_def)

lemma ml_go_inv:
  assumes M: "mutex_ok M" and inv: "mutex_inv M s" and st: "ml_go M t s = Some s'"
  shows "mutex_inv M s'"
proof -
  have frame: "\<And>u. u \<noteq> t \<Longrightarrow> ml_pc s' u = ml_pc s u"
    using mutex_step_frame [of M t Go] st by simp
  have rel: "owner_rel ml_holds s (mx_owner M (ml_mutex s))"
    and flag: "ml_locked s \<longleftrightarrow> (\<exists>t. ml_pc s t \<in> {MxCrit, MxClear})"
    using inv by (auto simp: mutex_inv_def)
  note alone = ml_owner_alone [OF inv, of t]
  have owner: "mx_owner M (ml_mutex s') = next_owner ml_holds t s' (mx_owner M (ml_mutex s)) \<and>
      (ml_holds t s' \<longrightarrow> mx_owner M (ml_mutex s) = None \<or> mx_owner M (ml_mutex s) = Some t)"
  proof (cases "ml_holds t s")
    case True
    then show ?thesis using st alone(1) mutex_unlock_owner [OF M alone(1)]
      by (cases "ml_pc s t") (auto simp: ml_ops next_owner_def ml_holds_def)
  next
    case False
    then have "mx_owner M (ml_mutex s) \<noteq> Some t" by (rule owner_rel_NoneD [OF rel])
    then show ?thesis using st False
      by (cases "ml_pc s t")
        (auto simp: ml_ops next_owner_def ml_holds_def split: prod.splits if_splits
          dest: mutex_try_got [OF M] mutex_try_failed [OF M] mutex_lock_got [OF M])
  qed
  have rel': "owner_rel ml_holds s' (mx_owner M (ml_mutex s'))"
    using owner owner_rel_next [OF rel, of t s'] by (auto simp: ml_holds_def frame)
  have "ml_locked s' \<longleftrightarrow> (\<exists>t. ml_pc s' t \<in> {MxCrit, MxClear})"
  proof (cases "ml_pc s t \<in> {MxSet, MxClear}")
    case True
    then have "ml_pc s u \<notin> {MxCrit, MxClear}" if "u \<noteq> t" for u
      using alone(2) [of u] that by (auto simp: ml_holds_def)
    then show ?thesis using st True by (auto simp: ml_ops split: if_splits)
  next
    case False
    then have "(ml_pc s' u \<in> {MxCrit, MxClear}) = (ml_pc s u \<in> {MxCrit, MxClear})" for u
      using st frame [of u] by (cases "u = t"; cases "ml_pc s t")
        (auto simp: ml_ops split: prod.splits if_splits)
    moreover have "ml_locked s' = ml_locked s"
      using st False by (cases "ml_pc s t") (auto simp: ml_ops split: prod.splits if_splits)
    ultimately show ?thesis using flag by simp
  qed
  with rel' show ?thesis by (simp add: mutex_inv_def)
qed

lemma mutex_step_inv:
  assumes M: "mutex_ok M" and inv: "mutex_inv M s" and st: "mutex_step M l s = Some s'"
  shows "mutex_inv M s'"
proof (cases "(M, l, s)" rule: mutex_step.cases)
  case (1 M0 t s0)
  with M inv st show ?thesis by (auto intro: ml_go_inv)
next
  case (2 M0 t s0)
  with st inv show ?thesis by (auto intro!: ml_goto_inv split: if_splits)
qed (use st inv in \<open>auto intro!: ml_goto_inv dest: ml_call_pcs\<close>)

lemma mutex_lock_impl:
  assumes M: "mutex_ok M"
  shows "lock_impl (mutex_step M) (mutex_init M) (mutex_inv M) ml_holds ml_crit ml_is_locked"
proof unfold_locales
  show "mutex_inv M (mutex_init M)"
    using M by (simp add: mutex_inv_def mutex_ok_def owner_rel_def ml_holds_def mutex_init_def)
  show "\<And>s l s'. mutex_inv M s \<Longrightarrow> mutex_step M l s = Some s' \<Longrightarrow> mutex_inv M s'"
    by (rule mutex_step_inv [OF M])
  show "\<And>s t a s' u. mutex_inv M s \<Longrightarrow> mutex_step M (t, a) s = Some s' \<Longrightarrow> u \<noteq> t \<Longrightarrow>
      ml_holds u s' = ml_holds u s"
    by (simp add: ml_holds_def mutex_step_frame)
  show "\<And>s t u. mutex_inv M s \<Longrightarrow> ml_holds t s \<Longrightarrow> ml_holds u s \<Longrightarrow> t = u"
    by (auto simp: mutex_inv_def dest: owner_rel_unique)
qed (auto simp: ml_holds_def ml_crit_def mutex_init_def mutex_inv_def ml_is_locked_def)

interpretation std_lock: lock_impl "mutex_step std_mutex" "mutex_init std_mutex" "mutex_inv std_mutex"
  ml_holds ml_crit ml_is_locked
  by (rule mutex_lock_impl [OF std_mutex_ok])

interpretation extended_std_lock: lock_impl "extended_step (mutex_step std_mutex)" "mutex_init std_mutex" "mutex_inv std_mutex"
  ml_holds ml_crit ml_is_locked
  by (rule std_lock.extended)

text \<open>
  The locks that wrap a system mutex are locks: for every mutex with the documented behaviour,
  every run of \<open>mutex_lock\<close> (and of \<open>pthreads_lock\<close>, the same class) is, seen through acquisitions
  and releases, a run of a lock with one owner; a thread whose locking call returned is that owner
  and sees the flag set, although the flag is written outside the mutex calls.
\<close>
theorem pthreads_correct:
  assumes M: "mutex_ok P" and r: "run (pthreads_step P) ls (mutex_init P) = Some s"
  shows "\<exists>h. run alock_step (trace (pthreads_step P) (lock_events (pthreads_step P) ml_holds) ls (mutex_init P)) None = Some h
             \<and> owner_rel ml_holds s h \<and> (\<forall>t. ml_crit t s \<longrightarrow> h = Some t \<and> ml_is_locked s)"
  using lock_impl.linearizable [OF mutex_lock_impl [OF M]] r by (simp add: pthreads_step_def)

theorem pthreads_correct_witness:
  "\<exists>s h. run (pthreads_step std_mutex)
           [(0, TryLock), (1, Lock), (0, Go), (0, Go), (0, Go), (0, Unlock), (0, Go), (0, Go), (1, Go), (1, Go)]
           (mutex_init std_mutex) = Some s \<and> h = Some 1 \<and> owner_rel ml_holds s h"
proof -
  let ?ls = "[(0, TryLock), (1, Lock), (0, Go), (0, Go), (0, Go), (0, Unlock), (0, Go), (0, Go), (1, Go), (1, Go)]"
  obtain s where s: "run (pthreads_step std_mutex) ?ls (mutex_init std_mutex) = Some s" "ml_crit 1 s"
    by (simp add: pthreads_step_def ml_ops ml_crit_def mutex_init_def std_mutex_def)
  from pthreads_correct [OF std_mutex_ok s(1)] s show ?thesis by blast
qed

end
