(* ===== verification/Ticket_Lock.thy ===== *)
theory Ticket_Lock
  imports Lock_Spec Futex "HOL-Library.Word"
begin

unbundle bit_operations_syntax

text \<open>
  The ticket lock of \<open>locks/ticket_futex_lock.hpp\<close>. Tickets and the number being served are 32 bit
  signed integers that advance by two; the lowest bit of \<open>serving\<close> is a flag that says
  that threads sleep on it. The kernel is the parameter \<open>K\<close> of the model.

  The atomic \<open>fetch_add\<close> of \<open>lock\<close> wraps around. The additions of \<open>unlock\<close>, \<open>try_lock\<close> and
  \<open>try_lock_or_wait\<close> are additions of type \<open>int\<close>, whose overflow is undefined: then the step is \<open>None\<close>.
\<close>

section \<open>Words with a flag in the lowest bit\<close>

type_synonym field = "32 word"

lemma bit_unat: "bit (unat (x :: field)) n \<longleftrightarrow> bit x n"
  by transfer (auto simp: bit_simps bit_nat_iff)

lemma bit_half: "0 < n \<Longrightarrow> bit (k div 2 :: nat) (n - Suc 0) \<longleftrightarrow> bit k n"
  by (cases n) (simp_all add: bit_Suc)

lemma unat_base: "unat ((x :: field) AND NOT 1) = 2 * (unat x div 2)"
  by (rule bit_eqI)
    (auto simp: bit_half bit_simps bit_unat bit_1_iff dest: bit_imp_le_length [of x, simplified])

lemma unat_flagged: "unat ((x :: field) OR 1) = 2 * (unat x div 2) + 1"
proof -
  have "unat (x OR 1) = 2 * (unat x div 2) OR 1"
    by (rule bit_eqI) (auto simp: bit_half bit_simps bit_unat bit_1_iff dest: bit_imp_le_length)
  moreover have "2 * (unat x div 2) OR 1 = 2 * (unat x div 2) + 1"
    using or_one_eq [of "2 * (unat x div 2)"] by simp
  ultimately show ?thesis by (simp only:)
qed

lemma odd_unat: "odd (unat (x :: field)) \<longleftrightarrow> bit x 0"
  using bit_unat [of x 0] by (simp add: bit_0)

lemma flag_set: "(x :: field) AND 1 = 1 \<longleftrightarrow> odd (unat x)"
  by (metis bit_iff_and_drop_bit_eq_1 drop_bit_0 id_apply odd_unat)

lemma base_eq_iff: "(x :: field) AND NOT 1 = y \<longleftrightarrow> 2 * (unat x div 2) = unat y"
  by (metis unat_base word_unat_eq_iff)

lemma ticket_or_flag_eq:
  assumes "even (unat ct)"
  shows "((ct :: field) OR (cs AND 1)) = cs \<longleftrightarrow> unat ct = 2 * (unat cs div 2)"
proof (cases "odd (unat cs)")
  case True
  then have "cs AND 1 = 1" by (simp add: flag_set)
  then have "(ct OR (cs AND 1)) = cs \<longleftrightarrow> 2 * (unat ct div 2) + 1 = unat cs"
    by (metis unat_flagged word_unat_eq_iff)
  then show ?thesis using assms True by presburger
next
  case False
  then have "cs AND 1 = 0"
    by (metis and_one_eq bit_0 even_iff_mod_2_eq_zero odd_unat)
  then have "(ct OR (cs AND 1)) = cs \<longleftrightarrow> ct = cs" by simp
  then show ?thesis using False by (simp add: word_unat_eq_iff)
qed

lemma sint_inject [simp]: "sint (x :: field) = sint y \<longleftrightarrow> x = y"
  by (metis signed_word_eqI)

lemma unat_add2: "unat (x :: field) + 2 < 2 ^ 32 \<Longrightarrow> unat (x + 2) = unat x + 2"
  by (simp add: unat_word_ariths)

text \<open>The addition \<open>x + 2\<close> of type \<open>int\<close>.\<close>

definition plus2 :: "field \<Rightarrow> field option" where
  "plus2 x = (if sint x + 2 < 2 ^ 31 then Some (x + 2) else None)"

lemma plus2_Some [simp]: "plus2 x = Some y \<longleftrightarrow> sint x + 2 < 2 ^ 31 \<and> y = x + 2"
  by (auto simp: plus2_def)

lemma sint_small:
  assumes "unat (x :: field) < 2 ^ 31"
  shows "sint x = int (unat x)"
proof -
  have u: "uint x = int (unat x)" by simp
  have "int (unat x) < int (2 ^ 31)" using assms by (simp only: of_nat_less_iff)
  then have "signed_take_bit 31 (uint x) = uint x" by (intro signed_take_bit_int_eq_self) (simp_all add: order_trans [OF _ unsigned_greater_eq])
  then show ?thesis unfolding u by (simp add: sint_uint)
qed

lemma plus2_defined: "unat (x :: field) + 2 < 2 ^ 31 \<Longrightarrow> plus2 x = Some (x + 2)"
proof -
  assume b: "unat x + 2 < 2 ^ 31"
  then have "int (unat x + 2) < int (2 ^ 31)" by (simp only: of_nat_less_iff)
  then have "sint x + 2 < 2 ^ 31" using sint_small [of x] b by simp
  then show ?thesis by (simp add: plus2_def)
qed

section \<open>State\<close>

text \<open>
  The program counters carry the local variables: \<open>mynum\<close> and \<open>current\<close> in \<open>lock\<close>, \<open>current_ticket\<close>
  and \<open>current_serving\<close> in \<open>try_lock\<close> and \<open>try_lock_or_wait\<close>, \<open>mine\<close> in \<open>unlock\<close>, the expected
  value in \<open>wait\<close>. \<open>tk_issued\<close> counts the tickets handed out; it is not in the code, and only
  serves to state how long the 32 bit counters are good for.
\<close>

datatype tk_pc = TkIdle
  | TkLockFetch | TkLockLoad field | TkLockCas field field | TkLockWait field field | TkLockSleep field
  | TkTryTicket | TkTryServing field | TkTryCas field
  | TkTlwTicket | TkTlwServing field | TkTlwCas field field | TkTlwFlag field | TkTlwWait field | TkTlwSleep
  | TkCrit | TkUnlLoad | TkUnlXchg field | TkNotify

record 'k ticket_lock =
  tk_ticket :: field
  tk_serving :: field
  tk_pc :: "tid \<Rightarrow> tk_pc"
  tk_kernel :: 'k
  tk_issued :: nat

definition ticket_init :: "(unit, 'k) futex_kernel \<Rightarrow> 'k ticket_lock" where
  "ticket_init K =
     \<lparr>tk_ticket = 0, tk_serving = 0, tk_pc = (\<lambda>_. TkIdle), tk_kernel = k_init K, tk_issued = 0\<rparr>"

definition tk_goto :: "tid \<Rightarrow> tk_pc \<Rightarrow> 'k ticket_lock \<Rightarrow> 'k ticket_lock" where
  "tk_goto t p s = s\<lparr>tk_pc := (tk_pc s)(t := p)\<rparr>"

definition tk_asleep :: "(unit, 'k) futex_kernel \<Rightarrow> 'k ticket_lock \<Rightarrow> tid \<Rightarrow> bool" where
  "tk_asleep K s t = k_blocked K (tk_kernel s) () t"

lemma tk_goto_serving: "tk_serving (tk_goto t p s) = tk_serving s"
  by (simp add: tk_goto_def)

text \<open>\<open>ticket\<close> gets the next number when a thread takes a ticket.\<close>

definition tk_issue :: "field \<Rightarrow> 'k ticket_lock \<Rightarrow> 'k ticket_lock" where
  "tk_issue next s = s\<lparr>tk_ticket := next, tk_issued := tk_issued s + 1\<rparr>"

section \<open>Operations\<close>

definition tk_wait :: "(unit, 'k) futex_kernel \<Rightarrow> tid \<Rightarrow> field \<Rightarrow> 'k ticket_lock \<Rightarrow> 'k ticket_lock" where
  "tk_wait K t expected s =
     s\<lparr>tk_kernel := k_wait K t () (sint (tk_serving s)) (sint expected) (tk_kernel s)\<rparr>"

text \<open>The test of the loop of \<open>lock\<close>, and of the flag in its body.\<close>

definition tk_lock_test :: "field \<Rightarrow> field \<Rightarrow> tk_pc" where
  "tk_lock_test mynum current =
     (if current AND NOT 1 \<noteq> mynum
      then (if current AND 1 \<noteq> 1 then TkLockCas mynum current else TkLockWait mynum current)
      else TkCrit)"

definition tk_lock :: "(unit, 'k) futex_kernel \<Rightarrow> tid \<Rightarrow> 'k ticket_lock \<Rightarrow> 'k ticket_lock option" where
  "tk_lock K t s =
     (case tk_pc s t of
        TkLockFetch \<Rightarrow> Some (tk_goto t (TkLockLoad (tk_ticket s)) (tk_issue (tk_ticket s + 2) s))
      | TkLockLoad mynum \<Rightarrow> Some (tk_goto t (tk_lock_test mynum (tk_serving s)) s)
      | TkLockCas mynum current \<Rightarrow>
          Some (if tk_serving s = current
                then tk_goto t (TkLockWait mynum (current OR 1)) (s\<lparr>tk_serving := current OR 1\<rparr>)
                else tk_goto t (tk_lock_test mynum (tk_serving s)) s)
      | TkLockWait mynum current \<Rightarrow> Some (tk_goto t (TkLockSleep mynum) (tk_wait K t current s))
      | TkLockSleep mynum \<Rightarrow>
          (if tk_asleep K s t then None else Some (tk_goto t (TkLockLoad mynum) s))
      | _ \<Rightarrow> None)"

definition tk_unlock :: "tid \<Rightarrow> 'k ticket_lock \<Rightarrow> 'k ticket_lock option" where
  "tk_unlock t s =
     (case tk_pc s t of
        TkUnlLoad \<Rightarrow> Some (tk_goto t (TkUnlXchg (tk_serving s)) s)
      | TkUnlXchg mine \<Rightarrow>
          (case plus2 (mine AND NOT 1) of
             None \<Rightarrow> None
           | Some next \<Rightarrow>
               Some (tk_goto t (if tk_serving s AND 1 = 1 then TkNotify else TkIdle) (s\<lparr>tk_serving := next\<rparr>)))
      | _ \<Rightarrow> None)"

definition tk_try_lock :: "tid \<Rightarrow> 'k ticket_lock \<Rightarrow> 'k ticket_lock option" where
  "tk_try_lock t s =
     (case tk_pc s t of
        TkTryTicket \<Rightarrow> Some (tk_goto t (TkTryServing (tk_ticket s)) s)
      | TkTryServing ct \<Rightarrow> Some (tk_goto t (if ct \<noteq> tk_serving s then TkIdle else TkTryCas ct) s)
      | TkTryCas ct \<Rightarrow>
          (case plus2 ct of
             None \<Rightarrow> None
           | Some next \<Rightarrow>
               Some (if tk_ticket s = ct then tk_goto t TkCrit (tk_issue next s) else tk_goto t TkIdle s))
      | _ \<Rightarrow> None)"

text \<open>The second half of \<open>try_lock_or_wait\<close>: set the flag, or find it set, then wait.\<close>

definition tk_tlw_flag_test :: "field \<Rightarrow> tk_pc" where
  "tk_tlw_flag_test cs = (if cs AND 1 \<noteq> 1 then TkTlwFlag cs else TkTlwWait cs)"

definition tk_try_lock_or_wait :: "(unit, 'k) futex_kernel \<Rightarrow> tid \<Rightarrow> 'k ticket_lock \<Rightarrow> 'k ticket_lock option" where
  "tk_try_lock_or_wait K t s =
     (case tk_pc s t of
        TkTlwTicket \<Rightarrow> Some (tk_goto t (TkTlwServing (tk_ticket s)) s)
      | TkTlwServing ct \<Rightarrow>
          Some (tk_goto t (if (ct OR (tk_serving s AND 1)) = tk_serving s then TkTlwCas ct (tk_serving s)
                           else tk_tlw_flag_test (tk_serving s)) s)
      | TkTlwCas ct cs \<Rightarrow>
          (case plus2 ct of
             None \<Rightarrow> None
           | Some next \<Rightarrow>
               Some (if tk_ticket s = ct then tk_goto t TkCrit (tk_issue next s)
                     else tk_goto t (tk_tlw_flag_test cs) s))
      | TkTlwFlag cs \<Rightarrow>
          Some (if tk_serving s = cs
                then tk_goto t (TkTlwWait (cs OR 1)) (s\<lparr>tk_serving := cs OR 1\<rparr>)
                else tk_goto t TkIdle s)
      | TkTlwWait cs \<Rightarrow> Some (tk_goto t TkTlwSleep (tk_wait K t cs s))
      | TkTlwSleep \<Rightarrow> (if tk_asleep K s t then None else Some (tk_goto t TkIdle s))
      | _ \<Rightarrow> None)"

definition tk_is_locked :: "'k ticket_lock \<Rightarrow> bool" where
  "tk_is_locked s \<longleftrightarrow> tk_ticket s \<noteq> tk_serving s"

definition tk_notify_all :: "(unit, 'k) futex_kernel \<Rightarrow> tid \<Rightarrow> 'k ticket_lock \<Rightarrow> 'k ticket_lock option" where
  "tk_notify_all K t s =
     (if tk_pc s t = TkNotify
      then (let (woken, k) = k_wake K () wake_at_once (tk_kernel s) in
            Some (tk_goto t (if woken = wake_at_once then TkNotify else TkIdle) (s\<lparr>tk_kernel := k\<rparr>)))
      else None)"

fun tk_call :: "lock_act \<Rightarrow> tk_pc \<Rightarrow> tk_pc option" where
  "tk_call Lock TkIdle = Some TkLockFetch"
| "tk_call TryLock TkIdle = Some TkTryTicket"
| "tk_call TryLockOrWait TkIdle = Some TkTlwTicket"
| "tk_call Unlock TkCrit = Some TkUnlLoad"
| "tk_call _ _ = None"

definition tk_go :: "(unit, 'k) futex_kernel \<Rightarrow> tid \<Rightarrow> 'k ticket_lock \<Rightarrow> 'k ticket_lock option" where
  "tk_go K t s =
     (case tk_lock K t s of Some s' \<Rightarrow> Some s' | None \<Rightarrow>
     (case tk_unlock t s of Some s' \<Rightarrow> Some s' | None \<Rightarrow>
     (case tk_try_lock t s of Some s' \<Rightarrow> Some s' | None \<Rightarrow>
     (case tk_try_lock_or_wait K t s of Some s' \<Rightarrow> Some s' | None \<Rightarrow> tk_notify_all K t s))))"

fun ticket_step :: "(unit, 'k) futex_kernel \<Rightarrow> tid \<times> lock_act \<Rightarrow> 'k ticket_lock \<Rightarrow> 'k ticket_lock option" where
  "ticket_step K (t, Go) s = tk_go K t s"
| "ticket_step K (t, Intr) s = Some (s\<lparr>tk_kernel := k_intr K t (tk_kernel s)\<rparr>)"
| "ticket_step K (t, a) s = map_option (\<lambda>p. tk_goto t p s) (tk_call a (tk_pc s t))"

lemmas tk_ops = tk_go_def tk_lock_def tk_unlock_def tk_try_lock_def tk_try_lock_or_wait_def
  tk_notify_all_def tk_wait_def tk_goto_def tk_issue_def plus2_def

section \<open>The order of tickets\<close>

text \<open>
  \<open>tk_waits\<close> is the ticket of a thread that waits in \<open>lock\<close>; \<open>tk_holding\<close> are the places of the
  owner. The invariant on the order speaks of the number \<open>n\<close> of tickets issued and of the even number
  \<open>b\<close> being served: waiting threads have different tickets from \<open>b\<close> on, and while the lock is owned
  ticket \<open>b\<close> is the owner's.
\<close>

fun tk_waits :: "tk_pc \<Rightarrow> field option" where
  "tk_waits (TkLockLoad f) = Some f"
| "tk_waits (TkLockCas f c) = Some f"
| "tk_waits (TkLockWait f c) = Some f"
| "tk_waits (TkLockSleep f) = Some f"
| "tk_waits _ = None"

fun tk_holding :: "tk_pc \<Rightarrow> bool" where
  "tk_holding TkCrit = True"
| "tk_holding TkUnlLoad = True"
| "tk_holding (TkUnlXchg m) = True"
| "tk_holding _ = False"

text \<open>What the local variables say: a ticket read earlier is even, one that was found equal to
  \<open>serving\<close> is not larger than the number served now, \<open>mine\<close> is still being served, and the value
  a thread waits on has its flag set.\<close>

fun tk_local :: "nat \<Rightarrow> tk_pc \<Rightarrow> bool" where
  "tk_local b (TkTryServing ct) = even (unat ct)"
| "tk_local b (TkTlwServing ct) = even (unat ct)"
| "tk_local b (TkTryCas ct) = (unat ct \<le> b)"
| "tk_local b (TkTlwCas ct cs) = (unat ct \<le> b)"
| "tk_local b (TkUnlXchg m) = (2 * (unat m div 2) = b)"
| "tk_local b (TkLockWait f c) = odd (unat c)"
| "tk_local b (TkTlwWait c) = odd (unat c)"
| "tk_local b _ = True"

definition tk_order :: "nat \<Rightarrow> nat \<Rightarrow> (tid \<Rightarrow> tk_pc) \<Rightarrow> bool" where
  "tk_order n b pcs \<longleftrightarrow>
     even b \<and> b \<le> 2 * n \<and>
     (\<forall>t f. tk_waits (pcs t) = Some f \<longrightarrow> even (unat f) \<and> b \<le> unat f \<and> unat f < 2 * n) \<and>
     (\<forall>t u f. tk_waits (pcs t) = Some f \<longrightarrow> tk_waits (pcs u) = Some f \<longrightarrow> t = u) \<and>
     (\<forall>t. tk_holding (pcs t) \<longrightarrow> b < 2 * n \<and>
        (\<forall>u f. tk_waits (pcs u) = Some f \<longrightarrow> b < unat f) \<and> (\<forall>u. tk_holding (pcs u) \<longrightarrow> u = t)) \<and>
     (\<forall>t. tk_local b (pcs t))"

lemma tk_order_holding: "tk_order n b pcs \<Longrightarrow> tk_holding (pcs t) \<Longrightarrow> b < 2 * n"
  by (simp add: tk_order_def)

lemma tk_order_local:
  assumes "tk_order n b pcs" and "tk_waits p = tk_waits (pcs t)"
    and "tk_holding p = tk_holding (pcs t)" and "tk_local b p"
  shows "tk_order n b (pcs(t := p))"
proof -
  have "tk_waits ((pcs(t := p)) u) = tk_waits (pcs u)" "tk_holding ((pcs(t := p)) u) = tk_holding (pcs u)"
    "tk_local b ((pcs(t := p)) u)" for u
    using assms by (auto simp: tk_order_def)
  then show ?thesis using assms(1) unfolding tk_order_def by simp
qed

lemma tk_order_ticket:
  assumes "tk_order n b pcs" and "tk_waits (pcs t) = None" "\<not> tk_holding (pcs t)"
    and "tk_waits p = Some f" "\<not> tk_holding p" "tk_local b p" "unat f = 2 * n"
  shows "tk_order (Suc n) b (pcs(t := p))"
proof -
  have below: "unat g < 2 * n" if "tk_waits (pcs u) = Some g" for u g
    using assms(1) that by (auto simp: tk_order_def)
  have "unat g < 2 * Suc n" "g \<noteq> f" if "tk_waits (pcs u) = Some g" for u g
    using below [OF that] assms(7) by auto
  then show ?thesis using assms unfolding tk_order_def by auto
qed

lemma tk_order_enter:
  assumes "tk_order n b pcs" and "tk_waits (pcs t) = Some f" "unat f = b"
    and "tk_waits p = None" "tk_holding p" "tk_local b p"
  shows "tk_order n b (pcs(t := p))"
proof -
  have none: "\<not> tk_holding (pcs u)" for u using assms(1,2,3) unfolding tk_order_def by fastforce
  have "b < unat g" if "tk_waits (pcs u) = Some g" "u \<noteq> t" for u g
    using assms(1,2,3) that unfolding tk_order_def by (metis le_neq_implies_less unsigned_word_eqI)
  then show ?thesis using assms none unfolding tk_order_def by auto
qed

lemma tk_order_take:
  assumes "tk_order n b pcs" and "b = 2 * n" and "tk_waits p = None" "tk_holding p" "tk_local b p"
  shows "tk_order (Suc n) b (pcs(t := p))"
proof -
  have "\<not> tk_holding (pcs u)" "tk_waits (pcs u) = None" for u
    using assms(1,2) unfolding tk_order_def by (fastforce, meson leD not_None_eq)
  then show ?thesis using assms unfolding tk_order_def by auto
qed

lemma tk_local_advance: "tk_local b p \<Longrightarrow> \<not> tk_holding p \<Longrightarrow> tk_local (b + 2) p"
  by (cases p) auto

lemma tk_order_release:
  assumes "tk_order n b pcs" and "tk_holding (pcs t)"
    and "tk_waits p = None" "\<not> tk_holding p" "tk_local (b + 2) p"
  shows "tk_order n (b + 2) (pcs(t := p))"
proof -
  have others: "\<not> tk_holding (pcs u)" if "u \<noteq> t" for u
    using assms(1,2) that unfolding tk_order_def by blast
  have bound: "b + 2 \<le> 2 * n" "even b" using assms(1,2) unfolding tk_order_def by (fastforce elim: evenE)+
  have waits: "even (unat f) \<and> b + 2 \<le> unat f \<and> unat f < 2 * n" if "tk_waits (pcs u) = Some f" for u f
    using assms(1,2) that unfolding tk_order_def by (fastforce elim: evenE)
  have "tk_waits (pcs t) = None" using assms(2) by (cases "pcs t") auto
  then show ?thesis
    using assms others bound waits tk_local_advance unfolding tk_order_def by auto
qed

section \<open>Invariant of the lock\<close>

definition tk_base :: "'k ticket_lock \<Rightarrow> nat" where
  "tk_base s = 2 * (unat (tk_serving s) div 2)"

definition tk_order_inv :: "'k ticket_lock \<Rightarrow> bool" where
  "tk_order_inv s \<longleftrightarrow> unat (tk_ticket s) = 2 * tk_issued s \<and> tk_issued s < 2 ^ 30 - 1 \<and>
     tk_order (tk_issued s) (tk_base s) (tk_pc s)"

definition tk_sleep_inv :: "(unit, 'k) futex_kernel \<Rightarrow> 'k ticket_lock \<Rightarrow> bool" where
  "tk_sleep_inv K s \<longleftrightarrow>
     (\<forall>t. tk_asleep K s t \<longrightarrow> tk_pc s t = TkTlwSleep \<or> (\<exists>f. tk_pc s t = TkLockSleep f)) \<and>
     ((\<exists>t. tk_asleep K s t) \<longrightarrow> odd (unat (tk_serving s)) \<or> (\<exists>u. tk_pc s u = TkNotify))"

definition tk_crit :: "tid \<Rightarrow> 'k ticket_lock \<Rightarrow> bool" where
  "tk_crit t s \<longleftrightarrow> tk_pc s t = TkCrit"

definition tk_holds :: "tid \<Rightarrow> 'k ticket_lock \<Rightarrow> bool" where
  "tk_holds t s \<longleftrightarrow> tk_holding (tk_pc s t)"

lemma tk_order_invI:
  assumes "tk_order n b (tk_pc s')" "tk_issued s' = n" "tk_base s' = b" "unat (tk_ticket s') = 2 * n"
    "n < 2 ^ 30 - 1"
  shows "tk_order_inv s'"
  using assms by (simp add: tk_order_inv_def)

lemma tk_inv_local:
  assumes "tk_order_inv s" and "tk_ticket s' = tk_ticket s" "tk_issued s' = tk_issued s"
    "tk_base s' = tk_base s" "tk_pc s' = (tk_pc s)(t := p)"
    and "tk_waits p = tk_waits (tk_pc s t)" "tk_holding p = tk_holding (tk_pc s t)" "tk_local (tk_base s) p"
  shows "tk_order_inv s'"
  using assms tk_order_local [of "tk_issued s" "tk_base s" "tk_pc s" p t] by (simp add: tk_order_inv_def)

lemma tk_base_flagged [simp]: "2 * (unat ((x :: field) OR 1) div 2) = 2 * (unat x div 2)"
  by (simp add: unat_flagged)

lemma odd_flagged [simp]: "odd (unat ((x :: field) OR 1))"
  by (simp add: unat_flagged)

lemma tk_issue_ticket:
  "unat (tk_ticket s) = 2 * tk_issued s \<Longrightarrow> Suc (tk_issued s) < 2 ^ 30 - 1 \<Longrightarrow>
   unat (tk_ticket s + 2) = 2 * Suc (tk_issued s)"
  using unat_add2 [of "tk_ticket s"] by simp

lemma tk_release_base:
  assumes "2 * (unat m div 2) = b" and "b + 2 < 2 ^ 32"
  shows "2 * (unat (((m :: field) AND NOT 1) + 2) div 2) = b + 2"
proof -
  have "unat (m AND NOT 1) = b" by (simp only: unat_base assms(1))
  then have "unat ((m AND NOT 1) + 2) = b + 2" using unat_add2 [of "m AND NOT 1"] assms(2) by metis
  moreover have "2 * ((b + 2) div 2) = b + 2" using assms(1) by presburger
  ultimately show ?thesis by (simp only:)
qed

lemma tk_lock_test_cases:
  assumes "even (unat f)"
  shows "(2 * (unat c div 2) = unat f \<and> tk_lock_test f c = TkCrit) \<or>
         (even (unat c) \<and> tk_lock_test f c = TkLockCas f c) \<or>
         (odd (unat c) \<and> tk_lock_test f c = TkLockWait f c)"
  using base_eq_iff [of c f] by (auto simp: tk_lock_test_def flag_set)

text \<open>The step in which a waiting thread compares a value of \<open>serving\<close> with its ticket.\<close>

lemma tk_lock_test_order:
  assumes inv: "tk_order_inv s" and w: "tk_waits (tk_pc s t) = Some f"
  shows "tk_order_inv (tk_goto t (tk_lock_test f (tk_serving s)) s)"
proof -
  have ord: "tk_order (tk_issued s) (tk_base s) (tk_pc s)" and
    num: "unat (tk_ticket s) = 2 * tk_issued s" "tk_issued s < 2 ^ 30 - 1"
    using inv by (auto simp: tk_order_inv_def)
  have f: "even (unat f)" "tk_base s \<le> unat f" using ord w by (auto simp: tk_order_def)
  have noh: "\<not> tk_holding (tk_pc s t)" using w by (cases "tk_pc s t") auto
  show ?thesis using tk_lock_test_cases [OF f(1), of "tk_serving s"]
  proof (elim disjE conjE)
    assume enter: "2 * (unat (tk_serving s) div 2) = unat f" "tk_lock_test f (tk_serving s) = TkCrit"
    have "tk_order (tk_issued s) (tk_base s) ((tk_pc s)(t := TkCrit))"
      by (rule tk_order_enter [OF ord w]) (use enter in \<open>auto simp: tk_base_def\<close>)
    then show ?thesis using enter num by (simp add: tk_order_inv_def tk_goto_def tk_base_def)
  qed (use inv w noh in \<open>auto intro!: tk_inv_local [where s = s and t = t] simp: tk_goto_def tk_base_def\<close>)
qed

lemma tk_flag_test_local:
  "tk_waits (tk_tlw_flag_test c) = None \<and> \<not> tk_holding (tk_tlw_flag_test c) \<and> tk_local b (tk_tlw_flag_test c)"
  by (auto simp: tk_tlw_flag_test_def flag_set)

lemma tk_take_order:
  assumes inv: "tk_order_inv s" and le: "unat (tk_ticket s) \<le> tk_base s"
    and new: "Suc (tk_issued s) < 2 ^ 30 - 1"
  shows "tk_order_inv (tk_goto t TkCrit (tk_issue (tk_ticket s + 2) s))"
proof (rule tk_order_invI)
  have "tk_base s = 2 * tk_issued s" using inv le by (auto simp: tk_order_inv_def tk_order_def)
  then show "tk_order (Suc (tk_issued s)) (tk_base s) (tk_pc (tk_goto t TkCrit (tk_issue (tk_ticket s + 2) s)))"
    using inv by (auto simp: tk_order_inv_def tk_goto_def tk_issue_def intro: tk_order_take)
qed (use inv new tk_issue_ticket [of s] in \<open>auto simp: tk_goto_def tk_issue_def tk_base_def tk_order_inv_def\<close>)

lemma tk_go_order:
  assumes inv: "tk_order_inv s" and st: "tk_go K t s = Some s'" and bound: "tk_issued s' < 2 ^ 30 - 1"
  shows "tk_order_inv s'"
proof -
  have ord: "tk_order (tk_issued s) (tk_base s) (tk_pc s)" and
    num: "unat (tk_ticket s) = 2 * tk_issued s" "tk_issued s < 2 ^ 30 - 1"
    using inv by (auto simp: tk_order_inv_def)
  have loc: "tk_local (tk_base s) (tk_pc s t)" using ord by (auto simp: tk_order_def)
  note local = tk_inv_local [OF inv, where t = t]
  show ?thesis
  proof (cases "tk_pc s t")
    case TkLockFetch
    then have s': "s' = tk_goto t (TkLockLoad (tk_ticket s)) (tk_issue (tk_ticket s + 2) s)" using st by (simp add: tk_ops)
    then have new: "Suc (tk_issued s) < 2 ^ 30 - 1" using bound by (simp add: tk_goto_def tk_issue_def)
    show ?thesis
      by (rule tk_order_invI [where n = "Suc (tk_issued s)" and b = "tk_base s"])
        (use TkLockFetch s' new num tk_issue_ticket [OF num(1) new]
          tk_order_ticket [OF ord, of t "TkLockLoad (tk_ticket s)"]
          in \<open>auto simp: tk_goto_def tk_issue_def tk_base_def\<close>)
  next
    case (TkLockLoad f)
    then show ?thesis using st tk_lock_test_order [OF inv, of t f] by (simp add: tk_go_def tk_lock_def)
  next
    case (TkLockCas f c)
    then show ?thesis using st tk_lock_test_order [OF inv, of t f]
      by (auto intro!: local simp: tk_go_def tk_lock_def tk_goto_def tk_base_def split: if_splits option.splits)
  next
    case (TkUnlXchg m)
    have hold: "tk_holding (tk_pc s t)" using TkUnlXchg by simp
    then have "tk_base s < 2 * tk_issued s" "even (tk_base s)" using ord by (auto simp: tk_order_def)
    then have small: "tk_base s + 2 < 2 ^ 32" using num(2) by (auto elim!: evenE)
    have mine: "2 * (unat m div 2) = tk_base s" using loc TkUnlXchg by simp
    have served: "tk_serving s' = (m AND NOT 1) + 2"
      using st TkUnlXchg by (auto simp: tk_ops split: if_splits option.splits)
    have base: "tk_base s' = tk_base s + 2"
      unfolding tk_base_def [of s'] served by (rule tk_release_base [OF mine small])
    have "tk_order (tk_issued s) (tk_base s + 2) (tk_pc s')"
      using tk_order_release [OF ord hold] st TkUnlXchg by (auto simp: tk_ops split: if_splits option.splits)
    then show ?thesis using base num st TkUnlXchg
      by (auto simp: tk_ops tk_order_inv_def split: if_splits option.splits)
  next
    case (TkTryCas ct)
    show ?thesis
    proof (cases "tk_ticket s = ct")
      case True
      then have "s' = tk_goto t TkCrit (tk_issue (tk_ticket s + 2) s)" using TkTryCas st by (auto simp: tk_ops split: if_splits)
      then show ?thesis using tk_take_order [OF inv, of t] loc TkTryCas True bound
        by (simp add: tk_goto_def tk_issue_def)
    next
      case False
      then show ?thesis using TkTryCas st by (auto intro!: local simp: tk_ops tk_base_def split: if_splits)
    qed
  next
    case (TkTlwCas ct cs)
    show ?thesis
    proof (cases "tk_ticket s = ct")
      case True
      then have "s' = tk_goto t TkCrit (tk_issue (tk_ticket s + 2) s)" using TkTlwCas st by (auto simp: tk_ops split: if_splits)
      then show ?thesis using tk_take_order [OF inv, of t] loc TkTlwCas True bound
        by (simp add: tk_goto_def tk_issue_def)
    next
      case False
      then show ?thesis using TkTlwCas st tk_flag_test_local [of cs]
        by (auto intro!: local simp: tk_ops tk_base_def split: if_splits)
    qed
  next
    case (TkTlwServing ct)
    then have "even (unat ct)" using loc by simp
    then show ?thesis using TkTlwServing st ticket_or_flag_eq [of ct] tk_flag_test_local [of "tk_serving s"]
      by (auto intro!: local simp: tk_ops tk_base_def split: if_splits option.splits)
  next
    case (TkTryServing ct)
    then have "even (unat ct)" using loc by simp
    then show ?thesis using TkTryServing st
      by (auto intro!: local simp: tk_ops tk_base_def split: if_splits option.splits)
  qed (use st num in \<open>auto intro!: local simp: tk_ops tk_base_def split: if_splits prod.splits option.splits\<close>)
qed

text \<open>Sleepers and the flag.\<close>

lemma tk_go_frame: "tk_go K t s = Some s' \<Longrightarrow> u \<noteq> t \<Longrightarrow> tk_pc s' u = tk_pc s u"
  by (auto simp: tk_ops split: tk_pc.splits if_splits prod.splits option.splits)

lemma tk_go_sleep:
  assumes K: "futex_ok K" and ord: "tk_order_inv s" and inv: "tk_sleep_inv K s"
    and st: "tk_go K t s = Some s'"
  shows "tk_sleep_inv K s'"
proof -
  have loc: "tk_local (tk_base s) (tk_pc s t)" using ord by (auto simp: tk_order_inv_def tk_order_def)
  have asleep: "tk_pc s u = TkTlwSleep \<or> (\<exists>f. tk_pc s u = TkLockSleep f)" if "tk_asleep K s u" for u
    using inv that by (auto simp: tk_sleep_inv_def)
  have sleepers: "tk_asleep K s' u \<Longrightarrow> tk_asleep K s u \<and> u \<noteq> t \<or>
      u = t \<and> (tk_pc s' t = TkTlwSleep \<or> (\<exists>f. tk_pc s' t = TkLockSleep f)) \<and> odd (unat (tk_serving s'))" for u
    using st asleep [of u] loc
    by (cases "tk_pc s t")
      (auto simp: tk_ops tk_asleep_def futex_wait_blocked [OF K]
        dest: futex_wake_blocked [OF K] split: if_splits prod.splits option.splits)
  have waker: "odd (unat (tk_serving s')) \<or> (\<exists>u. tk_pc s' u = TkNotify)"
    if "tk_asleep K s' u" "tk_asleep K s u" for u
  proof -
    from that(2) inv consider "odd (unat (tk_serving s))" | v where "tk_pc s v = TkNotify"
      by (auto simp: tk_sleep_inv_def)
    then show ?thesis
    proof cases
      case 1
      then show ?thesis using st
        by (cases "tk_pc s t") (auto simp: tk_ops flag_set split: if_splits prod.splits option.splits)
    next
      case 2
      show ?thesis
      proof (cases "v = t")
        case False
        then show ?thesis using tk_go_frame [OF st, of v] 2 by auto
      next
        case True
        obtain w k where wk: "k_wake K () wake_at_once (tk_kernel s) = (w, k)" by fastforce
        have "w \<le> wake_at_once" by (rule futex_wake_count [OF K wk])
        moreover have "\<not> k_blocked K k () u" if "w < wake_at_once"
          by (rule futex_wake_all [OF K wk that])
        ultimately show ?thesis using st 2 that(1) True wk
          by (auto simp: tk_ops tk_asleep_def split: if_splits option.splits)
      qed
    qed
  qed
  show ?thesis unfolding tk_sleep_inv_def
  proof (intro conjI allI impI)
    fix u
    assume "tk_asleep K s' u"
    then show "tk_pc s' u = TkTlwSleep \<or> (\<exists>f. tk_pc s' u = TkLockSleep f)"
      using sleepers [of u] asleep [of u] tk_go_frame [OF st, of u] by auto
  next
    assume "\<exists>u. tk_asleep K s' u"
    then obtain u where "tk_asleep K s' u" by blast
    then show "odd (unat (tk_serving s')) \<or> (\<exists>u. tk_pc s' u = TkNotify)"
      using sleepers [of u] waker [of u] by blast
  qed
qed

section \<open>The contract, for the first \<open>2 ^ 30 - 2\<close> tickets\<close>

text \<open>
  After \<open>2 ^ 30 - 1\<close> tickets the next addition of \<open>try_lock\<close> overflows. The contract is proved for the
  lock up to that horizon: \<open>ticket_step_until N\<close> are the steps of the lock that keep the number of
  tickets issued below \<open>N\<close>.
\<close>

definition ticket_step_until ::
  "nat \<Rightarrow> (unit, 'k) futex_kernel \<Rightarrow> tid \<times> lock_act \<Rightarrow> 'k ticket_lock \<Rightarrow> 'k ticket_lock option"
where
  "ticket_step_until N K l s =
     (case ticket_step K l s of None \<Rightarrow> None | Some s' \<Rightarrow> if tk_issued s' < N then Some s' else None)"

definition ticket_inv :: "(unit, 'k) futex_kernel \<Rightarrow> 'k ticket_lock \<Rightarrow> bool" where
  "ticket_inv K s \<longleftrightarrow> tk_order_inv s \<and> tk_sleep_inv K s"

lemma ticket_step_issued: "ticket_step K l s = Some s' \<Longrightarrow> tk_issued s \<le> tk_issued s'"
proof (cases "(K, l, s)" rule: ticket_step.cases)
  case (1 K0 t s0)
  then show "ticket_step K l s = Some s' \<Longrightarrow> tk_issued s \<le> tk_issued s'"
    by (auto simp: tk_ops split: tk_pc.splits if_splits prod.splits option.splits)
qed (auto simp: tk_goto_def)

lemma ticket_run_issued: "run (ticket_step K) ls s = Some s' \<Longrightarrow> tk_issued s \<le> tk_issued s'"
  by (induction ls arbitrary: s) (auto split: option.splits dest: ticket_step_issued intro: le_trans)

lemma run_until_step:
  assumes r: "run (ticket_step K) (l # ls) s = Some s'" and b: "tk_issued s' < N"
  obtains s1 where "ticket_step K l s = Some s1" "run (ticket_step K) ls s1 = Some s'"
    "ticket_step_until N K l s = Some s1"
proof -
  obtain s1 where s1: "ticket_step K l s = Some s1" "run (ticket_step K) ls s1 = Some s'"
    using r by (auto split: option.splits)
  moreover have "tk_issued s1 < N" using ticket_run_issued [OF s1(2)] b by simp
  ultimately show ?thesis using that by (simp add: ticket_step_until_def)
qed

lemma run_until:
  assumes "run (ticket_step K) ls s = Some s'" and "tk_issued s' < N"
  shows "run (ticket_step_until N K) ls s = Some s'"
  using assms
proof (induction ls arbitrary: s)
  case (Cons l ls)
  then show ?case by (elim run_until_step) auto
qed simp

lemma trace_until:
  assumes "run (ticket_step K) ls s = Some s'" and "tk_issued s' < N"
  shows "trace (ticket_step_until N K) (lock_events (ticket_step_until N K) holds) ls s
         = trace (ticket_step K) (lock_events (ticket_step K) holds) ls s"
  using assms
proof (induction ls arbitrary: s)
  case (Cons l ls)
  show ?case by (rule run_until_step [OF Cons.prems]) (use Cons in \<open>auto simp: lock_events_def\<close>)
qed simp

lemma tk_call_pcs:
  "tk_call a p = Some p' \<Longrightarrow>
   tk_waits p' = None \<and> tk_waits p = None \<and> tk_holding p' = tk_holding p \<and> tk_local b p' \<and>
   p \<noteq> TkTlwSleep \<and> p \<noteq> TkNotify \<and> p \<noteq> TkLockSleep f"
  by (cases "(a, p)" rule: tk_call.cases) auto

lemma tk_call_inv:
  assumes inv: "ticket_inv K s" and call: "tk_call a (tk_pc s t) = Some p"
  shows "ticket_inv K (tk_goto t p s)"
  unfolding ticket_inv_def
proof
  show "tk_order_inv (tk_goto t p s)"
    using inv tk_call_pcs [OF call]
    by (auto simp: ticket_inv_def tk_goto_def tk_base_def intro!: tk_inv_local [where s = s and t = t])
  have sl: "tk_sleep_inv K s" using inv by (simp add: ticket_inv_def)
  have awake: "\<not> tk_asleep K s t" and "tk_pc s t \<noteq> TkNotify"
    using sl tk_call_pcs [OF call] by (auto simp: tk_sleep_inv_def)
  then have "tk_pc s u = TkNotify \<Longrightarrow> tk_pc (tk_goto t p s) u = TkNotify" for u
    by (auto simp: tk_goto_def)
  moreover have "tk_asleep K (tk_goto t p s) u = tk_asleep K s u"
      "tk_asleep K s u \<Longrightarrow> tk_pc (tk_goto t p s) u = tk_pc s u" for u
    using awake by (auto simp: tk_goto_def tk_asleep_def)
  ultimately show "tk_sleep_inv K (tk_goto t p s)"
    using sl unfolding tk_sleep_inv_def by (metis tk_goto_serving)
qed

lemma ticket_step_inv:
  assumes K: "futex_ok K" and inv: "ticket_inv K s" and st: "ticket_step_until (2 ^ 30 - 1) K l s = Some s'"
  shows "ticket_inv K s'"
proof -
  have st': "ticket_step K l s = Some s'" "tk_issued s' < 2 ^ 30 - 1"
    using st by (auto simp: ticket_step_until_def split: option.splits if_splits)
  obtain t a where l: "l = (t, a)" by (cases l)
  show ?thesis
  proof (cases a)
    case Go
    then show ?thesis using st' inv l tk_go_order [of s K t s'] tk_go_sleep [OF K, of s t s']
      by (simp add: ticket_inv_def)
  next
    case Intr
    then have "s' = s\<lparr>tk_kernel := k_intr K t (tk_kernel s)\<rparr>" using st' l by simp
    then show ?thesis using inv
      by (auto simp: ticket_inv_def tk_order_inv_def tk_base_def tk_sleep_inv_def tk_asleep_def
          futex_intr_blocked [OF K])
  qed (use st'(1) l inv in \<open>auto intro: tk_call_inv\<close>)
qed

lemma ticket_step_frame: "ticket_step K (t, a) s = Some s' \<Longrightarrow> u \<noteq> t \<Longrightarrow> tk_pc s' u = tk_pc s u"
  by (cases a) (auto simp: tk_goto_def dest: tk_go_frame)

lemma ticket_lock_impl:
  assumes K: "futex_ok K"
  shows "lock_impl (ticket_step_until (2 ^ 30 - 1) K) (ticket_init K) (ticket_inv K) tk_holds tk_crit tk_is_locked"
proof unfold_locales
  show "ticket_inv K (ticket_init K)"
    by (auto simp: ticket_inv_def tk_order_inv_def tk_order_def tk_sleep_inv_def tk_asleep_def
        ticket_init_def tk_base_def futex_init_blocked [OF K])
  show "\<And>s l s'. ticket_inv K s \<Longrightarrow> ticket_step_until (2 ^ 30 - 1) K l s = Some s' \<Longrightarrow> ticket_inv K s'"
    by (rule ticket_step_inv [OF K])
  show "\<And>s t a s' u. ticket_inv K s \<Longrightarrow> ticket_step_until (2 ^ 30 - 1) K (t, a) s = Some s' \<Longrightarrow> u \<noteq> t \<Longrightarrow>
      tk_holds u s' = tk_holds u s"
    by (auto simp: tk_holds_def ticket_step_until_def ticket_step_frame split: option.splits if_splits)
  show "\<And>s t u. ticket_inv K s \<Longrightarrow> tk_holds t s \<Longrightarrow> tk_holds u s \<Longrightarrow> t = u"
    unfolding ticket_inv_def tk_order_inv_def tk_order_def tk_holds_def by metis
  fix s t
  assume inv: "ticket_inv K s" and crit: "tk_crit t s"
  then have "tk_base s < unat (tk_ticket s)" "even (unat (tk_ticket s))"
    by (auto simp: ticket_inv_def tk_order_inv_def tk_crit_def dest: tk_order_holding [of _ _ _ t])
  then show "tk_is_locked s" by (auto simp: tk_is_locked_def tk_base_def)
qed (auto simp: tk_holds_def tk_crit_def ticket_init_def)

interpretation list_ticket: lock_impl "ticket_step_until (2 ^ 30 - 1) list_kernel" "ticket_init list_kernel"
  "ticket_inv list_kernel" tk_holds tk_crit tk_is_locked
  by (rule ticket_lock_impl [OF list_kernel_ok])

lemma ticket_inv_run:
  assumes K: "futex_ok K" and r: "run (ticket_step K) ls (ticket_init K) = Some s"
    and bound: "tk_issued s < 2 ^ 30 - 1"
  shows "ticket_inv K s"
  by (rule invariant_system.inv_reachable [OF lock_impl.axioms(1) [OF ticket_lock_impl [OF K]]
        run_reachable [OF run_until [OF r bound]]])

text \<open>The additions of type \<open>int\<close> that a thread is about to make.\<close>

definition tk_overflows :: "tk_pc \<Rightarrow> bool" where
  "tk_overflows p \<longleftrightarrow>
     (case p of
        TkUnlXchg mine \<Rightarrow> plus2 (mine AND NOT 1) = None
      | TkTryCas ct \<Rightarrow> plus2 ct = None
      | TkTlwCas ct cs \<Rightarrow> plus2 ct = None
      | _ \<Rightarrow> False)"

lemma tk_order_no_overflow:
  assumes ord: "tk_order n b pcs" and n: "n < 2 ^ 30 - 1"
  shows "\<not> tk_overflows (pcs t)"
proof -
  have b: "b + 2 < 2 ^ 31" using ord n by (simp add: tk_order_def)
  have loc: "tk_local b (pcs t)" using ord by (simp add: tk_order_def)
  show ?thesis
  proof (cases "pcs t")
    case (TkUnlXchg m)
    then have "unat (m AND NOT 1) = b" using loc by (simp only: unat_base tk_local.simps)
    then show ?thesis using plus2_defined [of "m AND NOT 1"] b TkUnlXchg by (simp only: tk_overflows_def tk_pc.case) simp
  next
    case (TkTryCas ct)
    then show ?thesis using plus2_defined [of ct] b loc by (simp add: tk_overflows_def del: plus2_Some)
  next
    case (TkTlwCas ct cs)
    then show ?thesis using plus2_defined [of ct] b loc by (simp add: tk_overflows_def del: plus2_Some)
  qed (simp_all add: tk_overflows_def)
qed

section \<open>Correctness\<close>

text \<open>
  C21. The ticket lock is a lock for its first \<open>2 ^ 30 - 2\<close> tickets: on every kernel with the documented
  futex behaviour, in every run that hands out fewer than \<open>2 ^ 30 - 1\<close> tickets no addition of type \<open>int\<close>
  overflows, and the run is, seen through acquisitions and releases, a run of a lock with one owner;
  a thread whose locking call returned is that owner and sees \<open>is_locked\<close> true.
\<close>
theorem ticket_correct:
  assumes K: "futex_ok K" and r: "run (ticket_step K) ls (ticket_init K) = Some s"
    and bound: "tk_issued s < 2 ^ 30 - 1"
  shows "(\<exists>h. run alock_step (trace (ticket_step K) (lock_events (ticket_step K) tk_holds) ls (ticket_init K)) None = Some h
             \<and> owner_rel tk_holds s h \<and> (\<forall>t. tk_crit t s \<longrightarrow> h = Some t \<and> tk_is_locked s)) \<and>
    (\<forall>t. \<not> tk_overflows (tk_pc s t))"
proof -
  have "tk_order (tk_issued s) (tk_base s) (tk_pc s)"
    using ticket_inv_run [OF K r bound] by (simp add: ticket_inv_def tk_order_inv_def)
  then have "\<not> tk_overflows (tk_pc s t)" for t using tk_order_no_overflow bound by blast
  then show ?thesis
    using lock_impl.linearizable [OF ticket_lock_impl [OF K] run_until [OF r bound]] trace_until [OF r bound] by metis
qed

theorem ticket_correct_witness:
  "\<exists>s h. run (ticket_step list_kernel)
           [(0, Lock), (1, Lock), (0, Go), (1, Go), (0, Go), (1, Go), (1, Go), (1, Go),
            (0, Unlock), (0, Go), (0, Go), (0, Go), (1, Go), (1, Go)]
           (ticket_init list_kernel) = Some s \<and> h = Some 1 \<and> owner_rel tk_holds s h"
proof -
  let ?ls = "[(0, Lock), (1, Lock), (0, Go), (1, Go), (0, Go), (1, Go), (1, Go), (1, Go),
            (0, Unlock), (0, Go), (0, Go), (0, Go), (1, Go), (1, Go)]"
  obtain s where s: "run (ticket_step list_kernel) ?ls (ticket_init list_kernel) = Some s"
      "tk_crit 1 s" "tk_issued s < 2 ^ 30 - 1"
    by (simp add: tk_ops tk_lock_test_def tk_crit_def tk_asleep_def ticket_init_def list_kernel_def
        wake_at_once_def)
  from ticket_correct [OF list_kernel_ok s(1,3)] s show ?thesis by blast
qed

text \<open>
  C31. The ticket lock is fair up to its horizon: in every run that has handed out fewer than \<open>2 ^ 30 - 1\<close>
  tickets, while a thread waits in \<open>lock\<close>, only threads that took an earlier ticket enter the critical
  section before it; in particular \<open>try_lock\<close> and \<open>try_lock_or_wait\<close> never overtake it.
\<close>
theorem ticket_fifo:
  assumes K: "futex_ok K" and r: "run (ticket_step K) ls (ticket_init K) = Some s"
    and bound: "tk_issued s < 2 ^ 30 - 1" and waiting: "tk_waits (tk_pc s t) = Some f"
    and st: "ticket_step K (u, a) s = Some s'" and enters: "\<not> tk_crit u s" "tk_crit u s'"
  shows "\<exists>g. tk_waits (tk_pc s u) = Some g \<and> (u = t \<or> unat g < unat f)"
proof -
  have num: "unat (tk_ticket s) = 2 * tk_issued s" and ord: "tk_order (tk_issued s) (tk_base s) (tk_pc s)"
    using ticket_inv_run [OF K r bound] by (auto simp: ticket_inv_def tk_order_inv_def)
  have f: "tk_base s \<le> unat f" "unat f < unat (tk_ticket s)"
    using ord waiting num by (auto simp: tk_order_def)
  have loc: "tk_local (tk_base s) (tk_pc s u)" using ord by (simp add: tk_order_def)
  have go: "tk_go K u s = Some s'"
    using st enters by (cases a) (auto simp: tk_crit_def tk_goto_def elim: tk_call.elims)
  have enter: "\<exists>g. tk_waits (tk_pc s u) = Some g \<and> unat g = tk_base s"
    using go enters loc f
    by (cases "tk_pc s u")
      (auto simp: tk_ops tk_crit_def tk_lock_test_def tk_tlw_flag_test_def base_eq_iff tk_base_def
        unat_base [simplified] split: if_splits prod.splits option.splits)
  then obtain g where g: "tk_waits (tk_pc s u) = Some g" "unat g = tk_base s" by blast
  have "u = t" if "unat g = unat f"
    using ord g(1) waiting word_unat_eq_iff that unfolding tk_order_def by metis
  then show ?thesis using g f by fastforce
qed

text \<open>Thread 0 holds the lock, 1 and 2 wait with tickets 2 and 4; once 0 has left, 1 enters.\<close>
theorem ticket_fifo_witness:
  "\<exists>s s' g. run (ticket_step list_kernel)
       [(0, Lock), (0, Go), (0, Go), (1, Lock), (1, Go), (2, Lock), (2, Go), (0, Unlock), (0, Go), (0, Go)]
       (ticket_init list_kernel) = Some s \<and> tk_waits (tk_pc s 2) = Some 4 \<and>
     ticket_step list_kernel (1, Go) s = Some s' \<and> tk_crit 1 s' \<and>
     tk_waits (tk_pc s 1) = Some g \<and> unat g < 4"
proof -
  let ?ls = "[(0, Lock), (0, Go), (0, Go), (1, Lock), (1, Go), (2, Lock), (2, Go), (0, Unlock), (0, Go), (0, Go)]"
  obtain s s' where s: "run (ticket_step list_kernel) ?ls (ticket_init list_kernel) = Some s"
      "tk_issued s < 2 ^ 30 - 1" "tk_waits (tk_pc s 2) = Some 4"
      "ticket_step list_kernel (1, Go) s = Some s'" "\<not> tk_crit 1 s" "tk_crit 1 s'"
    by (simp add: tk_ops tk_lock_test_def tk_crit_def tk_asleep_def ticket_init_def list_kernel_def)
  from ticket_fifo [OF list_kernel_ok s(1,2,3,4,5,6)] s show ?thesis by auto
qed

text \<open>
  C33. \<open>try_lock_or_wait\<close> can sleep on a free lock. It reads \<open>ticket\<close> before \<open>serving\<close>; when another
  thread takes and releases the lock in between, the two differ, the flag is set in the released
  word, and the caller goes to sleep with nobody left to wake it. From then on \<open>is_locked\<close> is
  true and \<open>try_lock\<close> fails for every thread, although nobody holds the lock.
\<close>
theorem ticket_sleeps_on_free_lock:
  assumes K: "futex_ok K"
  shows "\<exists>s. run (ticket_step K)
           [(0, TryLockOrWait), (0, Go), (1, Lock), (1, Go), (1, Go), (1, Unlock), (1, Go), (1, Go),
            (0, Go), (0, Go), (0, Go)] (ticket_init K) = Some s \<and>
         tk_asleep K s 0 \<and> (\<forall>u. u \<noteq> 0 \<longrightarrow> tk_pc s u = TkIdle) \<and> (\<forall>u. \<not> tk_holds u s) \<and>
         tk_is_locked s \<and>
         (\<forall>u. u \<noteq> 0 \<longrightarrow> run (ticket_step K) [(u, TryLock), (u, Go), (u, Go)] s = Some s)"
proof -
  let ?ls = "[(0, TryLockOrWait), (0, Go), (1, Lock), (1, Go), (1, Go), (1, Unlock), (1, Go), (1, Go),
            (0, Go), (0, Go), (0, Go)]"
  let ?s = "\<lparr>tk_ticket = 2, tk_serving = 3, tk_pc = (\<lambda>_. TkIdle)(0 := TkTlwSleep),
             tk_kernel = k_wait K 0 () 3 3 (k_init K), tk_issued = 1\<rparr>"
  have "run (ticket_step K) ?ls (ticket_init K) = Some ?s"
    by (simp add: tk_ops tk_lock_test_def tk_tlw_flag_test_def ticket_init_def fun_upd_twist fun_eq_iff)
  moreover have "run (ticket_step K) [(u, TryLock), (u, Go), (u, Go)] ?s = Some ?s" if "u \<noteq> 0" for u
    using that by (simp add: tk_ops fun_eq_iff)
  ultimately show ?thesis
    by (intro exI [of _ ?s])
      (simp add: tk_asleep_def tk_holds_def tk_is_locked_def futex_wait_blocked [OF K])
qed

theorem ticket_sleeps_on_free_lock_witness:
  "\<exists>s. tk_asleep list_kernel s 0 \<and> (\<forall>u. \<not> tk_holds u s) \<and> tk_is_locked s"
  using ticket_sleeps_on_free_lock [OF list_kernel_ok] by blast

text \<open>
  A full \<open>lock\<close> and \<open>unlock\<close> by thread 1 on a free lock, and \<open>n\<close> of them.
\<close>

definition tk_cycle :: "(tid \<times> lock_act) list" where
  "tk_cycle = [(1, Lock), (1, Go), (1, Go), (1, Unlock), (1, Go), (1, Go)]"

definition tk_served :: "(unit, 'k) futex_kernel \<Rightarrow> nat \<Rightarrow> 'k ticket_lock" where
  "tk_served K n =
     \<lparr>tk_ticket = of_nat (2 * n), tk_serving = of_nat (2 * n), tk_pc = (\<lambda>_. TkIdle), tk_kernel = k_init K,
      tk_issued = n\<rparr>"

lemma even_ticket: "even (unat (of_nat (2 * n) :: field))"
  using odd_unat [of "of_nat (2 * n)"] by (simp add: bit_0)

lemma even_word_base: "even (unat (x :: field)) \<Longrightarrow> x AND NOT 1 = x"
  by (simp only: base_eq_iff) simp

lemma tk_cycle_once:
  assumes "n < 2 ^ 30 - 1"
  shows "run (ticket_step K) tk_cycle (tk_served K n) = Some (tk_served K (Suc n))"
proof -
  let ?x = "of_nat (2 * n) :: field"
  have x: "?x AND NOT 1 = ?x" "?x AND 1 \<noteq> 1" and next_x: "of_nat (2 * Suc n) = ?x + 2"
    using even_ticket [of n] by (simp_all only: even_word_base flag_set) simp_all
  have "unat ?x = 2 * n" using assms by (simp add: unat_of_nat del: of_nat_mult)
  then have "plus2 ?x = Some (?x + 2)" using assms by (intro plus2_defined) simp
  then have "sint ?x < 2147483646" by (simp del: of_nat_mult)
  then show ?thesis
    using x unfolding tk_served_def next_x
    by (simp add: tk_cycle_def tk_ops tk_lock_test_def fun_eq_iff del: of_nat_mult)
qed

lemma tk_cycles:
  "n \<le> 2 ^ 30 - 1 \<Longrightarrow> run (ticket_step K) (concat (replicate n tk_cycle)) (ticket_init K) = Some (tk_served K n)"
proof (induction n)
  case (Suc n)
  have "concat (replicate (Suc n) tk_cycle) = concat (replicate n tk_cycle) @ tk_cycle"
    by (induction n) auto
  then show ?case using Suc by (simp add: run_append tk_cycle_once)
qed (simp add: tk_served_def ticket_init_def)

text \<open>
  The horizon of the ticket lock is exact. After \<open>2 ^ 30 - 1\<close> uncontended acquisitions the lock is free, and the
  next use of it overflows an \<open>int\<close>: a \<open>try_lock\<close>, on any kernel, computes \<open>current_ticket + 2\<close>, and a thread
  that enters by \<open>lock\<close> computes \<open>(mine & ~1) + 2\<close> in its \<open>unlock\<close>.
\<close>
theorem ticket_overflows:
  "\<exists>ls s. run (ticket_step K) ls (ticket_init K) = Some s \<and> tk_issued s = 2 ^ 30 - 1 \<and> (\<forall>t. tk_pc s t = TkIdle) \<and>
     (\<exists>u. run (ticket_step K) [(0, TryLock), (0, Go), (0, Go)] s = Some u \<and> tk_overflows (tk_pc u 0) \<and>
        ticket_step K (0, Go) u = None) \<and>
     (\<exists>u. run (ticket_step K) [(1, Lock), (1, Go), (1, Go), (1, Unlock), (1, Go)] s = Some u \<and> tk_overflows (tk_pc u 1) \<and>
        ticket_step K (1, Go) u = None)"
proof -
  let ?s = "tk_served K (2 ^ 30 - 1)"
  have "run (ticket_step K) (concat (replicate (2 ^ 30 - 1) tk_cycle)) (ticket_init K) = Some ?s"
    by (rule tk_cycles) (rule order_refl)
  moreover have "tk_issued ?s = 2 ^ 30 - 1" "\<forall>t. tk_pc ?s t = TkIdle" by (simp_all add: tk_served_def)
  moreover have "\<exists>u. run (ticket_step K) [(0, TryLock), (0, Go), (0, Go)] ?s = Some u \<and> tk_overflows (tk_pc u 0) \<and>
      ticket_step K (0, Go) u = None"
    by (simp add: tk_served_def tk_ops tk_overflows_def)
  moreover have "\<exists>u. run (ticket_step K) [(1, Lock), (1, Go), (1, Go), (1, Unlock), (1, Go)] ?s = Some u \<and>
      tk_overflows (tk_pc u 1) \<and> ticket_step K (1, Go) u = None"
    by (simp add: tk_served_def tk_ops tk_overflows_def tk_lock_test_def)
  ultimately show ?thesis by blast
qed

end
