(* ===== verification/Queue_Lock.thy ===== *)
theory Queue_Lock
  imports Lock_Spec
begin

text \<open>
  What the two MCS locks have in common: the contract of a lock whose threads queue up, and the
  chain of nodes that implements the queue. A node belongs to one thread and is named by it.
\<close>

section \<open>The field of a node\<close>

text \<open>\<open>enum field_t { free, taken, contended }\<close>; \<open>mcs_lock\<close> does not use \<open>contended\<close>.\<close>

datatype mcs_field = Free | Taken | Contended

fun mcs_field_val :: "mcs_field \<Rightarrow> int" where
  "mcs_field_val Free = 0"
| "mcs_field_val Taken = 1"
| "mcs_field_val Contended = 2"

lemma mcs_field_val_eq [simp]: "mcs_field_val x = mcs_field_val y \<longleftrightarrow> x = y"
  by (cases x; cases y) auto

section \<open>The abstract queue lock\<close>

text \<open>A thread joins the queue at the end, and the first thread leaves it. The first may own the lock.\<close>

datatype ql_event = Joins tid | Leaves tid

fun ql_step :: "ql_event \<Rightarrow> tid list \<Rightarrow> tid list option" where
  "ql_step (Joins t) q = (if t \<in> set q then None else Some (q @ [t]))"
| "ql_step (Leaves t) q = (case q of [] \<Rightarrow> None | x # xs \<Rightarrow> if x = t then Some xs else None)"

fun ql_joined :: "ql_event list \<Rightarrow> tid list" where
  "ql_joined [] = []"
| "ql_joined (Joins t # es) = t # ql_joined es"
| "ql_joined (Leaves t # es) = ql_joined es"

fun ql_left :: "ql_event list \<Rightarrow> tid list" where
  "ql_left [] = []"
| "ql_left (Joins t # es) = ql_left es"
| "ql_left (Leaves t # es) = t # ql_left es"

lemma ql_fifo: "run ql_step es q = Some q' \<Longrightarrow> q @ ql_joined es = ql_left es @ q'"
proof (induction es arbitrary: q)
  case (Cons ev es)
  obtain q1 where q1: "ql_step ev q = Some q1" "run ql_step es q1 = Some q'"
    using Cons.prems by (auto split: option.splits)
  then show ?case using Cons.IH [OF q1(2)]
    by (cases "(ev, q)" rule: ql_step.cases) (auto split: if_splits list.splits)
qed simp

section \<open>The contract\<close>

locale queue_lock = forward_simulation step init ql_step "[]" rel ev
  for step :: "tid \<times> lock_act \<Rightarrow> 's \<Rightarrow> 's option" and init :: 's
    and rel :: "'s \<Rightarrow> tid list \<Rightarrow> bool" and ev :: "'s \<Rightarrow> tid \<times> lock_act \<Rightarrow> ql_event list" +
  fixes holds :: "tid \<Rightarrow> 's \<Rightarrow> bool"
    and crit :: "tid \<Rightarrow> 's \<Rightarrow> bool"
    and locked :: "'s \<Rightarrow> bool"
  assumes holds_init: "\<not> holds t init"
    and holds_head: "rel s q \<Longrightarrow> holds t s \<Longrightarrow> q \<noteq> [] \<and> hd q = t"
    and holds_frame: "step (t, a) s = Some s' \<Longrightarrow> u \<noteq> t \<Longrightarrow> holds u s' = holds u s"
    and holds_crit: "crit t s \<Longrightarrow> holds t s"
    and rel_locked: "rel s q \<Longrightarrow> q \<noteq> [] \<Longrightarrow> locked s"
begin

text \<open>Threads leave in the order in which they joined, and only the first in the queue owns the lock.\<close>

lemma fifo:
  assumes "run step ls init = Some s"
  shows "\<exists>q. rel s q \<and> ql_joined (trace step ev ls init) = ql_left (trace step ev ls init) @ q \<and>
    (\<forall>t. holds t s \<longrightarrow> q \<noteq> [] \<and> hd q = t)"
proof -
  obtain q where q: "run ql_step (trace step ev ls init) [] = Some q" "rel s q"
    using run_simulated [OF assms] by blast
  then show ?thesis using ql_fifo [OF q(1)] holds_head by auto
qed

end

text \<open>Such a lock is a lock.\<close>

sublocale queue_lock \<subseteq> lock_impl step init "\<lambda>s. \<exists>q. rel s q" holds crit locked
proof unfold_locales
  show "\<And>t. \<not> holds t init" by (rule holds_init)
  show "\<And>s t u. \<exists>q. rel s q \<Longrightarrow> holds t s \<Longrightarrow> holds u s \<Longrightarrow> t = u" using holds_head by blast
  show "\<And>s t a s' u. \<exists>q. rel s q \<Longrightarrow> step (t, a) s = Some s' \<Longrightarrow> u \<noteq> t \<Longrightarrow> holds u s' = holds u s"
    using holds_frame by blast
  show "\<And>t s. crit t s \<Longrightarrow> holds t s" by (rule holds_crit)
  show "\<And>s t. \<exists>q. rel s q \<Longrightarrow> crit t s \<Longrightarrow> locked s" using rel_locked holds_head holds_crit by blast
qed

context queue_lock begin

lemma is_lock: "lock_impl step init (\<lambda>s. \<exists>q. rel s q) holds crit locked"
  by unfold_locales

end

section \<open>Neighbours in a queue\<close>

definition adj :: "'a list \<Rightarrow> 'a \<Rightarrow> 'a \<Rightarrow> bool" where
  "adj q a b \<longleftrightarrow> (\<exists>xs ys. q = xs @ a # b # ys)"

lemma adj_Nil [simp]: "\<not> adj [] a b"
  by (simp add: adj_def)

lemma adj_Cons: "adj (x # q) a b \<longleftrightarrow> (q \<noteq> [] \<and> a = x \<and> b = hd q) \<or> adj q a b"
proof
  assume "adj (x # q) a b"
  then obtain xs ys where "x # q = xs @ a # b # ys" by (auto simp: adj_def)
  then show "(q \<noteq> [] \<and> a = x \<and> b = hd q) \<or> adj q a b"
    by (cases xs) (auto simp: adj_def)
next
  assume "(q \<noteq> [] \<and> a = x \<and> b = hd q) \<or> adj q a b"
  then show "adj (x # q) a b"
  proof (elim disjE conjE)
    assume q: "q \<noteq> []" "a = x" "b = hd q"
    then have "x # q = [] @ a # b # tl q" by simp
    then show ?thesis unfolding adj_def by blast
  next
    assume "adj q a b"
    then obtain xs ys where "x # q = (x # xs) @ a # b # ys" by (auto simp: adj_def)
    then show ?thesis unfolding adj_def by blast
  qed
qed

lemma adj_snoc: "adj (q @ [t]) a b \<longleftrightarrow> adj q a b \<or> (q \<noteq> [] \<and> a = last q \<and> b = t)"
  by (induction q) (auto simp: adj_Cons hd_append)

lemma adj_mem:
  assumes "adj q a b"
  shows "a \<in> set q \<and> b \<in> set (tl q)"
proof -
  obtain xs ys where "q = xs @ a # b # ys" using assms by (auto simp: adj_def)
  then show ?thesis by (cases xs) auto
qed

lemma adj_mem2: "adj q a b \<Longrightarrow> b \<in> set q"
  by (metis adj_mem adj_Nil list.set_sel(2))

lemma adj_ex: "t \<in> set (tl q) \<Longrightarrow> \<exists>a. adj q a t"
proof (induction q)
  case (Cons x q)
  then show ?case by (cases q) (auto simp: adj_Cons)
qed simp

lemma adj_next_unique: "distinct q \<Longrightarrow> adj q a b \<Longrightarrow> adj q a c \<Longrightarrow> b = c"
  by (induction q) (auto simp: adj_Cons dest: adj_mem)

lemma adj_prev_unique: "distinct q \<Longrightarrow> adj q a c \<Longrightarrow> adj q b c \<Longrightarrow> a = b"
proof (induction q)
  case (Cons x q)
  have "\<not> adj q d (hd q)" if "q \<noteq> []" for d
    using adj_mem [of q d "hd q"] that Cons.prems(1) by (cases q) auto
  then show ?case using Cons by (auto simp: adj_Cons)
qed simp

lemma adj_not_last: "distinct q \<Longrightarrow> adj q a b \<Longrightarrow> a \<noteq> last q"
proof (induction q)
  case (Cons x q)
  then show ?case using adj_mem [of q a b] by (cases q) (auto simp: adj_Cons)
qed simp

lemma adj_irrefl: "distinct q \<Longrightarrow> \<not> adj q a a"
  by (induction q) (auto simp: adj_Cons)

lemma tl_not_hd: "distinct q \<Longrightarrow> t \<in> set (tl q) \<Longrightarrow> t \<noteq> hd q"
  by (cases q) auto

section \<open>The chain of nodes\<close>

text \<open>
  The phases of a thread: outside; it has exchanged the tail pointer for its node and found that of
  the thread before it, and has not yet marked its node (\<open>PhJoin\<close>) or not yet linked it (\<open>PhLink\<close>);
  it waits; it owns the lock, without or with knowledge of its successor; it has handed over the
  lock and not yet cleared its node.
\<close>

datatype mcs_phase = PhOut | PhJoin tid | PhLink tid | PhWait | PhOwn | PhGrant tid | PhClear

fun ph_owns :: "mcs_phase \<Rightarrow> bool" where
  "ph_owns PhOwn = True"
| "ph_owns (PhGrant n) = True"
| "ph_owns _ = False"

text \<open>
  The queue \<open>q\<close> in terms of the tail pointer, the \<open>next\<close> pointers and the nodes that were set free:
  neighbours are linked once the later one waits; a waiting thread was set free if it is the first.
\<close>

definition mcs_chain ::
  "tid list \<Rightarrow> tid option \<Rightarrow> (tid \<Rightarrow> tid option) \<Rightarrow> (tid \<Rightarrow> bool) \<Rightarrow> (tid \<Rightarrow> mcs_phase) \<Rightarrow> bool" where
  "mcs_chain q tail nxt free ph \<longleftrightarrow>
     distinct q \<and> tail = (if q = [] then None else Some (last q)) \<and>
     (\<forall>t. t \<in> set q \<longleftrightarrow> ph t \<noteq> PhOut \<and> ph t \<noteq> PhClear) \<and>
     (\<forall>t. ph_owns (ph t) \<longrightarrow> hd q = t) \<and>
     (\<forall>t n. ph t = PhGrant n \<longrightarrow> adj q t n \<and> ph n = PhWait) \<and>
     (\<forall>a b. adj q a b \<longrightarrow> (ph b = PhWait \<and> nxt a = Some b) \<or> ((ph b = PhJoin a \<or> ph b = PhLink a) \<and> nxt a = None)) \<and>
     (\<forall>t a. ph t = PhJoin a \<or> ph t = PhLink a \<longrightarrow> adj q a t) \<and>
     (\<forall>t. ph t = PhWait \<or> (\<exists>a. ph t = PhLink a) \<longrightarrow> (free t \<longleftrightarrow> t \<notin> set (tl q))) \<and>
     (\<forall>t. (q \<noteq> [] \<and> t = last q) \<or> ph t = PhOut \<longrightarrow> nxt t = None)"

lemma mcs_chainI:
  assumes "distinct q" and "tail = (if q = [] then None else Some (last q))"
    and "\<And>t. t \<in> set q \<longleftrightarrow> ph t \<noteq> PhOut \<and> ph t \<noteq> PhClear"
    and "\<And>t. ph_owns (ph t) \<Longrightarrow> hd q = t"
    and "\<And>t n. ph t = PhGrant n \<Longrightarrow> adj q t n \<and> ph n = PhWait"
    and "\<And>a b. adj q a b \<Longrightarrow> (ph b = PhWait \<and> nxt a = Some b) \<or> ((ph b = PhJoin a \<or> ph b = PhLink a) \<and> nxt a = None)"
    and "\<And>t a. ph t = PhJoin a \<or> ph t = PhLink a \<Longrightarrow> adj q a t"
    and "\<And>t. ph t = PhWait \<or> (\<exists>a. ph t = PhLink a) \<Longrightarrow> free t \<longleftrightarrow> t \<notin> set (tl q)"
    and "\<And>t. (q \<noteq> [] \<and> t = last q) \<or> ph t = PhOut \<Longrightarrow> nxt t = None"
  shows "mcs_chain q tail nxt free ph"
  using assms unfolding mcs_chain_def by blast

lemma mcs_chainD:
  assumes "mcs_chain q tail nxt free ph"
  shows "distinct q" and "tail = (if q = [] then None else Some (last q))"
    and "t \<in> set q \<longleftrightarrow> ph t \<noteq> PhOut \<and> ph t \<noteq> PhClear"
    and "ph_owns (ph t) \<Longrightarrow> hd q = t"
    and "ph t = PhGrant n \<Longrightarrow> adj q t n" "ph t = PhGrant n \<Longrightarrow> ph n = PhWait"
    and "adj q a b \<Longrightarrow> (ph b = PhWait \<and> nxt a = Some b) \<or> ((ph b = PhJoin a \<or> ph b = PhLink a) \<and> nxt a = None)"
    and "ph t = PhJoin a \<or> ph t = PhLink a \<Longrightarrow> adj q a t"
    and "ph t = PhWait \<or> (\<exists>a. ph t = PhLink a) \<Longrightarrow> free t \<longleftrightarrow> t \<notin> set (tl q)"
    and "(q \<noteq> [] \<and> t = last q) \<or> ph t = PhOut \<Longrightarrow> nxt t = None"
proof -
  note c = assms [unfolded mcs_chain_def]
  show "distinct q" using c by (elim conjE)
  show "tail = (if q = [] then None else Some (last q))" using c by (elim conjE)
  show "t \<in> set q \<longleftrightarrow> ph t \<noteq> PhOut \<and> ph t \<noteq> PhClear" using c by (elim conjE) (erule spec)
  have o: "\<forall>t. ph_owns (ph t) \<longrightarrow> hd q = t" using c by (elim conjE)
  show "ph_owns (ph t) \<Longrightarrow> hd q = t" using o by blast
  have g: "\<forall>t n. ph t = PhGrant n \<longrightarrow> adj q t n \<and> ph n = PhWait" using c by (elim conjE)
  show "ph t = PhGrant n \<Longrightarrow> adj q t n" "ph t = PhGrant n \<Longrightarrow> ph n = PhWait" using g by blast+
  have l: "\<forall>a b. adj q a b \<longrightarrow> (ph b = PhWait \<and> nxt a = Some b) \<or> ((ph b = PhJoin a \<or> ph b = PhLink a) \<and> nxt a = None)"
    using c by (elim conjE)
  show "adj q a b \<Longrightarrow> (ph b = PhWait \<and> nxt a = Some b) \<or> ((ph b = PhJoin a \<or> ph b = PhLink a) \<and> nxt a = None)"
    by (rule mp [OF spec [OF spec [OF l]]])
  have j: "\<forall>t a. ph t = PhJoin a \<or> ph t = PhLink a \<longrightarrow> adj q a t" using c by (elim conjE)
  show "ph t = PhJoin a \<or> ph t = PhLink a \<Longrightarrow> adj q a t" by (rule mp [OF spec [OF spec [OF j]]])
  have w: "\<forall>t. ph t = PhWait \<or> (\<exists>a. ph t = PhLink a) \<longrightarrow> (free t \<longleftrightarrow> t \<notin> set (tl q))"
    using c by (elim conjE)
  show "ph t = PhWait \<or> (\<exists>a. ph t = PhLink a) \<Longrightarrow> free t \<longleftrightarrow> t \<notin> set (tl q)" by (rule mp [OF spec [OF w]])
  have e: "\<forall>t. (q \<noteq> [] \<and> t = last q) \<or> ph t = PhOut \<longrightarrow> nxt t = None" using c by (elim conjE)
  show "(q \<noteq> [] \<and> t = last q) \<or> ph t = PhOut \<Longrightarrow> nxt t = None" by (rule mp [OF spec [OF e]])
qed

lemma mcs_chain_init: "mcs_chain [] None (\<lambda>_. None) free (\<lambda>_. PhOut)"
  by (rule mcs_chainI) auto

lemma mcs_in_q: "mcs_chain q tail nxt free ph \<Longrightarrow> ph t \<noteq> PhOut \<Longrightarrow> ph t \<noteq> PhClear \<Longrightarrow> t \<in> set q"
  using mcs_chainD(3) by blast

text \<open>One lemma for each step of a thread along its phases.\<close>

lemma mcs_join_empty:
  assumes c: "mcs_chain q None nxt free ph" and t: "ph t = PhOut"
  shows "mcs_chain [t] (Some t) nxt free (ph(t := PhOwn))" "q = []"
proof -
  show q: "q = []" using mcs_chainD(2) [OF c] by (auto split: if_splits)
  note D = mcs_chainD [OF c, unfolded q]
  show "mcs_chain [t] (Some t) nxt free (ph(t := PhOwn))"
  proof (rule mcs_chainI)
    fix u
    show "u \<in> set [t] \<longleftrightarrow> (ph(t := PhOwn)) u \<noteq> PhOut \<and> (ph(t := PhOwn)) u \<noteq> PhClear" using D(3) [of u] by auto
    show "ph_owns ((ph(t := PhOwn)) u) \<Longrightarrow> hd [t] = u" using D(3) [of u] by (auto split: if_splits)
    show "(ph(t := PhOwn)) u = PhGrant n \<Longrightarrow> adj [t] u n \<and> (ph(t := PhOwn)) n = PhWait" for n
      using D(5) [of u n] by (auto split: if_splits)
    show "(ph(t := PhOwn)) u = PhJoin a \<or> (ph(t := PhOwn)) u = PhLink a \<Longrightarrow> adj [t] a u" for a
      using D(8) [of u a] by (auto split: if_splits)
    show "(ph(t := PhOwn)) u = PhWait \<or> (\<exists>a. (ph(t := PhOwn)) u = PhLink a) \<Longrightarrow> free u \<longleftrightarrow> u \<notin> set (tl [t])"
      using D(3) [of u] by (auto split: if_splits)
    show "([t] \<noteq> [] \<and> u = last [t]) \<or> (ph(t := PhOwn)) u = PhOut \<Longrightarrow> nxt u = None"
      using D(10) [of u] t by (auto split: if_splits)
  qed (auto simp: adj_Cons)
qed

lemma mcs_join:
  assumes c: "mcs_chain q (Some f) nxt free ph" and t: "ph t = PhOut"
  shows "mcs_chain (q @ [t]) (Some t) nxt free (ph(t := PhJoin f))" "t \<notin> set q"
proof -
  note D = mcs_chainD [OF c]
  have q: "q \<noteq> []" "last q = f" using D(2) by (auto split: if_splits)
  show tq: "t \<notin> set q" using D(3) [of t] t by simp
  have neq: "adj q a b \<Longrightarrow> a \<noteq> t \<and> b \<noteq> t" for a b using adj_mem [of q a b] adj_mem2 [of q a b] tq by auto
  have tl: "set (tl (q @ [t])) = insert t (set (tl q))" using q(1) by (cases q) auto
  show "mcs_chain (q @ [t]) (Some t) nxt free (ph(t := PhJoin f))"
  proof (rule mcs_chainI)
    fix u n a b
    show "u \<in> set (q @ [t]) \<longleftrightarrow> (ph(t := PhJoin f)) u \<noteq> PhOut \<and> (ph(t := PhJoin f)) u \<noteq> PhClear"
      using D(3) [of u] by auto
    show "ph_owns ((ph(t := PhJoin f)) u) \<Longrightarrow> hd (q @ [t]) = u" using D(4) [of u] q(1) by (auto split: if_splits)
    show "(ph(t := PhJoin f)) u = PhGrant n \<Longrightarrow> adj (q @ [t]) u n \<and> (ph(t := PhJoin f)) n = PhWait"
      using D(5,6) [of u n] neq [of u n] by (auto simp: adj_snoc split: if_splits)
    show "adj (q @ [t]) a b \<Longrightarrow> ((ph(t := PhJoin f)) b = PhWait \<and> nxt a = Some b) \<or>
        (((ph(t := PhJoin f)) b = PhJoin a \<or> (ph(t := PhJoin f)) b = PhLink a) \<and> nxt a = None)"
      using D(7) [of a b] neq [of a b] q D(10) [of a] by (auto simp: adj_snoc)
    show "(ph(t := PhJoin f)) u = PhJoin a \<or> (ph(t := PhJoin f)) u = PhLink a \<Longrightarrow> adj (q @ [t]) a u"
      using D(8) [of u a] q by (auto simp: adj_snoc split: if_splits)
    show "(ph(t := PhJoin f)) u = PhWait \<or> (\<exists>a. (ph(t := PhJoin f)) u = PhLink a) \<Longrightarrow>
        free u \<longleftrightarrow> u \<notin> set (tl (q @ [t]))"
      using D(9) [of u] by (auto simp: tl split: if_splits)
    show "(q @ [t] \<noteq> [] \<and> u = last (q @ [t])) \<or> (ph(t := PhJoin f)) u = PhOut \<Longrightarrow> nxt u = None"
      using D(10) [of u] D(10) [of t] t by (auto split: if_splits)
  qed (use D(1) tq in auto)
qed

lemma mcs_mark:
  assumes c: "mcs_chain q tail nxt free ph" and t: "ph t = PhJoin f"
  shows "mcs_chain q tail nxt (free(t := False)) (ph(t := PhLink f))"
proof -
  note D = mcs_chainD [OF c]
  have f: "adj q f t" using D(8) t by blast
  show ?thesis
  proof (rule mcs_chainI)
    fix u n a b
    show "u \<in> set q \<longleftrightarrow> (ph(t := PhLink f)) u \<noteq> PhOut \<and> (ph(t := PhLink f)) u \<noteq> PhClear"
      using D(3) [of u] t by auto
    show "ph_owns ((ph(t := PhLink f)) u) \<Longrightarrow> hd q = u" using D(4) [of u] by (auto split: if_splits)
    show "(ph(t := PhLink f)) u = PhGrant n \<Longrightarrow> adj q u n \<and> (ph(t := PhLink f)) n = PhWait"
      using D(5,6) [of u n] t by (auto split: if_splits)
    show "adj q a b \<Longrightarrow> ((ph(t := PhLink f)) b = PhWait \<and> nxt a = Some b) \<or>
        (((ph(t := PhLink f)) b = PhJoin a \<or> (ph(t := PhLink f)) b = PhLink a) \<and> nxt a = None)"
      using D(7) [of a b] t adj_prev_unique [OF D(1) f, of a] by (auto split: if_splits)
    show "(ph(t := PhLink f)) u = PhJoin a \<or> (ph(t := PhLink f)) u = PhLink a \<Longrightarrow> adj q a u"
      using D(8) [of u a] f by (auto split: if_splits)
    show "(ph(t := PhLink f)) u = PhWait \<or> (\<exists>a. (ph(t := PhLink f)) u = PhLink a) \<Longrightarrow>
        (free(t := False)) u \<longleftrightarrow> u \<notin> set (tl q)"
      using D(9) [of u] adj_mem [OF f] by (auto split: if_splits)
    show "(q \<noteq> [] \<and> u = last q) \<or> (ph(t := PhLink f)) u = PhOut \<Longrightarrow> nxt u = None"
      using D(10) [of u] by (auto split: if_splits)
  qed (use D(1,2) in auto)
qed

lemma mcs_link:
  assumes c: "mcs_chain q tail nxt free ph" and t: "ph t = PhLink f"
  shows "mcs_chain q tail (nxt(f := Some t)) free (ph(t := PhWait))"
proof -
  note D = mcs_chainD [OF c]
  have f: "adj q f t" using D(8) t by blast
  show ?thesis
  proof (rule mcs_chainI)
    fix u n a b
    show "u \<in> set q \<longleftrightarrow> (ph(t := PhWait)) u \<noteq> PhOut \<and> (ph(t := PhWait)) u \<noteq> PhClear"
      using D(3) [of u] t by auto
    show "ph_owns ((ph(t := PhWait)) u) \<Longrightarrow> hd q = u" using D(4) [of u] by (auto split: if_splits)
    show "(ph(t := PhWait)) u = PhGrant n \<Longrightarrow> adj q u n \<and> (ph(t := PhWait)) n = PhWait"
      using D(5,6) [of u n] t by (auto split: if_splits)
    show "adj q a b \<Longrightarrow> ((ph(t := PhWait)) b = PhWait \<and> (nxt(f := Some t)) a = Some b) \<or>
        (((ph(t := PhWait)) b = PhJoin a \<or> (ph(t := PhWait)) b = PhLink a) \<and> (nxt(f := Some t)) a = None)"
    proof -
      assume ab: "adj q a b"
      show ?thesis
      proof (cases "b = t")
        case True
        then show ?thesis using adj_prev_unique [OF D(1) f, of a] ab by simp
      next
        case False
        then have "a \<noteq> f" using adj_next_unique [OF D(1) f, of b] ab by blast
        then show ?thesis using D(7) [OF ab] False by simp
      qed
    qed
    show "(ph(t := PhWait)) u = PhJoin a \<or> (ph(t := PhWait)) u = PhLink a \<Longrightarrow> adj q a u"
      using D(8) [of u a] by (auto split: if_splits)
    show "(ph(t := PhWait)) u = PhWait \<or> (\<exists>a. (ph(t := PhWait)) u = PhLink a) \<Longrightarrow> free u \<longleftrightarrow> u \<notin> set (tl q)"
      using D(9) [of u] D(9) [of t] t by (auto split: if_splits)
    show "(q \<noteq> [] \<and> u = last q) \<or> (ph(t := PhWait)) u = PhOut \<Longrightarrow> (nxt(f := Some t)) u = None"
      using D(10) [of u] adj_not_last [OF D(1) f] D(3) [of f] adj_mem [OF f] by (auto split: if_splits)
  qed (use D(1,2) in auto)
qed

text \<open>A step in which a thread moves within the queue, and nothing else changes.\<close>

lemma mcs_move:
  assumes c: "mcs_chain q tail nxt free ph" and p: "p \<noteq> PhOut" "p \<noteq> PhClear" "\<And>a. p \<noteq> PhJoin a \<and> p \<noteq> PhLink a" "p \<noteq> PhWait"
    and t: "t \<in> set q" "hd q = t" and g: "\<And>n. p = PhGrant n \<Longrightarrow> nxt t = Some n"
  shows "mcs_chain q tail nxt free (ph(t := p))"
proof -
  note D = mcs_chainD [OF c]
  have hd: "\<not> adj q a t" for a using adj_mem [of q a t] tl_not_hd [OF D(1), of t] t(2) by blast
  have gr: "adj q t n \<and> ph n = PhWait" if "p = PhGrant n" for n
  proof -
    have n: "nxt t = Some n" by (rule g [OF that])
    have "q \<noteq> []" using t(1) by auto
    then have "t \<noteq> last q" using D(10) [of t] n by auto
    then have "tl q \<noteq> []" using t by (cases q) auto
    then have "adj q t (hd (tl q))" using t by (cases q) (auto simp: adj_Cons)
    with D(7) [OF this] n show ?thesis by auto
  qed
  show ?thesis
  proof (rule mcs_chainI)
    fix u n a b
    show "u \<in> set q \<longleftrightarrow> (ph(t := p)) u \<noteq> PhOut \<and> (ph(t := p)) u \<noteq> PhClear" using D(3) [of u] t p by auto
    show "ph_owns ((ph(t := p)) u) \<Longrightarrow> hd q = u" using D(4) [of u] t by (auto split: if_splits)
    show "(ph(t := p)) u = PhGrant n \<Longrightarrow> adj q u n \<and> (ph(t := p)) n = PhWait"
      using D(5,6) [of u n] gr [of n] hd [of u] hd [of t] by (auto split: if_splits)
    show "adj q a b \<Longrightarrow> ((ph(t := p)) b = PhWait \<and> nxt a = Some b) \<or>
        (((ph(t := p)) b = PhJoin a \<or> (ph(t := p)) b = PhLink a) \<and> nxt a = None)"
      using D(7) [of a b] hd [of a] by auto
    show "(ph(t := p)) u = PhJoin a \<or> (ph(t := p)) u = PhLink a \<Longrightarrow> adj q a u"
      using D(8) [of u a] p(3) by (auto split: if_splits)
    show "(ph(t := p)) u = PhWait \<or> (\<exists>a. (ph(t := p)) u = PhLink a) \<Longrightarrow> free u \<longleftrightarrow> u \<notin> set (tl q)"
      using D(9) [of u] p(3,4) by (auto split: if_splits)
    show "(q \<noteq> [] \<and> u = last q) \<or> (ph(t := p)) u = PhOut \<Longrightarrow> nxt u = None"
      using D(10) [of u] p(1) by (auto split: if_splits)
  qed (use D(1,2) in auto)
qed

text \<open>A waiting thread whose node is free is the first.\<close>

lemma mcs_free_first:
  assumes c: "mcs_chain q tail nxt free ph" and t: "ph t = PhWait" "free t"
  shows "t \<in> set q" "hd q = t"
proof -
  show q: "t \<in> set q" using mcs_chainD(3) [OF c, of t] t by simp
  have "t \<notin> set (tl q)" using mcs_chainD(9) [OF c, of t] t by simp
  then show "hd q = t" using q by (cases q) auto
qed

lemma mcs_enter:
  assumes "mcs_chain q tail nxt free ph" and "ph t = PhWait" "free t"
  shows "mcs_chain q tail nxt free (ph(t := PhOwn))"
  by (rule mcs_move [OF assms(1)]) (use mcs_free_first [OF assms] in auto)

lemma mcs_owner_first:
  assumes "mcs_chain q tail nxt free ph" and "ph_owns (ph t)"
  shows "t \<in> set q" "hd q = t"
  using mcs_chainD(3,4) [OF assms(1), of t] assms(2) by auto

lemma mcs_know_next:
  assumes "mcs_chain q tail nxt free ph" and "ph t = PhOwn" "nxt t = Some n"
  shows "mcs_chain q tail nxt free (ph(t := PhGrant n))"
  by (rule mcs_move [OF assms(1)]) (use mcs_owner_first [OF assms(1), of t] assms(2,3) in auto)

text \<open>The owner leaves as the last in the queue.\<close>

lemma mcs_leave_last:
  assumes c: "mcs_chain q (Some t) nxt free ph" and t: "ph t = PhOwn"
  shows "mcs_chain [] None nxt free (ph(t := PhOut))" "q = [t]"
proof -
  note D = mcs_chainD [OF c]
  have f: "t \<in> set q" "hd q = t" using mcs_owner_first [OF c, of t] t by auto
  have l: "last q = t" "q \<noteq> []" using D(2) by (auto split: if_splits)
  show q: "q = [t]"
  proof (cases q)
    case (Cons x xs)
    then have "xs = []" using f(2) l(1) D(1) by (cases xs rule: rev_cases) auto
    then show ?thesis using Cons f(2) by simp
  qed (use l in simp)
  have out: "ph u = PhOut \<or> ph u = PhClear" if "u \<noteq> t" for u using D(3) [of u] q that by auto
  show "mcs_chain [] None nxt free (ph(t := PhOut))"
  proof (rule mcs_chainI)
    fix u n a b
    show "u \<in> set [] \<longleftrightarrow> (ph(t := PhOut)) u \<noteq> PhOut \<and> (ph(t := PhOut)) u \<noteq> PhClear" using out [of u] by auto
    show "([] \<noteq> [] \<and> u = last []) \<or> (ph(t := PhOut)) u = PhOut \<Longrightarrow> nxt u = None"
      using D(10) [of u] l by (auto split: if_splits)
  qed (use out in \<open>force split: if_splits\<close>)+
qed

text \<open>The owner hands the lock to its successor.\<close>

lemma mcs_grant:
  assumes c: "mcs_chain q tail nxt free ph" and t: "ph t = PhGrant n"
  shows "mcs_chain (tl q) tail nxt (free(n := True)) (ph(t := PhClear))" "q = t # n # tl (tl q)"
proof -
  note D = mcs_chainD [OF c]
  have f: "t \<in> set q" "hd q = t" using mcs_owner_first [OF c, of t] t by auto
  have an: "adj q t n" "ph n = PhWait" using D(5,6) t by auto
  obtain xs where x: "q = t # xs" using f by (cases q) auto
  have "n = hd xs" "xs \<noteq> []" using an(1) x D(1) adj_mem [of xs t n] by (auto simp: adj_Cons)
  then obtain ys where y: "q = t # n # ys" using x by (cases xs) auto
  then show "q = t # n # tl (tl q)" by simp
  have d: "t \<noteq> n" "t \<notin> set ys" "n \<notin> set ys" "distinct ys" using D(1) y by auto
  have adj: "adj q a b \<longleftrightarrow> (a = t \<and> b = n) \<or> adj (n # ys) a b" for a b by (simp add: y adj_Cons)
  have m: "adj (n # ys) a b \<Longrightarrow> a \<noteq> t \<and> b \<noteq> t" for a b
    using adj_mem [of "n # ys" a b] d(1,2) by auto
  show "mcs_chain (tl q) tail nxt (free(n := True)) (ph(t := PhClear))"
  proof (rule mcs_chainI)
    fix u m' a b
    show "u \<in> set (tl q) \<longleftrightarrow> (ph(t := PhClear)) u \<noteq> PhOut \<and> (ph(t := PhClear)) u \<noteq> PhClear"
      using D(3) [of u] y d by auto
    show "ph_owns ((ph(t := PhClear)) u) \<Longrightarrow> hd (tl q) = u" using D(4) [of u] f(2) by (auto split: if_splits)
    show "(ph(t := PhClear)) u = PhGrant m' \<Longrightarrow> adj (tl q) u m' \<and> (ph(t := PhClear)) m' = PhWait"
      using D(4) [of u] f(2) by (auto split: if_splits)
    show "adj (tl q) a b \<Longrightarrow> ((ph(t := PhClear)) b = PhWait \<and> nxt a = Some b) \<or>
        (((ph(t := PhClear)) b = PhJoin a \<or> (ph(t := PhClear)) b = PhLink a) \<and> nxt a = None)"
      using D(7) [of a b] adj [of a b] m [of a b] y by auto
    show "(ph(t := PhClear)) u = PhJoin a \<or> (ph(t := PhClear)) u = PhLink a \<Longrightarrow> adj (tl q) a u"
      using D(8) [of u a] adj [of a u] an(2) y by (auto split: if_splits)
    show "(ph(t := PhClear)) u = PhWait \<or> (\<exists>a. (ph(t := PhClear)) u = PhLink a) \<Longrightarrow>
        (free(n := True)) u \<longleftrightarrow> u \<notin> set (tl (tl q))"
      using D(9) [of u] y d by (auto split: if_splits)
    show "(tl q \<noteq> [] \<and> u = last (tl q)) \<or> (ph(t := PhClear)) u = PhOut \<Longrightarrow> nxt u = None"
      using D(10) [of u] y by (auto split: if_splits)
  qed (use D(1,2) y in auto)
qed

text \<open>A thread outside the queue clears its node.\<close>

lemma mcs_clear:
  assumes c: "mcs_chain q tail nxt free ph" and t: "ph t = PhClear"
  shows "mcs_chain q tail (nxt(t := None)) free (ph(t := PhOut))"
proof -
  note D = mcs_chainD [OF c]
  have tq: "t \<notin> set q" using D(3) [of t] t by simp
  have m: "adj q a b \<Longrightarrow> a \<noteq> t \<and> b \<noteq> t" for a b using adj_mem [of q a b] adj_mem2 [of q a b] tq by auto
  show ?thesis
  proof (rule mcs_chainI)
    fix u n a b
    show "u \<in> set q \<longleftrightarrow> (ph(t := PhOut)) u \<noteq> PhOut \<and> (ph(t := PhOut)) u \<noteq> PhClear" using D(3) [of u] tq by auto
    show "ph_owns ((ph(t := PhOut)) u) \<Longrightarrow> hd q = u" using D(4) [of u] by (auto split: if_splits)
    show "(ph(t := PhOut)) u = PhGrant n \<Longrightarrow> adj q u n \<and> (ph(t := PhOut)) n = PhWait"
      using D(5,6) [of u n] m [of u n] by (auto split: if_splits)
    show "adj q a b \<Longrightarrow> ((ph(t := PhOut)) b = PhWait \<and> (nxt(t := None)) a = Some b) \<or>
        (((ph(t := PhOut)) b = PhJoin a \<or> (ph(t := PhOut)) b = PhLink a) \<and> (nxt(t := None)) a = None)"
      using D(7) [of a b] m [of a b] by auto
    show "(ph(t := PhOut)) u = PhJoin a \<or> (ph(t := PhOut)) u = PhLink a \<Longrightarrow> adj q a u"
      using D(8) [of u a] by (auto split: if_splits)
    show "(ph(t := PhOut)) u = PhWait \<or> (\<exists>a. (ph(t := PhOut)) u = PhLink a) \<Longrightarrow> free u \<longleftrightarrow> u \<notin> set (tl q)"
      using D(9) [of u] by (auto split: if_splits)
    show "(q \<noteq> [] \<and> u = last q) \<or> (ph(t := PhOut)) u = PhOut \<Longrightarrow> (nxt(t := None)) u = None"
      using D(10) [of u] by (auto split: if_splits)
  qed (use D(1,2) in auto)
qed

end
