(* ===== verification/MCS_Lock.thy ===== *)
theory MCS_Lock
  imports Queue_Lock
begin

text \<open>
  The MCS lock of \<open>locks/mcs_lock.hpp\<close>. Every thread has one node for the lock, in a thread-local map;
  a node is named by its thread, so that a pointer to a node is a \<open>tid option\<close>. \<open>is_locked\<close> of a node
  is uninitialised until its thread waits for the first time: the initial values are an argument.
\<close>

section \<open>State\<close>

text \<open>
  In \<open>lock\<close>: before the exchange, before the store to the own node, before the link, in the
  \<open>i\<close>-th iteration of the \<open>for\<close> loop, in the \<open>while\<close> loop. In \<open>unlock\<close>: before the test of \<open>next\<close>, before the
  compare-exchange, in the \<open>while\<close> loop, before the load of \<open>next\<close>, before the store to the next node,
  before the reset of \<open>next\<close>. In \<open>try_lock\<close>: before the load and the compare-exchange.
\<close>

datatype mc_pc = McIdle
  | McXchg | McMark tid | McLink tid | McSpin nat | McWait
  | McCrit | McUnlNext | McUnlCas | McUnlWait | McUnlLoad | McUnlGrant tid | McUnlClear
  | McTryLoad | McTryCas

record mcs_lock =
  mc_locked :: "tid option"
  mc_field :: "tid \<Rightarrow> mcs_field"
  mc_next :: "tid \<Rightarrow> tid option"
  mc_pc :: "tid \<Rightarrow> mc_pc"

definition mcs_init :: "(tid \<Rightarrow> mcs_field) \<Rightarrow> mcs_lock" where
  "mcs_init f = \<lparr>mc_locked = None, mc_field = f, mc_next = (\<lambda>_. None), mc_pc = (\<lambda>_. McIdle)\<rparr>"

definition mc_goto :: "tid \<Rightarrow> mc_pc \<Rightarrow> mcs_lock \<Rightarrow> mcs_lock" where
  "mc_goto t p s = s\<lparr>mc_pc := (mc_pc s)(t := p)\<rparr>"

section \<open>Operations\<close>

definition mc_spin :: "nat \<Rightarrow> mc_pc" where
  "mc_spin i = (if i < 512 then McSpin i else McWait)"

definition mc_lock :: "tid \<Rightarrow> mcs_lock \<Rightarrow> mcs_lock option" where
  "mc_lock t s =
     (case mc_pc s t of
        McXchg \<Rightarrow>
          Some (mc_goto t (case mc_locked s of None \<Rightarrow> McCrit | Some found \<Rightarrow> McMark found) (s\<lparr>mc_locked := Some t\<rparr>))
      | McMark found \<Rightarrow> Some (mc_goto t (McLink found) (s\<lparr>mc_field := (mc_field s)(t := Taken)\<rparr>))
      | McLink found \<Rightarrow> Some (mc_goto t (mc_spin 0) (s\<lparr>mc_next := (mc_next s)(found := Some t)\<rparr>))
      | McSpin i \<Rightarrow> Some (mc_goto t (if mc_field s t = Free then McWait else mc_spin (i + 1)) s)
      | McWait \<Rightarrow> Some (if mc_field s t = Free then mc_goto t McCrit s else s)
      | _ \<Rightarrow> None)"

text \<open>
  A failed compare-exchange loads a value other than the expected one, so the recursive call of
  \<open>unlock\<close> is never made. \<open>None\<close> in \<open>McUnlLoad\<close> is the use of a null pointer.
\<close>

definition mc_unlock :: "tid \<Rightarrow> mcs_lock \<Rightarrow> mcs_lock option" where
  "mc_unlock t s =
     (case mc_pc s t of
        McUnlNext \<Rightarrow> Some (mc_goto t (if mc_next s t = None then McUnlCas else McUnlWait) s)
      | McUnlCas \<Rightarrow>
          Some (if mc_locked s = Some t then mc_goto t McIdle (s\<lparr>mc_locked := None\<rparr>)
                else mc_goto t McUnlWait s)
      | McUnlWait \<Rightarrow> Some (if mc_next s t = None then s else mc_goto t McUnlLoad s)
      | McUnlLoad \<Rightarrow> map_option (\<lambda>nxt. mc_goto t (McUnlGrant nxt) s) (mc_next s t)
      | McUnlGrant nxt \<Rightarrow> Some (mc_goto t McUnlClear (s\<lparr>mc_field := (mc_field s)(nxt := Free)\<rparr>))
      | McUnlClear \<Rightarrow> Some (mc_goto t McIdle (s\<lparr>mc_next := (mc_next s)(t := None)\<rparr>))
      | _ \<Rightarrow> None)"

definition mc_is_locked :: "mcs_lock \<Rightarrow> bool" where
  "mc_is_locked s \<longleftrightarrow> mc_locked s \<noteq> None"

definition mc_try_lock :: "tid \<Rightarrow> mcs_lock \<Rightarrow> mcs_lock option" where
  "mc_try_lock t s =
     (case mc_pc s t of
        McTryLoad \<Rightarrow> Some (mc_goto t (if mc_is_locked s then McIdle else McTryCas) s)
      | McTryCas \<Rightarrow>
          Some (if mc_locked s = None then mc_goto t McCrit (s\<lparr>mc_locked := Some t\<rparr>) else mc_goto t McIdle s)
      | _ \<Rightarrow> None)"

text \<open>The calls; \<open>try_lock_or_wait\<close> is \<open>try_lock\<close>.\<close>

fun mc_call :: "lock_act \<Rightarrow> mc_pc \<Rightarrow> mc_pc option" where
  "mc_call Lock McIdle = Some McXchg"
| "mc_call TryLock McIdle = Some McTryLoad"
| "mc_call TryLockOrWait McIdle = Some McTryLoad"
| "mc_call Unlock McCrit = Some McUnlNext"
| "mc_call _ _ = None"

definition mc_go :: "tid \<Rightarrow> mcs_lock \<Rightarrow> mcs_lock option" where
  "mc_go t s =
     (case mc_lock t s of Some s' \<Rightarrow> Some s' | None \<Rightarrow>
     (case mc_unlock t s of Some s' \<Rightarrow> Some s' | None \<Rightarrow> mc_try_lock t s))"

fun mcs_step :: "tid \<times> lock_act \<Rightarrow> mcs_lock \<Rightarrow> mcs_lock option" where
  "mcs_step (t, Go) s = mc_go t s"
| "mcs_step (t, a) s = map_option (\<lambda>p. mc_goto t p s) (mc_call a (mc_pc s t))"

lemmas mc_ops = mc_go_def mc_lock_def mc_unlock_def mc_try_lock_def mc_goto_def mc_is_locked_def

section \<open>The queue of the lock\<close>

fun mc_phase :: "mc_pc \<Rightarrow> mcs_phase" where
  "mc_phase (McMark f) = PhJoin f"
| "mc_phase (McLink f) = PhLink f"
| "mc_phase (McSpin i) = PhWait"
| "mc_phase McWait = PhWait"
| "mc_phase McCrit = PhOwn"
| "mc_phase McUnlNext = PhOwn"
| "mc_phase McUnlCas = PhOwn"
| "mc_phase McUnlWait = PhOwn"
| "mc_phase McUnlLoad = PhOwn"
| "mc_phase (McUnlGrant n) = PhGrant n"
| "mc_phase McUnlClear = PhClear"
| "mc_phase _ = PhOut"

definition mc_phases :: "mcs_lock \<Rightarrow> tid \<Rightarrow> mcs_phase" where
  "mc_phases s = mc_phase \<circ> mc_pc s"

definition mc_frees :: "mcs_lock \<Rightarrow> tid \<Rightarrow> bool" where
  "mc_frees s t \<longleftrightarrow> mc_field s t = Free"

definition mc_chain :: "mcs_lock \<Rightarrow> tid list \<Rightarrow> bool" where
  "mc_chain s q \<longleftrightarrow> mcs_chain q (mc_locked s) (mc_next s) (mc_frees s) (mc_phases s)"

text \<open>
  A thread that has seen its \<open>next\<close> pointer set can rely on it, and one that waits for it is not the
  last in the queue.
\<close>

definition mc_next_ok :: "mcs_lock \<Rightarrow> bool" where
  "mc_next_ok s \<longleftrightarrow>
     (\<forall>t. (mc_pc s t = McUnlLoad \<longrightarrow> mc_next s t \<noteq> None) \<and> (mc_pc s t = McUnlWait \<longrightarrow> mc_locked s \<noteq> Some t))"

definition mc_rel :: "mcs_lock \<Rightarrow> tid list \<Rightarrow> bool" where
  "mc_rel s q \<longleftrightarrow> mc_chain s q \<and> mc_next_ok s"

definition mc_crit :: "tid \<Rightarrow> mcs_lock \<Rightarrow> bool" where
  "mc_crit t s \<longleftrightarrow> mc_pc s t = McCrit"

definition mc_holds :: "tid \<Rightarrow> mcs_lock \<Rightarrow> bool" where
  "mc_holds t s \<longleftrightarrow> ph_owns (mc_phase (mc_pc s t))"

text \<open>A thread joins by its exchange or its compare-exchange, and leaves when it frees the lock or the next node.\<close>

fun mc_events :: "mcs_lock \<Rightarrow> tid \<times> lock_act \<Rightarrow> ql_event list" where
  "mc_events s (t, Go) =
     (case mc_pc s t of
        McXchg \<Rightarrow> [Joins t]
      | McTryCas \<Rightarrow> if mc_locked s = None then [Joins t] else []
      | McUnlCas \<Rightarrow> if mc_locked s = Some t then [Leaves t] else []
      | McUnlGrant n \<Rightarrow> [Leaves t]
      | _ \<Rightarrow> [])"
| "mc_events s (t, a) = []"

lemma mc_spin_phase [simp]: "mc_phase (mc_spin i) = PhWait" "mc_spin i \<noteq> McUnlLoad"
  by (auto simp: mc_spin_def)

lemma mc_goto_simps [simp]:
  "mc_locked (mc_goto t p s) = mc_locked s" "mc_next (mc_goto t p s) = mc_next s"
  "mc_frees (mc_goto t p s) = mc_frees s" "mc_phases (mc_goto t p s) = (mc_phases s)(t := mc_phase p)"
  by (auto simp: mc_goto_def mc_frees_def mc_phases_def)

lemma mc_upd_simps [simp]:
  "mc_frees (s\<lparr>mc_locked := l\<rparr>) = mc_frees s" "mc_phases (s\<lparr>mc_locked := l\<rparr>) = mc_phases s"
  "mc_frees (s\<lparr>mc_next := n\<rparr>) = mc_frees s" "mc_phases (s\<lparr>mc_next := n\<rparr>) = mc_phases s"
  "mc_frees (s\<lparr>mc_field := (mc_field s)(t := x)\<rparr>) = (mc_frees s)(t := (x = Free))"
  "mc_phases (s\<lparr>mc_field := f\<rparr>) = mc_phases s"
  by (auto simp: mc_frees_def mc_phases_def fun_eq_iff)

lemma mc_phases_at: "mc_phases s t = mc_phase (mc_pc s t)"
  by (simp add: mc_phases_def)

text \<open>A move that does not change the phase of the thread.\<close>

lemma mc_chain_goto: "mc_chain s q \<Longrightarrow> mc_phase p = mc_phase (mc_pc s t) \<Longrightarrow> mc_chain (mc_goto t p s) q"
  by (simp add: mc_chain_def fun_upd_idem mc_phases_at)

lemma mc_go_chain:
  assumes c: "mc_chain s q" and st: "mc_go t s = Some s'"
  shows "\<exists>q'. run ql_step (mc_events s (t, Go)) q = Some q' \<and> mc_chain s' q'"
proof -
  note C = c [unfolded mc_chain_def]
  note D = mcs_chainD [OF C]
  show ?thesis
  proof (cases "mc_pc s t")
    case McXchg
    then have o: "mc_phases s t = PhOut" by (simp add: mc_phases_at)
    show ?thesis
    proof (cases "mc_locked s")
      case None
      then have s': "s' = mc_goto t McCrit (s\<lparr>mc_locked := Some t\<rparr>)" using st McXchg by (simp add: mc_go_def mc_lock_def)
      note J = mcs_join_empty [OF C [unfolded None] o]
      show ?thesis using J McXchg by (intro exI [of _ "[t]"]) (simp add: s' mc_chain_def)
    next
      case (Some f)
      then have s': "s' = mc_goto t (McMark f) (s\<lparr>mc_locked := Some t\<rparr>)" using st McXchg by (simp add: mc_go_def mc_lock_def)
      note J = mcs_join [OF C [unfolded Some] o]
      show ?thesis using J McXchg by (intro exI [of _ "q @ [t]"]) (simp add: s' mc_chain_def)
    qed
  next
    case (McMark f)
    then have s': "s' = mc_goto t (McLink f) (s\<lparr>mc_field := (mc_field s)(t := Taken)\<rparr>)" using st by (simp add: mc_go_def mc_lock_def)
    show ?thesis using mcs_mark [OF C, of t f] McMark by (simp add: s' mc_chain_def mc_phases_at)
  next
    case (McLink f)
    then have s': "s' = mc_goto t (mc_spin 0) (s\<lparr>mc_next := (mc_next s)(f := Some t)\<rparr>)" using st by (simp add: mc_go_def mc_lock_def)
    show ?thesis using mcs_link [OF C, of t f] McLink by (simp add: s' mc_chain_def mc_phases_at)
  next
    case (McSpin i)
    then show ?thesis using st c by (auto simp: mc_go_def mc_lock_def intro!: mc_chain_goto split: if_splits)
  next
    case McWait
    show ?thesis
    proof (cases "mc_field s t = Free")
      case True
      then have s': "s' = mc_goto t McCrit s" using st McWait by (simp add: mc_go_def mc_lock_def)
      show ?thesis using mcs_enter [OF C, of t] McWait True by (simp add: s' mc_chain_def mc_phases_at mc_frees_def)
    qed (use st McWait c in \<open>simp add: mc_go_def mc_lock_def\<close>)
  next
    case McUnlCas
    show ?thesis
    proof (cases "mc_locked s = Some t")
      case True
      then have s': "s' = mc_goto t McIdle (s\<lparr>mc_locked := None\<rparr>)" using st McUnlCas
        by (simp add: mc_go_def mc_lock_def mc_unlock_def)
      show ?thesis using mcs_leave_last [OF C [unfolded True]] McUnlCas True by (simp add: s' mc_chain_def mc_phases_at)
    qed (use st McUnlCas c in \<open>auto simp: mc_go_def mc_lock_def mc_unlock_def intro!: mc_chain_goto\<close>)
  next
    case McUnlLoad
    then obtain n where n: "mc_next s t = Some n" "s' = mc_goto t (McUnlGrant n) s"
      using st by (auto simp: mc_go_def mc_lock_def mc_unlock_def mc_try_lock_def split: option.splits)
    show ?thesis using mcs_know_next [OF C _ n(1)] McUnlLoad by (simp add: n(2) mc_chain_def mc_phases_at)
  next
    case (McUnlGrant n)
    then have s': "s' = mc_goto t McUnlClear (s\<lparr>mc_field := (mc_field s)(n := Free)\<rparr>)" using st
      by (simp add: mc_go_def mc_lock_def mc_unlock_def)
    have p: "mc_phases s t = PhGrant n" using McUnlGrant by (simp add: mc_phases_at)
    note G = mcs_grant [OF C p]
    have "run ql_step [Leaves t] q = Some (tl q)" using G(2) by (cases q) auto
    then show ?thesis using G(1) McUnlGrant by (simp add: s' mc_chain_def)
  next
    case McUnlClear
    then have s': "s' = mc_goto t McIdle (s\<lparr>mc_next := (mc_next s)(t := None)\<rparr>)" using st
      by (simp add: mc_go_def mc_lock_def mc_unlock_def)
    show ?thesis using mcs_clear [OF C, of t] McUnlClear by (simp add: s' mc_chain_def mc_phases_at)
  next
    case McTryCas
    show ?thesis
    proof (cases "mc_locked s")
      case None
      then have s': "s' = mc_goto t McCrit (s\<lparr>mc_locked := Some t\<rparr>)" using st McTryCas
        by (simp add: mc_go_def mc_lock_def mc_unlock_def mc_try_lock_def)
      have o: "mc_phases s t = PhOut" using McTryCas by (simp add: mc_phases_at)
      note J = mcs_join_empty [OF C [unfolded None] o]
      show ?thesis using J McTryCas None by (intro exI [of _ "[t]"]) (simp add: s' mc_chain_def)
    qed (use st McTryCas c in \<open>auto simp: mc_go_def mc_lock_def mc_unlock_def mc_try_lock_def intro!: mc_chain_goto\<close>)
  qed (use st c in \<open>auto simp: mc_go_def mc_lock_def mc_unlock_def mc_try_lock_def intro!: mc_chain_goto split: if_splits\<close>)
qed

text \<open>The owner's node is linked only if it is not the last.\<close>

lemma mc_next_not_last:
  assumes "mc_chain s q" and "ph_owns (mc_phases s t)" and "mc_next s t \<noteq> None"
  shows "mc_locked s \<noteq> Some t"
proof
  note D = mcs_chainD [OF assms(1) [unfolded mc_chain_def]]
  assume "mc_locked s = Some t"
  then have "q \<noteq> [] \<and> t = last q" using D(2) by (auto split: if_splits)
  then show False using D(10) [of t] assms(3) by blast
qed

lemma mc_go_next:
  assumes c: "mc_chain s q" and inv: "mc_next_ok s" and st: "mc_go t s = Some s'"
  shows "mc_next_ok s'"
  unfolding mc_next_ok_def
proof (intro allI conjI impI)
  fix u
  have i: "mc_pc s u = McUnlLoad \<Longrightarrow> mc_next s u \<noteq> None" "mc_pc s u = McUnlWait \<Longrightarrow> mc_locked s \<noteq> Some u"
    using inv by (auto simp: mc_next_ok_def)
  show "mc_next s' u \<noteq> None" if "mc_pc s' u = McUnlLoad"
    using st that i(1)
    by (cases "mc_pc s t") (auto simp: mc_ops mc_spin_def split: if_splits option.splits)
  have "mc_pc s u = McUnlNext \<Longrightarrow> mc_next s u \<noteq> None \<Longrightarrow> mc_locked s \<noteq> Some u"
    using mc_next_not_last [OF c, of u] by (simp add: mc_phases_at)
  then show "mc_locked s' \<noteq> Some u" if "mc_pc s' u = McUnlWait"
    using st that i(2)
    by (cases "mc_pc s t") (auto simp: mc_ops mc_spin_def split: if_splits option.splits)
qed

lemma mc_call_phase: "mc_call a p = Some p' \<Longrightarrow> mc_phase p' = mc_phase p \<and> p' \<noteq> McUnlLoad \<and> p' \<noteq> McUnlWait"
  by (cases "(a, p)" rule: mc_call.cases) auto

lemma mc_call_rel:
  assumes rel: "mc_rel s q" and call: "mc_call a (mc_pc s t) = Some p"
  shows "mc_rel (mc_goto t p s) q"
  using mc_chain_goto [of s q p t] mc_call_phase [OF call] rel by (auto simp: mc_rel_def mc_next_ok_def mc_goto_def)

lemma mc_sim_step:
  assumes rel: "mc_rel s q" and st: "mcs_step l s = Some s'"
  shows "\<exists>q'. run ql_step (mc_events s l) q = Some q' \<and> mc_rel s' q'"
proof (cases "(l, s)" rule: mcs_step.cases)
  case (1 t s0)
  then show ?thesis using mc_go_chain [of s q t s'] mc_go_next [of s q t s'] rel st by (auto simp: mc_rel_def)
qed (use rel st in \<open>auto intro: mc_call_rel\<close>)

lemma mcs_step_frame: "mcs_step (t, a) s = Some s' \<Longrightarrow> u \<noteq> t \<Longrightarrow> mc_pc s' u = mc_pc s u"
  by (cases a) (auto simp: mc_ops split: mc_pc.splits if_splits option.splits)

interpretation mcs: queue_lock mcs_step "mcs_init f" mc_rel mc_events mc_holds mc_crit mc_is_locked
  for f
proof unfold_locales
  show "mc_rel (mcs_init f) []"
    using mcs_chain_init by (simp add: mc_rel_def mc_next_ok_def mc_chain_def mcs_init_def mc_phases_def comp_def)
  show "\<And>s q l s'. mc_rel s q \<Longrightarrow> mcs_step l s = Some s' \<Longrightarrow>
      \<exists>q'. run ql_step (mc_events s l) q = Some q' \<and> mc_rel s' q'"
    by (rule mc_sim_step)
  show "\<And>t. \<not> mc_holds t (mcs_init f)" by (simp add: mc_holds_def mcs_init_def)
  show "\<And>s q t. mc_rel s q \<Longrightarrow> mc_holds t s \<Longrightarrow> q \<noteq> [] \<and> hd q = t"
    unfolding mc_rel_def mc_chain_def mc_holds_def mc_phases_at [symmetric] using mcs_owner_first by (metis empty_iff list.set(1))
  show "\<And>t a s s' u. mcs_step (t, a) s = Some s' \<Longrightarrow> u \<noteq> t \<Longrightarrow> mc_holds u s' = mc_holds u s"
    by (simp add: mc_holds_def mcs_step_frame)
  show "\<And>t s. mc_crit t s \<Longrightarrow> mc_holds t s" by (simp add: mc_crit_def mc_holds_def)
  show "\<And>s q. mc_rel s q \<Longrightarrow> q \<noteq> [] \<Longrightarrow> mc_is_locked s"
    unfolding mc_rel_def mc_chain_def mc_is_locked_def by (auto dest: mcs_chainD(2))
qed

section \<open>Properties\<close>

text \<open>
  C16. The MCS lock is a fair lock: in every run, acquisitions and releases alternate with a single
  owner, who sees \<open>is_locked\<close> true; the threads join a queue by their exchange of the tail pointer (or
  a successful \<open>try_lock\<close>) and leave it by releasing the lock in the same order, the linked nodes
  represent that queue, and the owner is its first thread.
\<close>
theorem mcs_correct:
  assumes r: "run mcs_step ls (mcs_init f) = Some s"
  shows "(\<exists>h. run alock_step (trace mcs_step (lock_events mcs_step mc_holds) ls (mcs_init f)) None = Some h \<and>
            owner_rel mc_holds s h \<and> (\<forall>t. mc_crit t s \<longrightarrow> h = Some t \<and> mc_is_locked s)) \<and>
         (\<exists>q. mc_rel s q \<and> ql_joined (trace mcs_step mc_events ls (mcs_init f)) =
                ql_left (trace mcs_step mc_events ls (mcs_init f)) @ q \<and>
            (\<forall>t. mc_holds t s \<longrightarrow> q \<noteq> [] \<and> hd q = t))"
  using mcs.linearizable [OF r] mcs.fifo [OF r] by blast

text \<open>Thread 1 exchanges the tail pointer before thread 2, links its node later, and enters first.\<close>

definition mcs_demo_run :: "(tid \<times> lock_act) list" where
  "mcs_demo_run = [(0, Lock), (0, Go), (1, Lock), (2, Lock), (1, Go), (2, Go), (2, Go), (2, Go), (0, Unlock),
     (0, Go), (0, Go), (1, Go), (1, Go), (0, Go), (0, Go), (0, Go), (1, Go), (1, Go), (0, Go)]"

lemmas mc_eval = mc_ops mc_spin_def mcs_init_def

theorem mcs_correct_witness:
  "\<exists>s q. run mcs_step mcs_demo_run (mcs_init (\<lambda>_. Free)) = Some s \<and> mc_crit 1 s \<and> q \<noteq> [] \<and> hd q = 1 \<and>
     ql_joined (trace mcs_step mc_events mcs_demo_run (mcs_init (\<lambda>_. Free))) = [0, 1, 2] \<and>
     ql_left (trace mcs_step mc_events mcs_demo_run (mcs_init (\<lambda>_. Free))) @ q = [0, 1, 2]"
proof -
  obtain s where s: "run mcs_step mcs_demo_run (mcs_init (\<lambda>_. Free)) = Some s" "mc_crit 1 s"
    by (simp add: mc_eval mcs_demo_run_def mc_crit_def)
  have j: "ql_joined (trace mcs_step mc_events mcs_demo_run (mcs_init (\<lambda>_. Free))) = [0, 1, 2]"
    by (simp add: mc_eval mcs_demo_run_def)
  have "mc_holds 1 s" using s(2) by (simp add: mc_crit_def mc_holds_def)
  then show ?thesis using mcs_correct [OF s(1)] s j by metis
qed

fun mc_unlocking :: "mc_pc \<Rightarrow> bool" where
  "mc_unlocking McUnlNext = True"
| "mc_unlocking McUnlCas = True"
| "mc_unlocking McUnlWait = True"
| "mc_unlocking McUnlLoad = True"
| "mc_unlocking (McUnlGrant n) = True"
| "mc_unlocking McUnlClear = True"
| "mc_unlocking _ = False"

text \<open>The last steps of \<open>unlock\<close>.\<close>

lemma mc_finish:
  "mc_pc s t = McUnlClear \<Longrightarrow> \<exists>s'. run mcs_step [(t, Go)] s = Some s' \<and> mc_pc s' t = McIdle"
  "mc_pc s t = McUnlGrant n \<Longrightarrow> \<exists>s'. run mcs_step [(t, Go), (t, Go)] s = Some s' \<and> mc_pc s' t = McIdle"
  "mc_pc s t = McUnlLoad \<Longrightarrow> mc_next s t \<noteq> None \<Longrightarrow>
     \<exists>s'. run mcs_step [(t, Go), (t, Go), (t, Go)] s = Some s' \<and> mc_pc s' t = McIdle"
  "mc_pc s t = McUnlWait \<Longrightarrow> mc_next s t \<noteq> None \<Longrightarrow>
     \<exists>s'. run mcs_step [(t, Go), (t, Go), (t, Go), (t, Go)] s = Some s' \<and> mc_pc s' t = McIdle"
  by (auto simp: mc_ops)

text \<open>The successor of a waiting owner links itself within two steps.\<close>

lemma mc_successor:
  assumes rel: "mc_rel s q" and t: "mc_pc s t = McUnlWait"
  shows "\<exists>u ls s'. set ls \<subseteq> {(u, Go)} \<and> length ls \<le> 2 \<and> run mcs_step ls s = Some s' \<and>
    mc_pc s' t = McUnlWait \<and> mc_next s' t \<noteq> None"
proof -
  have c: "mcs_chain q (mc_locked s) (mc_next s) (mc_frees s) (mc_phases s)" and l: "mc_locked s \<noteq> Some t"
    using rel t by (auto simp: mc_rel_def mc_next_ok_def mc_chain_def)
  note D = mcs_chainD [OF c]
  have h: "t \<in> set q" "hd q = t" using mcs_owner_first [OF c, of t] t by (auto simp: mc_phases_at)
  obtain xs where x: "q = t # xs" using h by (cases q) auto
  have "xs \<noteq> []" using D(2) l x by auto
  then have a: "adj q t (hd xs)" by (simp add: x adj_Cons)
  define u where "u = hd xs"
  have "u \<noteq> t" using a D(1) adj_irrefl [of q t] by (auto simp: u_def)
  consider "mc_next s t \<noteq> None" | "mc_pc s u = McMark t" | "mc_pc s u = McLink t"
    using D(7) [OF a, folded u_def] by (cases "mc_pc s u") (auto simp: mc_phases_at)
  then show ?thesis
  proof cases
    case 1
    then show ?thesis using t by (intro exI [of _ u] exI [of _ "[]"]) auto
  next
    case 2
    then show ?thesis using t \<open>u \<noteq> t\<close> by (intro exI [of _ u] exI [of _ "[(u, Go), (u, Go)]"]) (auto simp: mc_ops)
  next
    case 3
    then show ?thesis using t \<open>u \<noteq> t\<close> by (intro exI [of _ u] exI [of _ "[(u, Go)]"]) (auto simp: mc_ops)
  qed
qed

text \<open>
  \<open>unlock\<close> of the MCS lock returns: from every reachable state in which thread \<open>t\<close> is in \<open>unlock\<close>, at
  most eight steps of \<open>t\<close> and of the thread behind it in the queue end the call. \<open>t\<close> never waits for a
  thread that is not already linking itself, and never follows a null pointer.
\<close>
theorem mcs_unlock_returns:
  assumes r: "reachable mcs_step (mcs_init f) s" and t: "mc_unlocking (mc_pc s t)"
  shows "\<exists>u ls s'. set ls \<subseteq> {(t, Go), (u, Go)} \<and> length ls \<le> 8 \<and> run mcs_step ls s = Some s' \<and> mc_pc s' t = McIdle"
proof -
  have wait: "\<exists>u ls s'. set ls \<subseteq> {(t, Go), (u, Go)} \<and> length ls \<le> 6 \<and> run mcs_step ls s1 = Some s' \<and> mc_pc s' t = McIdle"
    if s1: "reachable mcs_step (mcs_init f) s1" "mc_pc s1 t = McUnlWait" for s1
  proof -
    obtain q where "mc_rel s1 q" using mcs.inv_reachable [OF s1(1)] by blast
    then obtain u ls s2 where u: "set ls \<subseteq> {(u, Go)}" "length ls \<le> 2" "run mcs_step ls s1 = Some s2"
      "mc_pc s2 t = McUnlWait" "mc_next s2 t \<noteq> None" using mc_successor s1(2) by blast
    obtain s' where "run mcs_step [(t, Go), (t, Go), (t, Go), (t, Go)] s2 = Some s'" "mc_pc s' t = McIdle"
      using mc_finish(4) [OF u(4,5)] by blast
    then show ?thesis using u
      by (intro exI [of _ u] exI [of _ "ls @ [(t, Go), (t, Go), (t, Go), (t, Go)]"] exI [of _ s']) (auto simp: run_append)
  qed
  have go: "\<exists>u ls s'. set ls \<subseteq> {(t, Go), (u, Go)} \<and> length ls \<le> 8 \<and> run mcs_step ls s = Some s' \<and> mc_pc s' t = McIdle"
    if s1: "run mcs_step ms s = Some s1" "mc_pc s1 t = McUnlWait" and ms: "set ms \<subseteq> {(t, Go)}" "length ms \<le> 2" for ms s1
  proof -
    obtain u ls s' where "set ls \<subseteq> {(t, Go), (u, Go)}" "length ls \<le> 6" "run mcs_step ls s1 = Some s'" "mc_pc s' t = McIdle"
      using wait [OF reachable_run [OF r s1(1)] s1(2)] by blast
    then show ?thesis using s1(1) ms
      by (intro exI [of _ u] exI [of _ "ms @ ls"] exI [of _ s']) (auto simp: run_append)
  qed
  obtain q where rel: "mc_rel s q" using mcs.inv_reachable [OF r] by blast
  have fin: ?thesis if "run mcs_step (replicate n (t, Go)) s = Some s'" "mc_pc s' t = McIdle" "n \<le> 8" for n s'
    using that by (intro exI [of _ t] exI [of _ "replicate n (t, Go)"] exI [of _ s']) auto
  show ?thesis
  proof (cases "mc_pc s t")
    case McUnlNext
    show ?thesis
    proof (cases "mc_next s t = None")
      case True
      show ?thesis
      proof (cases "mc_locked s = Some t")
        case last: True
        then show ?thesis using McUnlNext True fin [of 2] by (simp add: mc_ops numeral_eq_Suc)
      next
        case False
        then show ?thesis using McUnlNext True go [of "[(t, Go), (t, Go)]"] by (simp add: mc_ops)
      qed
    next
      case False
      then show ?thesis using McUnlNext go [of "[(t, Go)]"] by (simp add: mc_ops)
    qed
  next
    case McUnlCas
    then show ?thesis using go [of "[(t, Go)]"] fin [of 1] by (cases "mc_locked s = Some t") (simp_all add: mc_ops)
  next
    case McUnlWait
    then show ?thesis using go [of "[]"] by simp
  next
    case McUnlLoad
    then have "mc_next s t \<noteq> None" using rel by (simp add: mc_rel_def mc_next_ok_def)
    then show ?thesis using mc_finish(3) [OF McUnlLoad] fin [of 3] by (auto simp: numeral_eq_Suc)
  next
    case (McUnlGrant n)
    then show ?thesis using mc_finish(2) [OF McUnlGrant] fin [of 2] by (auto simp: numeral_eq_Suc)
  next
    case McUnlClear
    then show ?thesis using mc_finish(1) [OF McUnlClear] fin [of 1] by auto
  qed (use t in auto)
qed

theorem mcs_unlock_returns_witness:
  "\<exists>s u ls s'. run mcs_step (take 11 mcs_demo_run) (mcs_init (\<lambda>_. Free)) = Some s \<and> mc_pc s 0 = McUnlWait \<and>
     length ls \<le> 8 \<and> set ls \<subseteq> {(0, Go), (u, Go)} \<and> run mcs_step ls s = Some s' \<and> mc_pc s' 0 = McIdle"
proof -
  obtain s where s: "run mcs_step (take 11 mcs_demo_run) (mcs_init (\<lambda>_. Free)) = Some s" "mc_pc s 0 = McUnlWait"
    by (simp add: mc_eval mcs_demo_run_def)
  have "mc_unlocking (mc_pc s 0)" using s(2) by simp
  from mcs_unlock_returns [OF run_reachable [OF s(1)] this] s show ?thesis by blast
qed

text \<open>
  The MCS lock is not lost in a handover: whenever it is taken (\<open>is_locked\<close>) and no thread owns it, the
  first thread of the queue has been set free, and enters its critical section within two steps of
  its own.
\<close>
theorem mcs_first_enters:
  assumes r: "reachable mcs_step (mcs_init f) s" and l: "mc_is_locked s" and none: "\<forall>t. \<not> mc_holds t s"
  shows "\<exists>t ls s'. set ls \<subseteq> {(t, Go)} \<and> length ls \<le> 2 \<and> run mcs_step ls s = Some s' \<and> mc_crit t s'"
proof -
  obtain q where rel: "mc_rel s q" using mcs.inv_reachable [OF r] by blast
  then have c: "mcs_chain q (mc_locked s) (mc_next s) (mc_frees s) (mc_phases s)"
    by (simp add: mc_rel_def mc_chain_def)
  note D = mcs_chainD [OF c]
  obtain t xs where q: "q = t # xs" using D(2) l by (cases q) (auto simp: mc_is_locked_def)
  have "mc_phases s t \<noteq> PhOut" "mc_phases s t \<noteq> PhClear" using D(3) [of t] q by auto
  moreover have "\<not> ph_owns (mc_phases s t)" using none by (simp add: mc_holds_def mc_phases_at)
  moreover have "\<not> adj q a t" for a using adj_mem [of q a t] D(1) q by auto
  ultimately have w: "mc_phases s t = PhWait" using D(8) [of t] by (cases "mc_phases s t") auto
  then have f: "mc_field s t = Free" using D(9) [of t] D(1) q by (auto simp: mc_frees_def)
  have "(\<exists>i. mc_pc s t = McSpin i) \<or> mc_pc s t = McWait"
    using w by (cases "mc_pc s t") (auto simp: mc_phases_at)
  then show ?thesis
  proof (elim disjE exE)
    fix i assume "mc_pc s t = McSpin i"
    then show ?thesis using f
      by (intro exI [of _ t] exI [of _ "[(t, Go), (t, Go)]"]) (auto simp: mc_ops mc_crit_def)
  next
    assume "mc_pc s t = McWait"
    then show ?thesis using f by (intro exI [of _ t] exI [of _ "[(t, Go)]"]) (auto simp: mc_ops mc_crit_def)
  qed
qed

theorem mcs_first_enters_witness:
  "\<exists>s t ls s'. run mcs_step (take 16 mcs_demo_run) (mcs_init (\<lambda>_. Free)) = Some s \<and> mc_is_locked s \<and>
     set ls \<subseteq> {(t, Go)} \<and> length ls \<le> 2 \<and> run mcs_step ls s = Some s' \<and> mc_crit t s'"
proof -
  obtain s where s: "run mcs_step (take 16 mcs_demo_run) (mcs_init (\<lambda>_. Free)) = Some s" "mc_is_locked s"
    "\<forall>t. \<not> mc_holds t s"
    by (simp add: mc_eval mcs_demo_run_def mc_holds_def)
  from mcs_first_enters [OF run_reachable [OF s(1)] s(2,3)] s show ?thesis by blast
qed

end
