(* ===== verification/MCS_Futex_Lock.thy ===== *)
theory MCS_Futex_Lock
  imports Queue_Lock Futex "HOL-Library.Word"
begin

unbundle bit_operations_syntax

text \<open>
  The MCS lock with futexes of \<open>locks/mcs_futex_lock.hpp\<close>. The word of the lock is the address of the
  last node with the flag of \<open>try_lock_or_wait\<close> in its lowest bit; the threads that sleep in \<open>lock\<close> do so
  on their own node, those in \<open>try_lock_or_wait\<close> on the lower half of the word of the lock.
\<close>

section \<open>Tagged pointers\<close>

text \<open>
  The word \<open>locked\<close>: a pointer to a node, named by its thread, and the flag. \<open>tag_word\<close> is its
  representation, for the addresses \<open>A\<close> of the nodes; \<open>mf_low\<close> is what the futex call sees of it, its
  lower 32 bits as an \<open>int\<close>.
\<close>

type_synonym tagged = "tid option \<times> bool"

definition tag_word :: "(tid \<Rightarrow> 64 word) \<Rightarrow> tagged \<Rightarrow> 64 word" where
  "tag_word A w = (case fst w of None \<Rightarrow> 0 | Some t \<Rightarrow> A t) OR (if snd w then 1 else 0)"

definition mf_low :: "(tid \<Rightarrow> 64 word) \<Rightarrow> tagged \<Rightarrow> int" where
  "mf_low A w = sint (ucast (tag_word A w) :: 32 word)"

text \<open>Nodes are aligned.\<close>

definition aligned_nodes :: "(tid \<Rightarrow> 64 word) \<Rightarrow> bool" where
  "aligned_nodes A \<longleftrightarrow> (\<forall>t. A t AND 1 = 0)"

lemma tag_word_flag: "aligned_nodes A \<Longrightarrow> tag_word A w AND 1 = (if snd w then 1 else 0)"
  by (cases "fst w") (auto simp: tag_word_def aligned_nodes_def bit.conj_disj_distrib2)

lemma mf_low_flag:
  assumes A: "aligned_nodes A" and eq: "mf_low A v = mf_low A w"
  shows "snd v = snd w"
proof -
  have "(ucast (tag_word A v) :: 32 word) = ucast (tag_word A w)"
    using eq unfolding mf_low_def by (rule signed_word_eqI)
  then have "bit (ucast (tag_word A v) :: 32 word) 0 = bit (ucast (tag_word A w) :: 32 word) 0" by simp
  then have "bit (tag_word A v) 0 = bit (tag_word A w) 0" by (simp add: bit_unsigned_iff)
  moreover have "bit (tag_word A u) 0 = snd u" for u
  proof -
    have "bit (tag_word A u AND 1) 0 = snd u" by (simp add: tag_word_flag [OF A])
    then show ?thesis by (simp add: bit_and_iff)
  qed
  ultimately show ?thesis by simp
qed

lemma tag_word_bit: "bit (tag_word A w) n \<longleftrightarrow> (case fst w of None \<Rightarrow> False | Some t \<Rightarrow> bit (A t) n) \<or> snd w \<and> n = 0"
  by (cases "fst w") (auto simp: tag_word_def bit_simps)

lemma aligned_bit: "aligned_nodes A \<Longrightarrow> bit (A t) n \<Longrightarrow> n \<noteq> 0"
proof
  assume A: "aligned_nodes A" and b: "bit (A t) n" "n = 0"
  have "bit (A t AND 1) 0" using b by (simp add: bit_simps)
  then show False using A by (simp add: aligned_nodes_def)
qed

section \<open>State\<close>

text \<open>The words threads sleep on.\<close>

datatype mf_futex = LockWord | NodeWord tid

text \<open>
  In \<open>lock\<close>: before the load, before the compare-exchange, before the store to the own node, before
  the link, in the \<open>i\<close>-th iteration of the loop, before the test for \<open>taken\<close>, before the
  compare-exchange of the own field, before the test of the \<open>while\<close> loop, before the wait, asleep. In
  \<open>unlock\<close>: before the test of \<open>next\<close>, before the load of the flag, before the compare-exchange, in
  the \<open>while\<close> loop, before the load of \<open>next\<close>, before the exchange in the next node, before
  \<open>notify_one\<close>, before the reset of \<open>next\<close>, in \<open>notify_all\<close>. In \<open>try_lock\<close> and \<open>try_lock_or_wait\<close>: before
  the load, before a compare-exchange, before the wait, asleep. In \<open>wake\<close>: before the test, in \<open>notify_all\<close>.
\<close>

datatype mf_pc = MfIdle
  | MfLoad | MfCas tagged | MfMark tid | MfLink tid | MfSpin nat | MfTest | MfContend | MfLoop | MfWait | MfSleep
  | MfCrit
  | MfUnlNext | MfUnlFlag | MfUnlCas bool | MfUnlWait | MfUnlLoad | MfUnlGrant tid | MfNotifyOne tid | MfUnlClear
  | MfNotifyAll
  | MfTryLoad | MfTryCas
  | MfTlwLoad | MfTlwCas tagged | MfTlwFlag tagged | MfTlwWait tagged | MfTlwSleep
  | MfWake bool | MfWakeAll bool

record 'k mcs_futex_lock =
  mf_locked :: tagged
  mf_field :: "tid \<Rightarrow> mcs_field"
  mf_next :: "tid \<Rightarrow> tid option"
  mf_pc :: "tid \<Rightarrow> mf_pc"
  mf_kernel :: 'k

definition mcs_futex_init ::
  "(mf_futex, 'k) futex_kernel \<Rightarrow> (tid \<Rightarrow> mcs_field) \<Rightarrow> 'k mcs_futex_lock" where
  "mcs_futex_init K f =
     \<lparr>mf_locked = (None, False), mf_field = f, mf_next = (\<lambda>_. None), mf_pc = (\<lambda>_. MfIdle), mf_kernel = k_init K\<rparr>"

definition mf_goto :: "tid \<Rightarrow> mf_pc \<Rightarrow> 'k mcs_futex_lock \<Rightarrow> 'k mcs_futex_lock" where
  "mf_goto t p s = s\<lparr>mf_pc := (mf_pc s)(t := p)\<rparr>"

definition mf_asleep :: "(mf_futex, 'k) futex_kernel \<Rightarrow> 'k mcs_futex_lock \<Rightarrow> mf_futex \<Rightarrow> tid \<Rightarrow> bool" where
  "mf_asleep K s a t = k_blocked K (mf_kernel s) a t"

section \<open>Operations\<close>

definition mf_wait ::
  "(mf_futex, 'k) futex_kernel \<Rightarrow> tid \<Rightarrow> mf_futex \<Rightarrow> int \<Rightarrow> int \<Rightarrow> 'k mcs_futex_lock \<Rightarrow> 'k mcs_futex_lock" where
  "mf_wait K t a cur expected s = s\<lparr>mf_kernel := k_wait K t a cur expected (mf_kernel s)\<rparr>"

definition mf_spin :: "nat \<Rightarrow> mf_pc" where
  "mf_spin i = (if i < 512 then MfSpin i else MfTest)"

definition mf_lock :: "(mf_futex, 'k) futex_kernel \<Rightarrow> tid \<Rightarrow> 'k mcs_futex_lock \<Rightarrow> 'k mcs_futex_lock option" where
  "mf_lock K t s =
     (case mf_pc s t of
        MfLoad \<Rightarrow> Some (mf_goto t (MfCas (mf_locked s)) s)
      | MfCas current \<Rightarrow>
          Some (if mf_locked s = current
                then mf_goto t (case fst current of None \<Rightarrow> MfCrit | Some found \<Rightarrow> MfMark found)
                       (s\<lparr>mf_locked := (Some t, snd current)\<rparr>)
                else mf_goto t (MfCas (mf_locked s)) s)
      | MfMark found \<Rightarrow> Some (mf_goto t (MfLink found) (s\<lparr>mf_field := (mf_field s)(t := Taken)\<rparr>))
      | MfLink found \<Rightarrow> Some (mf_goto t (mf_spin 0) (s\<lparr>mf_next := (mf_next s)(found := Some t)\<rparr>))
      | MfSpin i \<Rightarrow> Some (mf_goto t (if mf_field s t = Free then MfTest else mf_spin (i + 1)) s)
      | MfTest \<Rightarrow> Some (mf_goto t (if mf_field s t = Taken then MfContend else MfLoop) s)
      | MfContend \<Rightarrow>
          Some (if mf_field s t = Taken then mf_goto t MfLoop (s\<lparr>mf_field := (mf_field s)(t := Contended)\<rparr>)
                else mf_goto t (if mf_field s t = Free then MfCrit else MfLoop) s)
      | MfLoop \<Rightarrow> Some (mf_goto t (if mf_field s t \<noteq> Free then MfWait else MfCrit) s)
      | MfWait \<Rightarrow>
          Some (mf_goto t MfSleep
                 (mf_wait K t (NodeWord t) (mcs_field_val (mf_field s t)) (mcs_field_val Contended) s))
      | MfSleep \<Rightarrow> (if mf_asleep K s (NodeWord t) t then None else Some (mf_goto t MfLoop s))
      | _ \<Rightarrow> None)"

definition mf_notify_one ::
  "(mf_futex, 'k) futex_kernel \<Rightarrow> tid \<Rightarrow> 'k mcs_futex_lock \<Rightarrow> 'k mcs_futex_lock option" where
  "mf_notify_one K t s =
     (case mf_pc s t of
        MfNotifyOne nxt \<Rightarrow> Some (mf_goto t MfUnlClear (s\<lparr>mf_kernel := snd (k_wake K (NodeWord nxt) 1 (mf_kernel s))\<rparr>))
      | _ \<Rightarrow> None)"

definition mf_notify_all ::
  "(mf_futex, 'k) futex_kernel \<Rightarrow> tid \<Rightarrow> mf_pc \<Rightarrow> 'k mcs_futex_lock \<Rightarrow> 'k mcs_futex_lock" where
  "mf_notify_all K t return s =
     (let (woken, k) = k_wake K LockWord wake_at_once (mf_kernel s) in
      (if woken = wake_at_once then s else mf_goto t return s)\<lparr>mf_kernel := k\<rparr>)"

text \<open>\<open>wake\<close>, called by a thread that has the lock (\<open>holder\<close>) or not.\<close>

definition mf_wake ::
  "(mf_futex, 'k) futex_kernel \<Rightarrow> tid \<Rightarrow> 'k mcs_futex_lock \<Rightarrow> 'k mcs_futex_lock option" where
  "mf_wake K t s =
     (case mf_pc s t of
        MfWake holder \<Rightarrow>
          Some (mf_goto t (if mf_locked s = (Some t, True) then MfWakeAll holder
                           else if holder then MfCrit else MfIdle) s)
      | MfWakeAll holder \<Rightarrow> Some (mf_notify_all K t (if holder then MfCrit else MfIdle) s)
      | _ \<Rightarrow> None)"

text \<open>\<open>None\<close> in \<open>MfUnlLoad\<close> is the use of a null pointer.\<close>

definition mf_unlock :: "tid \<Rightarrow> 'k mcs_futex_lock \<Rightarrow> 'k mcs_futex_lock option" where
  "mf_unlock t s =
     (case mf_pc s t of
        MfUnlNext \<Rightarrow> Some (mf_goto t (if mf_next s t = None then MfUnlFlag else MfUnlWait) s)
      | MfUnlFlag \<Rightarrow> Some (mf_goto t (MfUnlCas (snd (mf_locked s))) s)
      | MfUnlCas sleep \<Rightarrow>
          Some (if mf_locked s = (Some t, sleep)
                then mf_goto t (if sleep then MfNotifyAll else MfIdle) (s\<lparr>mf_locked := (None, False)\<rparr>)
                else mf_goto t (if fst (mf_locked s) = Some t then MfUnlNext else MfUnlWait) s)
      | MfUnlWait \<Rightarrow> Some (if mf_next s t = None then s else mf_goto t MfUnlLoad s)
      | MfUnlLoad \<Rightarrow> map_option (\<lambda>nxt. mf_goto t (MfUnlGrant nxt) s) (mf_next s t)
      | MfUnlGrant nxt \<Rightarrow>
          Some (mf_goto t (if mf_field s nxt = Contended then MfNotifyOne nxt else MfUnlClear)
                 (s\<lparr>mf_field := (mf_field s)(nxt := Free)\<rparr>))
      | MfUnlClear \<Rightarrow> Some (mf_goto t MfIdle (s\<lparr>mf_next := (mf_next s)(t := None)\<rparr>))
      | _ \<Rightarrow> None)"

definition mf_is_locked :: "'k mcs_futex_lock \<Rightarrow> bool" where
  "mf_is_locked s \<longleftrightarrow> mf_locked s \<noteq> (None, False)"

definition mf_try_lock :: "tid \<Rightarrow> 'k mcs_futex_lock \<Rightarrow> 'k mcs_futex_lock option" where
  "mf_try_lock t s =
     (case mf_pc s t of
        MfTryLoad \<Rightarrow> Some (mf_goto t (if mf_is_locked s then MfIdle else MfTryCas) s)
      | MfTryCas \<Rightarrow>
          Some (if mf_locked s = (None, False) then mf_goto t MfCrit (s\<lparr>mf_locked := (Some t, False)\<rparr>)
                else mf_goto t MfIdle s)
      | _ \<Rightarrow> None)"

text \<open>
  The head of the \<open>while\<close> loop of \<open>try_lock_or_wait\<close>, with the variables \<open>c\<close> and \<open>flagged\<close>. A weak
  compare-exchange that fails without reason leaves \<open>c\<close> and comes back to the same place: it is a step
  that is not taken.
\<close>

definition mf_tlw :: "tagged \<Rightarrow> tagged \<Rightarrow> mf_pc" where
  "mf_tlw c flagged =
     (if snd c then MfTlwWait flagged else if c = (None, False) then MfTlwCas flagged else MfTlwFlag c)"

definition mf_try_lock_or_wait ::
  "(tid \<Rightarrow> 64 word) \<Rightarrow> (mf_futex, 'k) futex_kernel \<Rightarrow> tid \<Rightarrow> 'k mcs_futex_lock \<Rightarrow> 'k mcs_futex_lock option" where
  "mf_try_lock_or_wait A K t s =
     (case mf_pc s t of
        MfTlwLoad \<Rightarrow> Some (mf_goto t (mf_tlw (mf_locked s) (fst (mf_locked s), True)) s)
      | MfTlwCas flagged \<Rightarrow>
          Some (if mf_locked s = (None, False) then mf_goto t MfCrit (s\<lparr>mf_locked := (Some t, False)\<rparr>)
                else mf_goto t (mf_tlw (mf_locked s) flagged) s)
      | MfTlwFlag c \<Rightarrow>
          Some (if mf_locked s = c
                then mf_goto t (MfTlwWait (fst c, True)) (s\<lparr>mf_locked := (fst c, True)\<rparr>)
                else mf_goto t (mf_tlw (mf_locked s) (fst c, True)) s)
      | MfTlwWait flagged \<Rightarrow>
          Some (mf_goto t MfTlwSleep (mf_wait K t LockWord (mf_low A (mf_locked s)) (mf_low A flagged) s))
      | MfTlwSleep \<Rightarrow> (if mf_asleep K s LockWord t then None else Some (mf_goto t MfIdle s))
      | _ \<Rightarrow> None)"

definition mf_call :: "lock_act \<Rightarrow> mf_pc \<Rightarrow> mf_pc option" where
  "mf_call a p =
     (if p = MfIdle
      then (case a of Lock \<Rightarrow> Some MfLoad | TryLock \<Rightarrow> Some MfTryLoad | TryLockOrWait \<Rightarrow> Some MfTlwLoad
        | Wake \<Rightarrow> Some (MfWake False) | _ \<Rightarrow> None)
      else if p = MfCrit
      then (case a of Unlock \<Rightarrow> Some MfUnlNext | Wake \<Rightarrow> Some (MfWake True) | _ \<Rightarrow> None)
      else None)"

definition mf_go ::
  "(tid \<Rightarrow> 64 word) \<Rightarrow> (mf_futex, 'k) futex_kernel \<Rightarrow> tid \<Rightarrow> 'k mcs_futex_lock \<Rightarrow> 'k mcs_futex_lock option" where
  "mf_go A K t s =
     (case mf_pc s t of
        MfUnlNext \<Rightarrow> mf_unlock t s | MfUnlFlag \<Rightarrow> mf_unlock t s | MfUnlCas b \<Rightarrow> mf_unlock t s
      | MfUnlWait \<Rightarrow> mf_unlock t s | MfUnlLoad \<Rightarrow> mf_unlock t s | MfUnlGrant n \<Rightarrow> mf_unlock t s
      | MfUnlClear \<Rightarrow> mf_unlock t s
      | MfNotifyOne n \<Rightarrow> mf_notify_one K t s | MfNotifyAll \<Rightarrow> Some (mf_notify_all K t MfIdle s)
      | MfWake b \<Rightarrow> mf_wake K t s | MfWakeAll b \<Rightarrow> mf_wake K t s
      | MfTryLoad \<Rightarrow> mf_try_lock t s | MfTryCas \<Rightarrow> mf_try_lock t s
      | MfTlwLoad \<Rightarrow> mf_try_lock_or_wait A K t s | MfTlwCas f \<Rightarrow> mf_try_lock_or_wait A K t s
      | MfTlwFlag c \<Rightarrow> mf_try_lock_or_wait A K t s | MfTlwWait f \<Rightarrow> mf_try_lock_or_wait A K t s
      | MfTlwSleep \<Rightarrow> mf_try_lock_or_wait A K t s
      | _ \<Rightarrow> mf_lock K t s)"

fun mcs_futex_step ::
  "(tid \<Rightarrow> 64 word) \<Rightarrow> (mf_futex, 'k) futex_kernel \<Rightarrow> tid \<times> lock_act \<Rightarrow> 'k mcs_futex_lock \<Rightarrow> 'k mcs_futex_lock option"
where
  "mcs_futex_step A K (t, Go) s = mf_go A K t s"
| "mcs_futex_step A K (t, Intr) s = Some (s\<lparr>mf_kernel := k_intr K t (mf_kernel s)\<rparr>)"
| "mcs_futex_step A K (t, a) s = map_option (\<lambda>p. mf_goto t p s) (mf_call a (mf_pc s t))"

lemmas mf_ops = mf_go_def mf_lock_def mf_unlock_def mf_notify_one_def mf_try_lock_def
  mf_try_lock_or_wait_def mf_goto_def mf_is_locked_def mf_wait_def mf_wake_def mf_notify_all_def

section \<open>The queue of the lock\<close>

fun mf_phase :: "mf_pc \<Rightarrow> mcs_phase" where
  "mf_phase (MfMark f) = PhJoin f"
| "mf_phase (MfLink f) = PhLink f"
| "mf_phase (MfSpin i) = PhWait"
| "mf_phase MfTest = PhWait"
| "mf_phase MfContend = PhWait"
| "mf_phase MfLoop = PhWait"
| "mf_phase MfWait = PhWait"
| "mf_phase MfSleep = PhWait"
| "mf_phase MfCrit = PhOwn"
| "mf_phase MfUnlNext = PhOwn"
| "mf_phase MfUnlFlag = PhOwn"
| "mf_phase (MfUnlCas b) = PhOwn"
| "mf_phase MfUnlWait = PhOwn"
| "mf_phase MfUnlLoad = PhOwn"
| "mf_phase (MfUnlGrant n) = PhGrant n"
| "mf_phase (MfNotifyOne n) = PhClear"
| "mf_phase MfUnlClear = PhClear"
| "mf_phase (MfWake holder) = (if holder then PhOwn else PhOut)"
| "mf_phase (MfWakeAll holder) = (if holder then PhOwn else PhOut)"
| "mf_phase _ = PhOut"

definition mf_phases :: "'k mcs_futex_lock \<Rightarrow> tid \<Rightarrow> mcs_phase" where
  "mf_phases s = mf_phase \<circ> mf_pc s"

definition mf_frees :: "'k mcs_futex_lock \<Rightarrow> tid \<Rightarrow> bool" where
  "mf_frees s t \<longleftrightarrow> mf_field s t = Free"

definition mf_chain :: "'k mcs_futex_lock \<Rightarrow> tid list \<Rightarrow> bool" where
  "mf_chain s q \<longleftrightarrow> mcs_chain q (fst (mf_locked s)) (mf_next s) (mf_frees s) (mf_phases s)"

text \<open>The word of the lock is never the flag alone; the rest is as for the MCS lock.\<close>

definition mf_next_ok :: "'k mcs_futex_lock \<Rightarrow> bool" where
  "mf_next_ok s \<longleftrightarrow> (fst (mf_locked s) = None \<longrightarrow> \<not> snd (mf_locked s)) \<and>
     (\<forall>t c. mf_pc s t = MfTlwFlag c \<longrightarrow> fst c \<noteq> None) \<and>
     (\<forall>t. (mf_pc s t = MfUnlLoad \<longrightarrow> mf_next s t \<noteq> None) \<and> (mf_pc s t = MfUnlWait \<longrightarrow> fst (mf_locked s) \<noteq> Some t))"

definition mf_crit :: "tid \<Rightarrow> 'k mcs_futex_lock \<Rightarrow> bool" where
  "mf_crit t s \<longleftrightarrow> mf_pc s t = MfCrit"

definition mf_holds :: "tid \<Rightarrow> 'k mcs_futex_lock \<Rightarrow> bool" where
  "mf_holds t s \<longleftrightarrow> ph_owns (mf_phase (mf_pc s t))"

fun mf_events :: "'k mcs_futex_lock \<Rightarrow> tid \<times> lock_act \<Rightarrow> ql_event list" where
  "mf_events s (t, Go) =
     (case mf_pc s t of
        MfCas current \<Rightarrow> if mf_locked s = current then [Joins t] else []
      | MfTryCas \<Rightarrow> if mf_locked s = (None, False) then [Joins t] else []
      | MfTlwCas flagged \<Rightarrow> if mf_locked s = (None, False) then [Joins t] else []
      | MfUnlCas sleep \<Rightarrow> if mf_locked s = (Some t, sleep) then [Leaves t] else []
      | MfUnlGrant n \<Rightarrow> [Leaves t]
      | _ \<Rightarrow> [])"
| "mf_events s (t, a) = []"

lemma mf_spin_phase [simp]: "mf_phase (mf_spin i) = PhWait" "mf_spin i \<noteq> MfUnlLoad" "mf_spin i \<noteq> MfUnlWait"
  by (auto simp: mf_spin_def)

lemma mf_tlw_phase [simp]: "mf_phase (mf_tlw c f) = PhOut" "mf_tlw c f \<noteq> MfUnlLoad" "mf_tlw c f \<noteq> MfUnlWait"
  by (auto simp: mf_tlw_def)

lemma mf_tlw_flag: "mf_tlw c e = MfTlwFlag d \<Longrightarrow> \<exists>u. fst d = Some u"
  by (cases c) (auto simp: mf_tlw_def split: if_splits)

lemma mf_goto_simps [simp]:
  "mf_locked (mf_goto t p s) = mf_locked s" "mf_next (mf_goto t p s) = mf_next s"
  "mf_frees (mf_goto t p s) = mf_frees s" "mf_phases (mf_goto t p s) = (mf_phases s)(t := mf_phase p)"
  by (auto simp: mf_goto_def mf_frees_def mf_phases_def)

lemma mf_upd_simps [simp]:
  "mf_frees (s\<lparr>mf_locked := l\<rparr>) = mf_frees s" "mf_phases (s\<lparr>mf_locked := l\<rparr>) = mf_phases s"
  "mf_frees (s\<lparr>mf_next := n\<rparr>) = mf_frees s" "mf_phases (s\<lparr>mf_next := n\<rparr>) = mf_phases s"
  "mf_frees (s\<lparr>mf_field := (mf_field s)(t := x)\<rparr>) = (mf_frees s)(t := (x = Free))"
  "mf_phases (s\<lparr>mf_field := f\<rparr>) = mf_phases s"
  "mf_frees (s\<lparr>mf_kernel := k\<rparr>) = mf_frees s" "mf_phases (s\<lparr>mf_kernel := k\<rparr>) = mf_phases s"
  by (auto simp: mf_frees_def mf_phases_def fun_eq_iff)

lemma mf_phases_at: "mf_phases s t = mf_phase (mf_pc s t)"
  by (simp add: mf_phases_def)

text \<open>A step that changes neither the phase of the thread nor the fields that make up the queue.\<close>

lemma mf_chain_same:
  assumes "mf_chain s q" and "fst (mf_locked s') = fst (mf_locked s)" "mf_next s' = mf_next s"
    and fr: "\<And>u. mf_field s' u = Free \<longleftrightarrow> mf_field s u = Free" and "\<And>u. u \<noteq> t \<Longrightarrow> mf_pc s' u = mf_pc s u" "mf_phase (mf_pc s' t) = mf_phase (mf_pc s t)"
  shows "mf_chain s' q"
proof -
  have "mf_phases s' u = mf_phases s u" for u using assms(5) [of u] assms(6) by (cases "u = t") (auto simp: mf_phases_at)
  then have "mf_phases s' = mf_phases s" by blast
  moreover have "mf_frees s' = mf_frees s" using fr by (simp add: mf_frees_def fun_eq_iff)
  ultimately show ?thesis using assms(1-3) by (simp add: mf_chain_def)
qed

text \<open>Setting the word of the lock to a node joins the queue if the lock is free.\<close>

lemma mf_take:
  assumes c: "mf_chain s q" and l: "fst (mf_locked s) = None" and t: "mf_phase (mf_pc s t) = PhOut"
  shows "run ql_step [Joins t] q = Some [t] \<and> mf_chain (mf_goto t MfCrit (s\<lparr>mf_locked := (Some t, b)\<rparr>)) [t]"
proof -
  have C: "mcs_chain q None (mf_next s) (mf_frees s) (mf_phases s)" using c l by (simp add: mf_chain_def)
  note J = mcs_join_empty [OF C, of t]
  show ?thesis using J t by (simp add: mf_chain_def mf_phases_at)
qed

lemma mf_go_chain:
  assumes c: "mf_chain s q" and st: "mf_go A K t s = Some s'"
  shows "\<exists>q'. run ql_step (mf_events s (t, Go)) q = Some q' \<and> mf_chain s' q'"
proof -
  note C = c [unfolded mf_chain_def]
  show ?thesis
  proof (cases "mf_pc s t")
    case (MfCas cur)
    then have o: "mf_phases s t = PhOut" by (simp add: mf_phases_at)
    show ?thesis
    proof (cases "mf_locked s = cur")
      case False
      then have "s' = mf_goto t (MfCas (mf_locked s)) s" using st MfCas by (simp add: mf_go_def mf_lock_def)
      then show ?thesis using MfCas False mf_chain_same [OF c, of s' t] by (auto simp: mf_goto_def mf_frees_def)
    next
      case True
      show ?thesis
      proof (cases "fst cur")
        case None
        then have s': "s' = mf_goto t MfCrit (s\<lparr>mf_locked := (Some t, snd cur)\<rparr>)"
          using st MfCas True by (simp add: mf_go_def mf_lock_def)
        show ?thesis using mf_take [OF c, of t "snd cur"] MfCas True None by (simp add: s')
      next
        case (Some f)
        then have s': "s' = mf_goto t (MfMark f) (s\<lparr>mf_locked := (Some t, snd cur)\<rparr>)"
          using st MfCas True by (simp add: mf_go_def mf_lock_def)
        have l: "fst (mf_locked s) = Some f" using True Some by simp
        note J = mcs_join [OF C [unfolded l] o]
        show ?thesis using J MfCas True by (intro exI [of _ "q @ [t]"]) (simp add: s' mf_chain_def)
      qed
    qed
  next
    case (MfMark f)
    then have s': "s' = mf_goto t (MfLink f) (s\<lparr>mf_field := (mf_field s)(t := Taken)\<rparr>)"
      using st by (simp add: mf_go_def mf_lock_def)
    show ?thesis using mcs_mark [OF C, of t f] MfMark by (simp add: s' mf_chain_def mf_phases_at)
  next
    case (MfLink f)
    then have s': "s' = mf_goto t (mf_spin 0) (s\<lparr>mf_next := (mf_next s)(f := Some t)\<rparr>)"
      using st by (simp add: mf_go_def mf_lock_def)
    show ?thesis using mcs_link [OF C, of t f] MfLink by (simp add: s' mf_chain_def mf_phases_at)
  next
    case MfContend
    show ?thesis
    proof (cases "mf_field s t = Free")
      case True
      then have s': "s' = mf_goto t MfCrit s" using st MfContend by (simp add: mf_go_def mf_lock_def)
      show ?thesis using mcs_enter [OF C, of t] MfContend True by (simp add: s' mf_chain_def mf_phases_at mf_frees_def)
    next
      case False
      then show ?thesis using st MfContend mf_chain_same [OF c, of s' t]
        by (auto simp: mf_go_def mf_lock_def mf_goto_def mf_frees_def fun_eq_iff split: if_splits)
    qed
  next
    case MfLoop
    show ?thesis
    proof (cases "mf_field s t = Free")
      case True
      then have s': "s' = mf_goto t MfCrit s" using st MfLoop by (simp add: mf_go_def mf_lock_def)
      show ?thesis using mcs_enter [OF C, of t] MfLoop True by (simp add: s' mf_chain_def mf_phases_at mf_frees_def)
    next
      case False
      then show ?thesis using st MfLoop mf_chain_same [OF c, of s' t]
        by (auto simp: mf_go_def mf_lock_def mf_goto_def mf_frees_def fun_eq_iff split: if_splits)
    qed
  next
    case (MfUnlCas b)
    show ?thesis
    proof (cases "mf_locked s = (Some t, b)")
      case True
      then have l: "fst (mf_locked s) = Some t" by simp
      have s': "s' = mf_goto t (if b then MfNotifyAll else MfIdle) (s\<lparr>mf_locked := (None, False)\<rparr>)"
        using st MfUnlCas True by (simp add: mf_go_def mf_unlock_def)
      have "mf_phase (if b then MfNotifyAll else MfIdle) = PhOut" by simp
      then show ?thesis using mcs_leave_last [OF C [unfolded l]] MfUnlCas True
        by (simp add: s' mf_chain_def mf_phases_at)
    next
      case False
      then show ?thesis using st MfUnlCas mf_chain_same [OF c, of s' t]
        by (auto simp: mf_go_def mf_unlock_def mf_goto_def mf_frees_def fun_eq_iff split: if_splits)
    qed
  next
    case MfUnlLoad
    then obtain n where n: "mf_next s t = Some n" "s' = mf_goto t (MfUnlGrant n) s"
      using st by (auto simp: mf_go_def mf_unlock_def)
    show ?thesis using mcs_know_next [OF C _ n(1)] MfUnlLoad by (simp add: n(2) mf_chain_def mf_phases_at)
  next
    case (MfUnlGrant n)
    then have s': "s' = mf_goto t (if mf_field s n = Contended then MfNotifyOne n else MfUnlClear)
        (s\<lparr>mf_field := (mf_field s)(n := Free)\<rparr>)" using st by (simp add: mf_go_def mf_unlock_def)
    have p: "mf_phases s t = PhGrant n" using MfUnlGrant by (simp add: mf_phases_at)
    note G = mcs_grant [OF C p]
    have "run ql_step [Leaves t] q = Some (tl q)" using G(2) by (cases q) auto
    then show ?thesis using G(1) MfUnlGrant by (auto simp: s' mf_chain_def)
  next
    case MfUnlClear
    then have s': "s' = mf_goto t MfIdle (s\<lparr>mf_next := (mf_next s)(t := None)\<rparr>)" using st
      by (simp add: mf_go_def mf_unlock_def)
    show ?thesis using mcs_clear [OF C, of t] MfUnlClear by (simp add: s' mf_chain_def mf_phases_at)
  next
    case MfTryCas
    then show ?thesis using st mf_take [OF c, of t False] mf_chain_same [OF c, of s' t]
      by (auto simp: mf_go_def mf_try_lock_def mf_goto_def mf_frees_def split: if_splits)
  next
    case (MfTlwCas f)
    then show ?thesis using st mf_take [OF c, of t False] mf_chain_same [OF c, of s' t]
      by (auto simp: mf_go_def mf_try_lock_or_wait_def mf_goto_def mf_frees_def split: if_splits)
  next
    case (MfTlwFlag v)
    then show ?thesis using st mf_chain_same [OF c, of s' t]
      by (auto simp: mf_go_def mf_try_lock_or_wait_def mf_goto_def mf_frees_def split: if_splits)
  next
    case MfNotifyAll
    then show ?thesis using st mf_chain_same [OF c, of s' t]
      by (auto simp: mf_go_def mf_notify_all_def mf_goto_def mf_frees_def split: prod.splits)
  qed (use st mf_chain_same [OF c, of s' t] in
      \<open>auto simp: mf_ops mf_frees_def split: if_splits prod.splits\<close>)
qed

lemma mf_go_frame: "mf_go A K t s = Some s' \<Longrightarrow> u \<noteq> t \<Longrightarrow> mf_pc s' u = mf_pc s u"
  by (cases "mf_pc s t") (auto simp: mf_ops split: if_splits option.splits prod.splits)

lemma mf_next_not_last:
  assumes "mf_chain s q" and "ph_owns (mf_phases s t)" and "mf_next s t \<noteq> None"
  shows "fst (mf_locked s) \<noteq> Some t"
proof
  note D = mcs_chainD [OF assms(1) [unfolded mf_chain_def]]
  assume "fst (mf_locked s) = Some t"
  then have "q \<noteq> [] \<and> t = last q" using D(2) by (auto split: if_splits)
  then show False using D(10) [of t] assms(3) by blast
qed

text \<open>How the fields of the queue may change in a step of \<open>t\<close>.\<close>

lemma mf_go_fields:
  assumes st: "mf_go A K t s = Some s'"
  shows "fst (mf_locked s') = fst (mf_locked s) \<or> fst (mf_locked s') = Some t \<and> mf_phase (mf_pc s t) = PhOut \<or>
           mf_locked s' = (None, False)"
    and "mf_next s' u = mf_next s u \<or> mf_next s' u \<noteq> None \<or> u = t \<and> mf_pc s t = MfUnlClear"
  using st by (cases "mf_pc s t"; auto simp: mf_ops split: if_splits option.splits prod.splits)+

lemma mf_go_next:
  assumes c: "mf_chain s q" and inv: "mf_next_ok s" and st: "mf_go A K t s = Some s'"
  shows "mf_next_ok s'"
proof -
  have i: "fst (mf_locked s) = None \<longrightarrow> \<not> snd (mf_locked s)" "\<And>c. mf_pc s t = MfTlwFlag c \<Longrightarrow> fst c \<noteq> None"
    using inv unfolding mf_next_ok_def by blast+
  have f: "\<not> snd (mf_locked s')" if "fst (mf_locked s') = None"
    using st that i
    by (cases "mf_pc s t") (auto simp: mf_ops split: if_splits option.splits prod.splits)
  have v: "fst d \<noteq> None" if u: "mf_pc s' u = MfTlwFlag d" for u d
  proof (cases "u = t")
    case True
    then show ?thesis using st u
      by (cases "mf_pc s t")
        (auto simp: mf_ops mf_spin_def dest: mf_tlw_flag split: if_splits option.splits prod.splits)
  next
    case False
    then have "mf_pc s u = MfTlwFlag d" using mf_go_frame [OF st False] u by simp
    then show ?thesis using inv unfolding mf_next_ok_def by blast
  qed
  have n: "mf_next s' u \<noteq> None" if u: "mf_pc s' u = MfUnlLoad" for u
  proof (cases "u = t")
    case True
    then show ?thesis using st u
      by (cases "mf_pc s t") (auto simp: mf_ops mf_spin_def mf_tlw_def split: if_splits option.splits prod.splits)
  next
    case False
    then have "mf_next s u \<noteq> None" using mf_go_frame [OF st False] u inv by (simp add: mf_next_ok_def)
    then show ?thesis using mf_go_fields(2) [OF st, of u] False by auto
  qed
  have w: "fst (mf_locked s') \<noteq> Some u" if u: "mf_pc s' u = MfUnlWait" for u
  proof (cases "u = t")
    case True
    have "mf_pc s u = MfUnlNext \<Longrightarrow> mf_next s u \<noteq> None \<Longrightarrow> fst (mf_locked s) \<noteq> Some u"
      using mf_next_not_last [OF c, of u] by (simp add: mf_phases_at)
    then show ?thesis using st u True inv
      by (cases "mf_pc s t")
        (auto simp: mf_ops mf_spin_def mf_tlw_def mf_next_ok_def split: if_splits option.splits prod.splits)
  next
    case False
    then have "fst (mf_locked s) \<noteq> Some u" using mf_go_frame [OF st False] u inv by (simp add: mf_next_ok_def)
    then show ?thesis using mf_go_fields(1) [OF st] False by auto
  qed
  show ?thesis unfolding mf_next_ok_def using f n w v by blast
qed

section \<open>Sleeping and waking\<close>

text \<open>
  Only threads in a wait sleep, on their own node or on the word of the lock. While a thread sleeps on
  its node, the node is contended, so that the thread ahead will wake it, or one is about to. While
  one sleeps on the word of the lock, the flag is set, or a thread is about to wake the sleepers.
\<close>

definition mf_sleep_ok :: "(mf_futex, 'k) futex_kernel \<Rightarrow> 'k mcs_futex_lock \<Rightarrow> bool" where
  "mf_sleep_ok K s \<longleftrightarrow>
     (\<forall>a t. mf_asleep K s a t \<longrightarrow> a = LockWord \<and> mf_pc s t = MfTlwSleep \<or> a = NodeWord t \<and> mf_pc s t = MfSleep) \<and>
     (\<forall>t. mf_asleep K s LockWord t \<longrightarrow> snd (mf_locked s) \<or> (\<exists>u. mf_pc s u = MfNotifyAll)) \<and>
     (\<forall>t. mf_asleep K s (NodeWord t) t \<longrightarrow> mf_field s t = Contended \<or> (\<exists>u. mf_pc s u = MfNotifyOne t)) \<and>
     (\<forall>t f. mf_pc s t = MfTlwWait f \<or> mf_pc s t = MfTlwCas f \<longrightarrow> snd f)"

lemma mf_sleep_okD:
  assumes "mf_sleep_ok K s"
  shows "mf_asleep K s a u \<Longrightarrow> a = LockWord \<and> mf_pc s u = MfTlwSleep \<or> a = NodeWord u \<and> mf_pc s u = MfSleep"
    "mf_asleep K s LockWord u \<Longrightarrow> snd (mf_locked s) \<or> (\<exists>v. mf_pc s v = MfNotifyAll)"
    "mf_asleep K s (NodeWord u) u \<Longrightarrow> mf_field s u = Contended \<or> (\<exists>v. mf_pc s v = MfNotifyOne u)"
    "mf_pc s u = MfTlwWait f \<or> mf_pc s u = MfTlwCas f \<Longrightarrow> snd f"
  using assms unfolding mf_sleep_ok_def by blast+

lemma mf_sleep_ok_weaken:
  assumes I: "mf_sleep_ok K s" and as: "\<And>a u. mf_asleep K s' a u \<Longrightarrow> mf_asleep K s a u"
    and same: "mf_locked s' = mf_locked s" "mf_field s' = mf_field s"
    and keep: "\<And>u. mf_pc s u \<in> {MfSleep, MfTlwSleep, MfNotifyAll} \<or> (\<exists>n. mf_pc s u = MfNotifyOne n) \<Longrightarrow> mf_pc s' u = mf_pc s u"
    and wait: "\<And>u f. mf_pc s' u = MfTlwWait f \<or> mf_pc s' u = MfTlwCas f \<Longrightarrow> mf_pc s u = mf_pc s' u"
  shows "mf_sleep_ok K s'"
  unfolding mf_sleep_ok_def
proof (intro conjI allI impI)
  fix a u f
  show "a = LockWord \<and> mf_pc s' u = MfTlwSleep \<or> a = NodeWord u \<and> mf_pc s' u = MfSleep" if "mf_asleep K s' a u"
    using mf_sleep_okD(1) [OF I as [OF that]] keep [of u] by auto
  show "snd (mf_locked s') \<or> (\<exists>u. mf_pc s' u = MfNotifyAll)" if "mf_asleep K s' LockWord u"
    using mf_sleep_okD(2) [OF I as [OF that]] keep same by (metis insertCI)
  show "mf_field s' u = Contended \<or> (\<exists>v. mf_pc s' v = MfNotifyOne u)" if "mf_asleep K s' (NodeWord u) u"
    using mf_sleep_okD(3) [OF I as [OF that]] keep same by metis
  show "snd f" if "mf_pc s' u = MfTlwWait f \<or> mf_pc s' u = MfTlwCas f"
    using mf_sleep_okD(4) [OF I, of u f] wait [OF that] that by simp
qed

lemma mf_go_sleepers:
  assumes A: "aligned_nodes A" and K: "futex_ok K" and inv: "mf_sleep_ok K s" and st: "mf_go A K t s = Some s'"
    and a: "mf_asleep K s' a u"
  shows "mf_asleep K s a u \<and> u \<noteq> t \<or>
    u = t \<and> a = NodeWord t \<and> mf_pc s' t = MfSleep \<and> mf_field s' t = Contended \<or>
    u = t \<and> a = LockWord \<and> mf_pc s' t = MfTlwSleep \<and> snd (mf_locked s')"
proof -
  have "mf_pc s t = MfTlwWait f \<Longrightarrow> snd f" for f using inv unfolding mf_sleep_ok_def by blast
  then have low: "mf_pc s t = MfTlwWait f \<Longrightarrow> mf_low A (mf_locked s) = mf_low A f \<Longrightarrow> snd (mf_locked s)" for f
    using mf_low_flag [OF A, of "mf_locked s" f] by auto
  have "mf_asleep K s b t \<Longrightarrow> b = LockWord \<and> mf_pc s t = MfTlwSleep \<or> b = NodeWord t \<and> mf_pc s t = MfSleep" for b
    using inv by (auto simp: mf_sleep_ok_def)
  note own = this [of a]
  have k: "mf_kernel s' = mf_kernel s \<or> mf_pc s t = MfWait \<or> (\<exists>f. mf_pc s t = MfTlwWait f) \<or>
      (mf_pc s t = MfNotifyAll \<or> (\<exists>b. mf_pc s t = MfWakeAll b)) \<or> (\<exists>n. mf_pc s t = MfNotifyOne n)"
    using st by (cases "mf_pc s t") (auto simp: mf_ops split: if_splits option.splits prod.splits)
  show ?thesis
  proof (cases "mf_asleep K s a u")
    case True
    have "u \<noteq> t"
    proof
      assume u: "u = t"
      then have "a = LockWord \<and> mf_pc s t = MfTlwSleep \<or> a = NodeWord t \<and> mf_pc s t = MfSleep" using own True by blast
      then show False using st True u by (auto simp: mf_go_def mf_lock_def mf_try_lock_or_wait_def)
    qed
    then show ?thesis using True by blast
  next
    case False
    from k False a show ?thesis
    proof (elim disjE [of "mf_kernel s' = mf_kernel s"] disjE [of "mf_pc s t = MfWait"]
        disjE [of "\<exists>f. mf_pc s t = MfTlwWait f"] disjE [of "mf_pc s t = MfNotifyAll \<or> (\<exists>b. mf_pc s t = MfWakeAll b)"] exE)
      assume p: "mf_pc s t = MfWait"
      then have "mf_kernel s' = k_wait K t (NodeWord t) (mcs_field_val (mf_field s t)) (mcs_field_val Contended) (mf_kernel s)"
          "mf_pc s' t = MfSleep" "mf_field s' = mf_field s"
        using st by (auto simp: mf_go_def mf_lock_def mf_goto_def mf_wait_def)
      then show ?thesis using a False
        by (auto simp: mf_asleep_def futex_wait_blocked [OF K] simp del: mcs_field_val.simps)
    next
      fix f assume p: "mf_pc s t = MfTlwWait f"
      then have "mf_kernel s' = k_wait K t LockWord (mf_low A (mf_locked s)) (mf_low A f) (mf_kernel s)"
          "mf_pc s' t = MfTlwSleep" "mf_locked s' = mf_locked s"
        using st by (auto simp: mf_go_def mf_try_lock_or_wait_def mf_goto_def mf_wait_def)
      then show ?thesis using a False low [OF p] by (auto simp: mf_asleep_def futex_wait_blocked [OF K])
    next
      assume "mf_pc s t = MfNotifyAll \<or> (\<exists>b. mf_pc s t = MfWakeAll b)"
      then obtain w where "k_wake K LockWord wake_at_once (mf_kernel s) = (w, mf_kernel s')"
        using st by (auto simp: mf_go_def mf_wake_def mf_notify_all_def mf_goto_def split: prod.splits)
      then show ?thesis using a False futex_wake_blocked [OF K] by (auto simp: mf_asleep_def)
    next
      fix n assume "mf_pc s t = MfNotifyOne n"
      then obtain w where "k_wake K (NodeWord n) 1 (mf_kernel s) = (w, mf_kernel s')"
        using st by (cases "k_wake K (NodeWord n) 1 (mf_kernel s)")
          (auto simp: mf_go_def mf_notify_one_def mf_goto_def)
      then show ?thesis using a False futex_wake_blocked [OF K] by (auto simp: mf_asleep_def)
    qed (auto simp: mf_asleep_def)
  qed
qed

text \<open>The flag is reset, and a contended node set free, only by a thread that wakes the sleepers next.\<close>

lemma mf_go_flag:
  "mf_go A K t s = Some s' \<Longrightarrow> snd (mf_locked s) \<Longrightarrow> snd (mf_locked s') \<or> mf_pc s' t = MfNotifyAll"
  by (cases "mf_pc s t") (auto simp: mf_ops split: if_splits option.splits prod.splits)

lemma mf_go_contended:
  "mf_go A K t s = Some s' \<Longrightarrow> u \<noteq> t \<Longrightarrow> mf_field s u = Contended \<Longrightarrow>
   mf_field s' u = Contended \<or> mf_pc s' t = MfNotifyOne u"
  by (cases "mf_pc s t") (auto simp: mf_ops split: if_splits option.splits prod.splits)

lemma mf_notify_one_wakes:
  assumes K: "futex_ok K" and inv: "mf_sleep_ok K s" and st: "mf_go A K t s = Some s'" and t: "mf_pc s t = MfNotifyOne u"
  shows "\<not> mf_asleep K s' (NodeWord u) u"
proof
  assume u: "mf_asleep K s' (NodeWord u) u"
  obtain w k where wk: "k_wake K (NodeWord u) 1 (mf_kernel s) = (w, k)" by fastforce
  have k: "k_blocked K k (NodeWord u) u" using st u t wk
    by (auto simp: mf_go_def mf_notify_one_def mf_asleep_def mf_goto_def)
  then have "0 < w" using futex_wake_all [OF K wk, of u] by (cases w) auto
  then obtain x where x: "k_blocked K (mf_kernel s) (NodeWord u) x" "\<not> k_blocked K k (NodeWord u) x"
    using futex_wake_some [OF K wk] by blast
  then have "x = u" using mf_sleep_okD(1) [OF inv, of "NodeWord u" x] by (simp add: mf_asleep_def)
  then show False using x(2) k by simp
qed

lemma mf_go_sleep:
  assumes A: "aligned_nodes A" and K: "futex_ok K" and inv: "mf_sleep_ok K s" and st: "mf_go A K t s = Some s'"
  shows "mf_sleep_ok K s'"
proof -
  note sl = mf_go_sleepers [OF A K inv st] and fr = mf_go_frame [OF st]
  note I = mf_sleep_okD [OF inv]
  have 1: "a = LockWord \<and> mf_pc s' u = MfTlwSleep \<or> a = NodeWord u \<and> mf_pc s' u = MfSleep" if "mf_asleep K s' a u" for a u
    using sl [OF that] I(1) [of a u] fr [of u] by auto
  have 2: "snd (mf_locked s') \<or> (\<exists>v. mf_pc s' v = MfNotifyAll)" if u: "mf_asleep K s' LockWord u" for u
  proof (cases "snd (mf_locked s) \<or> snd (mf_locked s')")
    case True
    then show ?thesis using mf_go_flag [OF st] by blast
  next
    case False
    then have old: "mf_asleep K s LockWord u" using sl [OF u] by auto
    then obtain v where v: "mf_pc s v = MfNotifyAll" using I(2) False by blast
    show ?thesis
    proof (cases "v = t")
      case True
      obtain w k where wk: "k_wake K LockWord wake_at_once (mf_kernel s) = (w, k)" by fastforce
      have "w = wake_at_once"
      proof (rule ccontr)
        assume "w \<noteq> wake_at_once"
        then have "w < wake_at_once" using futex_wake_count [OF K wk] by simp
        then have "\<not> k_blocked K k LockWord u" by (rule futex_wake_all [OF K wk])
        then show False using st u True v wk by (auto simp: mf_go_def mf_notify_all_def mf_asleep_def mf_goto_def)
      qed
      then show ?thesis using st True v wk by (auto simp: mf_go_def mf_notify_all_def mf_goto_def)
    qed (use fr [of v] v in auto)
  qed
  have 3: "mf_field s' u = Contended \<or> (\<exists>v. mf_pc s' v = MfNotifyOne u)" if u: "mf_asleep K s' (NodeWord u) u" for u
  proof (cases "u = t")
    case True
    then show ?thesis using sl [OF u] by auto
  next
    case False
    then have old: "mf_asleep K s (NodeWord u) u" using sl [OF u] by auto
    show ?thesis
    proof (cases "mf_field s u = Contended")
      case True
      then show ?thesis using mf_go_contended [OF st False] by blast
    next
      case nc: False
      then obtain v where v: "mf_pc s v = MfNotifyOne u" using I(3) [OF old] by blast
      show ?thesis
      proof (cases "v = t")
        case True
        then show ?thesis using mf_notify_one_wakes [OF K inv st, of u] v u by simp
      qed (use fr [of v] v in auto)
    qed
  qed
  have 4: "snd f" if "mf_pc s' u = MfTlwWait f \<or> mf_pc s' u = MfTlwCas f" for u f
  proof (cases "u = t")
    case True
    then show ?thesis using st that I(4) [of t]
      by (cases "mf_pc s t") (auto simp: mf_ops mf_tlw_def mf_spin_def split: if_splits option.splits prod.splits)
  qed (use that fr [of u] I(4) [of u f] in auto)
  show ?thesis unfolding mf_sleep_ok_def using 1 2 3 4 by blast
qed

definition mf_rel :: "(mf_futex, 'k) futex_kernel \<Rightarrow> 'k mcs_futex_lock \<Rightarrow> tid list \<Rightarrow> bool" where
  "mf_rel K s q \<longleftrightarrow> mf_chain s q \<and> mf_next_ok s \<and> mf_sleep_ok K s"

text \<open>Calls and spurious returns from the kernel.\<close>

lemma mf_call_facts: "mf_call a p = Some p' \<Longrightarrow>
  mf_phase p' = mf_phase p \<and> p' \<notin> {MfUnlLoad, MfUnlWait} \<and> (\<forall>f. p' \<noteq> MfTlwFlag f \<and> p' \<noteq> MfTlwWait f \<and> p' \<noteq> MfTlwCas f) \<and>
  p \<notin> {MfSleep, MfTlwSleep, MfNotifyAll} \<and> (\<forall>n. p \<noteq> MfNotifyOne n)"
  by (cases a) (auto simp: mf_call_def split: if_splits)

lemma mf_call_rel:
  assumes rel: "mf_rel K s q" and call: "mf_call a (mf_pc s t) = Some p"
  shows "mf_rel K (mf_goto t p s) q"
proof -
  note C = mf_call_facts [OF call]
  have "mf_chain (mf_goto t p s) q"
    by (rule mf_chain_same [of s q _ t]) (use rel C in \<open>auto simp: mf_rel_def mf_goto_def\<close>)
  moreover have "mf_next_ok (mf_goto t p s)"
    using rel C unfolding mf_rel_def mf_next_ok_def mf_goto_def by simp
  moreover have "mf_sleep_ok K (mf_goto t p s)"
    by (rule mf_sleep_ok_weaken [of K s]) (use rel C in \<open>auto simp: mf_rel_def mf_goto_def mf_asleep_def split: if_splits\<close>)
  ultimately show ?thesis by (simp add: mf_rel_def)
qed

lemma mf_intr_rel:
  assumes K: "futex_ok K" and rel: "mf_rel K s q"
  shows "mf_rel K (s\<lparr>mf_kernel := k_intr K t (mf_kernel s)\<rparr>) q"
proof -
  have "mf_chain (s\<lparr>mf_kernel := k_intr K t (mf_kernel s)\<rparr>) q"
    by (rule mf_chain_same [of s q _ t]) (use rel in \<open>auto simp: mf_rel_def\<close>)
  moreover have "mf_next_ok (s\<lparr>mf_kernel := k_intr K t (mf_kernel s)\<rparr>)"
    using rel by (simp add: mf_rel_def mf_next_ok_def)
  moreover have "mf_sleep_ok K (s\<lparr>mf_kernel := k_intr K t (mf_kernel s)\<rparr>)"
    by (rule mf_sleep_ok_weaken [of K s]) (use rel in \<open>auto simp: mf_rel_def mf_asleep_def futex_intr_blocked [OF K]\<close>)
  ultimately show ?thesis by (simp add: mf_rel_def)
qed

lemma mf_sim_step:
  assumes A: "aligned_nodes A" and K: "futex_ok K" and rel: "mf_rel K s q" and st: "mcs_futex_step A K l s = Some s'"
  shows "\<exists>q'. run ql_step (mf_events s l) q = Some q' \<and> mf_rel K s' q'"
proof (cases "(A, K, l, s)" rule: mcs_futex_step.cases)
  case (1 A0 K0 t s0)
  then have go: "mf_go A K t s = Some s'" using st by simp
  show ?thesis
    using 1 mf_go_chain [of s q, OF _ go] mf_go_next [of s q, OF _ _ go] mf_go_sleep [OF A K _ go] rel
    by (auto simp: mf_rel_def)
next
  case (2 A0 K0 t s0)
  then show ?thesis using st mf_intr_rel [OF K rel] by auto
qed (use rel st in \<open>auto intro: mf_call_rel\<close>)

lemma mcs_futex_step_frame: "mcs_futex_step A K (t, a) s = Some s' \<Longrightarrow> u \<noteq> t \<Longrightarrow> mf_pc s' u = mf_pc s u"
  by (cases a) (auto dest: mf_go_frame simp: mf_goto_def)

lemma mcs_futex_queue_lock:
  assumes A: "aligned_nodes A" and K: "futex_ok K"
  shows "queue_lock (mcs_futex_step A K) (mcs_futex_init K f) (mf_rel K) mf_events mf_holds mf_crit mf_is_locked"
proof unfold_locales
  show "mf_rel K (mcs_futex_init K f) []"
    using mcs_chain_init
    by (simp add: mf_rel_def mf_chain_def mf_next_ok_def mf_sleep_ok_def mf_asleep_def futex_init_blocked [OF K]
        mcs_futex_init_def mf_phases_def comp_def)
  show "\<And>s q l s'. mf_rel K s q \<Longrightarrow> mcs_futex_step A K l s = Some s' \<Longrightarrow>
      \<exists>q'. run ql_step (mf_events s l) q = Some q' \<and> mf_rel K s' q'"
    by (rule mf_sim_step [OF A K])
  show "\<And>t. \<not> mf_holds t (mcs_futex_init K f)" by (simp add: mf_holds_def mcs_futex_init_def)
  show "\<And>s q t. mf_rel K s q \<Longrightarrow> mf_holds t s \<Longrightarrow> q \<noteq> [] \<and> hd q = t"
    unfolding mf_rel_def mf_chain_def mf_holds_def mf_phases_at [symmetric]
    using mcs_owner_first by (metis empty_iff list.set(1))
  show "\<And>t a s s' u. mcs_futex_step A K (t, a) s = Some s' \<Longrightarrow> u \<noteq> t \<Longrightarrow> mf_holds u s' = mf_holds u s"
    by (simp add: mf_holds_def mcs_futex_step_frame)
  show "\<And>t s. mf_crit t s \<Longrightarrow> mf_holds t s" by (simp add: mf_crit_def mf_holds_def)
  show "\<And>s q. mf_rel K s q \<Longrightarrow> q \<noteq> [] \<Longrightarrow> mf_is_locked s"
    unfolding mf_rel_def mf_chain_def mf_is_locked_def by (auto dest: mcs_chainD(2))
qed

text \<open>Nodes at multiples of 16, and the kernel with a list of sleepers.\<close>

definition node_addr :: "tid \<Rightarrow> 64 word" where
  "node_addr t = word_of_nat (t + 1) * 16"

lemma node_addr_aligned: "aligned_nodes node_addr"
proof -
  have "(w * 16) AND 1 = 0" for w :: "64 word" by (simp add: and_one_eq mod2_eq_if)
  then show ?thesis unfolding aligned_nodes_def node_addr_def by blast
qed

text \<open>
  C34. Tagged pointers can be taken apart: for aligned nodes, the bit operations of the code read, set and
  clear the flag of the word and give back the pointer, and for nodes at different addresses other than
  null, equal words are the same pointer with the same flag.
\<close>
theorem tagged_pointers:
  assumes A: "aligned_nodes A" and inj: "inj_on A T" and nz: "\<And>t. t \<in> T \<Longrightarrow> A t \<noteq> 0"
  shows "tag_word A w AND 1 = (if snd w then 1 else 0) \<and>
    tag_word A w OR 1 = tag_word A (fst w, True) \<and>
    tag_word A w AND NOT 1 = tag_word A (fst w, False) \<and>
    tag_word A w XOR (tag_word A w AND 1) = tag_word A (fst w, False) \<and>
    inj_on (tag_word A) {w. \<forall>t. fst w = Some t \<longrightarrow> t \<in> T}"
proof (intro conjI)
  show "tag_word A w AND 1 = (if snd w then 1 else 0)" by (rule tag_word_flag [OF A])
  show "tag_word A w OR 1 = tag_word A (fst w, True)"
    by (rule bit_word_eqI) (auto simp: tag_word_bit bit_simps)
  show clear: "tag_word A w AND NOT 1 = tag_word A (fst w, False)"
    by (rule bit_word_eqI) (auto simp: tag_word_bit bit_simps split: option.splits dest: aligned_bit [OF A])
  show "tag_word A w XOR (tag_word A w AND 1) = tag_word A (fst w, False)"
    by (rule bit_word_eqI) (auto simp: tag_word_bit bit_simps split: option.splits dest: aligned_bit [OF A])
  show "inj_on (tag_word A) {w. \<forall>t. fst w = Some t \<longrightarrow> t \<in> T}"
  proof (rule inj_onI, rule prod_eqI)
    fix v w assume v: "v \<in> {w. \<forall>t. fst w = Some t \<longrightarrow> t \<in> T}" and w: "w \<in> {w. \<forall>t. fst w = Some t \<longrightarrow> t \<in> T}"
      and eq: "tag_word A v = tag_word A w"
    show "snd v = snd w" using tag_word_flag [OF A, of v] tag_word_flag [OF A, of w] eq by (simp split: if_splits)
    have "tag_word A (fst u, False) = (case fst u of None \<Rightarrow> 0 | Some t \<Rightarrow> A t)" for u by (simp add: tag_word_def)
    moreover have "tag_word A (fst v, False) = tag_word A (fst w, False)"
    proof (rule bit_word_eqI)
      fix n assume "n < LENGTH(64)"
      have "bit (tag_word A v) n = bit (tag_word A w) n" using eq by simp
      then show "bit (tag_word A (fst v, False)) n = bit (tag_word A (fst w, False)) n"
        using \<open>snd v = snd w\<close> aligned_bit [OF A, of _ n]
        by (auto simp: tag_word_bit split: option.splits)
    qed
    ultimately show "fst v = fst w" using v w nz inj by (auto split: option.splits dest: inj_onD)
  qed
qed
theorem tagged_pointers_witness:
  "tag_word node_addr (Some 1, True) = 33 \<and> tag_word node_addr (Some 1, True) AND NOT 1 = node_addr 1 \<and>
   inj_on (tag_word node_addr) {w. \<forall>t. fst w = Some t \<longrightarrow> t \<in> {0, 1}}"
proof -
  have "inj_on node_addr {0, 1}" by (simp add: node_addr_def inj_on_def)
  moreover have "node_addr t \<noteq> 0" if "t \<in> {0, 1}" for t using that by (auto simp: node_addr_def)
  ultimately show ?thesis
    using tagged_pointers [OF node_addr_aligned, of "{0, 1}" "(Some 1, True)"] by (simp add: tag_word_def node_addr_def)
qed

interpretation mcs_futex: queue_lock "mcs_futex_step node_addr list_kernel" "mcs_futex_init list_kernel f"
  "mf_rel list_kernel" mf_events mf_holds mf_crit mf_is_locked for f
  by (rule mcs_futex_queue_lock [OF node_addr_aligned list_kernel_ok])

section \<open>Properties\<close>

text \<open>
  C15. The MCS lock with futexes is a fair lock, for every kernel that behaves as documented and every
  aligned placement of the nodes: acquisitions and releases alternate with a single owner, who
  sees \<open>is_locked\<close> true; threads leave the queue in the order in which they joined it, and the owner is
  the first in it. Threads in \<open>try_lock_or_wait\<close>, who tag the word of the lock, do not disturb this.
\<close>
theorem mcs_futex_correct:
  assumes A: "aligned_nodes A" and K: "futex_ok K" and r: "run (mcs_futex_step A K) ls (mcs_futex_init K f) = Some s"
  shows "(\<exists>h. run alock_step (trace (mcs_futex_step A K) (lock_events (mcs_futex_step A K) mf_holds) ls (mcs_futex_init K f)) None = Some h \<and>
            owner_rel mf_holds s h \<and> (\<forall>t. mf_crit t s \<longrightarrow> h = Some t \<and> mf_is_locked s)) \<and>
         (\<exists>q. mf_rel K s q \<and> ql_joined (trace (mcs_futex_step A K) mf_events ls (mcs_futex_init K f)) =
                ql_left (trace (mcs_futex_step A K) mf_events ls (mcs_futex_init K f)) @ q \<and>
            (\<forall>t. mf_holds t s \<longrightarrow> q \<noteq> [] \<and> hd q = t))"
proof -
  note L = mcs_futex_queue_lock [OF A K]
  show ?thesis
    using lock_impl.linearizable [OF queue_lock.is_lock [OF L] r] queue_lock.fifo [OF L r] by blast
qed

text \<open>Thread 1 sleeps on its node; thread 2 tags the word and sleeps on it; thread 0 hands over.\<close>

definition spins :: nat where
  "spins = 512"

definition mf_demo_start :: "(tid \<times> lock_act) list" where
  "mf_demo_start = [(0, Lock), (0, Go), (0, Go), (2, TryLockOrWait), (2, Go), (2, Go), (2, Go),
     (1, Lock), (1, Go), (1, Go), (1, Go), (1, Go)]"

definition mf_demo_sleep :: "(tid \<times> lock_act) list" where
  "mf_demo_sleep = mf_demo_start @ replicate spins (1, Go) @ [(1, Go), (1, Go), (1, Go), (1, Go)]"

definition mf_demo_unlock :: "(tid \<times> lock_act) list" where
  "mf_demo_unlock = [(0, Unlock), (0, Go), (0, Go), (0, Go), (0, Go)]"

lemma mf_spins:
  "mf_pc s t = mf_spin i \<Longrightarrow> mf_field s t \<noteq> Free \<Longrightarrow> i + n \<le> 512 \<Longrightarrow>
   run (mcs_futex_step A K) (replicate n (t, Go)) s = Some (mf_goto t (mf_spin (i + n)) s)"
proof (induction n arbitrary: s i)
  case 0
  then have "mf_goto t (mf_spin i) s = s" by (simp add: mf_goto_def fun_upd_idem)
  then show ?case by simp
next
  case (Suc n)
  have "mcs_futex_step A K (t, Go) s = Some (mf_goto t (mf_spin (i + 1)) s)"
    using Suc.prems by (simp add: mf_go_def mf_lock_def mf_spin_def)
  moreover have "mf_goto t p (mf_goto t p' s) = mf_goto t p s" for p p' by (simp add: mf_goto_def)
  ultimately show ?case using Suc.IH [of "mf_goto t (mf_spin (i + 1)) s" "i + 1"] Suc.prems
    by (simp add: mf_goto_def)
qed

lemmas mf_eval = mf_ops mf_call_def mf_tlw_def mcs_futex_init_def mf_low_def tag_word_def node_addr_def list_kernel_def
  mf_asleep_def mf_crit_def mf_demo_start_def mf_demo_unlock_def

definition mf_demo_state :: "mf_pc \<Rightarrow> mcs_field \<Rightarrow> (mf_futex \<times> tid) list \<Rightarrow> (mf_futex \<times> tid) list mcs_futex_lock" where
  "mf_demo_state p x k =
     \<lparr>mf_locked = (Some 1, True), mf_field = (\<lambda>_. Free)(1 := x), mf_next = (\<lambda>_. None)(0 := Some 1),
      mf_pc = (\<lambda>_. MfIdle)(0 := MfCrit, 2 := MfTlwSleep, 1 := p), mf_kernel = k\<rparr>"

lemma mf_demo_asleep:
  "run (mcs_futex_step node_addr list_kernel) mf_demo_sleep (mcs_futex_init list_kernel (\<lambda>_. Free)) =
     Some (mf_demo_state MfSleep Contended [(LockWord, 2), (NodeWord 1, 1)])"
proof -
  let ?step = "mcs_futex_step node_addr list_kernel"
  let ?s = "mf_demo_state (mf_spin 0) Taken [(LockWord, 2)]"
  have s: "run ?step mf_demo_start (mcs_futex_init list_kernel (\<lambda>_. Free)) = Some ?s"
    by (simp add: mf_eval mf_demo_state_def fun_eq_iff)
  have r: "run ?step (replicate spins (1, Go)) ?s = Some (mf_goto 1 MfTest ?s)"
    using mf_spins [of ?s 1 0 spins] by (simp add: mf_demo_state_def spins_def mf_spin_def)
  show ?thesis using s r
    by (simp add: mf_demo_sleep_def run_append mf_ops list_kernel_def mf_demo_state_def fun_eq_iff)
qed

lemma mf_demo_unlocked:
  "run (mcs_futex_step node_addr list_kernel) mf_demo_unlock (mf_demo_state MfSleep Contended [(LockWord, 2), (NodeWord 1, 1)]) =
     Some ((mf_demo_state MfSleep Free [(LockWord, 2), (NodeWord 1, 1)])
        \<lparr>mf_pc := (\<lambda>_. MfIdle)(0 := MfNotifyOne 1, 2 := MfTlwSleep, 1 := MfSleep)\<rparr>)"
  by (simp add: mf_eval mf_demo_state_def fun_eq_iff)

theorem mcs_futex_correct_witness:
  "\<exists>q. ql_joined (trace (mcs_futex_step node_addr list_kernel) mf_events mf_demo_sleep (mcs_futex_init list_kernel (\<lambda>_. Free))) =
       ql_left (trace (mcs_futex_step node_addr list_kernel) mf_events mf_demo_sleep (mcs_futex_init list_kernel (\<lambda>_. Free))) @ q \<and>
     q \<noteq> [] \<and> hd q = 0"
proof -
  let ?s = "mf_demo_state MfSleep Contended [(LockWord, 2), (NodeWord 1, 1)]"
  have "mf_holds 0 ?s" by (simp add: mf_holds_def mf_demo_state_def)
  then show ?thesis
    using mcs_futex_correct [OF node_addr_aligned list_kernel_ok mf_demo_asleep] by blast
qed

text \<open>The first thread of the queue, seen from the state.\<close>

lemma mf_first:
  assumes rel: "mf_rel K s q" and q: "q \<noteq> []"
  shows "ph_owns (mf_phases s (hd q)) \<or> (mf_phases s (hd q) = PhWait \<and> mf_field s (hd q) = Free)"
proof -
  have c: "mcs_chain q (fst (mf_locked s)) (mf_next s) (mf_frees s) (mf_phases s)"
    using rel by (simp add: mf_rel_def mf_chain_def)
  note D = mcs_chainD [OF c]
  let ?t = "hd q"
  have "?t \<in> set q" "?t \<notin> set (tl q)" using q D(1) by (cases q; simp)+
  then have "mf_phases s ?t \<noteq> PhOut" "mf_phases s ?t \<noteq> PhClear"
    using D(3) [of ?t] by blast+
  moreover have "\<not> adj q a ?t" for a using adj_mem [of q a ?t] \<open>?t \<notin> set (tl q)\<close> by blast
  ultimately have "ph_owns (mf_phases s ?t) \<or> mf_phases s ?t = PhWait"
    using D(8) [of ?t] by (cases "mf_phases s ?t") auto
  then show ?thesis using D(9) [of ?t] \<open>?t \<notin> set (tl q)\<close> by (auto simp: mf_frees_def)
qed

definition mf_sleeps :: "(mf_futex, 'k) futex_kernel \<Rightarrow> 'k mcs_futex_lock \<Rightarrow> tid \<Rightarrow> bool" where
  "mf_sleeps K s t \<longleftrightarrow> mf_asleep K s LockWord t \<or> mf_asleep K s (NodeWord t) t"

text \<open>A thread that does not sleep can move, unless it is idle or in its critical section.\<close>

lemma mf_enabled:
  assumes "mf_next_ok s" and "\<not> mf_sleeps K s t" and "mf_pc s t \<noteq> MfIdle" and "mf_pc s t \<noteq> MfCrit"
  shows "mcs_futex_step A K (t, Go) s \<noteq> None"
  using assms
  by (cases "mf_pc s t") (auto simp: mf_ops mf_next_ok_def mf_sleeps_def split: prod.splits)

lemma mf_queue_alive:
  assumes rel: "mf_rel K s q" and q: "q \<noteq> []"
  shows "\<exists>u. \<not> mf_sleeps K s u \<and> (mf_crit u s \<or> mcs_futex_step A K (u, Go) s \<noteq> None)"
proof -
  have R: "mf_next_ok s" "mf_sleep_ok K s" using rel by (auto simp: mf_rel_def)
  note S = mf_sleep_okD [OF R(2)]
  let ?t = "hd q"
  consider "\<not> mf_sleeps K s ?t" | "mf_asleep K s LockWord ?t" | "mf_asleep K s (NodeWord ?t) ?t"
    by (auto simp: mf_sleeps_def)
  then show ?thesis
  proof cases
    case 1
    have "mf_pc s ?t \<noteq> MfIdle" using mf_first [OF rel q] by (auto simp: mf_phases_at)
    then show ?thesis using mf_enabled [OF R(1) 1, of A] 1 unfolding mf_crit_def by blast
  next
    case 2
    then have "mf_pc s ?t = MfTlwSleep" using S(1) [of LockWord ?t] by auto
    then show ?thesis using mf_first [OF rel q] by (auto simp: mf_phases_at)
  next
    case 3
    then have "mf_pc s ?t = MfSleep" using S(1) [of "NodeWord ?t" ?t] by auto
    then have "mf_field s ?t = Free" using mf_first [OF rel q] by (auto simp: mf_phases_at)
    then obtain v where v: "mf_pc s v = MfNotifyOne ?t" using S(3) [OF 3] by auto
    have "\<not> mf_sleeps K s v"
    proof
      assume "mf_sleeps K s v"
      then show False using S(1) [of LockWord v] S(1) [of "NodeWord v" v] v unfolding mf_sleeps_def by auto
    qed
    then show ?thesis using mf_enabled [OF R(1), of K v A] v by auto
  qed
qed

text \<open>While a thread sleeps, another one is in its critical section or can move.\<close>

lemma mf_alive:
  assumes rel: "mf_rel K s q" and sleeps: "mf_sleeps K s t"
  shows "\<exists>u. \<not> mf_sleeps K s u \<and> (mf_crit u s \<or> mcs_futex_step A K (u, Go) s \<noteq> None)"
proof -
  have R: "mf_chain s q" "mf_next_ok s" "mf_sleep_ok K s" using rel by (auto simp: mf_rel_def)
  note S = mf_sleep_okD [OF R(3)] and D = mcs_chainD [OF R(1) [unfolded mf_chain_def]]
  show ?thesis
  proof (cases "\<exists>u. mf_pc s u = MfNotifyAll")
    case True
    then obtain u where u: "mf_pc s u = MfNotifyAll" by blast
    then have "\<not> mf_sleeps K s u" using S(1) [of LockWord u] S(1) [of "NodeWord u" u] unfolding mf_sleeps_def by auto
    then show ?thesis using mf_enabled [OF R(2), of K u A] u by auto
  next
    case False
    have "q \<noteq> []"
    proof (cases "mf_asleep K s LockWord t")
      case True
      then have "snd (mf_locked s)" using S(2) [OF True] False by blast
      then have "fst (mf_locked s) \<noteq> None" using R(2) unfolding mf_next_ok_def by blast
      then show ?thesis using D(2) by auto
    next
      case nl: False
      then have "mf_asleep K s (NodeWord t) t" using sleeps by (simp add: mf_sleeps_def)
      then have "mf_phases s t = PhWait" using S(1) [of "NodeWord t" t] by (auto simp: mf_phases_at)
      then show ?thesis using D(3) [of t] by auto
    qed
    then show ?thesis by (rule mf_queue_alive [OF rel])
  qed
qed

text \<open>
  C23. No wakeup is lost in the MCS lock with futexes: a thread that sleeps on its node has a contended
  node and a thread ahead of it in the queue, which will wake it when it hands over the lock, or some
  thread is about to wake it; while a thread sleeps in \<open>try_lock_or_wait\<close>, the lock is taken and its flag
  set, or a thread is about to wake the sleepers; and always some thread that does not sleep is in
  its critical section or can take a step.
\<close>
theorem mcs_futex_no_lost_wakeup:
  assumes A: "aligned_nodes A" and K: "futex_ok K" and r: "reachable (mcs_futex_step A K) (mcs_futex_init K f) s"
  shows "(mf_asleep K s (NodeWord t) t \<longrightarrow>
            (\<exists>q a. mf_chain s q \<and> adj q a t \<and> mf_next s a = Some t \<and> mf_field s t = Contended) \<or> (\<exists>u. mf_pc s u = MfNotifyOne t)) \<and>
         (mf_asleep K s LockWord t \<longrightarrow>
            (mf_is_locked s \<and> snd (mf_locked s)) \<or> (\<exists>u. mf_pc s u = MfNotifyAll)) \<and>
         (mf_sleeps K s t \<longrightarrow>
            (\<exists>u. \<not> mf_sleeps K s u \<and> (mf_crit u s \<or> mcs_futex_step A K (u, Go) s \<noteq> None)))"
proof -
  obtain q where rel: "mf_rel K s q"
    using lock_impl.axioms(1) [OF queue_lock.is_lock [OF mcs_futex_queue_lock [OF A K]], THEN invariant_system.inv_reachable, OF r]
    by blast
  have R: "mf_chain s q" "mf_next_ok s" "mf_sleep_ok K s" using rel by (auto simp: mf_rel_def)
  note S = mf_sleep_okD [OF R(3)] and D = mcs_chainD [OF R(1) [unfolded mf_chain_def]]
  have node: "(\<exists>q a. mf_chain s q \<and> adj q a t \<and> mf_next s a = Some t \<and> mf_field s t = Contended) \<or> (\<exists>u. mf_pc s u = MfNotifyOne t)"
    if a: "mf_asleep K s (NodeWord t) t"
  proof (cases "\<exists>u. mf_pc s u = MfNotifyOne t")
    case False
    then have f: "mf_field s t = Contended" using S(3) [OF a] by blast
    have w: "mf_phases s t = PhWait" using S(1) [OF a] by (auto simp: mf_phases_at)
    then have "t \<in> set (tl q)" using D(9) [of t] f by (auto simp: mf_frees_def)
    then obtain b where b: "adj q b t" using adj_ex [of t q] by blast
    then have "mf_next s b = Some t" using D(7) [OF b] w by auto
    then show ?thesis using R(1) b f by blast
  qed blast
  have word: "(mf_is_locked s \<and> snd (mf_locked s)) \<or> (\<exists>u. mf_pc s u = MfNotifyAll)" if "mf_asleep K s LockWord t"
    using S(2) [OF that] by (auto simp: mf_is_locked_def)
  show ?thesis using node word mf_alive [OF rel] by blast
qed

theorem mcs_futex_no_lost_wakeup_witness:
  "\<exists>s q a. run (mcs_futex_step node_addr list_kernel) mf_demo_sleep (mcs_futex_init list_kernel (\<lambda>_. Free)) = Some s \<and>
     mf_asleep list_kernel s (NodeWord 1) 1 \<and> mf_chain s q \<and> adj q a 1 \<and>
     mf_asleep list_kernel s LockWord 2 \<and> snd (mf_locked s)"
proof -
  let ?s = "mf_demo_state MfSleep Contended [(LockWord, 2), (NodeWord 1, 1)]"
  have a: "mf_asleep list_kernel ?s (NodeWord 1) 1" "mf_asleep list_kernel ?s LockWord 2" "\<not> (\<exists>u. mf_pc ?s u = MfNotifyOne 1)"
    "snd (mf_locked ?s)"
    by (auto simp: mf_asleep_def list_kernel_def mf_demo_state_def)
  obtain q a where "mf_chain ?s q" "adj q a 1"
    using mcs_futex_no_lost_wakeup [OF node_addr_aligned list_kernel_ok run_reachable [OF mf_demo_asleep], of 1] a by blast
  then show ?thesis using a mf_demo_asleep by blast
qed

fun mf_releasing :: "mf_pc \<Rightarrow> bool" where
  "mf_releasing MfUnlNext = True"
| "mf_releasing MfUnlFlag = True"
| "mf_releasing (MfUnlCas b) = True"
| "mf_releasing MfUnlWait = True"
| "mf_releasing MfUnlLoad = True"
| "mf_releasing (MfUnlGrant n) = True"
| "mf_releasing _ = False"

text \<open>Steps of a thread \<open>t\<close> and of another thread that lead to a state with a property.\<close>

definition leads ::
  "(tid \<times> lock_act \<Rightarrow> 's \<Rightarrow> 's option) \<Rightarrow> tid \<Rightarrow> nat \<Rightarrow> ('s \<Rightarrow> bool) \<Rightarrow> 's \<Rightarrow> bool" where
  "leads step t n P s \<longleftrightarrow>
     (\<exists>u ls s'. set ls \<subseteq> {(t, Go), (u, Go)} \<and> length ls \<le> n \<and> run step ls s = Some s' \<and> P s')"

lemma leads_now: "P s \<Longrightarrow> leads step t n P s"
  unfolding leads_def by (intro exI [of _ t] exI [of _ "[]"] exI [of _ s]) simp

lemma leads_step:
  assumes "step (t, Go) s = Some s1" and "leads step t n P s1"
  shows "leads step t (Suc n) P s"
proof -
  obtain u ls s' where "set ls \<subseteq> {(t, Go), (u, Go)}" "length ls \<le> n" "run step ls s1 = Some s'" "P s'"
    using assms(2) by (auto simp: leads_def)
  then show ?thesis using assms(1) unfolding leads_def
    by (intro exI [of _ u] exI [of _ "(t, Go) # ls"] exI [of _ s']) auto
qed

lemma leads_mono: "leads step t n P s \<Longrightarrow> n \<le> m \<Longrightarrow> leads step t m P s"
  unfolding leads_def by (meson order_trans)

text \<open>A thread that knows that it has a successor, and the successor may have to link itself first.\<close>

lemma mf_release_linked:
  assumes "mf_pc s t = MfUnlWait" and "mf_next s t \<noteq> None"
  shows "\<exists>s'. run (mcs_futex_step A K) [(t, Go), (t, Go), (t, Go)] s = Some s' \<and> \<not> mf_holds t s'"
  using assms by (auto simp: mf_ops mf_holds_def)

lemma mf_release_wait:
  assumes rel: "mf_rel K s q" and t: "mf_pc s t = MfUnlWait"
  shows "leads (mcs_futex_step A K) t 5 (\<lambda>s'. \<not> mf_holds t s') s"
proof -
  have c: "mcs_chain q (fst (mf_locked s)) (mf_next s) (mf_frees s) (mf_phases s)"
    and l: "fst (mf_locked s) \<noteq> Some t"
    using rel t by (auto simp: mf_rel_def mf_next_ok_def mf_chain_def)
  note D = mcs_chainD [OF c]
  have h: "t \<in> set q" "hd q = t" using mcs_owner_first [OF c, of t] t by (auto simp: mf_phases_at)
  obtain xs where x: "q = t # xs" using h by (cases q) auto
  have "xs \<noteq> []" using D(2) l x by auto
  then have a: "adj q t (hd xs)" by (simp add: x adj_Cons)
  define u where "u = hd xs"
  have "u \<noteq> t" using a D(1) adj_irrefl [of q t] by (auto simp: u_def)
  consider "mf_next s t \<noteq> None" | "mf_pc s u = MfMark t" | "mf_pc s u = MfLink t"
    using D(7) [OF a, folded u_def] by (cases "mf_pc s u") (auto simp: mf_phases_at split: if_splits)
  then have "\<exists>us s1. set us \<subseteq> {(u, Go)} \<and> length us \<le> 2 \<and> run (mcs_futex_step A K) us s = Some s1 \<and>
    mf_pc s1 t = MfUnlWait \<and> mf_next s1 t \<noteq> None"
  proof cases
    case 1
    then show ?thesis using t by (intro exI [of _ "[]"]) auto
  next
    case 2
    then show ?thesis using t \<open>u \<noteq> t\<close> by (intro exI [of _ "[(u, Go), (u, Go)]"]) (auto simp: mf_ops)
  next
    case 3
    then show ?thesis using t \<open>u \<noteq> t\<close> by (intro exI [of _ "[(u, Go)]"]) (auto simp: mf_ops)
  qed
  then obtain us s1 where u: "set us \<subseteq> {(u, Go)}" "length us \<le> 2" "run (mcs_futex_step A K) us s = Some s1"
    "mf_pc s1 t = MfUnlWait" "mf_next s1 t \<noteq> None" by blast
  obtain s' where "run (mcs_futex_step A K) [(t, Go), (t, Go), (t, Go)] s1 = Some s'" "\<not> mf_holds t s'"
    using mf_release_linked [OF u(4,5)] by blast
  then show ?thesis using u unfolding leads_def
    by (intro exI [of _ u] exI [of _ "us @ [(t, Go), (t, Go), (t, Go)]"] exI [of _ s']) (auto simp: run_append)
qed

text \<open>
  \<open>unlock\<close> of the MCS lock with futexes releases the lock: from every reachable state in which thread
  \<open>t\<close> is in \<open>unlock\<close> and still owns the lock, at most nine steps of \<open>t\<close> and of the thread behind it in
  the queue release it, even if the flag was set after \<open>t\<close> read it.
\<close>
theorem mcs_futex_unlock_releases:
  assumes A: "aligned_nodes A" and K: "futex_ok K" and r: "reachable (mcs_futex_step A K) (mcs_futex_init K f) s"
    and t: "mf_releasing (mf_pc s t)"
  shows "\<exists>u ls s'. set ls \<subseteq> {(t, Go), (u, Go)} \<and> length ls \<le> 9 \<and>
    run (mcs_futex_step A K) ls s = Some s' \<and> \<not> mf_holds t s'"
proof -
  let ?step = "mcs_futex_step A K"
  let ?leads = "\<lambda>n. leads ?step t n (\<lambda>s'. \<not> mf_holds t s')"
  have rel: "\<exists>q. mf_rel K s q" if "reachable ?step (mcs_futex_init K f) s" for s
    by (rule lock_impl.axioms(1) [OF queue_lock.is_lock [OF mcs_futex_queue_lock [OF A K]], THEN invariant_system.inv_reachable, OF that])
  have go: "?leads (Suc n) s" if "?step (t, Go) s = Some s1" "?leads n s1" for s s1 n by (rule leads_step [OF that])
  have move: "reachable ?step (mcs_futex_init K f) s1"
    if "reachable ?step (mcs_futex_init K f) s" "?step (t, Go) s = Some s1" for s s1
    by (rule reachable.move [OF that])
  have wait: "?leads 5 s" if "reachable ?step (mcs_futex_init K f) s" "mf_pc s t = MfUnlWait" for s
    using rel [OF that(1)] mf_release_wait that(2) by blast
  have flag: "?leads 7 s" if s: "reachable ?step (mcs_futex_init K f) s" "mf_pc s t = MfUnlFlag" for s
  proof -
    have 1: "?step (t, Go) s = Some (mf_goto t (MfUnlCas (snd (mf_locked s))) s)"
      using s by (simp add: mf_go_def mf_unlock_def)
    let ?s = "mf_goto t (MfUnlCas (snd (mf_locked s))) s"
    have "?leads 6 ?s"
    proof (cases "fst (mf_locked s) = Some t")
      case True
      then have "?step (t, Go) ?s = Some (mf_goto t (if snd (mf_locked s) then MfNotifyAll else MfIdle) (?s\<lparr>mf_locked := (None, False)\<rparr>))"
        by (simp add: mf_go_def mf_unlock_def mf_goto_def prod_eq_iff)
      then have "?leads (Suc 5) ?s" by (rule go) (auto intro!: leads_now simp: mf_holds_def mf_goto_def)
      then show ?thesis by simp
    next
      case False
      then have 2: "?step (t, Go) ?s = Some (mf_goto t MfUnlWait ?s)"
        by (auto simp: mf_go_def mf_unlock_def mf_goto_def prod_eq_iff)
      have "?leads (Suc 5) ?s" by (rule go [OF 2], rule wait [OF move [OF move [OF s(1) 1] 2]]) (simp add: mf_goto_def)
      then show ?thesis by simp
    qed
    then have "?leads (Suc 6) s" by (rule go [OF 1])
    then show ?thesis by simp
  qed
  have nxt: "?leads 8 s" if s: "reachable ?step (mcs_futex_init K f) s" "mf_pc s t = MfUnlNext" for s
  proof -
    have 1: "?step (t, Go) s = Some (mf_goto t (if mf_next s t = None then MfUnlFlag else MfUnlWait) s)"
      using s by (simp add: mf_go_def mf_unlock_def)
    have "?leads 7 (mf_goto t (if mf_next s t = None then MfUnlFlag else MfUnlWait) s)"
    proof (cases "mf_next s t = None")
      case True
      then show ?thesis using flag [OF move [OF s(1) 1]] by (simp add: mf_goto_def)
    next
      case False
      then have "?step (t, Go) s = Some (mf_goto t MfUnlWait s)" using 1 unfolding if_not_P [OF False] by blast
      then have "?leads 5 (mf_goto t MfUnlWait s)" using wait [OF move [OF s(1)]] by (simp add: mf_goto_def)
      then show ?thesis unfolding if_not_P [OF False] by (rule leads_mono) simp
    qed
    then have "?leads (Suc 7) s" by (rule go [OF 1])
    then show ?thesis by simp
  qed
  have "?leads 9 s" using t
  proof (cases "mf_pc s t")
    case MfUnlNext
    then show ?thesis using leads_mono [OF nxt [OF r]] by simp
  next
    case MfUnlFlag
    then show ?thesis using leads_mono [OF flag [OF r]] by simp
  next
    case (MfUnlCas b)
    consider "mf_locked s = (Some t, b)" | "fst (mf_locked s) \<noteq> Some t" | "mf_locked s \<noteq> (Some t, b)" "fst (mf_locked s) = Some t"
      by fastforce
    then show ?thesis
    proof cases
      case 1
      then have "?step (t, Go) s = Some (mf_goto t (if b then MfNotifyAll else MfIdle) (s\<lparr>mf_locked := (None, False)\<rparr>))"
        using MfUnlCas by (simp add: mf_go_def mf_unlock_def)
      then have "?leads (Suc 8) s" by (rule go) (auto intro!: leads_now simp: mf_holds_def mf_goto_def)
      then show ?thesis by simp
    next
      case 2
      then have st: "?step (t, Go) s = Some (mf_goto t MfUnlWait s)"
        using MfUnlCas by (auto simp: mf_go_def mf_unlock_def)
      have "?leads (Suc 5) s" by (rule go [OF st], rule wait [OF move [OF r st]]) (simp add: mf_goto_def)
      then show ?thesis by (rule leads_mono) simp
    next
      case 3
      then have st: "?step (t, Go) s = Some (mf_goto t MfUnlNext s)"
        using MfUnlCas by (auto simp: mf_go_def mf_unlock_def)
      have "?leads (Suc 8) s" by (rule go [OF st], rule nxt [OF move [OF r st]]) (simp add: mf_goto_def)
      then show ?thesis by simp
    qed
  next
    case MfUnlWait
    then show ?thesis using leads_mono [OF wait [OF r]] by simp
  next
    case MfUnlLoad
    obtain q where "mf_rel K s q" using rel [OF r] by blast
    then have "mf_next s t \<noteq> None" using MfUnlLoad unfolding mf_rel_def mf_next_ok_def by blast
    then obtain n where n: "?step (t, Go) s = Some (mf_goto t (MfUnlGrant n) s)"
      using MfUnlLoad by (auto simp: mf_go_def mf_unlock_def)
    let ?s = "mf_goto t (MfUnlGrant n) s"
    have "?step (t, Go) ?s = Some (mf_goto t (if mf_field s n = Contended then MfNotifyOne n else MfUnlClear)
        (?s\<lparr>mf_field := (mf_field s)(n := Free)\<rparr>))"
      by (simp add: mf_go_def mf_unlock_def mf_goto_def)
    then have "?leads (Suc 7) ?s" by (rule go) (auto intro!: leads_now simp: mf_holds_def mf_goto_def)
    then have "?leads (Suc (Suc 7)) s" by (rule go [OF n])
    then show ?thesis by simp
  next
    case (MfUnlGrant n)
    then have "?step (t, Go) s = Some (mf_goto t (if mf_field s n = Contended then MfNotifyOne n else MfUnlClear)
        (s\<lparr>mf_field := (mf_field s)(n := Free)\<rparr>))"
      by (simp add: mf_go_def mf_unlock_def)
    then have "?leads (Suc 8) s" by (rule go) (auto intro!: leads_now simp: mf_holds_def mf_goto_def)
    then show ?thesis by simp
  qed auto
  then show ?thesis unfolding leads_def .
qed

theorem mcs_futex_unlock_releases_witness:
  "\<exists>s u ls s'. run (mcs_futex_step node_addr list_kernel) (mf_demo_start @ [(0, Unlock), (0, Go)])
       (mcs_futex_init list_kernel (\<lambda>_. Free)) = Some s \<and> mf_pc s 0 = MfUnlWait \<and>
     set ls \<subseteq> {(0, Go), (u, Go)} \<and> length ls \<le> 9 \<and>
     run (mcs_futex_step node_addr list_kernel) ls s = Some s' \<and> \<not> mf_holds 0 s'"
proof -
  obtain s where s: "run (mcs_futex_step node_addr list_kernel) (mf_demo_start @ [(0, Unlock), (0, Go)])
       (mcs_futex_init list_kernel (\<lambda>_. Free)) = Some s" "mf_pc s 0 = MfUnlWait"
    by (simp add: mf_eval)
  have "mf_releasing (mf_pc s 0)" using s(2) by simp
  from mcs_futex_unlock_releases [OF node_addr_aligned list_kernel_ok run_reachable [OF s(1)] this] s show ?thesis
    by blast
qed

text \<open>
  The MCS lock with futexes is not lost in a handover: whenever it is taken and nobody owns it, the
  first thread of the queue has been set free and enters its critical section within three steps of
  its own, after one step of the thread that is to wake it if it sleeps.
\<close>
theorem mcs_futex_first_enters:
  assumes A: "aligned_nodes A" and K: "futex_ok K" and r: "reachable (mcs_futex_step A K) (mcs_futex_init K f) s"
    and l: "mf_is_locked s" and none: "\<forall>t. \<not> mf_holds t s"
  shows "\<exists>t u ls s'. mf_field s t = Free \<and> set ls \<subseteq> {(t, Go)} \<and> length ls \<le> 3 \<and>
    (run (mcs_futex_step A K) ls s = Some s' \<or> mf_pc s u = MfNotifyOne t \<and> run (mcs_futex_step A K) ((u, Go) # ls) s = Some s') \<and>
    mf_crit t s'"
proof -
  obtain q where rel: "mf_rel K s q"
    using lock_impl.axioms(1) [OF queue_lock.is_lock [OF mcs_futex_queue_lock [OF A K]], THEN invariant_system.inv_reachable, OF r]
    by blast
  have R: "mf_chain s q" "mf_next_ok s" "mf_sleep_ok K s" using rel by (auto simp: mf_rel_def)
  have "fst (mf_locked s) \<noteq> None" using l R(2) by (cases "mf_locked s") (auto simp: mf_is_locked_def mf_next_ok_def)
  then have q: "q \<noteq> []" using mcs_chainD(2) [OF R(1) [unfolded mf_chain_def]] by auto
  define t where "t = hd q"
  have w: "mf_phases s t = PhWait" "mf_field s t = Free"
    using mf_first [OF rel q] none by (auto simp: mf_holds_def mf_phases_at t_def)
  have awake: "\<exists>ls s'. set ls \<subseteq> {(t, Go)} \<and> length ls \<le> 2 \<and> run (mcs_futex_step A K) ls s1 = Some s' \<and> mf_crit t s'"
    if "mf_pc s1 t = MfSleep" "\<not> mf_asleep K s1 (NodeWord t) t" "mf_field s1 t = Free" for s1
    using that by (intro exI [of _ "[(t, Go), (t, Go)]"]) (auto simp: mf_ops mf_crit_def)
  show ?thesis
  proof (cases "mf_asleep K s (NodeWord t) t")
    case True
    have p: "mf_pc s t = MfSleep" using mf_sleep_okD(1) [OF R(3) True] by auto
    obtain u where u: "mf_pc s u = MfNotifyOne t" using mf_sleep_okD(3) [OF R(3) True] w by auto
    obtain s1 where s1: "mf_go A K u s = Some s1" "mf_field s1 = mf_field s"
      using u by (auto simp: mf_go_def mf_notify_one_def mf_goto_def)
    have "u \<noteq> t" using p u by auto
    then have "mf_pc s1 t = MfSleep" using mf_go_frame [OF s1(1), of t] p by simp
    moreover have "\<not> mf_asleep K s1 (NodeWord t) t" by (rule mf_notify_one_wakes [OF K R(3) s1(1) u])
    ultimately obtain ls s' where "set ls \<subseteq> {(t, Go)}" "length ls \<le> 2" "run (mcs_futex_step A K) ls s1 = Some s'" "mf_crit t s'"
      using awake [of s1] s1(2) w(2) by auto
    then show ?thesis using u s1(1) w(2)
      by (intro exI [of _ t] exI [of _ u] exI [of _ ls] exI [of _ s']) auto
  next
    case False
    have fin: ?thesis if "run (mcs_futex_step A K) (replicate n (t, Go)) s = Some s'" "mf_crit t s'" "n \<le> 3" for n s'
      using that w(2) by (intro exI [of _ t] exI [of _ t] exI [of _ "replicate n (t, Go)"] exI [of _ s']) auto
    show ?thesis
    proof (cases "mf_pc s t")
      case (MfSpin i)
      then show ?thesis using w fin [of 3] by (simp add: mf_ops mf_crit_def numeral_eq_Suc)
    next
      case MfTest
      then show ?thesis using w fin [of 2] by (simp add: mf_ops mf_crit_def numeral_eq_Suc)
    next
      case MfContend
      then show ?thesis using w fin [of 1] by (simp add: mf_ops mf_crit_def)
    next
      case MfLoop
      then show ?thesis using w fin [of 1] by (simp add: mf_ops mf_crit_def)
    next
      case MfWait
      have "\<not> k_blocked K (k_wait K t (NodeWord t) 0 2 (mf_kernel s)) (NodeWord t) t"
        using False by (simp add: futex_wait_blocked [OF K] mf_asleep_def)
      then show ?thesis using w MfWait fin [of 3]
        by (simp add: mf_ops mf_crit_def mf_asleep_def numeral_eq_Suc)
    next
      case MfSleep
      then show ?thesis using w False fin [of 2] by (simp add: mf_ops mf_crit_def mf_asleep_def numeral_eq_Suc)
    qed (use w in \<open>auto simp: mf_phases_at split: if_splits\<close>)
  qed
qed

theorem mcs_futex_first_enters_witness:
  "\<exists>s t u ls s'. run (mcs_futex_step node_addr list_kernel) (mf_demo_sleep @ mf_demo_unlock) (mcs_futex_init list_kernel (\<lambda>_. Free)) = Some s \<and>
     mf_asleep list_kernel s (NodeWord 1) 1 \<and> mf_field s t = Free \<and> set ls \<subseteq> {(t, Go)} \<and> length ls \<le> 3 \<and>
     (run (mcs_futex_step node_addr list_kernel) ls s = Some s' \<or>
      mf_pc s u = MfNotifyOne t \<and> run (mcs_futex_step node_addr list_kernel) ((u, Go) # ls) s = Some s') \<and>
     mf_crit t s'"
proof -
  let ?s = "(mf_demo_state MfSleep Free [(LockWord, 2), (NodeWord 1, 1)])
        \<lparr>mf_pc := (\<lambda>_. MfIdle)(0 := MfNotifyOne 1, 2 := MfTlwSleep, 1 := MfSleep)\<rparr>"
  have s: "run (mcs_futex_step node_addr list_kernel) (mf_demo_sleep @ mf_demo_unlock) (mcs_futex_init list_kernel (\<lambda>_. Free)) = Some ?s"
    unfolding run_append mf_demo_asleep option.case mf_demo_unlocked by (rule refl)
  have l: "mf_is_locked ?s" "\<forall>t. \<not> mf_holds t ?s" "mf_asleep list_kernel ?s (NodeWord 1) 1"
    by (auto simp: mf_is_locked_def mf_demo_state_def mf_holds_def mf_asleep_def list_kernel_def)
  show ?thesis
    using mcs_futex_first_enters [OF node_addr_aligned list_kernel_ok run_reachable [OF s] l(1,2)] s l(3) by blast
qed

section \<open>\<open>wake\<close>\<close>

text \<open>
  \<open>wake\<close> of the holder of the lock wakes every thread that sleeps in \<open>try_lock_or_wait\<close>; called by any other thread
  that is not in \<open>lock\<close>, it makes no system call.
\<close>

lemma mf_wake_wakes:
  assumes K: "futex_ok K" and st: "mf_wake K t s = Some s'" "mf_pc s t = MfWakeAll b" "mf_pc s' t \<noteq> MfWakeAll b"
  shows "\<not> mf_asleep K s' LockWord u"
proof -
  obtain w k where wk: "k_wake K LockWord wake_at_once (mf_kernel s) = (w, k)" by fastforce
  have s': "w \<noteq> wake_at_once" "mf_kernel s' = k"
    using st wk by (auto simp: mf_wake_def mf_notify_all_def mf_goto_def split: if_splits)
  then have "w < wake_at_once" using futex_wake_count [OF K wk] by simp
  then show ?thesis using futex_wake_all [OF K wk] s'(2) by (simp add: mf_asleep_def)
qed

lemma mf_wake_other:
  assumes rel: "mf_rel K s q" and p: "mf_pc s t = MfWake False"
  shows "mf_wake K t s = Some (mf_goto t MfIdle s)"
proof -
  have "fst (mf_locked s) \<noteq> Some t"
  proof
    assume l: "fst (mf_locked s) = Some t"
    have "mf_chain s q" using rel by (simp add: mf_rel_def)
    note D = mcs_chainD [OF this [unfolded mf_chain_def]]
    have "t \<in> set q" using D(2) l by (auto split: if_splits)
    then show False using D(3) [of t] p by (auto simp: mf_phases_at)
  qed
  then show ?thesis using p by (auto simp: mf_wake_def)
qed

end
