(* ===== verification/Queue_Spec.thy ===== *)
theory Queue_Spec
  imports QD_Prelude
begin

text \<open>
  The contract of a tantrum queue (the \<open>DQueue\<close> template parameter of the delegation locks), and the
  locale the queues of \<open>queues/\<close> are shown to satisfy.

  The owner of the lock opens the queue, and later flushes it: it executes the stored operations in
  order and leaves the queue closed. Any thread may call \<open>enqueue\<close> at any time; the call either
  stores the operation, in one atomic step, and returns \<open>SUCCESS\<close>, or has no effect and returns
  \<open>FULL\<close> or \<open>CLOSED\<close>.
\<close>

section \<open>Status values\<close>

text \<open>\<open>enum class status { OPEN=0, SUCCESS=0, FULL, CLOSED }\<close>: open and success are one value.\<close>

datatype status = OPEN | FULL | CLOSED

abbreviation SUCCESS :: status where
  "SUCCESS \<equiv> OPEN"

section \<open>The abstract queue\<close>

text \<open>What is known of the call of \<open>enqueue\<close> a thread is in: not accepted yet, or accepted.\<close>

datatype 'e tq_call = TqNone | TqCalled 'e | TqAccepted 'e

record 'e tqueue =
  tq_open :: bool
  tq_pend :: "'e list"
  tq_calls :: "tid \<Rightarrow> 'e tq_call"

definition tq_init :: "'e tqueue" where
  "tq_init = \<lparr>tq_open = False, tq_pend = [], tq_calls = (\<lambda>_. TqNone)\<rparr>"

text \<open>
  Events: a thread calls \<open>enqueue\<close>, its operation is accepted, the call returns; the owner opens
  the queue, closes it, executes the next operation, or returns from \<open>flush\<close>.
\<close>

datatype 'e tq_event =
  TqCall tid 'e | TqAccept tid | TqReturn tid status
  | TqOpen | TqClose | TqExec 'e | TqDrained

fun tq_step :: "'e tq_event \<Rightarrow> 'e tqueue \<Rightarrow> 'e tqueue option" where
  "tq_step (TqCall t e) q =
     (case tq_calls q t of
        TqNone \<Rightarrow> Some (q\<lparr>tq_calls := (tq_calls q)(t := TqCalled e)\<rparr>)
      | _ \<Rightarrow> None)"
| "tq_step (TqAccept t) q =
     (case tq_calls q t of
        TqCalled e \<Rightarrow>
          if tq_open q
          then Some (q\<lparr>tq_pend := tq_pend q @ [e], tq_calls := (tq_calls q)(t := TqAccepted e)\<rparr>)
          else None
      | _ \<Rightarrow> None)"
| "tq_step (TqReturn t st) q =
     (case tq_calls q t of
        TqNone \<Rightarrow> None
      | TqCalled e \<Rightarrow> if st = SUCCESS then None else Some (q\<lparr>tq_calls := (tq_calls q)(t := TqNone)\<rparr>)
      | TqAccepted e \<Rightarrow> if st = SUCCESS then Some (q\<lparr>tq_calls := (tq_calls q)(t := TqNone)\<rparr>) else None)"
| "tq_step TqOpen q = (if tq_open q \<or> tq_pend q \<noteq> [] then None else Some (q\<lparr>tq_open := True\<rparr>))"
| "tq_step TqClose q = (if tq_open q then Some (q\<lparr>tq_open := False\<rparr>) else None)"
| "tq_step (TqExec e) q =
     (case tq_pend q of x # xs \<Rightarrow> if x = e then Some (q\<lparr>tq_pend := xs\<rparr>) else None | [] \<Rightarrow> None)"
| "tq_step TqDrained q = (if tq_open q \<or> tq_pend q \<noteq> [] then None else Some q)"

section \<open>What the contract gives\<close>

text \<open>
  The operations accepted in a history, in order (looking up which operation a thread called
  \<open>enqueue\<close> with), those executed, and the number of successful returns.
\<close>

fun accepted_from :: "(tid \<Rightarrow> 'e tq_call) \<Rightarrow> 'e tq_event list \<Rightarrow> 'e list" where
  "accepted_from c [] = []"
| "accepted_from c (TqCall t e # es) = accepted_from (c(t := TqCalled e)) es"
| "accepted_from c (TqAccept t # es) =
     (case c t of TqCalled e \<Rightarrow> e # accepted_from (c(t := TqAccepted e)) es | _ \<Rightarrow> accepted_from c es)"
| "accepted_from c (TqReturn t st # es) = accepted_from (c(t := TqNone)) es"
| "accepted_from c (_ # es) = accepted_from c es"

definition accepted :: "'e tq_event list \<Rightarrow> 'e list" where
  "accepted es = accepted_from (\<lambda>_. TqNone) es"

fun executed :: "'e tq_event list \<Rightarrow> 'e list" where
  "executed [] = []"
| "executed (TqExec e # es) = e # executed es"
| "executed (_ # es) = executed es"

lemma executed_append [simp]: "executed (es @ fs) = executed es @ executed fs"
  by (induction es rule: executed.induct) auto

lemma tq_fifo_from:
  "run tq_step es q = Some q' \<Longrightarrow>
   tq_pend q @ accepted_from (tq_calls q) es = executed es @ tq_pend q'"
proof (induction es arbitrary: q)
  case (Cons ev es)
  from Cons.prems obtain q1 where q1: "tq_step ev q = Some q1" "run tq_step es q1 = Some q'"
    by (auto split: option.splits)
  note IH = Cons.IH [OF q1(2)]
  from q1(1) IH show ?case
    by (cases "(ev, q)" rule: tq_step.cases)
      (auto split: tq_call.splits if_splits list.splits)
qed simp

text \<open>The executed operations are a prefix of the accepted ones, in the same order.\<close>

lemma tq_fifo: "run tq_step es tq_init = Some q \<Longrightarrow> accepted es = executed es @ tq_pend q"
  using tq_fifo_from [of es tq_init q] by (simp add: tq_init_def accepted_def)

text \<open>When \<open>flush\<close> has returned, every accepted operation has been executed, once and in order.\<close>

lemma tq_drained:
  assumes "run tq_step (es @ [TqDrained]) tq_init = Some q"
  shows "executed es = accepted es"
proof -
  obtain q0 where "run tq_step es tq_init = Some q0" "tq_step TqDrained q0 = Some q"
    using assms by (auto simp: run_snoc split: option.splits)
  then show ?thesis using tq_fifo [of es q0] by (auto split: if_splits)
qed

section \<open>The contract as a locale\<close>

text \<open>
  A queue satisfies the contract when it simulates the abstract queue: each of its steps stands for
  the events \<open>ev\<close>, and \<open>rel\<close> relates its state to the abstract one.
\<close>

locale tantrum_queue = forward_simulation step init tq_step tq_init rel ev
  for step :: "'l \<Rightarrow> 's \<Rightarrow> 's option" and init :: 's
    and rel :: "'s \<Rightarrow> 'e tqueue \<Rightarrow> bool" and ev :: "'s \<Rightarrow> 'l \<Rightarrow> 'e tq_event list"
begin

lemma linearizable:
  "run step ls init = Some s \<Longrightarrow>
   \<exists>q. run tq_step (trace step ev ls init) tq_init = Some q \<and> rel s q \<and>
       accepted (trace step ev ls init) = executed (trace step ev ls init) @ tq_pend q"
  using run_simulated tq_fifo by blast

lemma reachable_rel: "reachable step init s \<Longrightarrow> \<exists>q. rel s q"
  by (rule inv_reachable)

end

end
