(* ===== verification/Marshal.thy ===== *)
theory Marshal
  imports QD_Prelude "HOL-Library.Word"
begin

text \<open>
  Moving the parameters of a delegated operation through the raw bytes of a queue entry: the
  \<open>forwardall\<close> functions of the queues, \<open>sumsizes\<close> of \<open>util/type_tools.hpp\<close>, and the wrappers
  \<open>delegated_*\<close> of \<open>qdlock_base.hpp\<close> that unpack an entry again and call the operation.

  A parameter is its object representation, a list of bytes; a pack of parameter types is the list
  of their sizes. Accesses outside a buffer are undefined behaviour in the source, and \<open>None\<close> here.
\<close>

section \<open>Buffers of bytes\<close>

type_synonym byte = "8 word"

definition write_bytes :: "nat \<Rightarrow> byte list \<Rightarrow> byte list \<Rightarrow> byte list option" where
  "write_bytes off bs buf =
     (if off + length bs \<le> length buf
      then Some (take off buf @ bs @ drop (off + length bs) buf) else None)"

definition read_bytes :: "nat \<Rightarrow> nat \<Rightarrow> byte list \<Rightarrow> byte list option" where
  "read_bytes off n buf = (if off + n \<le> length buf then Some (take n (drop off buf)) else None)"

lemma write_bytes_length: "write_bytes off bs buf = Some buf' \<Longrightarrow> length buf' = length buf"
  by (auto simp: write_bytes_def split: if_splits)

lemma write_bytes_nth:
  assumes "write_bytes off bs buf = Some buf'" and "i < length buf"
  shows "buf' ! i = (if off \<le> i \<and> i < off + length bs then bs ! (i - off) else buf ! i)"
  using assms by (auto simp: write_bytes_def nth_append min_def split: if_splits)

lemma read_bytes_eq_iff:
  "read_bytes off n buf = Some bs \<longleftrightarrow>
   off + n \<le> length buf \<and> length bs = n \<and> (\<forall>i < n. buf ! (off + i) = bs ! i)"
  by (auto simp: read_bytes_def list_eq_iff_nth_eq)

text \<open>What was written is read back, and bytes elsewhere are kept.\<close>

lemma read_write_bytes:
  "write_bytes off bs buf = Some buf' \<Longrightarrow> read_bytes off (length bs) buf' = Some bs"
  unfolding read_bytes_eq_iff
  by (auto simp: write_bytes_def nth_append min_def split: if_splits)

lemma read_bytes_cong:
  assumes "length buf' = length buf" and "\<And>i. off \<le> i \<Longrightarrow> i < off + n \<Longrightarrow> buf' ! i = buf ! i"
  shows "read_bytes off n buf' = read_bytes off n buf"
  using assms by (auto simp: read_bytes_def intro!: nth_equalityI)

section \<open>Packing: \<open>sumsizes\<close> and \<open>forwardall\<close>\<close>

fun sumsizes :: "nat list \<Rightarrow> nat" where
  "sumsizes (n # ns) = n + sumsizes ns"
| "sumsizes [] = 0"

fun forwardall :: "nat \<Rightarrow> byte list list \<Rightarrow> byte list \<Rightarrow> byte list option" where
  "forwardall off [] buf = Some buf"
| "forwardall off (p # ps) buf =
     (case write_bytes off p buf of
        None \<Rightarrow> None | Some buf' \<Rightarrow> forwardall (off + length p) ps buf')"

lemma forwardall_length: "forwardall off ps buf = Some buf' \<Longrightarrow> length buf' = length buf"
  by (induction off ps buf rule: forwardall.induct)
    (auto split: option.splits dest: write_bytes_length)

lemma forwardall_other:
  assumes "forwardall off ps buf = Some buf'" "i < length buf"
    and "i < off \<or> off + sumsizes (map length ps) \<le> i"
  shows "buf' ! i = buf ! i"
  using assms
proof (induction off ps buf rule: forwardall.induct)
  case (2 off p ps buf)
  then obtain b where b: "write_bytes off p buf = Some b" "forwardall (off + length p) ps b = Some buf'"
    by (auto split: option.splits)
  show ?case using "2.IH" [OF b(1) b(2)] "2.prems" write_bytes_nth [OF b(1)] write_bytes_length [OF b(1)]
    by auto
qed simp

lemma forwardall_fits:
  "off + sumsizes (map length ps) \<le> length buf \<Longrightarrow> \<exists>buf'. forwardall off ps buf = Some buf'"
proof (induction off ps buf rule: forwardall.induct)
  case (2 off p ps buf)
  then have "off + length p \<le> length buf" by simp
  then obtain b where b: "write_bytes off p buf = Some b" by (auto simp: write_bytes_def)
  then show ?case using "2.IH" [OF b] "2.prems" write_bytes_length [OF b] by simp
qed simp

lemma forwardall_snoc:
  "forwardall off (ps @ [p]) buf =
   (case forwardall off ps buf of
      None \<Rightarrow> None | Some b \<Rightarrow> write_bytes (off + sumsizes (map length ps)) p b)"
  by (induction off ps buf rule: forwardall.induct) (auto split: option.splits simp: add.assoc)

lemma sumsizes_append [simp]: "sumsizes (ms @ ns) = sumsizes ms + sumsizes ns"
  by (induction ms) auto

lemma sumsizes_take_le: "k < length ps \<Longrightarrow>
   sumsizes (map length (take k ps)) + length (ps ! k) \<le> sumsizes (map length ps)"
  by (induction ps arbitrary: k) (auto simp: take_Cons nth_Cons split: nat.splits)

section \<open>Unpacking: the \<open>delegated\<close> wrappers\<close>

text \<open>
  The recursive wrappers peel one type off their type list, read that parameter at the buffer
  pointer, append it to the pack \<open>ps\<close> and go on behind it. When the list is empty the pack is
  complete, and the pointer is where the promise is, if there is one.
\<close>

fun unroll :: "nat list \<Rightarrow> byte list \<Rightarrow> nat \<Rightarrow> byte list list \<Rightarrow> (byte list list \<times> nat) option" where
  "unroll [] buf off ps = Some (ps, off)"
| "unroll (n # ns) buf off ps =
     (case read_bytes off n buf of None \<Rightarrow> None | Some p \<Rightarrow> unroll ns buf (off + n) (ps @ [p]))"

lemma unroll_forwardall:
  assumes "forwardall off ps buf = Some buf'"
  shows "unroll (map length ps) buf' off acc = Some (acc @ ps, off + sumsizes (map length ps))"
  using assms
proof (induction off ps buf arbitrary: acc rule: forwardall.induct)
  case (2 off p ps buf)
  then obtain b where b: "write_bytes off p buf = Some b" "forwardall (off + length p) ps b = Some buf'"
    by (auto split: option.splits)
  have "off + length p \<le> length buf" using b(1) by (auto simp: write_bytes_def split: if_splits)
  then have "read_bytes off (length p) buf' = read_bytes off (length p) b"
    using forwardall_length [OF b(2)] write_bytes_length [OF b(1)]
    by (intro read_bytes_cong) (auto intro!: forwardall_other [OF b(2)])
  then show ?case using read_write_bytes [OF b(1)] "2.IH" [OF b, of "acc @ [p]"] by (simp add: add.assoc)
qed simp

lemma unroll_cong:
  assumes "length buf' = length buf" and "\<And>i. off \<le> i \<Longrightarrow> i < off + sumsizes ns \<Longrightarrow> buf' ! i = buf ! i"
  shows "unroll ns buf' off ps = unroll ns buf off ps"
  using assms(2)
proof (induction ns arbitrary: off ps)
  case (Cons n ns)
  have "read_bytes off n buf' = read_bytes off n buf"
    by (rule read_bytes_cong [OF assms(1)]) (simp add: Cons.prems)
  then show ?case using Cons by (auto split: option.splits)
qed simp

section \<open>The 32-bit size field\<close>

definition u32_bytes :: "nat \<Rightarrow> byte list" where
  "u32_bytes n = [of_nat n, of_nat (n div 256), of_nat (n div 256 div 256), of_nat (n div 256 div 256 div 256)]"

fun u32_of :: "byte list \<Rightarrow> nat" where
  "u32_of [] = 0"
| "u32_of (b # bs) = unat b + 256 * u32_of bs"

lemma u32_bytes_length [simp]: "length (u32_bytes n) = 4"
  by (simp add: u32_bytes_def)

lemma u32_roundtrip:
  assumes "n < 2 ^ 32"
  shows "u32_of (u32_bytes n) = n"
proof -
  let ?a = "n div 256" and ?b = "n div 256 div 256" and ?c = "n div 256 div 256 div 256"
  have u: "unat (of_nat m :: byte) = m mod 256" for m by (simp add: unat_of_nat)
  have c: "?c mod 256 = ?c" using assms by simp
  have "u32_of (u32_bytes n) = n mod 256 + 256 * (?a mod 256 + 256 * (?b mod 256 + 256 * ?c))"
    by (simp only: u32_of.simps u32_bytes_def u c mult_0_right add_0_right)
  also have "\<dots> = n"
    by (simp only: mod_mult_div_eq)
  finally show ?thesis .
qed

lemma unroll_snoc:
  "unroll (ns @ [n]) buf off acc =
   (case unroll ns buf off acc of
      None \<Rightarrow> None
    | Some (qs, o') \<Rightarrow> (case read_bytes o' n buf of None \<Rightarrow> None | Some r \<Rightarrow> Some (qs @ [r], o' + n)))"
  by (induction ns buf off acc rule: unroll.induct) (auto split: option.splits)

section \<open>The calls of a queue\<close>

text \<open>
  \<open>QCall\<close>: an idle thread calls \<open>enqueue\<close>. \<open>QGo\<close>: a thread takes its next step. \<open>QOpen\<close>, \<open>QFlush\<close>: the
  owner calls \<open>open\<close> on a closed and \<open>flush\<close> on an open queue, the order in which \<open>qdlock_base\<close> calls
  them. \<open>QOwner\<close>: it takes its next step.
\<close>

datatype 'f q_label = QCall tid 'f "byte list list" | QGo tid | QOpen | QFlush | QOwner

end
