(* ===== verification/Entry_Queue.thy ===== *)
theory Entry_Queue
  imports Queue_Spec Marshal
begin

text \<open>
  The queue of \<open>queues/entry_queue.hpp\<close>: an array of entries of fixed size, each a function pointer
  and a parameter buffer, and a counter that hands out indices. \<open>'f\<close> is the type of the function
  pointers \<open>void(*)(char*)\<close>; \<open>eq_sizes\<close> gives the sizes of the parameters each of them unpacks.

  The counter is a natural number: the 64-bit counter of the source is reset by every \<open>open\<close>, and
  would wrap only after \<open>2 ^ 63\<close> calls of \<open>enqueue\<close> in between.
\<close>

section \<open>State\<close>

record 'f eq_config =
  eq_entries :: nat
  eq_buffer_size :: nat
  eq_sizes :: "'f \<Rightarrow> nat list"

text \<open>
  A thread in \<open>enqueue\<close> is before the load of \<open>closed\<close> (\<open>EqEnter\<close>), before the fetch-and-add
  (\<open>EqFetch\<close>), writing its parameter number \<open>k\<close> to the buffer of entry \<open>idx\<close> (\<open>EqWrite\<close>), or, with
  all of them written, before the store of the function pointer.
\<close>

datatype 'f eq_pc =
    EqIdle
  | EqEnter 'f "byte list list"
  | EqFetch 'f "byte list list"
  | EqWrite 'f "byte list list" nat nat

text \<open>
  The owner has not opened the queue (\<open>OwClosed\<close>), is between the two stores of \<open>open\<close>, has opened
  the queue, or is in \<open>flush\<close>: before the load of the counter, before the exchange, before the store
  of \<open>closed\<close> that follows the exchange (\<open>FlClose1\<close>) or the test of the limit (\<open>FlClose2\<close>), waiting for
  an entry, before the call, before the store that clears the entry, or about to return. The
  boolean is the variable \<open>open\<close> of \<open>flush\<close>.
\<close>

datatype 'f eq_owner =
    OwClosed
  | OwOpening
  | OwOpened
  | FlLoad nat
  | FlXchg nat
  | FlClose1 nat nat
  | FlClose2 nat
  | FlSpin bool nat nat
  | FlCall bool nat nat 'f
  | FlClear bool nat nat
  | FlRet

record 'f entry_queue =
  eq_counter :: nat
  eq_closed :: status
  eq_fun :: "nat \<Rightarrow> 'f option"
  eq_buf :: "nat \<Rightarrow> byte list"
  eq_pc :: "tid \<Rightarrow> 'f eq_pc"
  eq_owner :: "'f eq_owner"

text \<open>
  The constructor sets \<open>counter\<close> and \<open>closed\<close> only; \<open>entry_array\<close> is what the memory \<open>M\<close> the queue is
  constructed in holds (\<open>None\<close> is a null pointer). The code relies on memory whose function pointers
  are null, such as that of an object with static storage duration.
\<close>

record 'f eq_memory =
  em_fun :: "nat \<Rightarrow> 'f option"
  em_buf :: "nat \<Rightarrow> byte list"

definition eq_init :: "'f eq_config \<Rightarrow> 'f eq_memory \<Rightarrow> 'f entry_queue" where
  "eq_init C M =
     \<lparr>eq_counter = eq_entries C, eq_closed = CLOSED, eq_fun = em_fun M, eq_buf = em_buf M,
      eq_pc = (\<lambda>_. EqIdle), eq_owner = OwClosed\<rparr>"

definition eq_zeroed :: "'f eq_config \<Rightarrow> 'f eq_memory \<Rightarrow> bool" where
  "eq_zeroed C M \<longleftrightarrow> (\<forall>i. em_fun M i = None) \<and> (\<forall>i. length (em_buf M i) = eq_buffer_size C)"

definition eq_static :: "'f eq_config \<Rightarrow> 'f eq_memory" where
  "eq_static C = \<lparr>em_fun = (\<lambda>_. None), em_buf = (\<lambda>_. replicate (eq_buffer_size C) 0)\<rparr>"

abbreviation eq_static_init :: "'f eq_config \<Rightarrow> 'f entry_queue" where
  "eq_static_init C \<equiv> eq_init C (eq_static C)"

lemma eq_static_zeroed [simp]: "eq_zeroed C (eq_static C)"
  by (simp add: eq_zeroed_def eq_static_def)

definition eq_goto :: "tid \<Rightarrow> 'f eq_pc \<Rightarrow> 'f entry_queue \<Rightarrow> 'f entry_queue" where
  "eq_goto t p s = s\<lparr>eq_pc := (eq_pc s)(t := p)\<rparr>"

section \<open>\<open>enqueue\<close>\<close>

text \<open>
  A call fits when its parameters have the sizes the function unpacks, and together fit an entry
  (the \<open>static_assert\<close> of the source).
\<close>

definition eq_fits :: "'f eq_config \<Rightarrow> 'f \<Rightarrow> byte list list \<Rightarrow> bool" where
  "eq_fits C f ps \<longleftrightarrow> map length ps = eq_sizes C f \<and> sumsizes (eq_sizes C f) \<le> eq_buffer_size C"

text \<open>
  The steps of \<open>enqueue\<close>. \<open>None\<close> in the \<open>EqWrite\<close> case would be an access outside an array.
\<close>

definition eq_enqueue :: "'f eq_config \<Rightarrow> tid \<Rightarrow> 'f entry_queue \<Rightarrow> 'f entry_queue option" where
  "eq_enqueue C t s =
     (case eq_pc s t of
        EqIdle \<Rightarrow> None
      | EqEnter f ps \<Rightarrow> Some (eq_goto t (if eq_closed s \<noteq> OPEN then EqIdle else EqFetch f ps) s)
      | EqFetch f ps \<Rightarrow>
          (let index = eq_counter s in
           Some (eq_goto t (if index < eq_entries C then EqWrite f ps index 0 else EqIdle)
                  (s\<lparr>eq_counter := index + 1\<rparr>)))
      | EqWrite f ps idx k \<Rightarrow>
          if eq_entries C \<le> idx then None
          else if k < length ps then
            (case write_bytes (sumsizes (map length (take k ps))) (ps ! k) (eq_buf s idx) of
               None \<Rightarrow> None
             | Some b \<Rightarrow>
                 Some (eq_goto t (EqWrite f ps idx (k + 1)) (s\<lparr>eq_buf := (eq_buf s)(idx := b)\<rparr>)))
          else Some (eq_goto t EqIdle (s\<lparr>eq_fun := (eq_fun s)(idx := Some f)\<rparr>)))"

section \<open>\<open>open\<close> and \<open>flush\<close>\<close>

definition eq_open :: "'f entry_queue \<Rightarrow> 'f entry_queue option" where
  "eq_open s =
     (case eq_owner s of
        OwClosed \<Rightarrow> Some (s\<lparr>eq_counter := 0, eq_owner := OwOpening\<rparr>)
      | OwOpening \<Rightarrow> Some (s\<lparr>eq_closed := OPEN, eq_owner := OwOpened\<rparr>)
      | _ \<Rightarrow> None)"

text \<open>The head of the \<open>for\<close> loop, and, when it ends, of the \<open>while\<close> loop.\<close>

definition eq_for :: "bool \<Rightarrow> nat \<Rightarrow> nat \<Rightarrow> 'f eq_owner" where
  "eq_for opn index todo =
     (if index < todo then FlSpin opn index todo else if opn then FlLoad todo else FlRet)"

definition eq_flush :: "'f eq_config \<Rightarrow> 'f entry_queue \<Rightarrow> 'f entry_queue option" where
  "eq_flush C s =
     (case eq_owner s of
        FlLoad done \<Rightarrow>
          (let todo = eq_counter s in
           Some (s\<lparr>eq_owner := (if todo = done then FlXchg done
                               else if eq_entries C \<le> todo then FlClose2 done
                               else eq_for True done todo)\<rparr>))
      | FlXchg done \<Rightarrow> Some (s\<lparr>eq_counter := eq_entries C, eq_owner := FlClose1 done (eq_counter s)\<rparr>)
      | FlClose1 done todo \<Rightarrow>
          Some (s\<lparr>eq_closed := CLOSED,
                  eq_owner := (if eq_entries C \<le> todo then FlClose2 done else eq_for False done todo)\<rparr>)
      | FlClose2 done \<Rightarrow>
          Some (s\<lparr>eq_closed := CLOSED, eq_owner := eq_for False done (eq_entries C)\<rparr>)
      | FlSpin opn index todo \<Rightarrow>
          if eq_entries C \<le> index then None
          else Some (case eq_fun s index of
                       None \<Rightarrow> s
                     | Some f \<Rightarrow> s\<lparr>eq_owner := FlCall opn index todo f\<rparr>)
      | FlCall opn index todo f \<Rightarrow>
          (case unroll (eq_sizes C f) (eq_buf s index) 0 [] of
             None \<Rightarrow> None
           | Some _ \<Rightarrow> Some (s\<lparr>eq_owner := FlClear opn index todo\<rparr>))
      | FlClear opn index todo \<Rightarrow>
          Some (s\<lparr>eq_fun := (eq_fun s)(index := None), eq_owner := eq_for opn (index + 1) todo\<rparr>)
      | FlRet \<Rightarrow> Some (s\<lparr>eq_owner := OwClosed\<rparr>)
      | _ \<Rightarrow> None)"

section \<open>The queue as a transition system\<close>

fun eq_step :: "'f eq_config \<Rightarrow> 'f q_label \<Rightarrow> 'f entry_queue \<Rightarrow> 'f entry_queue option" where
  "eq_step C (QCall t f ps) s =
     (if eq_pc s t = EqIdle \<and> eq_fits C f ps then Some (eq_goto t (EqEnter f ps) s) else None)"
| "eq_step C (QGo t) s = eq_enqueue C t s"
| "eq_step C QOpen s = (if eq_owner s = OwClosed then eq_open s else None)"
| "eq_step C QFlush s = (if eq_owner s = OwOpened then Some (s\<lparr>eq_owner := FlLoad 0\<rparr>) else None)"
| "eq_step C QOwner s =
     (if eq_owner s = OwClosed then None
      else if eq_owner s = OwOpening then eq_open s else eq_flush C s)"

text \<open>What each step means to the abstract queue.\<close>

fun eq_events :: "'f eq_config \<Rightarrow> 'f entry_queue \<Rightarrow> 'f q_label \<Rightarrow> ('f \<times> byte list list) tq_event list"
where
  "eq_events C s (QCall t f ps) = [TqCall t (f, ps)]"
| "eq_events C s (QGo t) =
     (case eq_pc s t of
        EqIdle \<Rightarrow> []
      | EqEnter f ps \<Rightarrow> if eq_closed s \<noteq> OPEN then [TqReturn t (eq_closed s)] else []
      | EqFetch f ps \<Rightarrow> if eq_counter s < eq_entries C then [TqAccept t] else [TqReturn t FULL]
      | EqWrite f ps idx k \<Rightarrow> if k < length ps then [] else [TqReturn t SUCCESS])"
| "eq_events C s QOpen = [TqOpen]"
| "eq_events C s QFlush = []"
| "eq_events C s QOwner =
     (case eq_owner s of
        FlLoad done \<Rightarrow>
          if eq_counter s \<noteq> done \<and> eq_entries C \<le> eq_counter s then [TqClose] else []
      | FlXchg done \<Rightarrow> [TqClose]
      | FlCall opn index todo f \<Rightarrow>
          (case unroll (eq_sizes C f) (eq_buf s index) 0 [] of
             None \<Rightarrow> [] | Some (ps, _) \<Rightarrow> [TqExec (f, ps)])
      | FlRet \<Rightarrow> [TqDrained]
      | _ \<Rightarrow> [])"

section \<open>The relation to the abstract queue\<close>

fun eq_call :: "'f eq_pc \<Rightarrow> ('f \<times> byte list list) tq_call" where
  "eq_call EqIdle = TqNone"
| "eq_call (EqEnter f ps) = TqCalled (f, ps)"
| "eq_call (EqFetch f ps) = TqCalled (f, ps)"
| "eq_call (EqWrite f ps idx k) = TqAccepted (f, ps)"

fun eq_writing :: "'f eq_pc \<Rightarrow> nat option" where
  "eq_writing (EqWrite f ps idx k) = Some idx"
| "eq_writing _ = None"

fun eq_pc_ok :: "'f eq_config \<Rightarrow> 'f eq_pc \<Rightarrow> bool" where
  "eq_pc_ok C EqIdle = True"
| "eq_pc_ok C (EqEnter f ps) = eq_fits C f ps"
| "eq_pc_ok C (EqFetch f ps) = eq_fits C f ps"
| "eq_pc_ok C (EqWrite f ps idx k) = (eq_fits C f ps \<and> k \<le> length ps \<and> idx < eq_entries C)"

text \<open>
  The entries in use are those from \<open>eq_lo\<close>, the next to be executed, up to \<open>eq_hi\<close>: the counter, as
  long as the queue is open, and the value \<open>flush\<close> took it to have when it closed it, afterwards.
\<close>

fun eq_is_open :: "'f eq_owner \<Rightarrow> bool" where
  "eq_is_open OwClosed = False"
| "eq_is_open (FlClose1 done todo) = False"
| "eq_is_open (FlClose2 done) = False"
| "eq_is_open (FlSpin opn index todo) = opn"
| "eq_is_open (FlCall opn index todo f) = opn"
| "eq_is_open (FlClear opn index todo) = opn"
| "eq_is_open FlRet = False"
| "eq_is_open _ = True"

fun eq_lo :: "'f eq_owner \<Rightarrow> nat" where
  "eq_lo (FlLoad done) = done"
| "eq_lo (FlXchg done) = done"
| "eq_lo (FlClose1 done todo) = done"
| "eq_lo (FlClose2 done) = done"
| "eq_lo (FlSpin opn index todo) = index"
| "eq_lo (FlCall opn index todo f) = index"
| "eq_lo (FlClear opn index todo) = index + 1"
| "eq_lo _ = 0"

fun eq_limit :: "nat \<Rightarrow> 'f eq_owner \<Rightarrow> nat" where
  "eq_limit E (FlClose1 done todo) = min todo E"
| "eq_limit E (FlClose2 done) = E"
| "eq_limit E (FlSpin opn index todo) = todo"
| "eq_limit E (FlCall opn index todo f) = todo"
| "eq_limit E (FlClear opn index todo) = todo"
| "eq_limit E _ = 0"

definition eq_hi :: "'f eq_config \<Rightarrow> 'f entry_queue \<Rightarrow> nat" where
  "eq_hi C s = (if eq_is_open (eq_owner s) then min (eq_counter s) (eq_entries C)
                else eq_limit (eq_entries C) (eq_owner s))"

text \<open>An entry that was executed and is still to be cleared.\<close>

fun eq_stale :: "'f eq_owner \<Rightarrow> nat option" where
  "eq_stale (FlClear opn index todo) = Some index"
| "eq_stale _ = None"

fun eq_owner_ok :: "'f eq_config \<Rightarrow> 'f entry_queue \<Rightarrow> 'f eq_owner \<Rightarrow> bool" where
  "eq_owner_ok C s (FlSpin opn index todo) =
     (index < todo \<and> todo \<le> eq_entries C \<and> (opn \<longrightarrow> todo \<le> eq_counter s))"
| "eq_owner_ok C s (FlCall opn index todo f) =
     (index < todo \<and> todo \<le> eq_entries C \<and> (opn \<longrightarrow> todo \<le> eq_counter s) \<and> eq_fun s index = Some f)"
| "eq_owner_ok C s (FlClear opn index todo) =
     (index < todo \<and> todo \<le> eq_entries C \<and> (opn \<longrightarrow> todo \<le> eq_counter s))"
| "eq_owner_ok C s _ = True"

text \<open>
  An entry in use holds the pending operation \<open>e\<close>: published, with its parameters in the buffer, or
  being written by the one thread whose call was accepted with this index.
\<close>

fun eq_full ::
  "'f eq_config \<Rightarrow> 'f option \<Rightarrow> byte list \<Rightarrow> (tid \<Rightarrow> 'f eq_pc) \<Rightarrow> nat \<Rightarrow> 'f \<times> byte list list \<Rightarrow> bool"
where
  "eq_full C fi b pc i (f, ps) \<longleftrightarrow>
     (fi = Some f \<and> (\<exists>off. unroll (eq_sizes C f) b 0 [] = Some (ps, off)) \<and>
        (\<forall>t. eq_writing (pc t) \<noteq> Some i)) \<or>
     (fi = None \<and> (\<exists>t k b0. pc t = EqWrite f ps i k \<and> forwardall 0 (take k ps) b0 = Some b))"

definition eq_slots ::
  "'f eq_config \<Rightarrow> 'f entry_queue \<Rightarrow> nat \<Rightarrow> nat \<Rightarrow> nat option \<Rightarrow> ('f \<times> byte list list) list \<Rightarrow> bool"
where
  "eq_slots C s lo hi stale pend \<longleftrightarrow>
     lo \<le> hi \<and> hi \<le> eq_entries C \<and> length pend = hi - lo \<and>
     (\<forall>i. if lo \<le> i \<and> i < hi then eq_full C (eq_fun s i) (eq_buf s i) (eq_pc s) i (pend ! (i - lo))
          else eq_fun s i \<noteq> None \<longrightarrow> stale = Some i) \<and>
     (\<forall>t i. eq_writing (eq_pc s t) = Some i \<longrightarrow> lo \<le> i \<and> i < hi) \<and>
     (\<forall>t u i. eq_writing (eq_pc s t) = Some i \<longrightarrow> eq_writing (eq_pc s u) = Some i \<longrightarrow> t = u)"

definition eq_rel :: "'f eq_config \<Rightarrow> 'f entry_queue \<Rightarrow> ('f \<times> byte list list) tqueue \<Rightarrow> bool" where
  "eq_rel C s q \<longleftrightarrow>
     tq_open q = eq_is_open (eq_owner s) \<and> (\<not> tq_open q \<longrightarrow> eq_entries C \<le> eq_counter s) \<and>
     (\<forall>t. tq_calls q t = eq_call (eq_pc s t)) \<and> (\<forall>t. eq_pc_ok C (eq_pc s t)) \<and>
     (\<forall>i. length (eq_buf s i) = eq_buffer_size C) \<and> eq_owner_ok C s (eq_owner s) \<and>
     eq_slots C s (eq_lo (eq_owner s)) (eq_hi C s) (eq_stale (eq_owner s)) (tq_pend q)"

section \<open>Each step preserves the entries\<close>

lemma eq_full_pc:
  assumes "eq_writing (pc t) \<noteq> Some i" and "eq_writing p \<noteq> Some i"
  shows "eq_full C fi b (pc(t := p)) i e = eq_full C fi b pc i e"
proof (cases e)
  case (Pair f ps)
  have "(\<exists>u k b0. (pc(t := p)) u = EqWrite f ps i k \<and> forwardall 0 (take k ps) b0 = Some b) =
        (\<exists>u k b0. pc u = EqWrite f ps i k \<and> forwardall 0 (take k ps) b0 = Some b)"
  proof (intro iffI; elim exE conjE)
    fix u k b0
    assume a: "(pc(t := p)) u = EqWrite f ps i k" "forwardall 0 (take k ps) b0 = Some b"
    then have "u \<noteq> t" using assms(2) by auto
    with a show "\<exists>u k b0. pc u = EqWrite f ps i k \<and> forwardall 0 (take k ps) b0 = Some b" by auto
  next
    fix u k b0
    assume a: "pc u = EqWrite f ps i k" "forwardall 0 (take k ps) b0 = Some b"
    then have "u \<noteq> t" using assms(1) by auto
    with a show "\<exists>u k b0. (pc(t := p)) u = EqWrite f ps i k \<and> forwardall 0 (take k ps) b0 = Some b" by auto
  qed
  moreover have "(\<forall>u. eq_writing ((pc(t := p)) u) \<noteq> Some i) = (\<forall>u. eq_writing (pc u) \<noteq> Some i)"
    using assms by auto
  ultimately show ?thesis unfolding Pair eq_full.simps by simp
qed

lemma eq_slotsD:
  assumes "eq_slots C s lo hi stale pend"
  shows "lo \<le> hi" "hi \<le> eq_entries C" "length pend = hi - lo"
    and "lo \<le> i \<Longrightarrow> i < hi \<Longrightarrow> eq_full C (eq_fun s i) (eq_buf s i) (eq_pc s) i (pend ! (i - lo))"
    and "\<not> (lo \<le> i \<and> i < hi) \<Longrightarrow> eq_fun s i \<noteq> None \<Longrightarrow> stale = Some i"
    and "eq_writing (eq_pc s t) = Some i \<Longrightarrow> lo \<le> i \<and> i < hi"
    and "eq_writing (eq_pc s t) = Some i \<Longrightarrow> eq_writing (eq_pc s u) = Some i \<Longrightarrow> t = u"
  using assms unfolding eq_slots_def by (auto split: if_splits)

text \<open>The thread that writes an entry is the one whose operation the entry holds.\<close>

lemma eq_full_writer:
  assumes full: "eq_full C fi b pc i e" and pc: "pc t = EqWrite f ps i k"
    and only: "\<And>u. eq_writing (pc u) = Some i \<Longrightarrow> u = t"
  shows "e = (f, ps)" "fi = None" "\<exists>b0. forwardall 0 (take k ps) b0 = Some b"
proof -
  obtain g qs where e: "e = (g, qs)" by (cases e)
  have "eq_writing (pc t) = Some i" using pc by simp
  then obtain u k' b0 where u: "fi = None" "pc u = EqWrite g qs i k'" "forwardall 0 (take k' qs) b0 = Some b"
    using full unfolding e eq_full.simps by blast
  have "u = t" using only [of u] u(2) by simp
  then have "g = f" "qs = ps" "k' = k" using u(2) pc by auto
  then show "e = (f, ps)" "fi = None" "\<exists>b0. forwardall 0 (take k ps) b0 = Some b"
    using u e by auto
qed

lemma eq_slots_frame:
  assumes "eq_fun s' = eq_fun s" "eq_buf s' = eq_buf s" "eq_pc s' = eq_pc s"
  shows "eq_slots C s' = eq_slots C s"
  by (intro ext) (simp add: eq_slots_def assms)

lemma eq_slots_pc:
  assumes sl: "eq_slots C s lo hi stale pend"
    and w: "eq_writing (eq_pc s t) = None" "eq_writing p = None"
    and s': "eq_fun s' = eq_fun s" "eq_buf s' = eq_buf s" "eq_pc s' = (eq_pc s)(t := p)"
  shows "eq_slots C s' lo hi stale pend"
  unfolding eq_slots_def s'
  using eq_slotsD [OF sl] eq_full_pc [of "eq_pc s" t] w by auto

lemma eq_slots_fetch:
  assumes sl: "eq_slots C s lo hi stale pend" and hi: "hi < eq_entries C"
    and stale: "\<And>i. stale = Some i \<Longrightarrow> i < lo"
    and w: "eq_writing (eq_pc s t) = None"
    and s': "eq_fun s' = eq_fun s" "eq_buf s' = eq_buf s" "eq_pc s' = (eq_pc s)(t := EqWrite f ps hi 0)"
  shows "eq_slots C s' lo (hi + 1) stale (pend @ [(f, ps)])"
proof -
  note D = eq_slotsD [OF sl]
  have free: "eq_writing (eq_pc s u) \<noteq> Some hi" for u using D(6) [of u hi] by auto
  have none: "eq_fun s hi = None" using D(1) D(5) [of hi] stale [of hi] by fastforce
  have new: "eq_full C (eq_fun s hi) (eq_buf s hi) ((eq_pc s)(t := EqWrite f ps hi 0)) hi (f, ps)"
    unfolding eq_full.simps none by (metis forwardall.simps(1) fun_upd_same take0)
  have old: "eq_full C (eq_fun s i) (eq_buf s i) ((eq_pc s)(t := EqWrite f ps hi 0)) i (pend ! (i - lo))"
    if "lo \<le> i" "i < hi" for i
    using D(4) [OF that] eq_full_pc [of "eq_pc s" t i] w that by simp
  have "if lo \<le> i \<and> i < hi + 1
        then eq_full C (eq_fun s i) (eq_buf s i) ((eq_pc s)(t := EqWrite f ps hi 0)) i ((pend @ [(f, ps)]) ! (i - lo))
        else eq_fun s i \<noteq> None \<longrightarrow> stale = Some i" for i
  proof (cases "i = hi")
    case True then show ?thesis using new D(1,3) by (simp add: nth_append)
  next
    case False then show ?thesis using old [of i] D(3) D(5) [of i] by (auto simp: nth_append)
  qed
  then show ?thesis
    unfolding eq_slots_def s' using D(1-3) D(6,7) hi free by (auto simp: less_Suc_eq)
qed

lemma eq_slots_write:
  assumes sl: "eq_slots C s lo hi stale pend"
    and pc: "eq_pc s t = EqWrite f ps idx k" and k: "k < length ps"
    and b: "write_bytes (sumsizes (map length (take k ps))) (ps ! k) (eq_buf s idx) = Some b"
    and s': "eq_fun s' = eq_fun s" "eq_buf s' = (eq_buf s)(idx := b)"
      "eq_pc s' = (eq_pc s)(t := EqWrite f ps idx (k + 1))"
  shows "eq_slots C s' lo hi stale pend"
proof -
  note D = eq_slotsD [OF sl]
  have idx: "lo \<le> idx" "idx < hi" using D(6) [of t idx] pc by auto
  note writer = eq_full_writer [OF D(4) [OF idx] pc D(7)]
  have e: "pend ! (idx - lo) = (f, ps)" and none: "eq_fun s idx = None"
    and "\<exists>b0. forwardall 0 (take k ps) b0 = Some (eq_buf s idx)"
    by (rule writer; simp add: pc)+
  then obtain b0 where "forwardall 0 (take k ps) b0 = Some (eq_buf s idx)" by blast
  then have "forwardall 0 (take (k + 1) ps) b0 = Some b"
    using b k by (simp add: take_Suc_conv_app_nth forwardall_snoc)
  then have here: "eq_full C (eq_fun s' idx) (eq_buf s' idx) (eq_pc s') idx (pend ! (idx - lo))"
    unfolding e eq_full.simps s' none by auto
  have other: "eq_full C (eq_fun s' i) (eq_buf s' i) (eq_pc s') i (pend ! (i - lo))"
    if "lo \<le> i" "i < hi" "i \<noteq> idx" for i
    using D(4) [OF that(1,2)] eq_full_pc [of "eq_pc s" t i] pc that(3) by (simp add: s')
  have w: "eq_writing (eq_pc s' u) = eq_writing (eq_pc s u)" for u by (simp add: s' pc)
  show ?thesis
    unfolding eq_slots_def w using D(1-3,5-7) here other by (metis s'(1))
qed

lemma eq_slots_publish:
  assumes sl: "eq_slots C s lo hi stale pend"
    and pc: "eq_pc s t = EqWrite f ps idx (length ps)" and fits: "eq_fits C f ps"
    and s': "eq_fun s' = (eq_fun s)(idx := Some f)" "eq_buf s' = eq_buf s"
      "eq_pc s' = (eq_pc s)(t := EqIdle)"
  shows "eq_slots C s' lo hi stale pend"
proof -
  note D = eq_slotsD [OF sl]
  have idx: "lo \<le> idx" "idx < hi" using D(6) [of t idx] pc by auto
  have w: "eq_writing (eq_pc s' u) = (if u = t then None else eq_writing (eq_pc s u))" for u
    by (simp add: s')
  have e: "pend ! (idx - lo) = (f, ps)" and "\<exists>b0. forwardall 0 (take (length ps) ps) b0 = Some (eq_buf s idx)"
    by (rule eq_full_writer [OF D(4) [OF idx] pc D(7)]; simp add: pc)+
  then obtain b0 where "forwardall 0 ps b0 = Some (eq_buf s idx)" by auto
  then have "unroll (eq_sizes C f) (eq_buf s idx) 0 [] = Some (ps, 0 + sumsizes (map length ps))"
    using unroll_forwardall [of 0 ps b0 "eq_buf s idx" "[]"] fits by (simp add: eq_fits_def)
  moreover have "\<forall>u. eq_writing (eq_pc s' u) \<noteq> Some idx"
    using D(7) [of _ idx t] pc by (auto simp: w)
  ultimately have here: "eq_full C (eq_fun s' idx) (eq_buf s' idx) (eq_pc s') idx (pend ! (idx - lo))"
    unfolding e eq_full.simps by (simp add: s')
  have other: "eq_full C (eq_fun s' i) (eq_buf s' i) (eq_pc s') i (pend ! (i - lo))"
    if "lo \<le> i" "i < hi" "i \<noteq> idx" for i
    using D(4) [OF that(1,2)] eq_full_pc [of "eq_pc s" t i] pc that(3) by (simp add: s')
  have out: "eq_fun s' i \<noteq> None \<Longrightarrow> stale = Some i" if "\<not> (lo \<le> i \<and> i < hi)" for i
    using D(5) [OF that] idx that by (auto simp: s' split: if_splits)
  have all: "eq_full C (eq_fun s' i) (eq_buf s' i) (eq_pc s') i (pend ! (i - lo))"
    if "lo \<le> i" "i < hi" for i
    using here other that by (cases "i = idx") auto
  show ?thesis
    unfolding eq_slots_def w using D(1-3) D(6,7) all out by (auto split: if_splits)
qed

lemma eq_slots_exec:
  assumes sl: "eq_slots C s lo hi stale pend" and lo: "lo < hi" and f: "eq_fun s lo = Some f"
    and stale: "stale = None"
  shows "\<exists>ps off xs. pend = (f, ps) # xs \<and> unroll (eq_sizes C f) (eq_buf s lo) 0 [] = Some (ps, off) \<and>
           eq_slots C s (lo + 1) hi (Some lo) xs"
proof -
  note D = eq_slotsD [OF sl]
  obtain g ps xs where pend: "pend = (g, ps) # xs" using D(3) lo by (cases pend) auto
  then have full: "eq_full C (eq_fun s lo) (eq_buf s lo) (eq_pc s) lo (g, ps)" using D(4) [of lo] lo by simp
  then obtain off where g: "g = f" "unroll (eq_sizes C f) (eq_buf s lo) 0 [] = Some (ps, off)"
      and nw: "\<And>t. eq_writing (eq_pc s t) \<noteq> Some lo"
    using f by auto
  have "eq_slots C s (lo + 1) hi (Some lo) xs"
    unfolding eq_slots_def
  proof (intro conjI allI impI)
    fix i
    show "if lo + 1 \<le> i \<and> i < hi then eq_full C (eq_fun s i) (eq_buf s i) (eq_pc s) i (xs ! (i - (lo + 1)))
      else eq_fun s i \<noteq> None \<longrightarrow> Some lo = Some i"
    proof (cases "lo + 1 \<le> i \<and> i < hi")
      case True
      then have "i - lo = Suc (i - (lo + 1))" by auto
      then have "pend ! (i - lo) = xs ! (i - (lo + 1))" using pend by simp
      then show ?thesis using D(4) [of i] True by auto
    next
      case False
      then show ?thesis using D(5) [of i] stale by force
    qed
  next
    fix t i assume "eq_writing (eq_pc s t) = Some i"
    then show "lo + 1 \<le> i" using D(6) [of t i] nw [of t] by (cases "i = lo") auto
  qed (use D(1-3,6,7) pend lo in auto)
  then show ?thesis using pend g by auto
qed

lemma eq_slots_clear:
  assumes sl: "eq_slots C s lo hi (Some j) pend" and j: "j < lo"
    and s': "eq_fun s' = (eq_fun s)(j := None)" "eq_buf s' = eq_buf s" "eq_pc s' = eq_pc s"
  shows "eq_slots C s' lo hi None pend"
proof -
  note D = eq_slotsD [OF sl]
  have "eq_fun s i = None" if "\<not> (lo \<le> i \<and> i < hi)" "i \<noteq> j" for i
    using D(5) [OF that(1)] that(2) by force
  then show ?thesis unfolding eq_slots_def s' using D(1-4,6,7) j by auto
qed

lemma eq_slots_empty:
  assumes sl: "eq_slots C s lo lo None pend" and le: "lo' \<le> eq_entries C"
    and s': "eq_fun s' = eq_fun s" "eq_buf s' = eq_buf s" "eq_pc s' = eq_pc s"
  shows "eq_slots C s' lo' lo' None []"
proof -
  note D = eq_slotsD [OF sl]
  have "eq_fun s i = None" for i using D(5) [of i] by fastforce
  moreover have "eq_writing (eq_pc s t) \<noteq> Some i" for t i using D(6) [of t i] by auto
  ultimately show ?thesis using le unfolding eq_slots_def s' by auto
qed

section \<open>The simulation\<close>

lemma eq_relD:
  assumes "eq_rel C s q"
  shows "tq_open q = eq_is_open (eq_owner s)" "\<not> tq_open q \<Longrightarrow> eq_entries C \<le> eq_counter s"
    and "tq_calls q t = eq_call (eq_pc s t)" "eq_pc_ok C (eq_pc s t)"
    and "length (eq_buf s i) = eq_buffer_size C" "eq_owner_ok C s (eq_owner s)"
    and "eq_slots C s (eq_lo (eq_owner s)) (eq_hi C s) (eq_stale (eq_owner s)) (tq_pend q)"
  using assms by (auto simp: eq_rel_def)

lemma eq_sim_init: "eq_zeroed C M \<Longrightarrow> eq_rel C (eq_init C M) tq_init"
  by (auto simp: eq_zeroed_def eq_rel_def eq_init_def tq_init_def eq_slots_def eq_hi_def)

lemma eq_sim_goto:
  assumes rel: "eq_rel C s q" and w: "eq_writing (eq_pc s t) = None" "eq_writing p = None"
    and ok: "eq_pc_ok C p" and q': "q' = q\<lparr>tq_calls := (tq_calls q)(t := eq_call p)\<rparr>"
  shows "eq_rel C (eq_goto t p s) q'"
proof -
  note D = eq_relD [OF rel]
  have "eq_slots C (eq_goto t p s) (eq_lo (eq_owner s)) (eq_hi C s) (eq_stale (eq_owner s)) (tq_pend q)"
    by (rule eq_slots_pc [OF D(7) w]) (auto simp: eq_goto_def)
  moreover have "eq_owner_ok C (eq_goto t p s) (eq_owner s)"
    using D(6) by (cases "eq_owner s") (auto simp: eq_goto_def)
  ultimately show ?thesis using D(1-5) ok q' by (auto simp: eq_rel_def eq_goto_def eq_hi_def)
qed

lemma eq_sim_fetch:
  assumes rel: "eq_rel C s q" and pc: "eq_pc s t = EqFetch f ps" and st: "eq_enqueue C t s = Some s'"
  shows "\<exists>q'. run tq_step (eq_events C s (QGo t)) q = Some q' \<and> eq_rel C s' q'"
proof (cases "eq_counter s < eq_entries C")
  case True
  note D = eq_relD [OF rel]
  have opn: "eq_is_open (eq_owner s)" "tq_open q" using D(1,2) True by auto
  have s': "s' = eq_goto t (EqWrite f ps (eq_counter s) 0) (s\<lparr>eq_counter := eq_counter s + 1\<rparr>)"
    using st True by (simp add: eq_enqueue_def pc Let_def)
  have hi: "eq_hi C s = eq_counter s" "eq_hi C s' = eq_counter s + 1"
    using True opn by (auto simp: eq_hi_def s' eq_goto_def)
  let ?q = "q\<lparr>tq_pend := tq_pend q @ [(f, ps)], tq_calls := (tq_calls q)(t := TqAccepted (f, ps))\<rparr>"
  have "eq_slots C s' (eq_lo (eq_owner s)) (eq_counter s + 1) (eq_stale (eq_owner s)) (tq_pend q @ [(f, ps)])"
  proof (rule eq_slots_fetch)
    show "eq_slots C s (eq_lo (eq_owner s)) (eq_counter s) (eq_stale (eq_owner s)) (tq_pend q)"
      using D(7) by (simp add: hi)
    show "\<And>i. eq_stale (eq_owner s) = Some i \<Longrightarrow> i < eq_lo (eq_owner s)"
      by (cases "eq_owner s") auto
  qed (use True pc in \<open>auto simp: s' eq_goto_def\<close>)
  moreover have "eq_owner_ok C s' (eq_owner s')"
    using D(6) by (cases "eq_owner s") (auto simp: s' eq_goto_def)
  ultimately have "eq_rel C s' ?q"
    using D(1,3,4,5) D(4) [of t] True opn hi by (auto simp: eq_rel_def s' eq_goto_def pc)
  moreover have "run tq_step (eq_events C s (QGo t)) q = Some ?q"
    using True opn D(3) [of t] by (simp add: pc)
  ultimately show ?thesis by blast
next
  case False
  note D = eq_relD [OF rel]
  let ?s = "s\<lparr>eq_counter := eq_counter s + 1\<rparr>"
  have s': "s' = eq_goto t EqIdle ?s" using st False by (simp add: eq_enqueue_def pc Let_def)
  have "eq_hi C ?s = eq_hi C s" using False by (auto simp: eq_hi_def)
  moreover have "eq_owner_ok C ?s (eq_owner ?s)" using D(6) by (cases "eq_owner s") auto
  ultimately have "eq_rel C ?s q"
    using rel eq_slots_frame [of ?s s C] by (auto simp: eq_rel_def)
  then have "eq_rel C s' (q\<lparr>tq_calls := (tq_calls q)(t := TqNone)\<rparr>)"
    unfolding s' by (rule eq_sim_goto) (simp_all add: pc)
  then show ?thesis using False D(3) [of t] by (simp add: pc)
qed

lemma eq_sim_write:
  assumes rel: "eq_rel C s q" and pc: "eq_pc s t = EqWrite f ps idx k" and st: "eq_enqueue C t s = Some s'"
  shows "\<exists>q'. run tq_step (eq_events C s (QGo t)) q = Some q' \<and> eq_rel C s' q'"
proof (cases "k < length ps")
  case True
  note D = eq_relD [OF rel]
  obtain b where b: "write_bytes (sumsizes (map length (take k ps))) (ps ! k) (eq_buf s idx) = Some b"
    and s': "s' = eq_goto t (EqWrite f ps idx (k + 1)) (s\<lparr>eq_buf := (eq_buf s)(idx := b)\<rparr>)"
    using st True by (auto simp: eq_enqueue_def pc split: if_splits option.splits)
  have "eq_slots C s' (eq_lo (eq_owner s)) (eq_hi C s) (eq_stale (eq_owner s)) (tq_pend q)"
    by (rule eq_slots_write [OF D(7) pc True b]) (auto simp: s' eq_goto_def)
  moreover have "eq_owner_ok C s' (eq_owner s)"
    using D(6) by (cases "eq_owner s") (auto simp: s' eq_goto_def)
  ultimately have "eq_rel C s' q"
    using D(1-5) D(3) [of t] D(4) [of t] D(5) [of idx] write_bytes_length [OF b] True
    by (auto simp: eq_rel_def s' eq_goto_def eq_hi_def pc)
  then show ?thesis using True by (simp add: pc)
next
  case False
  note D = eq_relD [OF rel]
  have k: "k = length ps" and fits: "eq_fits C f ps" using False D(4) [of t] by (auto simp: pc)
  have s': "s' = eq_goto t EqIdle (s\<lparr>eq_fun := (eq_fun s)(idx := Some f)\<rparr>)"
    using st False by (auto simp: eq_enqueue_def pc split: if_splits)
  have idx: "eq_lo (eq_owner s) \<le> idx" using eq_slotsD(6) [OF D(7), of t idx] pc by simp
  have "eq_slots C s' (eq_lo (eq_owner s)) (eq_hi C s) (eq_stale (eq_owner s)) (tq_pend q)"
    by (rule eq_slots_publish [OF D(7) pc [unfolded k] fits]) (auto simp: s' eq_goto_def)
  moreover have "eq_owner_ok C s' (eq_owner s)"
  proof -
    have "eq_fun s idx = None"
      using eq_full_writer(2) [OF eq_slotsD(4) [OF D(7)] pc eq_slotsD(7) [OF D(7)]]
        eq_slotsD(6) [OF D(7), of t idx] pc by auto
    then show ?thesis using D(6) by (cases "eq_owner s") (auto simp: s' eq_goto_def)
  qed
  ultimately have "eq_rel C s' (q\<lparr>tq_calls := (tq_calls q)(t := TqNone)\<rparr>)"
    using D(1-5) by (auto simp: eq_rel_def s' eq_goto_def eq_hi_def)
  then show ?thesis using False D(3) [of t] by (simp add: pc)
qed

lemma eq_sim_thread:
  assumes rel: "eq_rel C s q" and st: "eq_enqueue C t s = Some s'"
  shows "\<exists>q'. run tq_step (eq_events C s (QGo t)) q = Some q' \<and> eq_rel C s' q'"
proof (cases "eq_pc s t")
  case EqIdle
  then show ?thesis using st by (simp add: eq_enqueue_def)
next
  case (EqEnter f ps)
  note D = eq_relD [OF rel]
  have "eq_rel C s' (q\<lparr>tq_calls := (tq_calls q)(t := eq_call (eq_pc s' t))\<rparr>)"
    using st D(4) [of t] by (auto simp: eq_enqueue_def EqEnter eq_goto_def [symmetric]
        intro!: eq_sim_goto [OF rel] split: if_splits) (auto simp: eq_goto_def)
  moreover have "(tq_calls q)(t := TqCalled (f, ps)) = tq_calls q"
    using D(3) [of t] EqEnter by auto
  ultimately show ?thesis using st D(3) [of t]
    by (auto simp: eq_enqueue_def EqEnter eq_goto_def split: if_splits)
next
  case (EqFetch f ps)
  then show ?thesis by (rule eq_sim_fetch [OF rel _ st])
next
  case (EqWrite f ps idx k)
  then show ?thesis by (rule eq_sim_write [OF rel _ st])
qed

text \<open>A step of the owner that leaves the entries as they are.\<close>

lemma eq_sim_owner:
  assumes rel: "eq_rel C s q"
    and same: "eq_fun s' = eq_fun s" "eq_buf s' = eq_buf s" "eq_pc s' = eq_pc s"
    and q': "q' = q\<lparr>tq_open := eq_is_open (eq_owner s')\<rparr>"
    and closed: "\<not> eq_is_open (eq_owner s') \<Longrightarrow> eq_entries C \<le> eq_counter s'"
    and ok: "eq_owner_ok C s' (eq_owner s')"
    and slots: "eq_slots C s (eq_lo (eq_owner s')) (eq_hi C s') (eq_stale (eq_owner s')) (tq_pend q)"
  shows "eq_rel C s' q'"
  using eq_relD [OF rel] q' closed ok slots eq_slots_frame [OF same]
  by (auto simp: eq_rel_def same)

lemma eq_open_id: "tq_open q = b \<Longrightarrow> q = q\<lparr>tq_open := b\<rparr>"
  by simp

text \<open>What the loops of \<open>flush\<close> go on with.\<close>

lemma eq_for_ok:
  assumes sl: "eq_slots C s i H None pend" and le: "i \<le> todo" "todo \<le> eq_entries C"
    and H: "if opn then H = min (eq_counter s) (eq_entries C) \<and> todo \<le> eq_counter s else H = todo"
    and s': "eq_counter s' = eq_counter s" "eq_owner s' = eq_for opn i todo"
  shows "eq_is_open (eq_owner s') = opn" "eq_owner_ok C s' (eq_owner s')"
    and "eq_slots C s (eq_lo (eq_owner s')) (eq_hi C s') (eq_stale (eq_owner s')) pend"
proof -
  have "eq_slots C s 0 0 None pend" if "i = H"
    using eq_slots_empty [of C s i pend 0 s] sl that eq_slotsD(3) [OF sl] by simp
  then show "eq_slots C s (eq_lo (eq_owner s')) (eq_hi C s') (eq_stale (eq_owner s')) pend"
    using sl le H by (auto simp: eq_for_def s' eq_hi_def split: if_splits)
  show "eq_is_open (eq_owner s') = opn" "eq_owner_ok C s' (eq_owner s')"
    using le H by (auto simp: eq_for_def s' split: if_splits)
qed

lemma eq_sim_load:
  assumes rel: "eq_rel C s q" and ow: "eq_owner s = FlLoad d" and st: "eq_flush C s = Some s'"
  shows "\<exists>q'. run tq_step (eq_events C s QOwner) q = Some q' \<and> eq_rel C s' q'"
proof -
  note D = eq_relD [OF rel]
  have opn: "tq_open q" using D(1) by (simp add: ow)
  have sl: "eq_slots C s d (min (eq_counter s) (eq_entries C)) None (tq_pend q)"
    using D(7) by (simp add: ow eq_hi_def)
  then have d: "d \<le> eq_counter s" using eq_slotsD(1) by fastforce
  consider "eq_counter s = d" | "eq_counter s \<noteq> d" "eq_entries C \<le> eq_counter s"
    | "eq_counter s \<noteq> d" "\<not> eq_entries C \<le> eq_counter s" by blast
  then show ?thesis
  proof cases
    case 1
    then have s': "s' = s\<lparr>eq_owner := FlXchg d\<rparr>" using st by (simp add: eq_flush_def ow)
    have "eq_rel C s' q"
      by (rule eq_sim_owner [OF rel _ _ _ eq_open_id]) (use sl opn in \<open>auto simp: s' eq_hi_def\<close>)
    then show ?thesis using 1 by (simp add: ow)
  next
    case 2
    then have s': "s' = s\<lparr>eq_owner := FlClose2 d\<rparr>" using st by (simp add: eq_flush_def ow)
    have "eq_rel C s' (q\<lparr>tq_open := False\<rparr>)"
      by (rule eq_sim_owner [OF rel]) (use sl 2 in \<open>auto simp: s' eq_hi_def min_def split: if_splits\<close>)
    then show ?thesis using 2 opn by (simp add: ow)
  next
    case 3
    then have s': "s' = s\<lparr>eq_owner := eq_for True d (eq_counter s)\<rparr>" using st by (simp add: eq_flush_def ow)
    note F = eq_for_ok [OF sl, of "eq_counter s" True s']
    have "eq_rel C s' q"
      by (rule eq_sim_owner [OF rel _ _ _ eq_open_id]) (use d 3 opn F in \<open>auto simp: s'\<close>)
    then show ?thesis using 3 by (simp add: ow)
  qed
qed

lemma eq_sim_close:
  assumes rel: "eq_rel C s q" and st: "eq_flush C s = Some s'"
    and ow: "eq_owner s = FlXchg d \<or> eq_owner s = FlClose1 d todo \<or> eq_owner s = FlClose2 d"
  shows "\<exists>q'. run tq_step (eq_events C s QOwner) q = Some q' \<and> eq_rel C s' q'"
  using ow
proof (elim disjE)
  note D = eq_relD [OF rel]
  assume ow: "eq_owner s = FlXchg d"
  have s': "s' = s\<lparr>eq_counter := eq_entries C, eq_owner := FlClose1 d (eq_counter s)\<rparr>"
    using st by (simp add: eq_flush_def ow)
  have "eq_rel C s' (q\<lparr>tq_open := False\<rparr>)"
    by (rule eq_sim_owner [OF rel]) (use D(7) in \<open>auto simp: s' eq_hi_def ow\<close>)
  then show ?thesis using D(1) by (simp add: ow)
next
  note D = eq_relD [OF rel]
  assume ow: "eq_owner s = FlClose1 d todo"
  have sl: "eq_slots C s d (min todo (eq_entries C)) None (tq_pend q)" using D(7) by (simp add: ow eq_hi_def)
  have "eq_rel C s' q"
  proof (cases "eq_entries C \<le> todo")
    case True
    then have s': "s' = s\<lparr>eq_closed := CLOSED, eq_owner := FlClose2 d\<rparr>" using st by (simp add: eq_flush_def ow)
    show ?thesis
      by (rule eq_sim_owner [OF rel _ _ _ eq_open_id])
        (use True D(1,2) sl in \<open>auto simp: s' eq_hi_def ow min_absorb2\<close>)
  next
    case False
    then have s': "s' = s\<lparr>eq_closed := CLOSED, eq_owner := eq_for False d todo\<rparr>"
      using st by (simp add: eq_flush_def ow)
    have "d \<le> todo" using eq_slotsD(1) [OF sl] by simp
    note F = eq_for_ok [OF sl this, of False s']
    show ?thesis
      by (rule eq_sim_owner [OF rel _ _ _ eq_open_id]) (use False D(1,2) F in \<open>auto simp: s' ow\<close>)
  qed
  then show ?thesis by (simp add: ow)
next
  note D = eq_relD [OF rel]
  assume ow: "eq_owner s = FlClose2 d"
  have s': "s' = s\<lparr>eq_closed := CLOSED, eq_owner := eq_for False d (eq_entries C)\<rparr>"
    using st by (simp add: eq_flush_def ow)
  have sl: "eq_slots C s d (eq_entries C) None (tq_pend q)" using D(7) by (simp add: ow eq_hi_def)
  note F = eq_for_ok [OF sl eq_slotsD(1) [OF sl], of False s']
  have "eq_rel C s' q"
    by (rule eq_sim_owner [OF rel _ _ _ eq_open_id]) (use D(1,2) F in \<open>auto simp: s' ow\<close>)
  then show ?thesis by (simp add: ow)
qed

lemma eq_sim_call:
  assumes rel: "eq_rel C s q" and ow: "eq_owner s = FlCall opn i todo f" and st: "eq_flush C s = Some s'"
  shows "\<exists>q'. run tq_step (eq_events C s QOwner) q = Some q' \<and> eq_rel C s' q'"
proof -
  note D = eq_relD [OF rel]
  have ok: "i < todo" "todo \<le> eq_entries C" "opn \<Longrightarrow> todo \<le> eq_counter s" "eq_fun s i = Some f"
    using D(6) by (simp_all add: ow)
  have sl: "eq_slots C s i (eq_hi C s) None (tq_pend q)" using D(7) by (simp add: ow)
  have "i < eq_hi C s" using ok by (auto simp: eq_hi_def ow)
  then obtain ps off xs where x: "tq_pend q = (f, ps) # xs"
      "unroll (eq_sizes C f) (eq_buf s i) 0 [] = Some (ps, off)"
      "eq_slots C s (i + 1) (eq_hi C s) (Some i) xs"
    using eq_slots_exec [OF sl _ ok(4)] by blast
  have s': "s' = s\<lparr>eq_owner := FlClear opn i todo\<rparr>" using st x(2) by (simp add: eq_flush_def ow)
  have hi: "eq_hi C s' = eq_hi C s" by (simp add: s' eq_hi_def ow)
  have "eq_slots C s' (i + 1) (eq_hi C s) (Some i) xs" using x(3) eq_slots_frame [of s' s C] by (simp add: s')
  then have "eq_rel C s' (q\<lparr>tq_pend := xs\<rparr>)"
    using D(1-5) ok hi by (auto simp: eq_rel_def s' ow)
  then show ?thesis using x by (simp add: ow)
qed

lemma eq_sim_clear:
  assumes rel: "eq_rel C s q" and ow: "eq_owner s = FlClear opn i todo" and st: "eq_flush C s = Some s'"
  shows "\<exists>q'. run tq_step (eq_events C s QOwner) q = Some q' \<and> eq_rel C s' q'"
proof -
  note D = eq_relD [OF rel]
  have ok: "i < todo" "todo \<le> eq_entries C" "opn \<Longrightarrow> todo \<le> eq_counter s"
    using D(6) by (simp_all add: ow)
  let ?s = "s\<lparr>eq_fun := (eq_fun s)(i := None)\<rparr>"
  have s': "s' = s\<lparr>eq_fun := (eq_fun s)(i := None), eq_owner := eq_for opn (i + 1) todo\<rparr>"
    using st by (simp add: eq_flush_def ow)
  have sl: "eq_slots C ?s (i + 1) (eq_hi C s) None (tq_pend q)"
    by (rule eq_slots_clear [of C s "i + 1" _ i]) (use D(7) in \<open>auto simp: ow\<close>)
  have F: "eq_is_open (eq_owner s') = opn" "eq_owner_ok C s' (eq_owner s')"
    "eq_slots C ?s (eq_lo (eq_owner s')) (eq_hi C s') (eq_stale (eq_owner s')) (tq_pend q)"
    using eq_for_ok [OF sl, of todo opn s'] ok by (auto simp: s' ow eq_hi_def split: if_splits)
  have "eq_slots C s' = eq_slots C ?s" by (rule eq_slots_frame) (auto simp: s')
  then have "eq_rel C s' q"
    using D(1-5) F by (auto simp: eq_rel_def s' ow)
  then show ?thesis by (simp add: ow)
qed

lemma eq_sim_flush:
  assumes rel: "eq_rel C s q" and st: "eq_flush C s = Some s'"
  shows "\<exists>q'. run tq_step (eq_events C s QOwner) q = Some q' \<and> eq_rel C s' q'"
proof -
  note D = eq_relD [OF rel]
  show ?thesis
  proof (cases "eq_owner s")
    case (FlSpin opn i todo)
    have "eq_rel C s' q"
    proof (cases "eq_fun s i")
      case None
      then show ?thesis using st rel by (auto simp: eq_flush_def FlSpin split: if_splits)
    next
      case (Some f)
      then have s': "s' = s\<lparr>eq_owner := FlCall opn i todo f\<rparr>"
        using st by (auto simp: eq_flush_def FlSpin split: if_splits)
      show ?thesis
        by (rule eq_sim_owner [OF rel _ _ _ eq_open_id])
          (use D(1,2,6,7) Some in \<open>auto simp: s' FlSpin eq_hi_def\<close>)
    qed
    then show ?thesis by (simp add: FlSpin)
  next
    case FlRet
    have s': "s' = s\<lparr>eq_owner := OwClosed\<rparr>" using st by (simp add: eq_flush_def FlRet)
    have "tq_pend q = []" using eq_slotsD(3) [OF D(7)] by (simp add: FlRet eq_hi_def)
    moreover have "eq_rel C s' q"
      by (rule eq_sim_owner [OF rel _ _ _ eq_open_id]) (use D(1,2,7) in \<open>auto simp: s' FlRet eq_hi_def\<close>)
    ultimately show ?thesis using D(1) by (simp add: FlRet)
  next
    case (FlXchg d)
    then show ?thesis using eq_sim_close [OF rel st] by blast
  next
    case (FlClose1 d todo)
    then show ?thesis using eq_sim_close [OF rel st] by blast
  next
    case (FlClose2 d)
    then show ?thesis using eq_sim_close [OF rel st] by blast
  next
    case (FlLoad d)
    then show ?thesis by (rule eq_sim_load [OF rel _ st])
  next
    case (FlCall opn i todo f)
    then show ?thesis by (rule eq_sim_call [OF rel _ st])
  next
    case (FlClear opn i todo)
    then show ?thesis by (rule eq_sim_clear [OF rel _ st])
  qed (use st in \<open>simp_all add: eq_flush_def\<close>)
qed

lemma eq_sim_step:
  assumes rel: "eq_rel C s q" and st: "eq_step C l s = Some s'"
  shows "\<exists>q'. run tq_step (eq_events C s l) q = Some q' \<and> eq_rel C s' q'"
proof (cases l)
  note D = eq_relD [OF rel]
  case (QCall t f ps)
  then have s': "s' = eq_goto t (EqEnter f ps) s" and pc: "eq_pc s t = EqIdle" "eq_fits C f ps"
    using st by (auto split: if_splits)
  have "eq_rel C s' (q\<lparr>tq_calls := (tq_calls q)(t := TqCalled (f, ps))\<rparr>)"
    unfolding s' by (rule eq_sim_goto [OF rel]) (simp_all add: pc)
  then show ?thesis using D(3) [of t] by (simp add: QCall pc)
next
  case (QGo t)
  then show ?thesis using eq_sim_thread [OF rel] st by simp
next
  note D = eq_relD [OF rel]
  case QOpen
  then have s': "s' = s\<lparr>eq_counter := 0, eq_owner := OwOpening\<rparr>" and ow: "eq_owner s = OwClosed"
    using st by (auto simp: eq_open_def split: if_splits)
  have "tq_pend q = []" using eq_slotsD(3) [OF D(7)] by (simp add: ow eq_hi_def)
  moreover have "eq_rel C s' (q\<lparr>tq_open := True\<rparr>)"
    by (rule eq_sim_owner [OF rel]) (use D(7) in \<open>auto simp: s' ow eq_hi_def\<close>)
  ultimately show ?thesis using D(1) by (simp add: QOpen ow)
next
  note D = eq_relD [OF rel]
  case QFlush
  then have s': "s' = s\<lparr>eq_owner := FlLoad 0\<rparr>" and ow: "eq_owner s = OwOpened"
    using st by (auto split: if_splits)
  have "eq_rel C s' q"
    by (rule eq_sim_owner [OF rel _ _ _ eq_open_id]) (use D(1,7) in \<open>auto simp: s' ow eq_hi_def\<close>)
  then show ?thesis by (simp add: QFlush)
next
  note D = eq_relD [OF rel]
  case QOwner
  show ?thesis
  proof (cases "eq_owner s = OwOpening")
    case True
    then have s': "s' = s\<lparr>eq_closed := OPEN, eq_owner := OwOpened\<rparr>"
      using st QOwner by (simp add: eq_open_def)
    have "eq_rel C s' q"
      by (rule eq_sim_owner [OF rel _ _ _ eq_open_id]) (use D(1,7) True in \<open>auto simp: s' eq_hi_def\<close>)
    then show ?thesis by (simp add: QOwner True)
  next
    case False
    then show ?thesis using eq_sim_flush [OF rel] st QOwner by (auto split: if_splits)
  qed
qed

lemma entry_tantrum_queue: "eq_zeroed C M \<Longrightarrow> tantrum_queue (eq_step C) (eq_init C M) (eq_rel C) (eq_events C)"
  by unfold_locales (auto intro: eq_sim_init eq_sim_step)

interpretation entry: tantrum_queue "eq_step C" "eq_static_init C" "eq_rel C" "eq_events C"
  for C :: "'f eq_config"
  by (rule entry_tantrum_queue [OF eq_static_zeroed])

section \<open>Properties\<close>

text \<open>
  C19. The entry queue is a tantrum queue: when it is constructed in memory whose function pointers
  are null (the constructor does not set them), every interleaving of any number of \<open>enqueue\<close> calls with
  the owner's \<open>open\<close> and \<open>flush\<close> is a run of the abstract queue, in which a call that returns \<open>SUCCESS\<close>
  has stored its operation in one atomic step while the queue was open and one that returns \<open>FULL\<close> or
  \<open>CLOSED\<close> has not; the executed operations, with their parameters as they come out of the buffers,
  are a prefix of the accepted ones in the order of acceptance, and all of them once the owner has
  returned from \<open>flush\<close>.
\<close>
theorem entry_queue_correct:
  assumes zero: "eq_zeroed C M" and r: "run (eq_step C) ls (eq_init C M) = Some s"
  shows "\<exists>q. run tq_step (trace (eq_step C) (eq_events C) ls (eq_init C M)) tq_init = Some q \<and>
    tq_open q = eq_is_open (eq_owner s) \<and> (\<forall>t. tq_calls q t = eq_call (eq_pc s t)) \<and>
    accepted (trace (eq_step C) (eq_events C) ls (eq_init C M)) =
      executed (trace (eq_step C) (eq_events C) ls (eq_init C M)) @ tq_pend q \<and>
    (eq_owner s = OwClosed \<longrightarrow> tq_pend q = [])"
proof -
  obtain q where q: "run tq_step (trace (eq_step C) (eq_events C) ls (eq_init C M)) tq_init = Some q"
    "eq_rel C s q"
    "accepted (trace (eq_step C) (eq_events C) ls (eq_init C M)) =
       executed (trace (eq_step C) (eq_events C) ls (eq_init C M)) @ tq_pend q"
    using tantrum_queue.linearizable [OF entry_tantrum_queue [OF zero] r] by blast
  have "eq_owner s = OwClosed \<Longrightarrow> tq_pend q = []"
    using eq_slotsD(3) [OF eq_relD(7) [OF q(2)]] by (simp add: eq_hi_def)
  then show ?thesis using q eq_relD(1,3) [OF q(2)] by blast
qed

definition eq_demo :: "nat eq_config" where
  "eq_demo = \<lparr>eq_entries = 1, eq_buffer_size = 2, eq_sizes = (\<lambda>f. [1, 1])\<rparr>"

text \<open>
  Two threads pass the test of \<open>closed\<close>, one gets the only entry, the other \<open>FULL\<close>; \<open>flush\<close> reads the
  counter as full, waits, executes the entry and returns; a third call finds the queue closed.
\<close>

definition eq_demo_run :: "nat q_label list" where
  "eq_demo_run = [QOpen, QOwner, QCall 0 7 [[1], [2]], QCall 1 8 [[3], [4]], QGo 0, QGo 1, QGo 0, QGo 1,
     QFlush, QOwner, QOwner, QOwner, QGo 0, QGo 0, QGo 0, QOwner, QOwner, QOwner, QOwner,
     QCall 2 9 [[5], [6]], QGo 2]"

lemmas eq_demo_simps = eq_demo_def eq_demo_run_def eq_init_def eq_static_def eq_fits_def eq_goto_def eq_enqueue_def
  eq_open_def eq_flush_def eq_for_def write_bytes_def read_bytes_def

theorem entry_queue_correct_witness:
  "\<exists>s q. run (eq_step eq_demo) eq_demo_run (eq_static_init eq_demo) = Some s \<and> eq_owner s = OwClosed \<and>
     tq_pend q = [] \<and> run tq_step (trace (eq_step eq_demo) (eq_events eq_demo) eq_demo_run (eq_static_init eq_demo)) tq_init = Some q \<and>
     executed (trace (eq_step eq_demo) (eq_events eq_demo) eq_demo_run (eq_static_init eq_demo)) = [(7, [[1], [2]])]"
proof -
  obtain s where s: "run (eq_step eq_demo) eq_demo_run (eq_static_init eq_demo) = Some s" "eq_owner s = OwClosed"
    by (simp add: eq_demo_simps)
  have ex: "executed (trace (eq_step eq_demo) (eq_events eq_demo) eq_demo_run (eq_static_init eq_demo)) = [(7, [[1], [2]])]"
    by (simp add: eq_demo_simps)
  from entry_queue_correct [OF eq_static_zeroed s(1)] s ex show ?thesis by blast
qed

text \<open>How many steps a call of \<open>enqueue\<close> still has to take at most.\<close>

fun eq_rest :: "'f eq_pc \<Rightarrow> nat" where
  "eq_rest EqIdle = 0"
| "eq_rest (EqEnter f ps) = length ps + 3"
| "eq_rest (EqFetch f ps) = length ps + 2"
| "eq_rest (EqWrite f ps idx k) = length ps + 1 - k"

lemma eq_enqueue_progress:
  assumes rel: "eq_rel C s q" and busy: "eq_pc s t \<noteq> EqIdle"
  shows "\<exists>s'. eq_enqueue C t s = Some s' \<and> eq_rest (eq_pc s' t) < eq_rest (eq_pc s t)"
proof (cases "eq_pc s t")
  case (EqWrite f ps idx k)
  have ok: "eq_fits C f ps" "k \<le> length ps" "idx < eq_entries C"
    using eq_relD(4) [OF rel, of t] EqWrite by auto
  have "write_bytes (sumsizes (map length (take k ps))) (ps ! k) (eq_buf s idx) \<noteq> None" if "k < length ps"
    using sumsizes_take_le [OF that] ok(1) eq_relD(5) [OF rel, of idx]
    by (auto simp: write_bytes_def eq_fits_def)
  then show ?thesis using ok EqWrite by (auto simp: eq_enqueue_def eq_goto_def)
qed (use busy in \<open>auto simp: eq_enqueue_def eq_goto_def Let_def\<close>)

lemma eq_flush_enabled:
  assumes rel: "eq_rel C s q" and busy: "eq_owner s \<notin> {OwClosed, OwOpening, OwOpened}"
  shows "eq_flush C s \<noteq> None"
proof -
  note D = eq_relD [OF rel]
  show ?thesis
  proof (cases "eq_owner s")
    case (FlSpin opn i todo)
    then show ?thesis using D(6) by (auto simp: eq_flush_def)
  next
    case (FlCall opn i todo f)
    then have "eq_fun s i = Some f" "i < eq_hi C s" "eq_slots C s i (eq_hi C s) None (tq_pend q)"
      using D(6,7) by (auto simp: eq_hi_def)
    then show ?thesis using eq_slots_exec [of C s i "eq_hi C s" None "tq_pend q" f]
      by (auto simp: eq_flush_def FlCall)
  qed (use busy in \<open>auto simp: eq_flush_def Let_def\<close>)
qed

text \<open>
  No step of the entry queue leaves the memory it owns or gets stuck: when it was constructed
  in memory whose function pointers are null, in every reachable state a thread inside \<open>enqueue\<close> can take its next step, whose index is within the array and whose writes
  stay within the entry, and is then closer to its return, whatever the others do; the owner inside
  \<open>open\<close> or \<open>flush\<close> can take its next step, and what it passes to the stored function is the complete
  list of parameters.
\<close>
theorem entry_queue_safe:
  assumes zero: "eq_zeroed C M" and r: "reachable (eq_step C) (eq_init C M) s"
  shows "(\<forall>t. eq_pc s t \<noteq> EqIdle \<longrightarrow>
            (\<exists>s'. eq_step C (QGo t) s = Some s' \<and> eq_rest (eq_pc s' t) < eq_rest (eq_pc s t))) \<and>
         (eq_owner s \<notin> {OwClosed, OwOpened} \<longrightarrow> eq_step C QOwner s \<noteq> None)"
proof -
  obtain q where rel: "eq_rel C s q" using tantrum_queue.reachable_rel [OF entry_tantrum_queue [OF zero] r] by blast
  have "eq_step C QOwner s \<noteq> None" if "eq_owner s \<notin> {OwClosed, OwOpened}"
    using eq_flush_enabled [OF rel] that by (auto simp: eq_open_def)
  then show ?thesis using eq_enqueue_progress [OF rel] by simp
qed

theorem entry_queue_safe_witness:
  "\<exists>s. run (eq_step eq_demo) (take 13 eq_demo_run) (eq_static_init eq_demo) = Some s \<and>
       eq_pc s 0 = EqWrite 7 [[1], [2]] 0 1 \<and> eq_step eq_demo (QGo 0) s \<noteq> None"
proof -
  obtain s where s: "run (eq_step eq_demo) (take 13 eq_demo_run) (eq_static_init eq_demo) = Some s"
    "eq_pc s 0 = EqWrite 7 [[1], [2]] 0 1"
    by (simp add: eq_demo_simps)
  have "eq_pc s 0 \<noteq> EqIdle" using s(2) by simp
  then show ?thesis using entry_queue_safe [OF eq_static_zeroed run_reachable [OF s(1)]] s by fastforce
qed

section \<open>\<open>flush\<close> returns\<close>

text \<open>
  A bound for the steps the owner still has to take in \<open>flush\<close>: at most 20 for each entry left, and
  the phases of the loop in the order in which they come.
\<close>

fun eq_phase :: "'f eq_owner \<Rightarrow> nat" where
  "eq_phase (FlLoad done) = 7"
| "eq_phase (FlXchg done) = 5"
| "eq_phase (FlClose1 done todo) = 4"
| "eq_phase (FlClose2 done) = 3"
| "eq_phase (FlSpin opn index todo) = (if opn then 6 else 2)"
| "eq_phase (FlCall opn index todo f) = (if opn then 5 else 1)"
| "eq_phase (FlClear opn index todo) = 8"
| "eq_phase FlRet = 1"
| "eq_phase _ = 0"

definition eq_flush_rest :: "'f eq_config \<Rightarrow> 'f entry_queue \<Rightarrow> nat" where
  "eq_flush_rest C s = 20 * (eq_hi C s - eq_lo (eq_owner s)) + eq_phase (eq_owner s)"

fun eq_in_flush :: "'f eq_owner \<Rightarrow> bool" where
  "eq_in_flush OwClosed = False"
| "eq_in_flush OwOpening = False"
| "eq_in_flush OwOpened = False"
| "eq_in_flush _ = True"

lemma eq_for_rest:
  assumes "eq_owner s' = eq_for opn i todo" and "i \<le> todo" and "\<not> opn \<longrightarrow> H = todo" and "todo \<le> H"
    and "opn \<longrightarrow> H = min (eq_counter s') (eq_entries C)"
  shows "eq_flush_rest C s' \<le> 20 * (H - i) + (if opn then 7 else 2) \<and>
    eq_in_flush (eq_owner s') \<and> (opn \<and> i < todo \<longrightarrow> eq_flush_rest C s' \<le> 20 * (H - i) + 6)"
  using assms by (auto simp: eq_for_def eq_flush_rest_def eq_hi_def)

lemma eq_flush_progress:
  assumes rel: "eq_rel C s q" and fl: "eq_in_flush (eq_owner s)"
    and quiet: "\<And>t. eq_writing (eq_pc s t) = None" and st: "eq_flush C s = Some s'"
  shows "eq_flush_rest C s' < eq_flush_rest C s \<and> eq_pc s' = eq_pc s \<and>
         (eq_in_flush (eq_owner s') \<or> eq_owner s' = OwClosed)"
proof -
  note D = eq_relD [OF rel] and S = eq_slotsD [OF eq_relD(7) [OF rel]]
  show ?thesis
  proof (cases "eq_owner s")
    case (FlLoad d)
    have lo: "d \<le> eq_counter s" using S(1) by (simp add: FlLoad eq_hi_def)
    consider "eq_counter s = d" | "eq_counter s \<noteq> d" "eq_entries C \<le> eq_counter s"
      | "d < eq_counter s" "eq_counter s < eq_entries C" using lo by linarith
    then show ?thesis
    proof cases
      case 1
      then have "s' = s\<lparr>eq_owner := FlXchg d\<rparr>" using st by (simp add: eq_flush_def FlLoad)
      then show ?thesis by (simp add: FlLoad eq_flush_rest_def eq_hi_def)
    next
      case 2
      then have "s' = s\<lparr>eq_owner := FlClose2 d\<rparr>" using st by (simp add: eq_flush_def FlLoad)
      then show ?thesis using 2 by (simp add: FlLoad eq_flush_rest_def eq_hi_def)
    next
      case 3
      then have "s' = s\<lparr>eq_owner := FlSpin True d (eq_counter s)\<rparr>"
        using st by (simp add: eq_flush_def FlLoad eq_for_def)
      then show ?thesis using 3 by (simp add: FlLoad eq_flush_rest_def eq_hi_def)
    qed
  next
    case (FlClose1 d todo)
    note F = eq_for_rest [of s' False d todo todo C]
    show ?thesis using st F S(1)
      by (auto simp: eq_flush_def FlClose1 eq_flush_rest_def eq_hi_def min_def split: if_splits)
  next
    case (FlClose2 d)
    note F = eq_for_rest [of s' False d "eq_entries C" "eq_entries C" C]
    show ?thesis using st F S(1)
      by (auto simp: eq_flush_def FlClose2 eq_flush_rest_def eq_hi_def)
  next
    case (FlSpin opn i todo)
    have "i < eq_hi C s" using D(6) by (auto simp: eq_hi_def FlSpin)
    then have "eq_full C (eq_fun s i) (eq_buf s i) (eq_pc s) i (tq_pend q ! 0)" using S(4) [of i] by (simp add: FlSpin)
    moreover have "eq_pc s t \<noteq> EqWrite g ps i k" for t g ps k using quiet [of t] by auto
    ultimately obtain f where "eq_fun s i = Some f" by (cases "tq_pend q ! 0") auto
    then show ?thesis using st
      by (auto simp: eq_flush_def FlSpin eq_flush_rest_def eq_hi_def split: if_splits)
  next
    case (FlCall opn i todo f)
    have "i < eq_hi C s" using D(6) by (auto simp: eq_hi_def FlCall)
    then show ?thesis using st
      by (auto simp: eq_flush_def FlCall eq_flush_rest_def eq_hi_def split: if_splits option.splits)
  next
    case (FlClear opn i todo)
    then have s': "s' = s\<lparr>eq_fun := (eq_fun s)(i := None), eq_owner := eq_for opn (i + 1) todo\<rparr>"
      using st by (simp add: eq_flush_def)
    have "eq_flush_rest C s' \<le> 20 * (eq_hi C s - (i + 1)) + (if opn then 7 else 2) \<and> eq_in_flush (eq_owner s')"
      using D(6) eq_for_rest [of s' opn "i + 1" todo "eq_hi C s" C]
      by (simp add: FlClear s' eq_hi_def split: if_splits)
    then show ?thesis by (simp add: FlClear s' eq_flush_rest_def split: if_splits)
  qed (use st fl in \<open>auto simp: eq_flush_def eq_flush_rest_def eq_hi_def\<close>)
qed

lemma eq_flush_run:
  assumes "eq_rel C s q" and "eq_in_flush (eq_owner s)" and "\<And>t. eq_writing (eq_pc s t) = None"
  shows "\<exists>n s'. n \<le> eq_flush_rest C s \<and> run (eq_step C) (replicate n QOwner) s = Some s' \<and> eq_owner s' = OwClosed"
  using assms
proof (induction "eq_flush_rest C s" arbitrary: s q rule: less_induct)
  case less
  have "eq_owner s \<notin> {OwClosed, OwOpening, OwOpened}" using less.prems(2) by (cases "eq_owner s") auto
  then obtain s1 where s1: "eq_flush C s = Some s1" "eq_step C QOwner s = Some s1"
    using eq_flush_enabled [OF less.prems(1)] by auto
  note P = eq_flush_progress [OF less.prems s1(1)]
  obtain q1 where q1: "eq_rel C s1 q1" using eq_sim_step [OF less.prems(1) s1(2)] by blast
  show ?case
  proof (cases "eq_owner s1 = OwClosed")
    case True
    then show ?thesis using s1(2) P by (intro exI [of _ 1] exI [of _ s1]) auto
  next
    case False
    then obtain n s' where n: "n \<le> eq_flush_rest C s1" "run (eq_step C) (replicate n QOwner) s1 = Some s'"
        "eq_owner s' = OwClosed"
      using less.hyps [of s1 q1] P q1 less.prems(3) by auto
    then show ?thesis using s1(2) P by (intro exI [of _ "Suc n"] exI [of _ s']) auto
  qed
qed

text \<open>
  \<open>flush\<close> returns: from every reachable state in which the owner is inside \<open>flush\<close> and no thread is
  between its fetch-and-add and its publication, the owner alone reaches the end of \<open>flush\<close> in at most
  \<open>20 * ENTRIES + 8\<close> steps; then all accepted operations have been executed. (While a thread is in that
  window, \<open>flush\<close> has to wait for it.)
\<close>
theorem entry_queue_flush_returns:
  assumes zero: "eq_zeroed C M" and r: "reachable (eq_step C) (eq_init C M) s"
    and fl: "eq_in_flush (eq_owner s)" and idle: "\<forall>t. eq_writing (eq_pc s t) = None"
  shows "\<exists>n s'. n \<le> 20 * eq_entries C + 8 \<and> run (eq_step C) (replicate n QOwner) s = Some s' \<and>
           eq_owner s' = OwClosed"
proof -
  obtain q where rel: "eq_rel C s q" using tantrum_queue.reachable_rel [OF entry_tantrum_queue [OF zero] r] by blast
  have "eq_hi C s \<le> eq_entries C" by (rule eq_slotsD(2) [OF eq_relD(7) [OF rel]])
  moreover have "eq_phase (eq_owner s) \<le> 8" by (cases "eq_owner s") auto
  ultimately have "eq_flush_rest C s \<le> 20 * eq_entries C + 8" by (simp add: eq_flush_rest_def)
  moreover obtain n s' where "n \<le> eq_flush_rest C s" "run (eq_step C) (replicate n QOwner) s = Some s'"
      "eq_owner s' = OwClosed"
    using eq_flush_run [OF rel fl] idle by blast
  ultimately show ?thesis by (intro exI [of _ n] exI [of _ s'] conjI) simp_all
qed

theorem entry_queue_flush_returns_witness:
  "\<exists>s n s'. run (eq_step eq_demo) [QOpen, QOwner, QCall 0 7 [[1], [2]], QGo 0, QGo 0, QGo 0, QGo 0, QGo 0, QFlush, QOwner] (eq_static_init eq_demo) = Some s \<and>
     eq_owner s = FlClose2 0 \<and> n \<le> 28 \<and>
     run (eq_step eq_demo) (replicate n QOwner) s = Some s' \<and> eq_owner s' = OwClosed"
proof -
  let ?ls = "[QOpen, QOwner, QCall 0 7 [[1], [2]], QGo 0, QGo 0, QGo 0, QGo 0, QGo 0, QFlush, QOwner]"
  obtain s where s: "run (eq_step eq_demo) ?ls (eq_static_init eq_demo) = Some s"
    "eq_owner s = FlClose2 0" "\<forall>t. eq_writing (eq_pc s t) = None"
    by (simp add: eq_demo_simps)
  have E: "20 * eq_entries eq_demo + 8 = 28" by (simp add: eq_demo_def)
  have "eq_in_flush (eq_owner s)" using s(2) by simp
  from entry_queue_flush_returns [OF eq_static_zeroed run_reachable [OF s(1)] this s(3), unfolded E]
  obtain n s' where "n \<le> 28" "run (eq_step eq_demo) (replicate n QOwner) s = Some s'" "eq_owner s' = OwClosed"
    by blast
  with s(1,2) show ?thesis by (intro exI conjI)
qed

end
