(* ===== verification/Reservations.thy ===== *)
theory Reservations
  imports QD_Prelude
begin

text \<open>
  The reservations of consecutive units of an array, as the two buffer queues make them: each
  operation takes as many as it needs behind the one before it.
\<close>

text \<open>
  A reservation is its first unit, the number of its units, and what it holds, or \<open>None\<close> for the rest
  of an array that is too short for an operation.
\<close>

type_synonym 'e resv = "nat \<times> nat \<times> 'e option"

text \<open>Reservations are adjacent: each begins where the one before it ends.\<close>

fun tiling :: "nat \<Rightarrow> nat \<Rightarrow> 'e resv list \<Rightarrow> bool" where
  "tiling lo hi [] \<longleftrightarrow> lo = hi"
| "tiling lo hi ((i, n, e) # L) \<longleftrightarrow> i = lo \<and> 0 < n \<and> tiling (lo + n) hi L"

fun resv_pending :: "'e resv list \<Rightarrow> 'e list" where
  "resv_pending [] = []"
| "resv_pending ((i, n, None) # L) = resv_pending L"
| "resv_pending ((i, n, Some e) # L) = e # resv_pending L"

text \<open>
  While \<open>flush\<close> works on a part of the reservations of an open queue, the part ends with a
  reservation.
\<close>

definition resv_boundary :: "nat \<Rightarrow> nat \<Rightarrow> nat \<Rightarrow> 'e resv list \<Rightarrow> bool" where
  "resv_boundary lo hi todo L \<longleftrightarrow> (\<exists>L1 L2. L = L1 @ L2 \<and> tiling lo todo L1 \<and> tiling todo hi L2)"

lemma tiling_le: "tiling lo hi L \<Longrightarrow> lo \<le> hi"
  by (induction lo hi L rule: tiling.induct) auto

lemma tiling_append: "tiling lo hi (L1 @ L2) \<longleftrightarrow> (\<exists>m. tiling lo m L1 \<and> tiling m hi L2)"
  by (induction L1 arbitrary: lo) auto

lemma tiling_bounds:
  "tiling lo hi L \<Longrightarrow> (i, n, e) \<in> set L \<Longrightarrow> lo \<le> i \<and> 0 < n \<and> i + n \<le> hi"
  by (induction lo hi L rule: tiling.induct) (auto dest: tiling_le)

lemma tiling_disjoint:
  assumes "tiling lo hi L" and "(i, n, e) \<in> set L" and "(i', n', e') \<in> set L"
  shows "(i, n, e) = (i', n', e') \<or> i + n \<le> i' \<or> i' + n' \<le> i"
  using assms by (induction lo hi L rule: tiling.induct) (auto dest: tiling_bounds)

lemma tiling_inj:
  assumes "tiling lo hi L" and "(i, n, e) \<in> set L" and "(i, n', e') \<in> set L"
  shows "n' = n \<and> e' = e"
  using tiling_disjoint [OF assms] tiling_bounds [OF assms(1,2)] tiling_bounds [OF assms(1,3)] by auto

lemma tiling_empty: "tiling lo lo L \<Longrightarrow> L = []"
proof (cases L)
  case (Cons x L')
  assume "tiling lo lo L"
  then show ?thesis using Cons by (cases x) (force dest: tiling_le)
qed simp

lemma resv_pending_append: "resv_pending (L1 @ L2) = resv_pending L1 @ resv_pending L2"
  by (induction L1 rule: resv_pending.induct) auto

lemma resv_boundary_refl: "tiling lo hi L \<Longrightarrow> resv_boundary lo hi hi L"
  unfolding resv_boundary_def by (rule exI [of _ L]) simp

lemma resv_boundary_snoc: "resv_boundary lo hi todo L \<Longrightarrow> 0 < n \<Longrightarrow> resv_boundary lo (hi + n) todo (L @ [(hi, n, e)])"
  unfolding resv_boundary_def by (force simp: tiling_append)

lemma resv_boundary_tail:
  assumes "resv_boundary lo hi todo ((lo, n, e) # L)" and "lo < todo"
  shows "resv_boundary (lo + n) hi todo L" "lo + n \<le> todo"
proof -
  obtain L1 L2 where L: "(lo, n, e) # L = L1 @ L2" "tiling lo todo L1" "tiling todo hi L2"
    using assms(1) by (auto simp: resv_boundary_def)
  obtain L1' where L1: "L1 = (lo, n, e) # L1'" using L assms(2) by (cases L1) auto
  then show "resv_boundary (lo + n) hi todo L" using L by (auto simp: resv_boundary_def)
  show "lo + n \<le> todo" using L(2) L1 tiling_le by auto
qed

lemma resv_at: "i \<in> fst ` set L \<longleftrightarrow> (\<exists>n e. (i, n, e) \<in> set L)"
  by force

end
