(* ===== verification/Dual_Buffer_Queue.thy ===== *)
theory Dual_Buffer_Queue
  imports Queue_Spec Marshal Reservations
begin

text \<open>
  The queue of \<open>queues/dual_buffer_queue.hpp\<close>, the default queue of the library: an array \<open>entries\<close>
  of function pointers and one byte array \<open>buffer_array\<close> of \<open>ENTRIES * ENTRY_SIZE\<close> bytes. An
  operation reserves as many consecutive entries as its size field and parameters need; the first
  of them gets its function pointer. A reservation that runs over the end stores \<open>no_op\<close> instead.

  Function pointers are 64-bit words. The counter is a natural number here; that its 32 bits do not
  wrap around is proved below.
\<close>

section \<open>Configuration\<close>

datatype atomic_instruction_policy_t = use_fetch_and_add | use_compare_and_swap

text \<open>
  \<open>db_addr\<close> is the address of a wrapper and \<open>db_code\<close> the wrapper at an address, \<open>db_no_op\<close> the address
  of \<open>no_op\<close>; \<open>db_sizes\<close> are the sizes of the parameters the wrapper unpacks.
\<close>

record 'f db_config =
  db_entries :: nat
  db_entry_size :: nat
  db_policy :: atomic_instruction_policy_t
  db_sizes :: "'f \<Rightarrow> nat list"
  db_addr :: "'f \<Rightarrow> 64 word"
  db_code :: "64 word \<Rightarrow> 'f option"
  db_no_op :: "64 word"

fun aligned :: "nat \<Rightarrow> nat" where
  "aligned n = (if n = 0 then 1 else n)"

text \<open>The number of entries an operation needs: its parameters and the size field, rounded up.\<close>

definition db_req :: "'f db_config \<Rightarrow> 'f \<Rightarrow> nat" where
  "db_req C f = (aligned (sumsizes (db_sizes C f) + 4) + db_entry_size C - 1) div db_entry_size C"

text \<open>\<open>ENTRIES - req_entries\<close> is a subtraction of 32-bit unsigned integers.\<close>

definition usub32 :: "nat \<Rightarrow> nat \<Rightarrow> nat" where
  "usub32 a b = (a + (2 ^ 32 - b mod 2 ^ 32)) mod 2 ^ 32"

section \<open>State\<close>

text \<open>
  A thread in \<open>enqueue\<close> is before the load of the counter, before the atomic update of the counter,
  before the store of the size field, writing its parameter \<open>k\<close>, or publishing (when \<open>k\<close> is their
  number); or it found too little space and is before the store of the size field of the rest, or
  before the store of \<open>no_op\<close>.
\<close>

datatype 'f db_pc =
    DbIdle
  | DbLoad 'f "byte list list"
  | DbFetch 'f "byte list list" nat
  | DbSize 'f "byte list list" nat
  | DbWrite 'f "byte list list" nat nat
  | DbFill 'f "byte list list" nat
  | DbNoOp 'f "byte list list" nat

text \<open>
  The owner has not opened the queue, has opened it, or is in \<open>flush\<close>: before the load of the
  counter, before the exchange, waiting for an entry, before the call, or before the final
  \<open>std::fill\<close>.
\<close>

datatype db_owner =
    DwClosed
  | DwOpened
  | DwLoad nat
  | DwXchg nat
  | DwSpin bool nat nat
  | DwCall bool nat nat "64 word"
  | DwClean nat

record 'f dual_buffer_queue =
  db_counter :: nat
  db_fun :: "nat \<Rightarrow> 64 word"
  db_buf :: "byte list"
  db_pc :: "tid \<Rightarrow> 'f db_pc"
  db_owner :: db_owner

text \<open>
  The constructor sets the counter only; \<open>entries\<close> and \<open>buffer_array\<close> are what the memory \<open>M\<close> the
  queue is constructed in holds.
\<close>

record db_memory =
  mm_fun :: "nat \<Rightarrow> 64 word"
  mm_buf :: "byte list"

definition db_init :: "'f db_config \<Rightarrow> db_memory \<Rightarrow> 'f dual_buffer_queue" where
  "db_init C M =
     \<lparr>db_counter = db_entries C, db_fun = mm_fun M, db_buf = mm_buf M,
      db_pc = (\<lambda>_. DbIdle), db_owner = DwClosed\<rparr>"

text \<open>
  Memory that is as large as the queue's arrays, and memory of that size in which the function
  pointers are null, such as that of an object with static storage duration. The code relies on the
  latter: \<open>flush\<close> waits for a reservation by waiting for its function pointer to be non-null.
\<close>

definition db_sized :: "'f db_config \<Rightarrow> db_memory \<Rightarrow> bool" where
  "db_sized C M \<longleftrightarrow> length (mm_buf M) = db_entries C * db_entry_size C"

definition db_zeroed :: "'f db_config \<Rightarrow> db_memory \<Rightarrow> bool" where
  "db_zeroed C M \<longleftrightarrow> db_sized C M \<and> (\<forall>i. mm_fun M i = 0)"

definition db_static :: "'f db_config \<Rightarrow> db_memory" where
  "db_static C = \<lparr>mm_fun = (\<lambda>_. 0), mm_buf = replicate (db_entries C * db_entry_size C) 0\<rparr>"

abbreviation db_static_init :: "'f db_config \<Rightarrow> 'f dual_buffer_queue" where
  "db_static_init C \<equiv> db_init C (db_static C)"

lemma db_static_zeroed [simp]: "db_zeroed C (db_static C)"
  by (simp add: db_zeroed_def db_sized_def db_static_def)

definition db_goto :: "tid \<Rightarrow> 'f db_pc \<Rightarrow> 'f dual_buffer_queue \<Rightarrow> 'f dual_buffer_queue" where
  "db_goto t p s = s\<lparr>db_pc := (db_pc s)(t := p)\<rparr>"

section \<open>\<open>enqueue\<close>\<close>

text \<open>What follows the update of the counter, which returned \<open>index\<close>.\<close>

definition db_reserved :: "'f db_config \<Rightarrow> 'f \<Rightarrow> byte list list \<Rightarrow> nat \<Rightarrow> 'f db_pc" where
  "db_reserved C f ps index =
     (if index \<le> usub32 (db_entries C) (db_req C f) then DbSize f ps index
      else if index < db_entries C then DbFill f ps index
      else DbIdle)"

text \<open>The store of a size field, and that of a parameter.\<close>

definition db_store :: "nat \<Rightarrow> byte list \<Rightarrow> tid \<Rightarrow> 'f db_pc \<Rightarrow> 'f dual_buffer_queue \<Rightarrow> 'f dual_buffer_queue option"
where
  "db_store off bs t p s =
     (case write_bytes off bs (db_buf s) of
        None \<Rightarrow> None | Some b \<Rightarrow> Some (db_goto t p (s\<lparr>db_buf := b\<rparr>)))"

definition db_enqueue :: "'f db_config \<Rightarrow> tid \<Rightarrow> 'f dual_buffer_queue \<Rightarrow> 'f dual_buffer_queue option" where
  "db_enqueue C t s =
     (case db_pc s t of
        DbIdle \<Rightarrow> None
      | DbLoad f ps \<Rightarrow>
          (let index = db_counter s in
           Some (db_goto t (if index > usub32 (db_entries C) (db_req C f) then DbIdle
                            else DbFetch f ps index) s))
      | DbFetch f ps index \<Rightarrow>
          Some (if db_policy C = use_fetch_and_add \<or> db_counter s = index
                then db_goto t (db_reserved C f ps (db_counter s))
                       (s\<lparr>db_counter := db_counter s + db_req C f\<rparr>)
                else db_goto t (DbFetch f ps (db_counter s)) s)
      | DbSize f ps index \<Rightarrow>
          db_store (index * db_entry_size C) (u32_bytes (db_req C f)) t (DbWrite f ps index 0) s
      | DbWrite f ps index k \<Rightarrow>
          (if k < length ps
           then db_store (index * db_entry_size C + 4 + sumsizes (map length (take k ps))) (ps ! k) t
                  (DbWrite f ps index (k + 1)) s
           else if index < db_entries C
           then Some (db_goto t DbIdle (s\<lparr>db_fun := (db_fun s)(index := db_addr C f)\<rparr>))
           else None)
      | DbFill f ps index \<Rightarrow>
          db_store (index * db_entry_size C) (u32_bytes (db_entries C - index)) t (DbNoOp f ps index) s
      | DbNoOp f ps index \<Rightarrow>
          (if index < db_entries C
           then Some (db_goto t DbIdle (s\<lparr>db_fun := (db_fun s)(index := db_no_op C)\<rparr>))
           else None))"

section \<open>\<open>open\<close> and \<open>flush\<close>\<close>

definition db_open :: "'f dual_buffer_queue \<Rightarrow> 'f dual_buffer_queue" where
  "db_open s = s\<lparr>db_counter := 0, db_owner := DwOpened\<rparr>"

text \<open>The head of the \<open>for\<close> loop, and, when it ends, of the \<open>while\<close> loop.\<close>

definition db_for :: "bool \<Rightarrow> nat \<Rightarrow> nat \<Rightarrow> db_owner" where
  "db_for opn index todo =
     (if index < todo then DwSpin opn index todo else if opn then DwLoad todo else DwClean todo)"

text \<open>
  \<open>std::fill\<close> from the first byte of \<open>entries[0]\<close> up to, but not including, the last byte of
  \<open>entries[todo - 1]\<close>, which is the most significant byte of that pointer.
\<close>

definition db_fill :: "nat \<Rightarrow> (nat \<Rightarrow> 64 word) \<Rightarrow> nat \<Rightarrow> 64 word" where
  "db_fill todo fs i =
     (if i + 1 < todo then 0
      else if i + 1 = todo then push_bit 56 (drop_bit 56 (fs i))
      else fs i)"

text \<open>\<open>None\<close> is an access outside an array or a call of an address that holds no function.\<close>

definition db_flush :: "'f db_config \<Rightarrow> 'f dual_buffer_queue \<Rightarrow> 'f dual_buffer_queue option" where
  "db_flush C s =
     (case db_owner s of
        DwLoad done \<Rightarrow>
          (let todo = db_counter s in
           Some (s\<lparr>db_owner := (if todo = done then DwXchg done
                               else if db_entries C \<le> todo then db_for False done (db_entries C)
                               else db_for True done todo)\<rparr>))
      | DwXchg done \<Rightarrow>
          (let todo = db_counter s in
           Some (s\<lparr>db_counter := db_entries C,
                   db_owner := db_for False done (if db_entries C \<le> todo then db_entries C else todo)\<rparr>))
      | DwSpin opn index todo \<Rightarrow>
          (if db_entries C \<le> index then None
           else Some (if db_fun s index = 0 then s
                      else s\<lparr>db_owner := DwCall opn index todo (db_fun s index)\<rparr>))
      | DwCall opn index todo a \<Rightarrow>
          (case read_bytes (index * db_entry_size C) 4 (db_buf s) of
             None \<Rightarrow> None
           | Some sz \<Rightarrow>
               if a = db_no_op C then Some (s\<lparr>db_owner := db_for opn (index + u32_of sz) todo\<rparr>)
               else
               (case db_code C a of
                  None \<Rightarrow> None
                | Some f \<Rightarrow>
                    (case unroll (db_sizes C f) (db_buf s) (index * db_entry_size C + 4) [] of
                       None \<Rightarrow> None
                     | Some _ \<Rightarrow> Some (s\<lparr>db_owner := db_for opn (index + u32_of sz) todo\<rparr>))))
      | DwClean todo \<Rightarrow> Some (s\<lparr>db_fun := db_fill todo (db_fun s), db_owner := DwClosed\<rparr>)
      | _ \<Rightarrow> None)"

section \<open>The queue as a transition system\<close>

fun db_step :: "'f db_config \<Rightarrow> 'f q_label \<Rightarrow> 'f dual_buffer_queue \<Rightarrow> 'f dual_buffer_queue option" where
  "db_step C (QCall t f ps) s =
     (if db_pc s t = DbIdle \<and> map length ps = db_sizes C f then Some (db_goto t (DbLoad f ps) s) else None)"
| "db_step C (QGo t) s = db_enqueue C t s"
| "db_step C QOpen s = (if db_owner s = DwClosed then Some (db_open s) else None)"
| "db_step C QFlush s = (if db_owner s = DwOpened then Some (s\<lparr>db_owner := DwLoad 0\<rparr>) else None)"
| "db_step C QOwner s = (if db_owner s = DwClosed then None else db_flush C s)"

text \<open>What each step means to the abstract queue.\<close>

fun db_events :: "'f db_config \<Rightarrow> 'f dual_buffer_queue \<Rightarrow> 'f q_label \<Rightarrow> ('f \<times> byte list list) tq_event list"
where
  "db_events C s (QCall t f ps) = [TqCall t (f, ps)]"
| "db_events C s (QGo t) =
     (case db_pc s t of
        DbLoad f ps \<Rightarrow>
          if db_counter s > usub32 (db_entries C) (db_req C f) then [TqReturn t CLOSED] else []
      | DbFetch f ps index \<Rightarrow>
          if db_policy C = use_fetch_and_add \<or> db_counter s = index
          then if db_counter s \<le> usub32 (db_entries C) (db_req C f) then [TqAccept t]
               else if db_counter s < db_entries C then []
               else [TqReturn t FULL]
          else []
      | DbWrite f ps index k \<Rightarrow> if k < length ps then [] else [TqReturn t SUCCESS]
      | DbNoOp f ps index \<Rightarrow> [TqReturn t FULL]
      | _ \<Rightarrow> [])"
| "db_events C s QOpen = [TqOpen]"
| "db_events C s QFlush = []"
| "db_events C s QOwner =
     (case db_owner s of
        DwLoad done \<Rightarrow> if db_counter s \<noteq> done \<and> db_entries C \<le> db_counter s then [TqClose] else []
      | DwXchg done \<Rightarrow> [TqClose]
      | DwCall opn index todo a \<Rightarrow>
          (if a = db_no_op C then []
           else case db_code C a of
                  None \<Rightarrow> []
                | Some f \<Rightarrow>
                    (case unroll (db_sizes C f) (db_buf s) (index * db_entry_size C + 4) [] of
                       None \<Rightarrow> [] | Some (ps, _) \<Rightarrow> [TqExec (f, ps)]))
      | DwClean todo \<Rightarrow> [TqDrained]
      | _ \<Rightarrow> [])"

section \<open>Sound configurations\<close>

text \<open>
  What the code relies on: the size of the buffer, and the products and sums by which it is indexed,
  fit 32 bits, a size field fits an entry, no operation needs more
  entries than there are; wrappers and \<open>no_op\<close> have different addresses, none of which is null or
  uses the top byte (user space addresses of the 64-bit platforms do not).
\<close>

definition db_ok :: "'f db_config \<Rightarrow> bool" where
  "db_ok C \<longleftrightarrow>
     (db_entries C + 1) * db_entry_size C \<le> 2 ^ 32 \<and> 4 \<le> db_entry_size C \<and>
     (\<forall>f. db_req C f \<le> db_entries C) \<and>
     (\<forall>f. db_code C (db_addr C f) = Some f \<and> db_addr C f \<noteq> db_no_op C \<and> db_addr C f \<noteq> 0 \<and>
          drop_bit 56 (db_addr C f) = 0) \<and>
     db_no_op C \<noteq> 0 \<and> drop_bit 56 (db_no_op C) = 0"

lemma db_okD:
  assumes "db_ok C"
  shows "db_entries C < 2 ^ 32" "4 \<le> db_entry_size C" "db_req C f \<le> db_entries C"
    and "db_code C (db_addr C f) = Some f" "db_addr C f \<noteq> db_no_op C" "db_addr C f \<noteq> 0" "db_no_op C \<noteq> 0"
    and "drop_bit 56 (db_addr C f) = 0" "drop_bit 56 (db_no_op C) = 0"
proof -
  have le: "(db_entries C + 1) * db_entry_size C \<le> 2 ^ 32" "4 \<le> db_entry_size C"
    using assms unfolding db_ok_def by blast+
  have "(db_entries C + 1) * 1 \<le> 2 ^ 32"
    by (rule order_trans [OF mult_le_mono2 le(1)]) (use le(2) in simp)
  then show "db_entries C < 2 ^ 32" by simp
qed (use assms in \<open>auto simp: db_ok_def\<close>)

text \<open>
  The 32-bit products of the code, offsets of the buffer for entries up to \<open>ENTRIES\<close>, are exact.
\<close>

lemma db_offset_exact:
  assumes "db_ok C" and "i \<le> db_entries C"
  shows "i * db_entry_size C mod 2 ^ 32 = i * db_entry_size C"
proof -
  have "i * db_entry_size C < (i + 1) * db_entry_size C" using db_okD(2) [OF assms(1)] by simp
  also have "\<dots> \<le> (db_entries C + 1) * db_entry_size C" using assms(2) by (intro mult_le_mono1) simp
  also have "\<dots> \<le> 2 ^ 32" using assms(1) unfolding db_ok_def by blast
  finally show ?thesis by (rule mod_less)
qed

lemma usub32_le: "b \<le> a \<Longrightarrow> a < 2 ^ 32 \<Longrightarrow> usub32 a b = a - b"
proof -
  assume a: "b \<le> a" "a < 2 ^ 32"
  then have eq: "a + (2 ^ 32 - b mod 2 ^ 32) = (a - b) + 2 ^ 32" by simp
  have "usub32 a b = (a - b) mod 2 ^ 32" unfolding usub32_def eq by (rule mod_add_self2)
  also have "\<dots> = a - b" using a by (intro mod_less) simp
  finally show ?thesis .
qed

lemma db_limit: "db_ok C \<Longrightarrow> usub32 (db_entries C) (db_req C f) = db_entries C - db_req C f"
  by (rule usub32_le) (auto dest: db_okD)

lemma db_req_pos: "db_ok C \<Longrightarrow> 0 < db_req C f"
  using db_okD(2) [of C] by (simp add: db_req_def div_greater_zero_iff)

lemma db_req_room:
  assumes "db_ok C"
  shows "sumsizes (db_sizes C f) + 4 \<le> db_req C f * db_entry_size C"
proof -
  let ?S = "db_entry_size C" and ?n = "sumsizes (db_sizes C f) + 4"
  have S: "0 < ?S" using db_okD(2) [OF assms] by simp
  have "db_req C f = (?n + (?S - 1)) div ?S" using S by (simp add: db_req_def)
  then have "db_req C f * ?S + (?n + (?S - 1)) mod ?S = ?n + (?S - 1)" by (simp only: div_mult_mod_eq)
  moreover have "(?n + (?S - 1)) mod ?S < ?S" using S by simp
  ultimately show ?thesis using S by linarith
qed

section \<open>The relation to the abstract queue\<close>

fun db_call :: "'f db_pc \<Rightarrow> ('f \<times> byte list list) tq_call" where
  "db_call DbIdle = TqNone"
| "db_call (DbLoad f ps) = TqCalled (f, ps)"
| "db_call (DbFetch f ps index) = TqCalled (f, ps)"
| "db_call (DbSize f ps index) = TqAccepted (f, ps)"
| "db_call (DbWrite f ps index k) = TqAccepted (f, ps)"
| "db_call (DbFill f ps index) = TqCalled (f, ps)"
| "db_call (DbNoOp f ps index) = TqCalled (f, ps)"

fun db_reserving :: "'f db_pc \<Rightarrow> nat option" where
  "db_reserving (DbSize f ps index) = Some index"
| "db_reserving (DbWrite f ps index k) = Some index"
| "db_reserving (DbFill f ps index) = Some index"
| "db_reserving (DbNoOp f ps index) = Some index"
| "db_reserving _ = None"

fun db_pc_ok :: "'f db_config \<Rightarrow> 'f db_pc \<Rightarrow> bool" where
  "db_pc_ok C DbIdle = True"
| "db_pc_ok C (DbLoad f ps) = (map length ps = db_sizes C f)"
| "db_pc_ok C (DbFetch f ps index) = (map length ps = db_sizes C f)"
| "db_pc_ok C (DbSize f ps index) = (map length ps = db_sizes C f)"
| "db_pc_ok C (DbWrite f ps index k) = (map length ps = db_sizes C f)"
| "db_pc_ok C (DbFill f ps index) = (map length ps = db_sizes C f)"
| "db_pc_ok C (DbNoOp f ps index) = (map length ps = db_sizes C f)"

text \<open>
  A reservation is its first entry, the number of its entries, and the operation it holds, or \<open>None\<close>
  for the rest of the array. It is published, with size and parameters in the buffer, or a thread is
  working on it and the function pointer is still null.
\<close>

definition db_has_size :: "'f db_config \<Rightarrow> byte list \<Rightarrow> nat \<Rightarrow> nat \<Rightarrow> bool" where
  "db_has_size C b i n \<longleftrightarrow> read_bytes (i * db_entry_size C) 4 b = Some (u32_bytes n)"

definition db_has_params :: "'f db_config \<Rightarrow> byte list \<Rightarrow> nat \<Rightarrow> byte list list \<Rightarrow> bool" where
  "db_has_params C b i ps \<longleftrightarrow>
     unroll (map length ps) b (i * db_entry_size C + 4) [] =
       Some (ps, i * db_entry_size C + 4 + sumsizes (map length ps))"

fun db_slot :: "'f db_config \<Rightarrow> byte list \<Rightarrow> 64 word \<Rightarrow> (tid \<Rightarrow> 'f db_pc) \<Rightarrow> ('f \<times> byte list list) resv \<Rightarrow> bool" where
  "db_slot C b a pc (i, n, Some (f, ps)) \<longleftrightarrow>
     n = db_req C f \<and> map length ps = db_sizes C f \<and>
     (a = db_addr C f \<and> db_has_size C b i n \<and> db_has_params C b i ps \<and> (\<forall>t. db_reserving (pc t) \<noteq> Some i) \<or>
      a = 0 \<and> (\<exists>t. pc t = DbSize f ps i) \<or>
      a = 0 \<and> (\<exists>t k. pc t = DbWrite f ps i k \<and> k \<le> length ps \<and> db_has_size C b i n \<and>
                     db_has_params C b i (take k ps)))"
| "db_slot C b a pc (i, n, None) \<longleftrightarrow>
     n = db_entries C - i \<and>
     (a = db_no_op C \<and> db_has_size C b i n \<and> (\<forall>t. db_reserving (pc t) \<noteq> Some i) \<or>
      a = 0 \<and> (\<exists>t f ps. pc t = DbFill f ps i) \<or>
      a = 0 \<and> (\<exists>t f ps. pc t = DbNoOp f ps i \<and> db_has_size C b i n))"

definition db_tiles :: "'f db_config \<Rightarrow> 'f dual_buffer_queue \<Rightarrow> nat \<Rightarrow> nat \<Rightarrow> ('f \<times> byte list list) resv list \<Rightarrow> bool" where
  "db_tiles C s lo hi L \<longleftrightarrow>
     tiling lo hi L \<and> hi \<le> db_entries C \<and> length (db_buf s) = db_entries C * db_entry_size C \<and>
     (\<forall>x \<in> set L. db_slot C (db_buf s) (db_fun s (fst x)) (db_pc s) x) \<and>
     (\<forall>i. lo \<le> i \<longrightarrow> db_fun s i \<noteq> 0 \<longrightarrow> i \<in> fst ` set L) \<and>
     (\<forall>t i. db_reserving (db_pc s t) = Some i \<longrightarrow> i \<in> fst ` set L) \<and>
     (\<forall>t u i. db_reserving (db_pc s t) = Some i \<longrightarrow> db_reserving (db_pc s u) = Some i \<longrightarrow> t = u) \<and>
     (\<forall>i. drop_bit 56 (db_fun s i) = 0)"

text \<open>Which entries are in use, as for the entry queue.\<close>

fun db_is_open :: "db_owner \<Rightarrow> bool" where
  "db_is_open DwClosed = False"
| "db_is_open DwOpened = True"
| "db_is_open (DwLoad done) = True"
| "db_is_open (DwXchg done) = True"
| "db_is_open (DwSpin opn index todo) = opn"
| "db_is_open (DwCall opn index todo a) = opn"
| "db_is_open (DwClean todo) = False"

fun db_lo :: "db_owner \<Rightarrow> nat" where
  "db_lo (DwLoad done) = done"
| "db_lo (DwXchg done) = done"
| "db_lo (DwSpin opn index todo) = index"
| "db_lo (DwCall opn index todo a) = index"
| "db_lo (DwClean todo) = todo"
| "db_lo _ = 0"

fun db_limit_of :: "db_owner \<Rightarrow> nat" where
  "db_limit_of (DwSpin opn index todo) = todo"
| "db_limit_of (DwCall opn index todo a) = todo"
| "db_limit_of (DwClean todo) = todo"
| "db_limit_of _ = 0"

definition db_hi :: "'f db_config \<Rightarrow> 'f dual_buffer_queue \<Rightarrow> nat" where
  "db_hi C s = (if db_is_open (db_owner s) then min (db_counter s) (db_entries C) else db_limit_of (db_owner s))"

fun db_owner_ok :: "'f db_config \<Rightarrow> 'f dual_buffer_queue \<Rightarrow> nat \<Rightarrow> ('f \<times> byte list list) resv list \<Rightarrow> db_owner \<Rightarrow> bool" where
  "db_owner_ok C s hi L (DwSpin opn index todo) = (index < todo \<and> resv_boundary index hi todo L)"
| "db_owner_ok C s hi L (DwCall opn index todo a) =
     (index < todo \<and> resv_boundary index hi todo L \<and> db_fun s index = a \<and> a \<noteq> 0)"
| "db_owner_ok C s hi L _ = True"

definition db_rel :: "'f db_config \<Rightarrow> 'f dual_buffer_queue \<Rightarrow> ('f \<times> byte list list) tqueue \<Rightarrow> bool" where
  "db_rel C s q \<longleftrightarrow>
     tq_open q = db_is_open (db_owner s) \<and> (\<not> tq_open q \<longrightarrow> db_entries C \<le> db_counter s) \<and>
     (\<forall>t. tq_calls q t = db_call (db_pc s t)) \<and> (\<forall>t. db_pc_ok C (db_pc s t)) \<and>
     (\<exists>L. db_tiles C s (db_lo (db_owner s)) (db_hi C s) L \<and> tq_pend q = resv_pending L \<and>
          db_owner_ok C s (db_hi C s) L (db_owner s))"

section \<open>Reservations\<close>

text \<open>A reservation depends on its part of the buffer and on the thread working on it only.\<close>

lemma db_region:
  assumes "i * S \<le> j" and "j < i * S + r" and "r \<le> n * S"
  shows "j < (i + n) * (S :: nat)"
  using assms by (simp add: add_mult_distrib)

lemma db_slot_cong:
  assumes ok: "db_ok C" and n: "0 < n" and len: "length b' = length b"
    and bytes: "\<And>j. i * db_entry_size C \<le> j \<Longrightarrow> j < (i + n) * db_entry_size C \<Longrightarrow> b' ! j = b ! j"
    and pc: "\<And>t. db_reserving (pc t) = Some i \<or> db_reserving (pc' t) = Some i \<Longrightarrow> pc' t = pc t"
    and req: "\<And>f ps. e = Some (f, ps) \<Longrightarrow> n = db_req C f \<and> map length ps = db_sizes C f"
  shows "db_slot C b' a pc' (i, n, e) = db_slot C b a pc (i, n, e)"
proof -
  let ?S = "db_entry_size C"
  have "4 \<le> n * ?S" using db_okD(2) [OF ok] n by (cases n) auto
  then have size: "db_has_size C b' i m = db_has_size C b i m" for m
    unfolding db_has_size_def
    using read_bytes_cong [OF len, of "i * ?S" 4] bytes db_region [of i ?S _ 4 n] by auto
  have params: "db_has_params C b' i (take k ps) = db_has_params C b i (take k ps)" if "e = Some (f, ps)" for f ps k
  proof -
    have "sumsizes (map length (take k ps)) \<le> sumsizes (map length ps)"
      by (metis append_take_drop_id le_add1 map_append sumsizes_append)
    then have "4 + sumsizes (map length (take k ps)) \<le> n * ?S"
      using db_req_room [OF ok, of f] req [OF that] by simp
    then show ?thesis unfolding db_has_params_def
      using unroll_cong [OF len, of "i * ?S + 4" "map length (take k ps)" "[]"] bytes
        db_region [of i ?S _ "4 + sumsizes (map length (take k ps))" n]
      by (auto simp: add.assoc)
  qed
  have at: "(pc' t = p) = (pc t = p)" if "db_reserving p = Some i" for t p
    using pc [of t] that by auto
  have free: "(db_reserving (pc' t) = Some i) = (db_reserving (pc t) = Some i)" for t
    using pc [of t] by auto
  show ?thesis
  proof (cases e)
    case None
    then show ?thesis by (simp add: size at free)
  next
    case (Some x)
    then obtain f ps where e: "e = Some (f, ps)" by (cases x) auto
    show ?thesis using params [OF e] params [OF e, of "length ps"] by (simp add: e size at free)
  qed
qed

lemma db_slot_req: "db_slot C b a pc (i, n, Some (f, ps)) \<Longrightarrow> n = db_req C f \<and> map length ps = db_sizes C f"
  by simp

lemma db_tilesD:
  assumes "db_tiles C s lo hi L"
  shows "tiling lo hi L" "hi \<le> db_entries C" "length (db_buf s) = db_entries C * db_entry_size C"
    and "(i, n, e) \<in> set L \<Longrightarrow> db_slot C (db_buf s) (db_fun s i) (db_pc s) (i, n, e)"
    and "lo \<le> i \<Longrightarrow> db_fun s i \<noteq> 0 \<Longrightarrow> \<exists>n e. (i, n, e) \<in> set L"
    and "db_reserving (db_pc s t) = Some i \<Longrightarrow> \<exists>n e. (i, n, e) \<in> set L"
    and "db_reserving (db_pc s t) = Some i \<Longrightarrow> db_reserving (db_pc s u) = Some i \<Longrightarrow> t = u"
    and "drop_bit 56 (db_fun s i) = 0"
  using assms unfolding db_tiles_def resv_at by (blast | force)+

lemma db_tilesI:
  assumes "tiling lo hi L" "hi \<le> db_entries C" "length (db_buf s) = db_entries C * db_entry_size C"
    and "\<And>i n e. (i, n, e) \<in> set L \<Longrightarrow> db_slot C (db_buf s) (db_fun s i) (db_pc s) (i, n, e)"
    and "\<And>i. lo \<le> i \<Longrightarrow> db_fun s i \<noteq> 0 \<Longrightarrow> \<exists>n e. (i, n, e) \<in> set L"
    and "\<And>t i. db_reserving (db_pc s t) = Some i \<Longrightarrow> \<exists>n e. (i, n, e) \<in> set L"
    and "\<And>t u i. db_reserving (db_pc s t) = Some i \<Longrightarrow> db_reserving (db_pc s u) = Some i \<Longrightarrow> t = u"
    and "\<And>i. drop_bit 56 (db_fun s i) = 0"
  shows "db_tiles C s lo hi L"
  unfolding db_tiles_def resv_at
proof (intro conjI ballI)
  fix x assume x: "x \<in> set L"
  obtain i n e where "x = (i, n, e)" by (cases x) auto
  then show "db_slot C (db_buf s) (db_fun s (fst x)) (db_pc s) x"
    using assms(4) [of i n e] x by simp
qed (use assms in blast)+

section \<open>Each step preserves the reservations\<close>

lemma db_slot_req_of:
  assumes "db_tiles C s lo hi L" and "(i, n, e) \<in> set L" and "e = Some (f, ps)"
  shows "n = db_req C f \<and> map length ps = db_sizes C f"
  using db_tilesD(4) [OF assms(1,2)] assms(3) by simp

lemma db_tiles_frame:
  assumes "db_fun s' = db_fun s" "db_buf s' = db_buf s" "db_pc s' = db_pc s"
  shows "db_tiles C s' = db_tiles C s"
  by (intro ext) (simp add: db_tiles_def assms)

lemma db_tiles_pc:
  assumes ok: "db_ok C" and tl: "db_tiles C s lo hi L"
    and w: "db_reserving (db_pc s t) = None" "db_reserving p = None"
    and s': "db_fun s' = db_fun s" "db_buf s' = db_buf s" "db_pc s' = (db_pc s)(t := p)"
  shows "db_tiles C s' lo hi L"
proof (rule db_tilesI)
  note D = db_tilesD [OF tl]
  fix i n e assume x: "(i, n, e) \<in> set L"
  have "db_slot C (db_buf s) (db_fun s i) ((db_pc s)(t := p)) (i, n, e) =
        db_slot C (db_buf s) (db_fun s i) (db_pc s) (i, n, e)"
    by (rule db_slot_cong [OF ok]) (use w tiling_bounds [OF D(1) x] db_slot_req_of [OF tl x] in auto)
  then show "db_slot C (db_buf s') (db_fun s' i) (db_pc s') (i, n, e)" using D(4) [OF x] by (simp add: s')
qed (use db_tilesD [OF tl] w in \<open>auto simp: s' split: if_splits\<close>)

lemma db_tiles_fetch:
  assumes ok: "db_ok C" and tl: "db_tiles C s lo hi L" and n: "0 < n" "hi + n \<le> db_entries C"
    and w: "db_reserving (db_pc s t) = None" "db_reserving p = Some hi"
    and s': "db_fun s' = db_fun s" "db_buf s' = db_buf s" "db_pc s' = (db_pc s)(t := p)"
    and new: "db_slot C (db_buf s) 0 ((db_pc s)(t := p)) (hi, n, e)"
  shows "db_tiles C s' lo (hi + n) (L @ [(hi, n, e)])"
proof (rule db_tilesI)
  note D = db_tilesD [OF tl]
  have old: "db_slot C (db_buf s) (db_fun s i) ((db_pc s)(t := p)) (i, m, d)" if x: "(i, m, d) \<in> set L" for i m d
  proof -
    have "db_slot C (db_buf s) (db_fun s i) ((db_pc s)(t := p)) (i, m, d) =
        db_slot C (db_buf s) (db_fun s i) (db_pc s) (i, m, d)"
      by (rule db_slot_cong [OF ok]) (use w tiling_bounds [OF D(1) x] db_slot_req_of [OF tl x] in auto)
    then show ?thesis using D(4) [OF x] by simp
  qed
  have "db_fun s hi = 0"
  proof (rule ccontr)
    assume "db_fun s hi \<noteq> 0"
    then obtain m d where "(hi, m, d) \<in> set L" using D(5) [of hi] tiling_le [OF D(1)] by blast
    then show False using tiling_bounds [OF D(1)] by fastforce
  qed
  with old new show "\<And>i m d. (i, m, d) \<in> set (L @ [(hi, n, e)]) \<Longrightarrow>
      db_slot C (db_buf s') (db_fun s' i) (db_pc s') (i, m, d)"
    by (auto simp: s')
  have free: "db_reserving (db_pc s u) \<noteq> Some hi" for u
    using D(6) [of u hi] tiling_bounds [OF D(1)] by fastforce
  show "\<And>u v i. db_reserving (db_pc s' u) = Some i \<Longrightarrow> db_reserving (db_pc s' v) = Some i \<Longrightarrow> u = v"
    using D(7) free w(2) by (auto simp: s' split: if_splits)
  show "tiling lo (hi + n) (L @ [(hi, n, e)])" using D(1) n(1) by (auto simp: tiling_append)
  show "\<And>i. lo \<le> i \<Longrightarrow> db_fun s' i \<noteq> 0 \<Longrightarrow> \<exists>m d. (i, m, d) \<in> set (L @ [(hi, n, e)])"
    using D(5) unfolding s' set_append by blast
  fix u i assume "db_reserving (db_pc s' u) = Some i"
  then show "\<exists>m d. (i, m, d) \<in> set (L @ [(hi, n, e)])"
    using D(6) [of u i] w by (cases "u = t") (auto simp: s')
next
qed (use db_tilesD [OF tl] n w in \<open>auto simp: s' split: if_splits\<close>)

text \<open>A thread works on its own reservation.\<close>

lemma db_tiles_update:
  assumes ok: "db_ok C" and tl: "db_tiles C s lo hi L" and x: "(i, n, e) \<in> set L"
    and w: "db_reserving (db_pc s t) = Some i" "db_reserving p = Some i \<or> db_reserving p = None"
    and buf: "length (db_buf s') = length (db_buf s)"
      "\<And>j. j < length (db_buf s) \<Longrightarrow> \<not> (i * db_entry_size C \<le> j \<and> j < (i + n) * db_entry_size C) \<Longrightarrow>
         db_buf s' ! j = db_buf s ! j"
    and s': "db_fun s' = (db_fun s)(i := a)" "db_pc s' = (db_pc s)(t := p)" and a: "drop_bit 56 a = 0"
    and new: "db_slot C (db_buf s') a (db_pc s') (i, n, e)"
  shows "db_tiles C s' lo hi L"
proof (rule db_tilesI)
  note D = db_tilesD [OF tl]
  let ?S = "db_entry_size C"
  fix k m d assume y: "(k, m, d) \<in> set L"
  show "db_slot C (db_buf s') (db_fun s' k) (db_pc s') (k, m, d)"
  proof (cases "k = i")
    case True
    then have "(k, m, d) = (i, n, e)" using tiling_inj [OF D(1) x, of m d] y by auto
    then show ?thesis using new s'(1) by simp
  next
    case False
    then have disj: "i + n \<le> k \<or> k + m \<le> i" using tiling_disjoint [OF D(1) x y] by auto
    have bound: "k + m \<le> db_entries C" using tiling_bounds [OF D(1) y] D(2) by simp
    have "db_slot C (db_buf s') (db_fun s k) (db_pc s') (k, m, d) =
          db_slot C (db_buf s) (db_fun s k) (db_pc s) (k, m, d)"
    proof (rule db_slot_cong [OF ok _ buf(1)])
      fix j assume j: "k * ?S \<le> j" "j < (k + m) * ?S"
      have "(k + m) * ?S \<le> db_entries C * ?S" using bound by (rule mult_le_mono1)
      moreover have "(i + n) * ?S \<le> k * ?S \<or> (k + m) * ?S \<le> i * ?S"
        using disj by (auto intro: mult_le_mono1)
      ultimately show "db_buf s' ! j = db_buf s ! j" using buf(2) [of j] j D(3) by linarith
    qed (use w False s' tiling_bounds [OF D(1) y] db_slot_req_of [OF tl y] in auto)
    then show ?thesis using D(4) [OF y] False by (simp add: s'(1))
  qed
next
  note D = db_tilesD [OF tl]
  fix k assume "lo \<le> k" "db_fun s' k \<noteq> 0"
  then show "\<exists>n e. (k, n, e) \<in> set L" using D(5) [of k] x by (cases "k = i") (auto simp: s')
next
  note D = db_tilesD [OF tl]
  fix u k assume "db_reserving (db_pc s' u) = Some k"
  then show "\<exists>n e. (k, n, e) \<in> set L" using D(6) [of u k] w x by (cases "u = t") (auto simp: s')
next
  note D = db_tilesD [OF tl]
  fix u v k assume "db_reserving (db_pc s' u) = Some k" "db_reserving (db_pc s' v) = Some k"
  then have "db_reserving (db_pc s u) = Some k" "db_reserving (db_pc s v) = Some k"
    using w by (auto simp: s' split: if_splits)
  then show "u = v" by (rule D(7))
qed (use db_tilesD [OF tl] buf(1) a in \<open>auto simp: s'\<close>)

text \<open>The first reservation is executed.\<close>

lemma db_tiles_exec:
  assumes tl: "db_tiles C s lo hi ((lo, n, e) # L)" and a: "db_fun s lo \<noteq> 0"
  shows "db_tiles C s (lo + n) hi L"
proof (rule db_tilesI)
  note D = db_tilesD [OF tl]
  have x: "(lo, n, e) \<in> set ((lo, n, e) # L)" by simp
  have free: "db_reserving (db_pc s t) \<noteq> Some lo" for t
    using D(4) [OF x] a by (cases e) auto
  have n: "0 < n" using tiling_bounds [OF D(1) x] by simp
  show "\<exists>m d. (i, m, d) \<in> set L" if "lo + n \<le> i" "db_fun s i \<noteq> 0" for i
    using D(5) [of i] that n by auto
  show "\<exists>m d. (i, m, d) \<in> set L" if "db_reserving (db_pc s t) = Some i" for t i
    using D(6) [OF that] free [of t] that by auto
qed (use db_tilesD [OF tl] in auto)

lemma db_tiles_empty:
  assumes tl: "db_tiles C s lo lo L" and le: "lo' \<le> db_entries C"
    and s': "\<And>i. i \<ge> lo \<Longrightarrow> db_fun s' i = db_fun s i" "\<And>i. i < lo \<Longrightarrow> db_fun s' i = 0"
      "db_buf s' = db_buf s" "db_pc s' = db_pc s"
  shows "db_tiles C s' lo' lo' []"
proof -
  note D = db_tilesD [OF tl]
  have L: "L = []" using tiling_empty [OF D(1)] .
  have z: "db_fun s' i = 0" for i
    using D(5) [of i] s'(1) [of i] s'(2) [of i] L by (cases "lo \<le> i") auto
  show ?thesis
    by (rule db_tilesI) (use D(3,6) le L z in \<open>auto simp: s'(3,4)\<close>)
qed

section \<open>The simulation: \<open>enqueue\<close>\<close>

lemma db_relE:
  assumes "db_rel C s q"
  obtains L where "db_tiles C s (db_lo (db_owner s)) (db_hi C s) L" "tq_pend q = resv_pending L"
    "db_owner_ok C s (db_hi C s) L (db_owner s)"
  using assms by (auto simp: db_rel_def)

lemma db_relD:
  assumes "db_rel C s q"
  shows "tq_open q = db_is_open (db_owner s)" "\<not> tq_open q \<Longrightarrow> db_entries C \<le> db_counter s"
    and "tq_calls q t = db_call (db_pc s t)" "db_pc_ok C (db_pc s t)"
  using assms by (auto simp: db_rel_def)

lemma db_owner_ok_frame:
  assumes "db_owner_ok C s hi L ow" and "\<And>i. db_fun s i \<noteq> 0 \<Longrightarrow> db_fun s' i = db_fun s i"
  shows "db_owner_ok C s' hi L ow"
  using assms by (cases ow) auto

lemma db_sim_init: "db_zeroed C M \<Longrightarrow> db_rel C (db_init C M) tq_init"
  by (auto simp: db_zeroed_def db_sized_def db_rel_def db_init_def tq_init_def db_tiles_def db_hi_def intro!: exI [of _ "[]"])

lemma db_sim_goto:
  assumes ok: "db_ok C" and rel: "db_rel C s q"
    and w: "db_reserving (db_pc s t) = None" "db_reserving p = None"
    and pok: "db_pc_ok C p" and q': "q' = q\<lparr>tq_calls := (tq_calls q)(t := db_call p)\<rparr>"
  shows "db_rel C (db_goto t p s) q'"
proof -
  obtain L where L: "db_tiles C s (db_lo (db_owner s)) (db_hi C s) L" "tq_pend q = resv_pending L"
    "db_owner_ok C s (db_hi C s) L (db_owner s)" using rel by (rule db_relE)
  have "db_tiles C (db_goto t p s) (db_lo (db_owner s)) (db_hi C s) L"
    by (rule db_tiles_pc [OF ok L(1) w]) (auto simp: db_goto_def)
  moreover have "db_owner_ok C (db_goto t p s) (db_hi C s) L (db_owner s)"
    by (rule db_owner_ok_frame [OF L(3)]) (simp add: db_goto_def)
  ultimately show ?thesis using db_relD [OF rel] pok q' L(2)
    by (auto simp: db_rel_def db_goto_def db_hi_def)
qed

lemma db_sim_work:
  assumes ok: "db_ok C" and rel: "db_rel C s q"
    and w: "db_reserving (db_pc s t) = Some i" "db_reserving p = Some i \<or> db_reserving p = None"
    and pok: "db_pc_ok C p"
    and s': "db_counter s' = db_counter s" "db_owner s' = db_owner s" "db_fun s' = (db_fun s)(i := a)"
      "db_pc s' = (db_pc s)(t := p)"
    and a: "drop_bit 56 a = 0" "db_fun s i = 0 \<or> a = db_fun s i"
    and work: "\<And>n e. \<lbrakk>db_slot C (db_buf s) (db_fun s i) (db_pc s) (i, n, e); 0 < n; i + n \<le> db_entries C;
        \<And>u. db_reserving (db_pc s u) = Some i \<Longrightarrow> u = t\<rbrakk> \<Longrightarrow>
      length (db_buf s') = length (db_buf s) \<and>
      (\<forall>j < length (db_buf s). \<not> (i * db_entry_size C \<le> j \<and> j < (i + n) * db_entry_size C) \<longrightarrow>
         db_buf s' ! j = db_buf s ! j) \<and>
      db_slot C (db_buf s') a (db_pc s') (i, n, e)"
  shows "db_rel C s' (q\<lparr>tq_calls := (tq_calls q)(t := db_call p)\<rparr>)"
proof -
  obtain L where L: "db_tiles C s (db_lo (db_owner s)) (db_hi C s) L" "tq_pend q = resv_pending L"
    "db_owner_ok C s (db_hi C s) L (db_owner s)" using rel by (rule db_relE)
  note D = db_tilesD [OF L(1)]
  obtain n e where x: "(i, n, e) \<in> set L" using D(6) [OF w(1)] by blast
  note W = work [OF D(4) [OF x]]
  have W': "length (db_buf s') = length (db_buf s) \<and>
      (\<forall>j < length (db_buf s). \<not> (i * db_entry_size C \<le> j \<and> j < (i + n) * db_entry_size C) \<longrightarrow>
         db_buf s' ! j = db_buf s ! j) \<and>
      db_slot C (db_buf s') a (db_pc s') (i, n, e)"
    by (rule W) (use tiling_bounds [OF D(1) x] D(2) D(7) [OF _ w(1)] in auto)
  have "db_tiles C s' (db_lo (db_owner s)) (db_hi C s) L"
    by (rule db_tiles_update [OF ok L(1) x w _ _ s'(3,4) a(1)]) (use W' in auto)
  moreover have "db_owner_ok C s' (db_hi C s) L (db_owner s)"
    by (rule db_owner_ok_frame [OF L(3)]) (use a(2) s'(3) in auto)
  ultimately show ?thesis using db_relD [OF rel] pok L(2)
    by (auto simp: db_rel_def db_hi_def s'(1,2,4))
qed

text \<open>A thread that has a reservation finds its function pointer still null.\<close>

lemma db_working:
  assumes "db_slot C b a pc (i, n, e)" and "db_reserving (pc t) = Some i"
  shows "a = 0"
  using assms by (cases e) auto

lemma db_own_fun:
  assumes "db_rel C s q" and "db_reserving (db_pc s t) = Some i"
  shows "db_fun s i = 0"
proof -
  obtain L where L: "db_tiles C s (db_lo (db_owner s)) (db_hi C s) L" using assms(1) by (rule db_relE)
  note D = db_tilesD [OF L]
  obtain n e where x: "(i, n, e) \<in> set L" using D(6) [OF assms(2)] by blast
  show ?thesis by (rule db_working [OF D(4) [OF x] assms(2)])
qed

lemma db_sim_fetch:
  assumes ok: "db_ok C" and rel: "db_rel C s q" and pc: "db_pc s t = DbFetch f ps ix"
    and st: "db_enqueue C t s = Some s'"
  shows "\<exists>q'. run tq_step (db_events C s (QGo t)) q = Some q' \<and> db_rel C s' q'"
proof (cases "db_policy C = use_fetch_and_add \<or> db_counter s = ix")
  case False
  then have s': "s' = db_goto t (DbFetch f ps (db_counter s)) s"
    using st by (simp add: db_enqueue_def pc)
  have "db_rel C s' (q\<lparr>tq_calls := (tq_calls q)(t := db_call (DbFetch f ps (db_counter s)))\<rparr>)"
    unfolding s' by (rule db_sim_goto [OF ok rel]) (use db_relD(4) [OF rel, of t] pc in auto)
  moreover have "q\<lparr>tq_calls := (tq_calls q)(t := TqCalled (f, ps))\<rparr> = q"
    using db_relD(3) [OF rel, of t] pc by (simp add: fun_upd_idem)
  ultimately show ?thesis using False by (simp add: pc)
next
  case True
  note D = db_relD [OF rel]
  let ?n = "db_counter s" and ?r = "db_req C f"
  have s': "s' = db_goto t (db_reserved C f ps ?n) (s\<lparr>db_counter := ?n + ?r\<rparr>)"
    using st True by (simp add: db_enqueue_def pc)
  obtain L where L: "db_tiles C s (db_lo (db_owner s)) (db_hi C s) L" "tq_pend q = resv_pending L"
    "db_owner_ok C s (db_hi C s) L (db_owner s)" using rel by (rule db_relE)
  have fits: "map length ps = db_sizes C f" using D(4) [of t] pc by simp
  note lim = db_limit [OF ok, of f] and pos = db_req_pos [OF ok, of f] and le = db_okD(3) [OF ok, of f]
  have wn: "db_reserving (db_pc s t) = None" by (simp add: pc)
  show ?thesis
  proof (cases "?n < db_entries C")
    case below: True
    then have opn: "db_is_open (db_owner s)" "tq_open q" using D(1,2) by auto
    have hi: "db_hi C s = ?n" using below opn by (simp add: db_hi_def)
    define acc where "acc \<longleftrightarrow> ?n \<le> db_entries C - ?r"
    define n where "n = (if acc then ?r else db_entries C - ?n)"
    define e where "e = (if acc then Some (f, ps) else None)"
    define p where "p = (if acc then DbSize f ps ?n else DbFill f ps ?n)"
    have p: "db_reserved C f ps ?n = p" using below lim by (simp add: db_reserved_def p_def acc_def)
    have n: "0 < n" "?n + n \<le> db_entries C" using below pos le by (auto simp: n_def acc_def)
    have hi': "db_hi C s' = ?n + n"
      using opn below le by (auto simp: db_hi_def s' db_goto_def n_def acc_def)
    have new: "db_slot C (db_buf s) 0 ((db_pc s)(t := p)) (?n, n, e)"
      using fits by (auto simp: n_def e_def p_def)
    have "db_tiles C s' (db_lo (db_owner s)) (?n + n) (L @ [(?n, n, e)])"
      by (rule db_tiles_fetch [OF ok L(1) [unfolded hi] n wn _ _ _ _ new])
        (auto simp: s' p db_goto_def p_def)
    moreover have "db_owner_ok C s' (?n + n) (L @ [(?n, n, e)]) (db_owner s)"
      using L(3) opn(1) n(1) resv_boundary_snoc [of _ ?n _ L n e] unfolding hi
      by (cases "db_owner s") (auto simp: s' db_goto_def)
    moreover have "db_pc_ok C p" using fits by (simp add: p_def)
    ultimately have "db_rel C s' (q\<lparr>tq_pend := tq_pend q @ resv_pending [(?n, n, e)], tq_calls := (tq_calls q)(t := db_call p)\<rparr>)"
      using D L(2) hi' opn unfolding db_rel_def by (auto simp: s' p db_goto_def resv_pending_append)
    moreover have "run tq_step (db_events C s (QGo t)) q =
        Some (q\<lparr>tq_pend := tq_pend q @ resv_pending [(?n, n, e)], tq_calls := (tq_calls q)(t := db_call p)\<rparr>)"
    proof (cases acc)
      case True2: True
      then show ?thesis using True lim opn D(3) [of t] by (simp add: pc e_def p_def acc_def [symmetric])
    next
      case False
      then show ?thesis using True lim below D(3) [of t]
        by (simp add: pc e_def p_def acc_def [symmetric] fun_upd_idem)
    qed
    ultimately show ?thesis by blast
  next
    case above: False
    have p: "db_reserved C f ps ?n = DbIdle" and no: "\<not> ?n \<le> db_entries C - ?r"
      using above lim pos le by (auto simp: db_reserved_def)
    let ?s = "s\<lparr>db_counter := ?n + ?r\<rparr>"
    have hi: "db_hi C ?s = db_hi C s" using above by (simp add: db_hi_def)
    have "db_rel C ?s q"
      unfolding db_rel_def hi using D L above db_tiles_frame [of ?s s C]
        db_owner_ok_frame [OF L(3), of ?s] by auto
    then have "db_rel C s' (q\<lparr>tq_calls := (tq_calls q)(t := TqNone)\<rparr>)"
      unfolding s' p by (rule db_sim_goto [OF ok]) (simp_all add: pc)
    then show ?thesis using True above no lim D(3) [of t] by (simp add: pc)
  qed
qed

lemma db_storeD:
  assumes st: "db_store off bs t p s = Some s'" and r: "i * S \<le> off" "off + length bs \<le> (i + n) * S"
  shows "\<exists>b. s' = db_goto t p (s\<lparr>db_buf := b\<rparr>) \<and> write_bytes off bs (db_buf s) = Some b \<and>
     length b = length (db_buf s) \<and>
     (\<forall>j < length (db_buf s). \<not> (i * S \<le> j \<and> j < (i + n) * S) \<longrightarrow> b ! j = db_buf s ! j)"
proof -
  obtain b where b: "write_bytes off bs (db_buf s) = Some b" "s' = db_goto t p (s\<lparr>db_buf := b\<rparr>)"
    using st by (auto simp: db_store_def split: option.splits)
  have "b ! j = db_buf s ! j" if "j < length (db_buf s)" "\<not> (i * S \<le> j \<and> j < (i + n) * S)" for j
    using write_bytes_nth [OF b(1) that(1)] that(2) r by auto
  then show ?thesis using b write_bytes_length [OF b(1)] by blast
qed

text \<open>Size fields and parameters that a store leaves alone.\<close>

lemma db_has_size_write:
  "write_bytes (i * db_entry_size C) (u32_bytes n) b = Some b' \<Longrightarrow> db_has_size C b' i n"
  unfolding db_has_size_def using read_write_bytes by fastforce

lemma db_keep_size:
  assumes "write_bytes off bs b = Some b'" and "i * db_entry_size C + 4 \<le> off" and "db_has_size C b i n"
  shows "db_has_size C b' i n"
proof -
  note len = write_bytes_length [OF assms(1)]
  have "i * db_entry_size C + 4 \<le> length b" using assms(3) by (simp add: db_has_size_def read_bytes_eq_iff)
  then have "read_bytes (i * db_entry_size C) 4 b' = read_bytes (i * db_entry_size C) 4 b"
    using assms(2) by (intro read_bytes_cong [OF len]) (simp add: write_bytes_nth [OF assms(1)])
  then show ?thesis using assms(3) by (simp add: db_has_size_def)
qed

lemma db_write_param:
  assumes w: "write_bytes (i * db_entry_size C + 4 + sumsizes (map length (take k ps))) (ps ! k) b = Some b'"
    and k: "k < length ps" and has: "db_has_params C b i (take k ps)"
  shows "db_has_params C b' i (take (k + 1) ps)"
proof -
  let ?off = "i * db_entry_size C + 4" and ?ns = "map length (take k ps)"
  note len = write_bytes_length [OF w]
  have fit: "?off + sumsizes ?ns + length (ps ! k) \<le> length b"
    using w by (simp add: write_bytes_def split: if_splits)
  have "unroll ?ns b' ?off [] = unroll ?ns b ?off []"
    using fit by (intro unroll_cong [OF len]) (simp add: write_bytes_nth [OF w])
  then have "unroll (map length (take (k + 1) ps)) b' ?off [] =
      Some (take (k + 1) ps, ?off + sumsizes (map length (take (k + 1) ps)))"
    using has k read_write_bytes [OF w]
    by (simp add: db_has_params_def take_Suc_conv_app_nth unroll_snoc)
  then show ?thesis by (simp add: db_has_params_def)
qed

lemma db_fun_upd_same: "db_fun s i = 0 \<Longrightarrow> (db_fun s)(i := 0) = db_fun s"
  by (auto simp: fun_eq_iff)

lemma db_entry_room:
  assumes "db_ok C" and "0 < n"
  shows "i * db_entry_size C + 4 \<le> (i + n) * db_entry_size C"
proof -
  have "1 * 4 \<le> n * db_entry_size C" using assms db_okD(2) by (intro mult_le_mono) auto
  then show ?thesis by (simp add: add_mult_distrib)
qed

text \<open>What the program counter of a thread says of its reservation.\<close>

lemma db_slot_of:
  assumes ok: "db_ok C" and sl: "db_slot C b 0 pc (i, n, e)"
    and only: "\<And>u. db_reserving (pc u) = Some i \<Longrightarrow> u = t"
  shows "pc t = DbSize f ps i \<Longrightarrow> e = Some (f, ps) \<and> n = db_req C f \<and> map length ps = db_sizes C f"
    and "pc t = DbWrite f ps i k \<Longrightarrow> e = Some (f, ps) \<and> n = db_req C f \<and> map length ps = db_sizes C f \<and>
           k \<le> length ps \<and> db_has_size C b i n \<and> db_has_params C b i (take k ps)"
    and "pc t = DbFill f ps i \<Longrightarrow> e = None \<and> n = db_entries C - i"
    and "pc t = DbNoOp f ps i \<Longrightarrow> e = None \<and> n = db_entries C - i \<and> db_has_size C b i n"
proof -
  have nz: "0 \<noteq> db_addr C g" "0 \<noteq> db_no_op C" for g using db_okD(6,7) [OF ok] by metis+
  have at: "pc u = DbSize g qs i \<Longrightarrow> pc t = DbSize g qs i" "pc u = DbWrite g qs i k' \<Longrightarrow> pc t = DbWrite g qs i k'"
    "pc u = DbFill g qs i \<Longrightarrow> pc t = DbFill g qs i" "pc u = DbNoOp g qs i \<Longrightarrow> pc t = DbNoOp g qs i" for u g qs k'
    using only [of u] by auto
  have "(\<exists>g qs. e = Some (g, qs) \<and> n = db_req C g \<and> map length qs = db_sizes C g \<and>
          (pc t = DbSize g qs i \<or>
           (\<exists>k. pc t = DbWrite g qs i k \<and> k \<le> length qs \<and> db_has_size C b i n \<and> db_has_params C b i (take k qs)))) \<or>
        e = None \<and> n = db_entries C - i \<and>
          (\<exists>g qs. pc t = DbFill g qs i \<or> pc t = DbNoOp g qs i \<and> db_has_size C b i n)"
  proof (cases e)
    case None
    then have "n = db_entries C - i" "(\<exists>u g qs. pc u = DbFill g qs i) \<or> (\<exists>u g qs. pc u = DbNoOp g qs i \<and> db_has_size C b i n)"
      using sl nz by auto
    then show ?thesis using None at(3,4) by blast
  next
    case (Some x)
    then obtain g qs where x: "e = Some (g, qs)" by (cases x) auto
    let ?written = "\<lambda>k. k \<le> length qs \<and> db_has_size C b i n \<and> db_has_params C b i (take k qs)"
    have n: "n = db_req C g" "map length qs = db_sizes C g"
      and "(\<exists>u. pc u = DbSize g qs i) \<or> (\<exists>u k. pc u = DbWrite g qs i k \<and> ?written k)"
      using sl nz x by auto
    then have "pc t = DbSize g qs i \<or> (\<exists>k. pc t = DbWrite g qs i k \<and> ?written k)"
      using at(1,2) by meson
    then show ?thesis using x n by simp
  qed
  note facts = this
  show "e = Some (f, ps) \<and> n = db_req C f \<and> map length ps = db_sizes C f" if "pc t = DbSize f ps i"
    using facts unfolding that by auto
  show "e = Some (f, ps) \<and> n = db_req C f \<and> map length ps = db_sizes C f \<and>
           k \<le> length ps \<and> db_has_size C b i n \<and> db_has_params C b i (take k ps)" if "pc t = DbWrite f ps i k"
    using facts unfolding that by auto
  show "e = None \<and> n = db_entries C - i" if "pc t = DbFill f ps i"
    using facts unfolding that by auto
  show "e = None \<and> n = db_entries C - i \<and> db_has_size C b i n" if "pc t = DbNoOp f ps i"
    using facts unfolding that by auto
qed

text \<open>A store of a thread into its reservation; \<open>kept\<close> is what the store leads to.\<close>

lemma db_sim_store:
  assumes ok: "db_ok C" and rel: "db_rel C s q" and i: "db_reserving (db_pc s t) = Some i"
    and p: "db_reserving p = Some i" and pok: "db_pc_ok C p" and st: "db_store off bs t p s = Some s'"
    and kept: "\<And>n e b. \<lbrakk>db_slot C (db_buf s) 0 (db_pc s) (i, n, e); 0 < n; i + n \<le> db_entries C;
        \<And>u. db_reserving (db_pc s u) = Some i \<Longrightarrow> u = t; write_bytes off bs (db_buf s) = Some b\<rbrakk> \<Longrightarrow>
      i * db_entry_size C \<le> off \<and> off + length bs \<le> (i + n) * db_entry_size C \<and>
      db_slot C b 0 ((db_pc s)(t := p)) (i, n, e)"
  shows "db_rel C s' (q\<lparr>tq_calls := (tq_calls q)(t := db_call p)\<rparr>)"
proof -
  let ?S = "db_entry_size C"
  have z: "db_fun s i = 0" by (rule db_own_fun [OF rel i])
  obtain b where b: "write_bytes off bs (db_buf s) = Some b" "s' = db_goto t p (s\<lparr>db_buf := b\<rparr>)"
    using st by (auto simp: db_store_def split: option.splits)
  show ?thesis
  proof (rule db_sim_work [OF ok rel i, of _ _ 0])
    fix n e assume sl: "db_slot C (db_buf s) (db_fun s i) (db_pc s) (i, n, e)" "0 < n" "i + n \<le> db_entries C"
      and only: "\<And>u. db_reserving (db_pc s u) = Some i \<Longrightarrow> u = t"
    have k: "i * ?S \<le> off" "off + length bs \<le> (i + n) * ?S" "db_slot C b 0 ((db_pc s)(t := p)) (i, n, e)"
      using kept [OF sl(1) [unfolded z] sl(2,3) only b(1)] by auto
    from db_storeD [OF st k(1,2)] show "length (db_buf s') = length (db_buf s) \<and>
      (\<forall>j < length (db_buf s). \<not> (i * ?S \<le> j \<and> j < (i + n) * ?S) \<longrightarrow> db_buf s' ! j = db_buf s ! j) \<and>
      db_slot C (db_buf s') 0 (db_pc s') (i, n, e)"
      using b k(3) by (auto simp: db_goto_def)
  qed (use b p pok z in \<open>auto simp: db_goto_def db_fun_upd_same\<close>)
qed

lemma db_sim_size:
  assumes ok: "db_ok C" and rel: "db_rel C s q" and pc: "db_pc s t = DbSize f ps i"
    and st: "db_enqueue C t s = Some s'"
  shows "db_rel C s' (q\<lparr>tq_calls := (tq_calls q)(t := TqAccepted (f, ps))\<rparr>)"
proof -
  have "db_rel C s' (q\<lparr>tq_calls := (tq_calls q)(t := db_call (DbWrite f ps i 0))\<rparr>)"
  proof (rule db_sim_store [OF ok rel])
    show "db_store (i * db_entry_size C) (u32_bytes (db_req C f)) t (DbWrite f ps i 0) s = Some s'"
      using st by (simp add: db_enqueue_def pc)
    fix n e b
    assume sl: "db_slot C (db_buf s) 0 (db_pc s) (i, n, e)" "0 < n"
      and only: "\<And>u. db_reserving (db_pc s u) = Some i \<Longrightarrow> u = t"
      and b: "write_bytes (i * db_entry_size C) (u32_bytes (db_req C f)) (db_buf s) = Some b"
    show "i * db_entry_size C \<le> i * db_entry_size C \<and>
      i * db_entry_size C + length (u32_bytes (db_req C f)) \<le> (i + n) * db_entry_size C \<and>
      db_slot C b 0 ((db_pc s)(t := DbWrite f ps i 0)) (i, n, e)"
      using db_slot_of(1) [OF ok sl(1) only pc] db_has_size_write [OF b] db_entry_room [OF ok sl(2), of i]
      by (auto simp: db_has_params_def intro!: exI [of _ t])
  qed (use db_relD(4) [OF rel, of t] in \<open>auto simp: pc\<close>)
  then show ?thesis by simp
qed

lemma db_sim_fill:
  assumes ok: "db_ok C" and rel: "db_rel C s q" and pc: "db_pc s t = DbFill f ps i"
    and st: "db_enqueue C t s = Some s'"
  shows "db_rel C s' (q\<lparr>tq_calls := (tq_calls q)(t := TqCalled (f, ps))\<rparr>)"
proof -
  have "db_rel C s' (q\<lparr>tq_calls := (tq_calls q)(t := db_call (DbNoOp f ps i))\<rparr>)"
  proof (rule db_sim_store [OF ok rel])
    show "db_store (i * db_entry_size C) (u32_bytes (db_entries C - i)) t (DbNoOp f ps i) s = Some s'"
      using st by (simp add: db_enqueue_def pc)
    fix n e b
    assume sl: "db_slot C (db_buf s) 0 (db_pc s) (i, n, e)" "0 < n"
      and only: "\<And>u. db_reserving (db_pc s u) = Some i \<Longrightarrow> u = t"
      and b: "write_bytes (i * db_entry_size C) (u32_bytes (db_entries C - i)) (db_buf s) = Some b"
    show "i * db_entry_size C \<le> i * db_entry_size C \<and>
      i * db_entry_size C + length (u32_bytes (db_entries C - i)) \<le> (i + n) * db_entry_size C \<and>
      db_slot C b 0 ((db_pc s)(t := DbNoOp f ps i)) (i, n, e)"
      using db_slot_of(3) [OF ok sl(1) only pc] db_has_size_write [OF b] db_entry_room [OF ok sl(2), of i]
      by (auto intro!: exI [of _ t])
  qed (use db_relD(4) [OF rel, of t] in \<open>auto simp: pc\<close>)
  then show ?thesis by simp
qed

lemma db_sim_param:
  assumes ok: "db_ok C" and rel: "db_rel C s q" and pc: "db_pc s t = DbWrite f ps i k" and k: "k < length ps"
    and st: "db_enqueue C t s = Some s'"
  shows "db_rel C s' (q\<lparr>tq_calls := (tq_calls q)(t := TqAccepted (f, ps))\<rparr>)"
proof -
  let ?S = "db_entry_size C" and ?n = "sumsizes (map length (take k ps))"
  have "db_rel C s' (q\<lparr>tq_calls := (tq_calls q)(t := db_call (DbWrite f ps i (k + 1)))\<rparr>)"
  proof (rule db_sim_store [OF ok rel])
    show "db_store (i * ?S + 4 + ?n) (ps ! k) t (DbWrite f ps i (k + 1)) s = Some s'"
      using st k by (simp add: db_enqueue_def pc)
    fix n e b
    assume sl: "db_slot C (db_buf s) 0 (db_pc s) (i, n, e)"
      and only: "\<And>u. db_reserving (db_pc s u) = Some i \<Longrightarrow> u = t"
      and b: "write_bytes (i * ?S + 4 + ?n) (ps ! k) (db_buf s) = Some b"
    have S: "e = Some (f, ps)" "n = db_req C f" "map length ps = db_sizes C f" "db_has_size C (db_buf s) i n"
        "db_has_params C (db_buf s) i (take k ps)"
      using db_slot_of(2) [OF ok sl only pc] by auto
    have "4 + ?n + length (ps ! k) \<le> n * ?S"
      using sumsizes_take_le [OF k] db_req_room [OF ok, of f] S(2,3) by simp
    moreover have "db_slot C b 0 ((db_pc s)(t := DbWrite f ps i (k + 1))) (i, n, e)"
      using S db_keep_size [OF b _ S(4)] db_write_param [OF b k S(5)] k by (auto intro!: exI [of _ t])
    ultimately show "i * ?S \<le> i * ?S + 4 + ?n \<and> i * ?S + 4 + ?n + length (ps ! k) \<le> (i + n) * ?S \<and>
      db_slot C b 0 ((db_pc s)(t := DbWrite f ps i (k + 1))) (i, n, e)"
      by (simp add: add_mult_distrib)
  qed (use db_relD(4) [OF rel, of t] in \<open>auto simp: pc\<close>)
  then show ?thesis by simp
qed

text \<open>The two publications.\<close>

lemma db_sim_publish:
  assumes ok: "db_ok C" and rel: "db_rel C s q"
    and pc: "db_pc s t = DbWrite f ps i (length ps) \<and> a = db_addr C f \<or> db_pc s t = DbNoOp f ps i \<and> a = db_no_op C"
    and s': "s' = db_goto t DbIdle (s\<lparr>db_fun := (db_fun s)(i := a)\<rparr>)"
  shows "db_rel C s' (q\<lparr>tq_calls := (tq_calls q)(t := TqNone)\<rparr>)"
proof -
  have i: "db_reserving (db_pc s t) = Some i" using pc by auto
  have z: "db_fun s i = 0" by (rule db_own_fun [OF rel i])
  have "db_rel C s' (q\<lparr>tq_calls := (tq_calls q)(t := db_call DbIdle)\<rparr>)"
  proof (rule db_sim_work [OF ok rel i, of _ _ a])
    show "drop_bit 56 a = 0" using pc db_okD(8) [OF ok, of f] db_okD(9) [OF ok] by auto
    fix n e assume sl: "db_slot C (db_buf s) (db_fun s i) (db_pc s) (i, n, e)"
      and only: "\<And>u. db_reserving (db_pc s u) = Some i \<Longrightarrow> u = t"
    have "\<forall>u. db_reserving (((db_pc s)(t := DbIdle)) u) \<noteq> Some i" using only by auto
    then have "db_slot C (db_buf s) a ((db_pc s)(t := DbIdle)) (i, n, e)"
      using pc db_slot_of(2) [OF ok sl [unfolded z] only, of f ps "length ps"]
        db_slot_of(4) [OF ok sl [unfolded z] only, of f ps] by auto
    then show "length (db_buf s') = length (db_buf s) \<and>
      (\<forall>j < length (db_buf s). \<not> (i * db_entry_size C \<le> j \<and> j < (i + n) * db_entry_size C) \<longrightarrow>
         db_buf s' ! j = db_buf s ! j) \<and>
      db_slot C (db_buf s') a (db_pc s') (i, n, e)"
      by (simp add: s' db_goto_def)
  qed (use z in \<open>auto simp: s' db_goto_def\<close>)
  then show ?thesis by simp
qed

lemma db_write_le:
  assumes "db_ok C" and "db_rel C s q" and "db_pc s t = DbWrite f ps i k"
  shows "k \<le> length ps"
proof -
  obtain L where L: "db_tiles C s (db_lo (db_owner s)) (db_hi C s) L" using assms(2) by (rule db_relE)
  note D = db_tilesD [OF L]
  have i: "db_reserving (db_pc s t) = Some i" using assms(3) by simp
  obtain n e where x: "(i, n, e) \<in> set L" using D(6) [OF i] by blast
  have "db_slot C (db_buf s) 0 (db_pc s) (i, n, e)" using D(4) [OF x] db_own_fun [OF assms(2) i] by simp
  from db_slot_of(2) [OF assms(1) this D(7) [OF _ i] assms(3)] show ?thesis by simp
qed

lemma db_sim_thread:
  assumes ok: "db_ok C" and rel: "db_rel C s q" and st: "db_enqueue C t s = Some s'"
  shows "\<exists>q'. run tq_step (db_events C s (QGo t)) q = Some q' \<and> db_rel C s' q'"
proof (cases "db_pc s t")
  note D = db_relD [OF rel]
  have same: "tq_calls q t = c \<Longrightarrow> q\<lparr>tq_calls := (tq_calls q)(t := c)\<rparr> = q" for c
    by (simp add: fun_upd_idem)
  {
    case DbIdle
    then show ?thesis using st by (simp add: db_enqueue_def)
  next
    case (DbLoad f ps)
    let ?b = "db_counter s > usub32 (db_entries C) (db_req C f)"
    have s': "s' = db_goto t (if ?b then DbIdle else DbFetch f ps (db_counter s)) s"
      using st by (simp add: db_enqueue_def DbLoad Let_def)
    have "db_rel C s' (q\<lparr>tq_calls := (tq_calls q)(t := db_call (if ?b then DbIdle else DbFetch f ps (db_counter s)))\<rparr>)"
      unfolding s' by (rule db_sim_goto [OF ok rel]) (use D(4) [of t] in \<open>auto simp: DbLoad\<close>)
    then show ?thesis using D(3) [of t] same [of "TqCalled (f, ps)"] by (auto simp: DbLoad)
  next
    case (DbFetch f ps ix)
    then show ?thesis by (rule db_sim_fetch [OF ok rel _ st])
  next
    case (DbSize f ps i)
    then show ?thesis using db_sim_size [OF ok rel DbSize st] D(3) [of t] same [of "TqAccepted (f, ps)"] by simp
  next
    case (DbWrite f ps i k)
    show ?thesis
    proof (cases "k < length ps")
      case True
      then show ?thesis using db_sim_param [OF ok rel DbWrite True st] D(3) [of t]
          same [of "TqAccepted (f, ps)"] by (simp add: DbWrite)
    next
      case False
      then have k: "k = length ps" using db_write_le [OF ok rel DbWrite] by simp
      have "s' = db_goto t DbIdle (s\<lparr>db_fun := (db_fun s)(i := db_addr C f)\<rparr>)"
        using st False by (auto simp: db_enqueue_def DbWrite split: if_splits)
      from db_sim_publish [OF ok rel _ this] show ?thesis using D(3) [of t] DbWrite k by simp
    qed
  next
    case (DbFill f ps i)
    then show ?thesis using db_sim_fill [OF ok rel DbFill st] D(3) [of t] same [of "TqCalled (f, ps)"] by simp
  next
    case (DbNoOp f ps i)
    have "s' = db_goto t DbIdle (s\<lparr>db_fun := (db_fun s)(i := db_no_op C)\<rparr>)"
      using st by (auto simp: db_enqueue_def DbNoOp split: if_splits)
    from db_sim_publish [OF ok rel _ this] show ?thesis using D(3) [of t] DbNoOp by simp
  }
qed

section \<open>The simulation: the owner\<close>

lemma db_sim_owner:
  assumes rel: "db_rel C s q"
    and same: "db_fun s' = db_fun s" "db_buf s' = db_buf s" "db_pc s' = db_pc s"
    and q': "q' = q\<lparr>tq_open := db_is_open (db_owner s'), tq_pend := resv_pending L\<rparr>"
    and closed: "\<not> db_is_open (db_owner s') \<Longrightarrow> db_entries C \<le> db_counter s'"
    and ok: "db_owner_ok C s' (db_hi C s') L (db_owner s')"
    and tl: "db_tiles C s (db_lo (db_owner s')) (db_hi C s') L"
  shows "db_rel C s' q'"
  using db_relD [OF rel] q' closed ok tl db_tiles_frame [OF same]
  by (auto simp: db_rel_def same)

lemma db_same_id: "tq_open q = b \<Longrightarrow> tq_pend q = l \<Longrightarrow> q = q\<lparr>tq_open := b, tq_pend := l\<rparr>"
  by simp

lemma db_for_ok:
  assumes tl: "db_tiles C s i H L" and b: "resv_boundary i H todo L" and le: "i \<le> todo"
    and H: "if opn then H = min (db_counter s') (db_entries C) else H = todo"
    and s': "db_owner s' = db_for opn i todo"
  shows "db_is_open (db_owner s') = opn" "db_owner_ok C s' (db_hi C s') L (db_owner s')"
    and "db_tiles C s (db_lo (db_owner s')) (db_hi C s') L"
proof -
  have hi: "db_hi C s' = H" using H le by (auto simp: s' db_for_def db_hi_def split: if_splits)
  show "db_is_open (db_owner s') = opn" by (simp add: s' db_for_def)
  show "db_owner_ok C s' (db_hi C s') L (db_owner s')" using b by (simp add: s' db_for_def hi)
  show "db_tiles C s (db_lo (db_owner s')) (db_hi C s') L" using tl le by (auto simp: s' db_for_def hi)
qed

lemma db_sim_load:
  assumes rel: "db_rel C s q" and ow: "db_owner s = DwLoad d" and st: "db_flush C s = Some s'"
  shows "\<exists>q'. run tq_step (db_events C s QOwner) q = Some q' \<and> db_rel C s' q'"
proof -
  note D = db_relD [OF rel]
  obtain L where L: "db_tiles C s d (min (db_counter s) (db_entries C)) L" "tq_pend q = resv_pending L"
    using rel by (rule db_relE) (simp add: ow db_hi_def)
  note T = db_tilesD [OF L(1)]
  have opn: "tq_open q" using D(1) by (simp add: ow)
  have d: "d \<le> min (db_counter s) (db_entries C)" by (rule tiling_le [OF T(1)])
  note refl = resv_boundary_refl [OF T(1)]
  consider "db_counter s = d" | "db_counter s \<noteq> d" "db_entries C \<le> db_counter s"
    | "db_counter s \<noteq> d" "\<not> db_entries C \<le> db_counter s" by blast
  then show ?thesis
  proof cases
    case 1
    then have s': "s' = s\<lparr>db_owner := DwXchg d\<rparr>" using st by (simp add: db_flush_def ow)
    have "db_rel C s' q"
      by (rule db_sim_owner [OF rel _ _ _ db_same_id]) (use L opn in \<open>auto simp: s' db_hi_def\<close>)
    then show ?thesis using 1 by (simp add: ow)
  next
    case 2
    then have s': "s' = s\<lparr>db_owner := db_for False d (db_entries C)\<rparr>" using st by (simp add: db_flush_def ow)
    have m: "min (db_counter s) (db_entries C) = db_entries C" using 2 by simp
    note F = db_for_ok [OF L(1) [unfolded m] refl [unfolded m], of False s']
    have "db_rel C s' (q\<lparr>tq_open := False\<rparr>)"
      by (rule db_sim_owner [OF rel, of _ _ L]) (use F L d 2 in \<open>auto simp: s'\<close>)
    then show ?thesis using 2 opn by (simp add: ow)
  next
    case 3
    then have s': "s' = s\<lparr>db_owner := db_for True d (db_counter s)\<rparr>" using st by (simp add: db_flush_def ow)
    have m: "min (db_counter s) (db_entries C) = db_counter s" using 3 by simp
    have F: "db_is_open (db_owner s') = True" "db_owner_ok C s' (db_hi C s') L (db_owner s')"
      "db_tiles C s (db_lo (db_owner s')) (db_hi C s') L"
      using d 3 by (intro db_for_ok [OF L(1) [unfolded m] refl [unfolded m]]; simp add: s')+
    have same: "db_fun s' = db_fun s" "db_buf s' = db_buf s" "db_pc s' = db_pc s" by (simp_all add: s')
    have "db_rel C s' q"
      by (rule db_sim_owner [OF rel same db_same_id _ F(2,3)]) (use F(1) L(2) opn in simp_all)
    then show ?thesis using 3 by (simp add: ow)
  qed
qed

lemma db_sim_xchg:
  assumes rel: "db_rel C s q" and ow: "db_owner s = DwXchg d" and st: "db_flush C s = Some s'"
  shows "\<exists>q'. run tq_step (db_events C s QOwner) q = Some q' \<and> db_rel C s' q'"
proof -
  note D = db_relD [OF rel]
  let ?m = "if db_entries C \<le> db_counter s then db_entries C else db_counter s"
  have m: "min (db_counter s) (db_entries C) = ?m" by simp
  obtain L where L: "db_tiles C s d ?m L" "tq_pend q = resv_pending L"
    using rel by (rule db_relE) (simp add: ow db_hi_def m)
  note T = db_tilesD [OF L(1)]
  have s': "s' = s\<lparr>db_counter := db_entries C, db_owner := db_for False d ?m\<rparr>"
    using st by (simp add: db_flush_def ow Let_def)
  note F = db_for_ok [OF L(1) resv_boundary_refl [OF T(1)] tiling_le [OF T(1)], of False s']
  have "db_rel C s' (q\<lparr>tq_open := False\<rparr>)"
    by (rule db_sim_owner [OF rel, of _ _ L]) (use F L in \<open>auto simp: s'\<close>)
  then show ?thesis using D(1) by (simp add: ow)
qed

lemma db_sim_call:
  assumes ok: "db_ok C" and rel: "db_rel C s q" and ow: "db_owner s = DwCall opn i todo a"
    and st: "db_flush C s = Some s'"
  shows "\<exists>q'. run tq_step (db_events C s QOwner) q = Some q' \<and> db_rel C s' q'"
proof -
  note D = db_relD [OF rel]
  obtain L where L: "db_tiles C s i (db_hi C s) L" "tq_pend q = resv_pending L"
    "i < todo" "resv_boundary i (db_hi C s) todo L" "db_fun s i = a" "a \<noteq> 0"
    using rel by (rule db_relE) (simp add: ow)
  note T = db_tilesD [OF L(1)]
  obtain L1 L2 where "L = L1 @ L2" "tiling i todo L1" using L(4) by (auto simp: resv_boundary_def)
  then obtain x L' where "L = x # L'" using L(3) by (cases L1) auto
  then obtain n e where L': "L = (i, n, e) # L'" using T(1) by (cases x) auto
  have x: "(i, n, e) \<in> set L" by (simp add: L')
  have slot: "db_slot C (db_buf s) a (db_pc s) (i, n, e)" using T(4) [OF x] L(5) by simp
  then have size: "read_bytes (i * db_entry_size C) 4 (db_buf s) = Some (u32_bytes n)"
    using L(6) by (cases e) (auto simp: db_has_size_def)
  have n: "u32_of (u32_bytes n) = n"
    using tiling_bounds [OF T(1) x] T(2) db_okD(1) [OF ok] by (intro u32_roundtrip) simp
  have s': "s' = s\<lparr>db_owner := db_for opn (i + n) todo\<rparr>"
    using st by (auto simp: db_flush_def ow size n split: if_splits option.splits)
  have tl: "db_tiles C s (i + n) (db_hi C s) L'"
    using db_tiles_exec [of C s i "db_hi C s" n e L'] L(1,5,6) L' by simp
  note tail = resv_boundary_tail [OF L(4) [unfolded L'] L(3)]
  have H: "if opn then db_hi C s = min (db_counter s') (db_entries C) else db_hi C s = todo"
    by (simp add: db_hi_def ow s')
  note F = db_for_ok [OF tl tail H]
  have rel': "db_rel C s' (q\<lparr>tq_pend := resv_pending L'\<rparr>)"
    by (rule db_sim_owner [OF rel, of _ _ L']) (use F D(1,2) in \<open>auto simp: s' ow\<close>)
  have "run tq_step (db_events C s QOwner) q = Some (q\<lparr>tq_pend := resv_pending L'\<rparr>)"
  proof (cases e)
    case None
    then have "a = db_no_op C" using slot L(6) by simp
    then show ?thesis using L(2) L' None by (simp add: ow)
  next
    case (Some y)
    then obtain f ps where e: "e = Some (f, ps)" by (cases y) auto
    then have a: "a = db_addr C f" "db_has_params C (db_buf s) i ps" "map length ps = db_sizes C f"
      using slot L(6) by auto
    then have "unroll (db_sizes C f) (db_buf s) (i * db_entry_size C + 4) [] =
        Some (ps, i * db_entry_size C + 4 + sumsizes (map length ps))"
      by (simp add: db_has_params_def)
    then show ?thesis using L(2) L' e a db_okD(4,5) [OF ok, of f] by (simp add: ow)
  qed
  then show ?thesis using rel' by blast
qed

lemma db_fill_zero:
  assumes "drop_bit 56 (fs i) = (0 :: 64 word)" and "i < todo"
  shows "db_fill todo fs i = 0"
  using assms by (auto simp: db_fill_def)

lemma db_sim_clean:
  assumes rel: "db_rel C s q" and ow: "db_owner s = DwClean todo" and st: "db_flush C s = Some s'"
  shows "run tq_step (db_events C s QOwner) q = Some q \<and> db_rel C s' q"
proof -
  note D = db_relD [OF rel]
  obtain L where L: "db_tiles C s todo todo L" "tq_pend q = resv_pending L"
    using rel by (rule db_relE) (simp add: ow db_hi_def)
  note T = db_tilesD [OF L(1)]
  have s': "s' = s\<lparr>db_fun := db_fill todo (db_fun s), db_owner := DwClosed\<rparr>" using st by (simp add: db_flush_def ow)
  have p: "tq_pend q = []" using L(2) tiling_empty [OF T(1)] by simp
  have "db_tiles C s' 0 0 []"
    by (rule db_tiles_empty [OF L(1)]) (use db_fill_zero T(8) in \<open>auto simp: s' db_fill_def\<close>)
  then have "db_rel C s' q" using D p by (auto simp: db_rel_def s' ow db_hi_def intro!: exI [of _ "[]"])
  then show ?thesis using D(1) p by (simp add: ow)
qed

lemma db_sim_flush:
  assumes ok: "db_ok C" and rel: "db_rel C s q" and st: "db_flush C s = Some s'"
  shows "\<exists>q'. run tq_step (db_events C s QOwner) q = Some q' \<and> db_rel C s' q'"
proof (cases "db_owner s")
  case (DwLoad d)
  then show ?thesis by (rule db_sim_load [OF rel _ st])
next
  case (DwXchg d)
  then show ?thesis by (rule db_sim_xchg [OF rel _ st])
next
  case (DwSpin opn i todo)
  have "db_rel C s' q"
  proof (cases "db_fun s i = 0")
    case True
    then show ?thesis using st rel by (auto simp: db_flush_def DwSpin split: if_splits)
  next
    case False
    then have s': "s' = s\<lparr>db_owner := DwCall opn i todo (db_fun s i)\<rparr>"
      using st by (auto simp: db_flush_def DwSpin split: if_splits)
    obtain L where L: "db_tiles C s i (db_hi C s) L" "tq_pend q = resv_pending L"
      "i < todo" "resv_boundary i (db_hi C s) todo L" using rel by (rule db_relE) (simp add: DwSpin)
    have hi: "db_hi C s' = db_hi C s" by (simp add: db_hi_def s' DwSpin)
    show ?thesis
      by (rule db_sim_owner [OF rel _ _ _ db_same_id, of _ L])
        (use L db_relD(1,2) [OF rel] False hi in \<open>auto simp: s' DwSpin\<close>)
  qed
  then show ?thesis by (simp add: DwSpin)
next
  case (DwCall opn i todo a)
  then show ?thesis by (rule db_sim_call [OF ok rel _ st])
next
  case (DwClean todo)
  then show ?thesis using db_sim_clean [OF rel _ st] by blast
qed (use st in \<open>simp_all add: db_flush_def\<close>)

lemma db_sim_step:
  assumes ok: "db_ok C" and rel: "db_rel C s q" and st: "db_step C l s = Some s'"
  shows "\<exists>q'. run tq_step (db_events C s l) q = Some q' \<and> db_rel C s' q'"
proof (cases l)
  note D = db_relD [OF rel]
  case (QCall t f ps)
  then have s': "s' = db_goto t (DbLoad f ps) s" and pc: "db_pc s t = DbIdle" "map length ps = db_sizes C f"
    using st by (auto split: if_splits)
  have "db_rel C s' (q\<lparr>tq_calls := (tq_calls q)(t := TqCalled (f, ps))\<rparr>)"
    unfolding s' by (rule db_sim_goto [OF ok rel]) (simp_all add: pc)
  then show ?thesis using D(3) [of t] by (simp add: QCall pc)
next
  case (QGo t)
  then show ?thesis using db_sim_thread [OF ok rel] st by simp
next
  note D = db_relD [OF rel]
  case QOpen
  then have s': "s' = s\<lparr>db_counter := 0, db_owner := DwOpened\<rparr>" and ow: "db_owner s = DwClosed"
    using st by (auto simp: db_open_def split: if_splits)
  obtain L where L: "db_tiles C s 0 0 L" "tq_pend q = resv_pending L"
    using rel by (rule db_relE) (simp add: ow db_hi_def)
  have p: "L = []" using tiling_empty [OF db_tilesD(1) [OF L(1)]] .
  have "db_rel C s' (q\<lparr>tq_open := True\<rparr>)"
    by (rule db_sim_owner [OF rel, of _ _ L]) (use L p in \<open>auto simp: s' ow db_hi_def\<close>)
  then show ?thesis using D(1) L p by (simp add: QOpen ow)
next
  note D = db_relD [OF rel]
  case QFlush
  then have s': "s' = s\<lparr>db_owner := DwLoad 0\<rparr>" and ow: "db_owner s = DwOpened"
    using st by (auto split: if_splits)
  obtain L where L: "db_tiles C s 0 (db_hi C s) L" "tq_pend q = resv_pending L"
    using rel by (rule db_relE) (simp add: ow)
  have hi: "db_hi C s' = db_hi C s" by (simp add: db_hi_def s' ow)
  have "db_rel C s' q"
    by (rule db_sim_owner [OF rel _ _ _ db_same_id, of _ L]) (use D(1) L hi in \<open>auto simp: s' ow\<close>)
  then show ?thesis by (simp add: QFlush)
next
  case QOwner
  then show ?thesis using db_sim_flush [OF ok rel] st by (auto split: if_splits)
qed

lemma dual_tantrum_queue:
  "db_ok C \<Longrightarrow> db_zeroed C M \<Longrightarrow> tantrum_queue (db_step C) (db_init C M) (db_rel C) (db_events C)"
  by unfold_locales (auto intro: db_sim_init db_sim_step)

section \<open>Progress\<close>

lemma db_own_slot:
  assumes "db_rel C s q" and "db_reserving (db_pc s t) = Some i"
  shows "\<exists>n e. db_slot C (db_buf s) 0 (db_pc s) (i, n, e) \<and> 0 < n \<and> i + n \<le> db_entries C \<and>
     length (db_buf s) = db_entries C * db_entry_size C \<and> (\<forall>u. db_reserving (db_pc s u) = Some i \<longrightarrow> u = t)"
proof -
  obtain L where L: "db_tiles C s (db_lo (db_owner s)) (db_hi C s) L" using assms(1) by (rule db_relE)
  note D = db_tilesD [OF L]
  obtain n e where x: "(i, n, e) \<in> set L" using D(6) [OF assms(2)] by blast
  have "db_slot C (db_buf s) 0 (db_pc s) (i, n, e)" using D(4) [OF x] db_own_fun [OF assms] by simp
  moreover have "0 < n" "i + n \<le> db_entries C" using tiling_bounds [OF D(1) x] D(2) by auto
  ultimately show ?thesis using D(3) D(7) [OF _ assms(2)] by blast
qed

text \<open>How many steps a call of \<open>enqueue\<close> still has to take at most, failed exchanges not counted.\<close>

fun db_rest :: "'f db_pc \<Rightarrow> nat" where
  "db_rest DbIdle = 0"
| "db_rest (DbLoad f ps) = length ps + 4"
| "db_rest (DbFetch f ps index) = length ps + 3"
| "db_rest (DbSize f ps index) = length ps + 2"
| "db_rest (DbWrite f ps index k) = length ps + 1 - k"
| "db_rest (DbFill f ps index) = 2"
| "db_rest (DbNoOp f ps index) = 1"

definition db_cas_fails :: "'f db_config \<Rightarrow> 'f dual_buffer_queue \<Rightarrow> tid \<Rightarrow> bool" where
  "db_cas_fails C s t \<longleftrightarrow> db_policy C = use_compare_and_swap \<and>
     (case db_pc s t of DbFetch f ps index \<Rightarrow> db_counter s \<noteq> index | _ \<Rightarrow> False)"

lemma db_policy_cases: "pol \<noteq> use_fetch_and_add \<longleftrightarrow> pol = use_compare_and_swap"
  by (cases pol) auto

lemma db_store_fits:
  assumes "off + length bs \<le> length (db_buf s)"
  shows "\<exists>s'. db_store off bs t p s = Some s' \<and> db_pc s' t = p"
  using assms by (auto simp: db_store_def write_bytes_def db_goto_def)

lemma db_enqueue_progress:
  assumes ok: "db_ok C" and rel: "db_rel C s q" and busy: "db_pc s t \<noteq> DbIdle"
  shows "\<exists>s'. db_enqueue C t s = Some s' \<and>
     (db_cas_fails C s t \<or> db_rest (db_pc s' t) < db_rest (db_pc s t))"
proof -
  let ?S = "db_entry_size C"
  have room: "i * ?S + r \<le> db_entries C * ?S" if "i + n \<le> db_entries C" "r \<le> n * ?S" for i n r
  proof -
    have "i * ?S + r \<le> (i + n) * ?S" using that(2) by (simp add: add_mult_distrib)
    also have "\<dots> \<le> db_entries C * ?S" using that(1) by (rule mult_le_mono1)
    finally show ?thesis .
  qed
  show ?thesis
  proof (cases "db_pc s t")
    case (DbFetch f ps ix)
    then show ?thesis
      by (cases "db_policy C") (auto simp: db_enqueue_def db_cas_fails_def db_goto_def db_reserved_def)
  next
    case (DbSize f ps i)
    then obtain n e where X: "0 < n" "i + n \<le> db_entries C" "length (db_buf s) = db_entries C * ?S"
      using db_own_slot [OF rel, of t i] by auto
    have "i * ?S + 4 \<le> length (db_buf s)"
      using room [OF X(2), of 4] db_entry_room [OF ok X(1), of i] X(3) by (simp add: add_mult_distrib)
    then show ?thesis using db_store_fits [of "i * ?S" "u32_bytes (db_req C f)" s t "DbWrite f ps i 0"] DbSize
      by (auto simp: db_enqueue_def)
  next
    case (DbWrite f ps i k)
    then obtain n e where X: "db_slot C (db_buf s) 0 (db_pc s) (i, n, e)" "0 < n" "i + n \<le> db_entries C"
        "length (db_buf s) = db_entries C * ?S" "\<And>u. db_reserving (db_pc s u) = Some i \<Longrightarrow> u = t"
      using db_own_slot [OF rel, of t i] by auto
    note S = db_slot_of(2) [OF ok X(1,5) DbWrite]
    show ?thesis
    proof (cases "k < length ps")
      case True
      have "4 + sumsizes (map length (take k ps)) + length (ps ! k) \<le> n * ?S"
        using sumsizes_take_le [OF True] db_req_room [OF ok, of f] S by simp
      from room [OF X(3) this] show ?thesis
        using db_store_fits [of "i * ?S + 4 + sumsizes (map length (take k ps))" "ps ! k" s t "DbWrite f ps i (k + 1)"]
          True X(4) by (auto simp: db_enqueue_def DbWrite add.assoc)
    next
      case False
      then show ?thesis using S X(2,3) by (auto simp: db_enqueue_def DbWrite db_goto_def)
    qed
  next
    case (DbFill f ps i)
    then obtain n e where X: "0 < n" "i + n \<le> db_entries C" "length (db_buf s) = db_entries C * ?S"
      using db_own_slot [OF rel, of t i] by auto
    have "i * ?S + 4 \<le> length (db_buf s)"
      using room [OF X(2), of 4] db_entry_room [OF ok X(1), of i] X(3) by (simp add: add_mult_distrib)
    then show ?thesis using db_store_fits [of "i * ?S" "u32_bytes (db_entries C - i)" s t "DbNoOp f ps i"] DbFill
      by (auto simp: db_enqueue_def)
  next
    case (DbNoOp f ps i)
    then show ?thesis using db_own_slot [OF rel, of t i] by (auto simp: db_enqueue_def db_goto_def)
  qed (use busy in \<open>auto simp: db_enqueue_def db_goto_def Let_def\<close>)
qed

text \<open>The reservation \<open>flush\<close> is at.\<close>

lemma db_head:
  assumes rel: "db_rel C s q" and ow: "db_owner s = DwSpin opn i todo \<or> db_owner s = DwCall opn i todo a"
  shows "\<exists>n e L. db_tiles C s i (db_hi C s) ((i, n, e) # L) \<and> i < todo \<and> i + n \<le> todo \<and>
     todo \<le> db_hi C s \<and> i + n \<le> db_entries C"
proof -
  obtain L where L: "db_tiles C s i (db_hi C s) L" "i < todo" "resv_boundary i (db_hi C s) todo L"
    using rel ow by (auto elim!: db_relE)
  note T = db_tilesD [OF L(1)]
  obtain L1 L2 where L12: "L = L1 @ L2" "tiling i todo L1" "tiling todo (db_hi C s) L2"
    using L(3) by (auto simp: resv_boundary_def)
  then obtain x L' where "L = x # L'" using L(2) by (cases L1) auto
  then obtain n e where L': "L = (i, n, e) # L'" using T(1) by (cases x) auto
  note tail = resv_boundary_tail [OF L(3) [unfolded L'] L(2)]
  have "todo \<le> db_hi C s" by (rule tiling_le [OF L12(3)])
  then show ?thesis using L L' tail T(2) by fastforce
qed

lemma db_flush_enabled:
  assumes ok: "db_ok C" and rel: "db_rel C s q" and busy: "db_owner s \<notin> {DwClosed, DwOpened}"
  shows "db_flush C s \<noteq> None"
proof (cases "db_owner s")
  case (DwSpin opn i todo)
  then obtain n e L where "db_tiles C s i (db_hi C s) ((i, n, e) # L)" "i + n \<le> db_entries C"
    using db_head [OF rel] by blast
  then have "i < db_entries C" using tiling_bounds [OF db_tilesD(1)] by fastforce
  then show ?thesis by (simp add: db_flush_def DwSpin)
next
  case (DwCall opn i todo a)
  then obtain n e L where H: "db_tiles C s i (db_hi C s) ((i, n, e) # L)" "i + n \<le> db_entries C"
    using db_head [OF rel] by blast
  have a: "db_fun s i = a" "a \<noteq> 0" using rel DwCall by (auto elim!: db_relE)
  have slot: "db_slot C (db_buf s) a (db_pc s) (i, n, e)" using db_tilesD(4) [OF H(1), of i n e] a by simp
  then have size: "read_bytes (i * db_entry_size C) 4 (db_buf s) = Some (u32_bytes n)"
    using a(2) by (cases e) (auto simp: db_has_size_def)
  show ?thesis
  proof (cases e)
    case None
    then show ?thesis using slot a size by (simp add: db_flush_def DwCall)
  next
    case (Some y)
    then obtain f ps where e: "e = Some (f, ps)" by (cases y) auto
    then have "a = db_addr C f" "db_has_params C (db_buf s) i ps" "map length ps = db_sizes C f"
      using slot a(2) by auto
    then show ?thesis using size db_okD(4) [OF ok, of f] by (simp add: db_flush_def DwCall db_has_params_def)
  qed
qed (use busy in \<open>simp_all add: db_flush_def Let_def\<close>)

text \<open>A bound for the steps the owner still has to take in \<open>flush\<close>.\<close>

fun db_phase :: "db_owner \<Rightarrow> nat" where
  "db_phase (DwLoad done) = 5"
| "db_phase (DwXchg done) = 4"
| "db_phase (DwSpin opn index todo) = (if opn then 4 else 2)"
| "db_phase (DwCall opn index todo a) = (if opn then 3 else 1)"
| "db_phase (DwClean todo) = 1"
| "db_phase _ = 0"

definition db_flush_rest :: "'f db_config \<Rightarrow> 'f dual_buffer_queue \<Rightarrow> nat" where
  "db_flush_rest C s = 20 * (db_hi C s - db_lo (db_owner s)) + db_phase (db_owner s)"

fun db_in_flush :: "db_owner \<Rightarrow> bool" where
  "db_in_flush DwClosed = False"
| "db_in_flush DwOpened = False"
| "db_in_flush _ = True"

lemma db_for_rest:
  assumes "db_owner s' = db_for opn i todo" and "i \<le> todo" and "todo \<le> H"
    and "if opn then H = min (db_counter s') (db_entries C) else H = todo"
  shows "db_in_flush (db_owner s') \<and>
    db_flush_rest C s' \<le> 20 * (H - i) + (if \<not> opn then 2 else if i < todo then 4 else 5)"
  using assms by (auto simp: db_for_def db_flush_rest_def db_hi_def split: if_splits)

lemma db_flush_progress:
  assumes ok: "db_ok C" and rel: "db_rel C s q" and fl: "db_in_flush (db_owner s)"
    and quiet: "\<And>t. db_reserving (db_pc s t) = None" and st: "db_flush C s = Some s'"
  shows "db_flush_rest C s' < db_flush_rest C s \<and> db_pc s' = db_pc s \<and>
         (db_in_flush (db_owner s') \<or> db_owner s' = DwClosed)"
proof (cases "db_owner s")
  case (DwLoad d)
  obtain L where "db_tiles C s d (min (db_counter s) (db_entries C)) L"
    using rel by (rule db_relE) (simp add: DwLoad db_hi_def)
  then have d: "d \<le> min (db_counter s) (db_entries C)" using tiling_le [OF db_tilesD(1)] by blast
  have rest: "db_flush_rest C s = 20 * (min (db_counter s) (db_entries C) - d) + 5"
    by (simp add: db_flush_rest_def db_hi_def DwLoad)
  consider "db_counter s = d" | "db_counter s \<noteq> d" "db_entries C \<le> db_counter s"
    | "d < db_counter s" "db_counter s < db_entries C" using d by linarith
  then show ?thesis
  proof cases
    case 1
    then have "s' = s\<lparr>db_owner := DwXchg d\<rparr>" using st by (simp add: db_flush_def DwLoad)
    then show ?thesis by (simp add: DwLoad db_flush_rest_def db_hi_def)
  next
    case 2
    then have s': "s' = s\<lparr>db_owner := db_for False d (db_entries C)\<rparr>" using st by (simp add: db_flush_def DwLoad)
    have "db_in_flush (db_owner s') \<and> db_flush_rest C s' \<le> 20 * (db_entries C - d) + 2"
    proof -
      have "db_owner s' = db_for False d (db_entries C)" "d \<le> db_entries C" using d by (simp_all add: s')
      from db_for_rest [OF this order_refl] show ?thesis by simp
    qed
    moreover have "db_flush_rest C s = 20 * (db_entries C - d) + 5" using rest 2 by simp
    moreover have "db_pc s' = db_pc s" by (simp add: s')
    ultimately show ?thesis by linarith
  next
    case 3
    then have s': "s' = s\<lparr>db_owner := db_for True d (db_counter s)\<rparr>" using st by (simp add: db_flush_def DwLoad)
    have "db_in_flush (db_owner s') \<and> db_flush_rest C s' \<le> 20 * (db_counter s - d) + 4"
    proof -
      have o: "db_owner s' = db_for True d (db_counter s)" "d \<le> db_counter s" and c: "db_counter s' = db_counter s"
        using 3 by (simp_all add: s')
      from db_for_rest [OF o order_refl, of C] c 3 show ?thesis by simp
    qed
    moreover have "db_flush_rest C s = 20 * (db_counter s - d) + 5" using rest 3 by simp
    moreover have "db_pc s' = db_pc s" by (simp add: s')
    ultimately show ?thesis by linarith
  qed
next
  case (DwXchg d)
  let ?m = "if db_entries C \<le> db_counter s then db_entries C else db_counter s"
  have m: "min (db_counter s) (db_entries C) = ?m" by simp
  obtain L where "db_tiles C s d ?m L" using rel by (rule db_relE) (simp add: DwXchg db_hi_def m)
  then have d: "d \<le> ?m" using tiling_le [OF db_tilesD(1)] by blast
  have s': "s' = s\<lparr>db_counter := db_entries C, db_owner := db_for False d ?m\<rparr>"
    using st by (simp add: db_flush_def DwXchg Let_def)
  have "db_flush_rest C s = 20 * (?m - d) + 4" by (simp add: db_flush_rest_def db_hi_def DwXchg m)
  moreover have "db_in_flush (db_owner s') \<and> db_flush_rest C s' \<le> 20 * (?m - d) + 2"
  proof -
    have "db_owner s' = db_for False d ?m" by (simp add: s')
    from db_for_rest [OF this d order_refl] show ?thesis by simp
  qed
  moreover have "db_pc s' = db_pc s" by (simp add: s')
  ultimately show ?thesis by linarith
next
  case (DwSpin opn i todo)
  then obtain n e L where H: "db_tiles C s i (db_hi C s) ((i, n, e) # L)" using db_head [OF rel] by blast
  have "db_slot C (db_buf s) (db_fun s i) (db_pc s) (i, n, e)" using db_tilesD(4) [OF H, of i n e] by simp
  moreover have "db_pc s t \<noteq> p" if "db_reserving p = Some i" for t p using quiet [of t] that by auto
  ultimately have "db_fun s i \<noteq> 0" using db_okD(6,7) [OF ok] by (cases e) auto
  then show ?thesis using st by (auto simp: db_flush_def DwSpin db_flush_rest_def db_hi_def split: if_splits)
next
  case (DwCall opn i todo a)
  then obtain n e L where H: "db_tiles C s i (db_hi C s) ((i, n, e) # L)" "i < todo" "i + n \<le> todo"
      "todo \<le> db_hi C s" "i + n \<le> db_entries C"
    using db_head [OF rel] by blast
  have n: "0 < n" using tiling_bounds [OF db_tilesD(1) [OF H(1)], of i n e] by simp
  have a: "db_fun s i = a" "a \<noteq> 0" using rel DwCall by (auto elim!: db_relE)
  have "db_slot C (db_buf s) a (db_pc s) (i, n, e)" using db_tilesD(4) [OF H(1), of i n e] a by simp
  then have size: "read_bytes (i * db_entry_size C) 4 (db_buf s) = Some (u32_bytes n)"
    using a(2) by (cases e) (auto simp: db_has_size_def)
  have u: "u32_of (u32_bytes n) = n" using H(5) db_okD(1) [OF ok] by (intro u32_roundtrip) simp
  have s': "s' = s\<lparr>db_owner := db_for opn (i + n) todo\<rparr>"
    using st by (auto simp: db_flush_def DwCall size u split: if_splits option.splits)
  have hi: "if opn then db_hi C s = min (db_counter s') (db_entries C) else db_hi C s = todo"
    by (simp add: db_hi_def DwCall s')
  have le: "db_flush_rest C s' \<le> 20 * (db_hi C s - (i + n)) + 5 \<and> db_in_flush (db_owner s')"
  proof -
    have "db_owner s' = db_for opn (i + n) todo" by (simp add: s')
    from db_for_rest [OF this H(3,4) hi] show ?thesis by (auto split: if_splits)
  qed
  have "20 * (db_hi C s - i) \<le> db_flush_rest C s" by (simp add: db_flush_rest_def DwCall)
  moreover have "20 * (db_hi C s - (i + n)) + 20 \<le> 20 * (db_hi C s - i)" using n H(3,4) by linarith
  moreover have "db_pc s' = db_pc s" by (simp add: s')
  ultimately show ?thesis using le by linarith
qed (use st fl in \<open>auto simp: db_flush_def db_flush_rest_def db_hi_def\<close>)

lemma db_flush_run:
  assumes ok: "db_ok C" and "db_rel C s q" and "db_in_flush (db_owner s)"
    and "\<And>t. db_reserving (db_pc s t) = None"
  shows "\<exists>n s'. n \<le> db_flush_rest C s \<and> run (db_step C) (replicate n QOwner) s = Some s' \<and> db_owner s' = DwClosed"
  using assms(2-4)
proof (induction "db_flush_rest C s" arbitrary: s q rule: less_induct)
  case less
  have "db_owner s \<notin> {DwClosed, DwOpened}" using less.prems(2) by (cases "db_owner s") auto
  then obtain s1 where s1: "db_flush C s = Some s1" "db_step C QOwner s = Some s1"
    using db_flush_enabled [OF ok less.prems(1)] by auto
  note P = db_flush_progress [OF ok less.prems s1(1)]
  obtain q1 where q1: "db_rel C s1 q1" using db_sim_step [OF ok less.prems(1) s1(2)] by blast
  show ?case
  proof (cases "db_owner s1 = DwClosed")
    case True
    then show ?thesis using s1(2) P by (intro exI [of _ 1] exI [of _ s1]) auto
  next
    case False
    then obtain n s' where n: "n \<le> db_flush_rest C s1" "run (db_step C) (replicate n QOwner) s1 = Some s'"
        "db_owner s' = DwClosed"
      using less.hyps [of s1 q1] P q1 less.prems(3) by auto
    then show ?thesis using s1(2) P by (intro exI [of _ "Suc n"] exI [of _ s']) auto
  qed
qed

section \<open>The counter does not wrap around\<close>

text \<open>
  With threads \<open>0, \<dots>, N - 1\<close> and operations of at most \<open>R\<close> entries: a thread that is past the test of
  the limit can push the counter over it once.
\<close>

fun db_fetching :: "'f db_pc \<Rightarrow> bool" where
  "db_fetching (DbFetch f ps index) = True"
| "db_fetching _ = False"

definition db_bound :: "'f db_config \<Rightarrow> nat \<Rightarrow> nat \<Rightarrow> 'f dual_buffer_queue \<Rightarrow> bool" where
  "db_bound C N R s \<longleftrightarrow>
     (\<forall>t. db_pc s t \<noteq> DbIdle \<longrightarrow> t < N) \<and>
     db_counter s + R * card {t. db_fetching (db_pc s t)} \<le> db_entries C + R * N"

fun q_thread :: "'f q_label \<Rightarrow> tid option" where
  "q_thread (QCall t f ps) = Some t"
| "q_thread (QGo t) = Some t"
| "q_thread _ = None"

lemma db_step_counter_owner:
  assumes "db_step C l s = Some s'" and "q_thread l = None"
  shows "db_pc s' = db_pc s \<and> (db_counter s' = db_counter s \<or> db_counter s' \<le> db_entries C)"
  using assms by (cases l; cases "db_owner s")
    (auto simp: db_open_def db_flush_def Let_def split: if_splits option.splits)

lemma db_reserved_not_fetching [simp]: "\<not> db_fetching (db_reserved C f ps n)"
  by (simp add: db_reserved_def)

lemma db_bound_step:
  assumes ok: "db_ok C" and R: "\<forall>f. db_req C f \<le> R" and b: "db_bound C N R s"
    and l: "\<forall>t. q_thread l = Some t \<longrightarrow> t < N" and st: "db_step C l s = Some s'"
  shows "db_bound C N R s'"
proof -
  let ?F = "\<lambda>s. {t. db_fetching (db_pc s t)}"
  have idle: "db_pc s u \<noteq> DbIdle" if "db_fetching (db_pc s u)" for u s
    using that by (cases "db_pc s u") auto
  have fin: "?F s \<subseteq> {..<N}" using b idle by (auto simp: db_bound_def)
  then have finite: "finite (?F s)" by (rule finite_subset) simp
  have all: "db_counter s \<le> db_entries C \<Longrightarrow> F \<subseteq> {..<N} \<Longrightarrow> db_counter s + R * card F \<le> db_entries C + R * N" for F s
    using mult_le_mono2 [OF card_mono [of "{..<N}" F]] by (simp add: add_mono)
  show ?thesis
  proof (cases "q_thread l")
    case None
    note S = db_step_counter_owner [OF st None]
    then show ?thesis using b all [of s' "?F s"] fin by (auto simp: db_bound_def)
  next
    case (Some t)
    have t: "t < N" using l Some by simp
    have fin': "?F s' \<subseteq> {..<N}" and idle': "\<forall>u. db_pc s' u \<noteq> DbIdle \<longrightarrow> u < N"
      and others: "\<And>u. u \<noteq> t \<Longrightarrow> db_pc s' u = db_pc s u"
    proof -
      show others: "db_pc s' u = db_pc s u" if "u \<noteq> t" for u
        using st Some that
        by (cases l; cases "db_pc s t")
          (auto simp: db_goto_def db_enqueue_def db_store_def Let_def split: if_splits option.splits)
      show "\<forall>u. db_pc s' u \<noteq> DbIdle \<longrightarrow> u < N" using others b t by (metis db_bound_def)
      then show "?F s' \<subseteq> {..<N}" using idle by auto
    qed
    have "db_counter s' + R * card (?F s') \<le> db_entries C + R * N"
    proof (cases "db_fetching (db_pc s t) \<and> \<not> db_fetching (db_pc s' t)")
      case True
      then obtain f ps ix where pc: "db_pc s t = DbFetch f ps ix" "\<not> db_fetching (db_pc s' t)"
        by (cases "db_pc s t") auto
      have "u \<in> ?F s' \<longleftrightarrow> u \<in> ?F s - {t}" for u using others [of u] pc(2) by (cases "u = t") auto
      then have "?F s' = ?F s - {t}" by blast
      moreover have "t \<in> ?F s" using pc by simp
      ultimately have card: "card (?F s) = card (?F s') + 1"
        using finite by (metis card.remove Suc_eq_plus1)
      have "l = QGo t" using Some st pc(1) by (cases l) (auto split: if_splits)
      then have "db_counter s' = db_counter s + db_req C f"
        using st pc by (auto simp: db_enqueue_def db_goto_def split: if_splits)
      then show ?thesis using b R [rule_format, of f] card by (simp add: db_bound_def)
    next
      case False
      have c: "db_counter s' = db_counter s \<and> (db_pc s' t = db_pc s t \<or> t \<notin> ?F s' \<or>
          t \<in> ?F s \<or> db_counter s \<le> db_entries C)"
      proof (cases l)
        case (QGo u)
        then have "u = t" using Some by simp
        then show ?thesis using st QGo False db_limit [OF ok]
          by (cases "db_pc s t")
            (auto simp: db_goto_def db_enqueue_def db_store_def Let_def split: if_splits option.splits)
      qed (use st Some in \<open>auto simp: db_goto_def split: if_splits\<close>)
      show ?thesis
      proof (cases "t \<in> ?F s' \<and> t \<notin> ?F s")
        case True
        then have "db_pc s' t \<noteq> db_pc s t" by auto
        then have "db_counter s \<le> db_entries C" using c True by blast
        then show ?thesis using c all [OF _ fin', of s'] by simp
      next
        case False
        then have "u \<in> ?F s' \<Longrightarrow> u \<in> ?F s" for u using others [of u] by (cases "u = t") auto
        then have "?F s' \<subseteq> ?F s" by blast
        then have "R * card (?F s') \<le> R * card (?F s)" using card_mono [OF finite] by (intro mult_le_mono2)
        then show ?thesis using b c unfolding db_bound_def by linarith
      qed
    qed
    then show ?thesis using idle' by (simp add: db_bound_def)
  qed
qed

lemma db_bound_run:
  assumes "db_ok C" and "\<forall>f. db_req C f \<le> R" and "db_bound C N R s"
    and "\<forall>l \<in> set ls. \<forall>t. q_thread l = Some t \<longrightarrow> t < N" and "run (db_step C) ls s = Some s'"
  shows "db_bound C N R s'"
  using assms(3-5)
  by (induction ls arbitrary: s) (auto split: option.splits dest: db_bound_step [OF assms(1,2)])

section \<open>Properties\<close>

text \<open>
  C11. The dual buffer queue, the default queue of the library, is a tantrum queue: in every sound
  configuration, constructed in memory whose function pointers are null (the constructor does not
  set them), with either way of updating the counter, every interleaving of any number of
  \<open>enqueue\<close> calls with the owner's \<open>open\<close> and \<open>flush\<close> is a run of the abstract queue. A call that
  returns \<open>SUCCESS\<close> has stored its operation in one atomic step while the queue was open, one that
  returns \<open>FULL\<close> or \<open>CLOSED\<close> has not; the executed operations, with their parameters as they come out
  of the byte buffer, are a prefix of the accepted ones in the order of acceptance, and all of them
  once the owner has returned from \<open>flush\<close>.
\<close>
theorem dual_queue_correct:
  assumes ok: "db_ok C" and zero: "db_zeroed C M" and r: "run (db_step C) ls (db_init C M) = Some s"
  shows "\<exists>q. run tq_step (trace (db_step C) (db_events C) ls (db_init C M)) tq_init = Some q \<and>
    tq_open q = db_is_open (db_owner s) \<and> (\<forall>t. tq_calls q t = db_call (db_pc s t)) \<and>
    accepted (trace (db_step C) (db_events C) ls (db_init C M)) =
      executed (trace (db_step C) (db_events C) ls (db_init C M)) @ tq_pend q \<and>
    (db_owner s = DwClosed \<longrightarrow> tq_pend q = [])"
proof -
  obtain q where q: "run tq_step (trace (db_step C) (db_events C) ls (db_init C M)) tq_init = Some q"
    "db_rel C s q"
    "accepted (trace (db_step C) (db_events C) ls (db_init C M)) =
       executed (trace (db_step C) (db_events C) ls (db_init C M)) @ tq_pend q"
    using tantrum_queue.linearizable [OF dual_tantrum_queue [OF ok zero] r] by blast
  have "db_owner s = DwClosed \<longrightarrow> tq_pend q = []"
  proof
    assume ow: "db_owner s = DwClosed"
    obtain L where "db_tiles C s 0 0 L" "tq_pend q = resv_pending L"
      using q(2) by (rule db_relE) (simp add: ow db_hi_def)
    then show "tq_pend q = []" using tiling_empty [OF db_tilesD(1)] by fastforce
  qed
  then show ?thesis using q db_relD(1,3) [OF q(2)] by blast
qed

text \<open>
  A configuration: 256 wrappers, 16 bytes apart, that take parameters of the given sizes.
\<close>

definition db_config_of :: "nat \<Rightarrow> nat \<Rightarrow> atomic_instruction_policy_t \<Rightarrow> nat list \<Rightarrow> byte db_config" where
  "db_config_of E S pol ns =
     \<lparr>db_entries = E, db_entry_size = S, db_policy = pol, db_sizes = (\<lambda>f. ns),
      db_addr = (\<lambda>f. word_of_nat (16 * (unat f + 1))),
      db_code = (\<lambda>a. Some (word_of_nat (unat a div 16 - 1))), db_no_op = word_of_nat 8\<rparr>"

lemma small_address:
  fixes a :: "64 word"
  assumes "a = word_of_nat n" and "0 < n" and "n < 2 ^ 56"
  shows "unat a = n" "a \<noteq> 0" "drop_bit 56 a = 0"
proof -
  show u: "unat a = n" using assms by (simp add: unat_of_nat)
  show "a \<noteq> 0" using u assms(2) by auto
  have "unat (drop_bit 56 a) = drop_bit 56 (unat a)" by (simp only: unat_drop_bit_eq)
  also have "\<dots> = 0" using u assms(3) by (simp add: drop_bit_eq_div)
  finally have "unat (drop_bit 56 a) = 0" .
  then show "drop_bit 56 a = 0" by (simp only: unsigned_eq_0_iff)
qed

lemma db_config_ok:
  assumes "(E + 1) * S \<le> 2 ^ 32" "4 \<le> S" "(sumsizes ns + 3 + S) div S \<le> E"
  shows "db_ok (db_config_of E S pol ns)"
proof -
  have lt: "16 * (unat f + 1) < 2 ^ 56" for f :: byte
  proof -
    have "unat f < 2 ^ LENGTH(8)" by (rule unsigned_less)
    then show ?thesis by simp
  qed
  have a: "unat (word_of_nat (16 * (unat f + 1)) :: 64 word) = 16 * (unat f + 1)"
      "(word_of_nat (16 * (unat f + 1)) :: 64 word) \<noteq> 0"
      "drop_bit 56 (word_of_nat (16 * (unat f + 1)) :: 64 word) = 0" for f :: byte
    by (rule small_address [OF refl _ lt]; simp)+
  have n: "unat (word_of_nat 8 :: 64 word) = 8" "(word_of_nat 8 :: 64 word) \<noteq> 0"
      "drop_bit 56 (word_of_nat 8 :: 64 word) = 0"
    using small_address [OF refl, of 8] by simp_all
  have ne: "(word_of_nat (16 * (unat f + 1)) :: 64 word) \<noteq> word_of_nat 8" for f :: byte
  proof
    assume "(word_of_nat (16 * (unat f + 1)) :: 64 word) = word_of_nat 8"
    then have "16 * (unat f + 1) = (8 :: nat)" using a(1) [of f] n(1) by metis
    then show False by simp
  qed
  have c: "word_of_nat (unat (word_of_nat (16 * (unat f + 1)) :: 64 word) div 16 - 1) = f" for f :: byte
    using a(1) [of f] by simp
  have req: "db_req (db_config_of E S pol ns) f \<le> E" for f
    using assms(2,3) by (simp add: db_config_of_def db_req_def add.commute add.left_commute)
  show ?thesis unfolding db_ok_def
    using assms(1,2) a(2,3) n(2,3) ne c req by (simp add: db_config_of_def del: of_nat_mult of_nat_add)
qed

text \<open>The default queue of \<open>qd.hpp\<close>: \<open>dual_buffer_queue<6144,24>\<close>, here for two parameters of a word.\<close>

definition db_default :: "byte db_config" where
  "db_default = db_config_of 6144 24 use_fetch_and_add [8, 8]"

lemma db_default_ok: "db_ok db_default"
  unfolding db_default_def by (rule db_config_ok) simp_all

interpretation default_queue: tantrum_queue "db_step db_default" "db_init db_default (db_static db_default)" "db_rel db_default"
  "db_events db_default"
  by (rule dual_tantrum_queue [OF db_default_ok db_static_zeroed])

text \<open>
  A small queue, of three entries of eight bytes; an operation with two parameters of four bytes takes
  two of them. In this run thread 0 gets the first two entries, thread 1 the last one, which is too
  small, and \<open>flush\<close> waits for both of them; a third call finds the queue closed.
\<close>

definition db_small :: "atomic_instruction_policy_t \<Rightarrow> byte db_config" where
  "db_small pol = db_config_of 3 8 pol [4, 4]"

lemma db_small_ok: "db_ok (db_small pol)"
  unfolding db_small_def by (rule db_config_ok) simp_all

definition db_demo_run :: "byte q_label list" where
  "db_demo_run = [QOpen, QCall 0 5 [[1, 2, 3, 4], [5, 6, 7, 8]], QCall 1 6 [[0, 0, 0, 0], [0, 0, 0, 0]],
     QGo 0, QGo 1, QGo 0, QGo 1, QGo 0, QFlush, QOwner, QGo 0, QGo 0, QGo 0, QOwner, QOwner,
     QGo 1, QGo 1, QOwner, QOwner, QOwner, QCall 2 7 [[0, 0, 0, 0], [0, 0, 0, 0]], QGo 2]"

lemmas db_eval = db_small_def db_config_of_def db_init_def db_static_def db_goto_def db_enqueue_def db_open_def
  db_flush_def db_for_def db_reserved_def db_req_def usub32_def db_store_def write_bytes_def read_bytes_def
  u32_bytes_def db_fill_def db_demo_run_def

theorem dual_queue_correct_witness:
  "\<exists>s q. run (db_step (db_small use_fetch_and_add)) db_demo_run (db_static_init (db_small use_fetch_and_add)) = Some s \<and>
     db_owner s = DwClosed \<and> tq_pend q = [] \<and>
     run tq_step (trace (db_step (db_small use_fetch_and_add)) (db_events (db_small use_fetch_and_add)) db_demo_run
       (db_static_init (db_small use_fetch_and_add))) tq_init = Some q \<and>
     executed (trace (db_step (db_small use_fetch_and_add)) (db_events (db_small use_fetch_and_add)) db_demo_run
       (db_static_init (db_small use_fetch_and_add))) = [(5, [[1, 2, 3, 4], [5, 6, 7, 8]])]"
proof -
  let ?C = "db_small use_fetch_and_add"
  obtain s where s: "run (db_step ?C) db_demo_run (db_static_init ?C) = Some s" "db_owner s = DwClosed"
    by (simp add: db_eval)
  have ex: "executed (trace (db_step ?C) (db_events ?C) db_demo_run (db_static_init ?C)) =
      [(5, [[1, 2, 3, 4], [5, 6, 7, 8]])]"
    by (simp add: db_eval)
  from dual_queue_correct [OF db_small_ok db_static_zeroed s(1)] s ex show ?thesis by blast
qed

text \<open>
  C13. No step of the dual buffer queue leaves the memory it owns or gets stuck: in every reachable
  state of a sound configuration, constructed in memory whose function pointers are null, a
  thread inside \<open>enqueue\<close> can take its next step, all its stores are inside the buffer and the array, and it is then closer to its return (unless a compare-and-swap
  failed because another thread moved the counter); the owner inside \<open>flush\<close> can take its next step:
  it reads an entry of the array, a size field and parameters inside the buffer, and calls an
  address that holds a function.
\<close>
theorem dual_queue_safe:
  assumes ok: "db_ok C" and zero: "db_zeroed C M" and r: "reachable (db_step C) (db_init C M) s"
  shows "(\<forall>t. db_pc s t \<noteq> DbIdle \<longrightarrow>
            (\<exists>s'. db_step C (QGo t) s = Some s' \<and>
               (db_cas_fails C s t \<or> db_rest (db_pc s' t) < db_rest (db_pc s t)))) \<and>
         (db_owner s \<notin> {DwClosed, DwOpened} \<longrightarrow> db_step C QOwner s \<noteq> None)"
proof -
  obtain q where rel: "db_rel C s q"
    using tantrum_queue.reachable_rel [OF dual_tantrum_queue [OF ok zero] r] by blast
  show ?thesis using db_enqueue_progress [OF ok rel] db_flush_enabled [OF ok rel] by auto
qed

theorem dual_queue_safe_witness:
  "\<exists>s. run (db_step (db_small use_fetch_and_add)) (take 11 db_demo_run) (db_static_init (db_small use_fetch_and_add)) = Some s \<and>
       db_pc s 0 = DbWrite 5 [[1, 2, 3, 4], [5, 6, 7, 8]] 0 1 \<and>
       db_step (db_small use_fetch_and_add) (QGo 0) s \<noteq> None"
proof -
  let ?C = "db_small use_fetch_and_add"
  obtain s where s: "run (db_step ?C) (take 11 db_demo_run) (db_static_init ?C) = Some s"
    "db_pc s 0 = DbWrite 5 [[1, 2, 3, 4], [5, 6, 7, 8]] 0 1"
    by (simp add: db_eval)
  have "db_pc s 0 \<noteq> DbIdle" using s(2) by simp
  then show ?thesis using dual_queue_safe [OF db_small_ok db_static_zeroed run_reachable [OF s(1)]] s by fastforce
qed

text \<open>
  C14. \<open>flush\<close> of the dual buffer queue returns: when the queue was constructed in memory whose function
  pointers are null, from every reachable state in which the owner is
  inside \<open>flush\<close> and no thread has a reservation it has not published, the owner alone reaches the
  end of \<open>flush\<close> in at most \<open>20 * ENTRIES + 5\<close> steps.
\<close>
theorem dual_queue_flush_returns:
  assumes ok: "db_ok C" and zero: "db_zeroed C M" and reach: "reachable (db_step C) (db_init C M) s"
    and fl: "db_in_flush (db_owner s)" and idle: "\<forall>t. db_reserving (db_pc s t) = None"
  shows "\<exists>n s'. n \<le> 20 * db_entries C + 5 \<and> run (db_step C) (replicate n QOwner) s = Some s' \<and>
           db_owner s' = DwClosed"
proof -
  obtain q where rel: "db_rel C s q"
    using tantrum_queue.reachable_rel [OF dual_tantrum_queue [OF ok zero] reach] by blast
  obtain L where "db_tiles C s (db_lo (db_owner s)) (db_hi C s) L" using rel by (rule db_relE)
  then have "db_hi C s \<le> db_entries C" by (rule db_tilesD(2))
  moreover have "db_phase (db_owner s) \<le> 5" by (cases "db_owner s") auto
  ultimately have "db_flush_rest C s \<le> 20 * db_entries C + 5" by (simp add: db_flush_rest_def)
  moreover obtain n s' where "n \<le> db_flush_rest C s" "run (db_step C) (replicate n QOwner) s = Some s'"
      "db_owner s' = DwClosed"
    using db_flush_run [OF ok rel fl] idle by blast
  ultimately show ?thesis by (intro exI [of _ n] exI [of _ s'] conjI) simp_all
qed

theorem dual_queue_flush_returns_witness:
  "\<exists>s n s'. run (db_step (db_small use_compare_and_swap))
       [QOpen, QCall 0 5 [[1, 2, 3, 4], [5, 6, 7, 8]], QGo 0, QGo 0, QGo 0, QGo 0, QGo 0, QGo 0, QFlush]
       (db_static_init (db_small use_compare_and_swap)) = Some s \<and>
     db_owner s = DwLoad 0 \<and> n \<le> 65 \<and>
     run (db_step (db_small use_compare_and_swap)) (replicate n QOwner) s = Some s' \<and> db_owner s' = DwClosed"
proof -
  let ?C = "db_small use_compare_and_swap"
  let ?ls = "[QOpen, QCall 0 5 [[1, 2, 3, 4], [5, 6, 7, 8]], QGo 0, QGo 0, QGo 0, QGo 0, QGo 0, QGo 0, QFlush]"
  obtain s where s: "run (db_step ?C) ?ls (db_static_init ?C) = Some s" "db_owner s = DwLoad 0"
    "\<forall>t. db_reserving (db_pc s t) = None"
    by (simp add: db_eval)
  have E: "20 * db_entries ?C + 5 = 65" by (simp add: db_small_def db_config_of_def)
  have "db_in_flush (db_owner s)" using s(2) by simp
  from dual_queue_flush_returns [OF db_small_ok db_static_zeroed run_reachable [OF s(1)] this s(3), unfolded E]
  obtain n s' where "n \<le> 65" "run (db_step ?C) (replicate n QOwner) s = Some s'" "db_owner s' = DwClosed"
    by blast
  with s(1,2) show ?thesis by (intro exI conjI)
qed

text \<open>
  C32. The 32-bit counter of the dual buffer queue does not wrap around: if the threads that use the
  queue are \<open>0, \<dots>, N - 1\<close> and no operation takes more than \<open>R\<close> entries, the counter never exceeds
  \<open>ENTRIES + R * N\<close>, however often the queue is found full: for the default queue, with operations of
  up to 64 entries, that is below \<open>2 ^ 32\<close> for 67 million threads.
\<close>
theorem dual_queue_counter_bounded:
  assumes "db_ok C" and "\<forall>f. db_req C f \<le> R"
    and "\<forall>l \<in> set ls. \<forall>t. q_thread l = Some t \<longrightarrow> t < N"
    and "run (db_step C) ls (db_init C M) = Some s"
  shows "db_counter s \<le> db_entries C + R * N"
proof -
  have "db_bound C N R (db_init C M)" by (simp add: db_bound_def db_init_def)
  from db_bound_run [OF assms(1,2) this assms(3,4)] show ?thesis by (simp add: db_bound_def)
qed

theorem dual_queue_counter_bounded_witness:
  "\<exists>s. run (db_step (db_small use_fetch_and_add)) (take 7 db_demo_run) (db_static_init (db_small use_fetch_and_add)) = Some s \<and>
     db_counter s = 4 \<and> db_counter s \<le> 3 + 2 * 3"
proof -
  let ?C = "db_small use_fetch_and_add"
  obtain s where s: "run (db_step ?C) (take 7 db_demo_run) (db_static_init ?C) = Some s" "db_counter s = 4"
    by (simp add: db_eval)
  have "\<forall>f. db_req ?C f \<le> 2" by (simp add: db_small_def db_config_of_def db_req_def)
  from dual_queue_counter_bounded [OF db_small_ok this _ s(1), of 3] s
  show ?thesis by (simp add: db_small_def db_config_of_def db_demo_run_def)
qed

text \<open>
  C39. The dual buffer queue relies on memory that the constructor does not initialise: if the first
  function pointer of \<open>entries\<close> happens to hold an address that is not null and holds no function,
  then the first operation of any kind that is enqueued is accepted, and when the owner calls \<open>flush\<close>
  before the thread has published it, \<open>flush\<close> takes the left-over address for the published
  operation and calls it: its next step is undefined, and nothing has been executed.
\<close>
theorem dual_queue_uninitialised:
  assumes ok: "db_ok C" and sized: "db_sized C M" and ps: "map length ps = db_sizes C f"
    and g: "mm_fun M 0 = g" "g \<noteq> 0" "g \<noteq> db_no_op C" "db_code C g = None"
  shows "\<exists>s. run (db_step C) [QOpen, QCall t f ps, QGo t, QGo t, QFlush, QOwner, QOwner] (db_init C M) = Some s \<and>
    db_call (db_pc s t) = TqAccepted (f, ps) \<and> db_owner s \<notin> {DwClosed, DwOpened} \<and>
    executed (trace (db_step C) (db_events C) [QOpen, QCall t f ps, QGo t, QGo t, QFlush, QOwner, QOwner]
      (db_init C M)) = [] \<and>
    db_step C QOwner s = None"
proof -
  note D = db_okD [OF ok]
  have lim: "usub32 (db_entries C) (db_req C f) = db_entries C - db_req C f" by (rule db_limit [OF ok])
  have req: "0 < db_req C f" "db_req C f \<le> db_entries C" using db_req_pos [OF ok] D(3) by auto
  have buf: "4 \<le> length (mm_buf M)"
    using sized req D(2) by (cases "db_entries C") (auto simp: db_sized_def)
  show ?thesis
    using req g ps buf
    by (cases "db_entries C = db_req C f") (simp_all add: db_init_def db_open_def db_goto_def db_enqueue_def lim
      db_reserved_def db_flush_def db_for_def read_bytes_def Let_def)
qed

definition db_garbage :: "byte db_config" where
  "db_garbage = (db_small use_fetch_and_add)\<lparr>db_code := (\<lambda>a. if a = 4711 then None
     else db_code (db_small use_fetch_and_add) a)\<rparr>"

lemma db_garbage_ok: "db_ok db_garbage"
proof -
  have ok: "db_ok (db_small use_fetch_and_add)" by (rule db_small_ok)
  have "db_addr (db_small use_fetch_and_add) f \<noteq> 4711" for f
  proof
    assume a: "db_addr (db_small use_fetch_and_add) f = 4711"
    have "unat f < 2 ^ LENGTH(8)" by (rule unsigned_less)
    then have "unat (db_addr (db_small use_fetch_and_add) f) = 16 * (unat f + 1)"
      by (simp add: db_small_def db_config_of_def unat_of_nat del: of_nat_mult of_nat_add)
    then have "16 * (unat f + 1) = (4711 :: nat)" by (simp add: a)
    then show False by presburger
  qed
  then show ?thesis using ok by (simp add: db_garbage_def db_ok_def db_req_def)
qed

theorem dual_queue_uninitialised_witness:
  "\<exists>s. run (db_step db_garbage)
         [QOpen, QCall 0 5 [[1, 2, 3, 4], [5, 6, 7, 8]], QGo 0, QGo 0, QFlush, QOwner, QOwner]
         (db_init db_garbage \<lparr>mm_fun = (\<lambda>_. 4711), mm_buf = replicate 24 255\<rparr>) = Some s \<and>
       db_call (db_pc s 0) = TqAccepted (5, [[1, 2, 3, 4], [5, 6, 7, 8]]) \<and>
       db_step db_garbage QOwner s = None"
proof -
  let ?M = "\<lparr>mm_fun = (\<lambda>_. 4711), mm_buf = replicate 24 255\<rparr>"
  have "db_sized db_garbage ?M" "map length [[1, 2, 3, 4 :: byte], [5, 6, 7, 8]] = db_sizes db_garbage 5"
      "mm_fun ?M 0 = 4711" "(4711 :: 64 word) \<noteq> 0" "4711 \<noteq> db_no_op db_garbage" "db_code db_garbage 4711 = None"
    by (simp_all add: db_sized_def db_garbage_def db_small_def db_config_of_def)
  from dual_queue_uninitialised [OF db_garbage_ok this, of 0] show ?thesis by blast
qed

text \<open>
  The assumption on the sizes is needed, and the code does not check it: in a queue of one entry of
  eight bytes, an operation with two parameters of eight bytes needs three entries, \<open>ENTRIES -
  req_entries\<close> wraps around to a large number, the call is accepted, and its first parameter would be
  stored beyond the end of the buffer (the step is undefined).
\<close>
theorem dual_queue_req_underflow:
  "\<exists>s. run (db_step (db_config_of 1 8 use_fetch_and_add [8, 8]))
         [QOpen, QCall 0 5 [[1, 2, 3, 4, 5, 6, 7, 8], [1, 2, 3, 4, 5, 6, 7, 8]], QGo 0, QGo 0, QGo 0]
         (db_static_init (db_config_of 1 8 use_fetch_and_add [8, 8])) = Some s \<and>
       db_call (db_pc s 0) = TqAccepted (5, [[1, 2, 3, 4, 5, 6, 7, 8], [1, 2, 3, 4, 5, 6, 7, 8]]) \<and>
       db_step (db_config_of 1 8 use_fetch_and_add [8, 8]) (QGo 0) s = None"
  by (simp add: db_eval)

text \<open>
  So is the assumption on the addresses: \<open>std::fill\<close> in \<open>flush\<close> stops one byte early. If the most
  significant byte of a function pointer is not zero (tagged pointers), it is still there when
  \<open>flush\<close> has returned, so the entry of the closed queue is not null.
\<close>
theorem dual_queue_fill_keeps_byte:
  "\<exists>s. run (db_step ((db_config_of 3 8 use_fetch_and_add [4])\<lparr>db_addr := (\<lambda>f. word_of_nat (2 ^ 56))\<rparr>))
         [QOpen, QCall 0 5 [[1, 2, 3, 4]], QGo 0, QGo 0, QGo 0, QGo 0, QGo 0,
          QFlush, QOwner, QOwner, QOwner, QOwner, QOwner, QOwner]
         (db_static_init (db_config_of 3 8 use_fetch_and_add [4])) = Some s \<and>
       db_owner s = DwClosed \<and> db_fun s 0 \<noteq> 0"
  by (simp add: db_eval)

end
