(* ===== verification/Function_Table.thy ===== *)
theory Function_Table
  imports QD_Prelude
begin

text \<open>
  The table of functions of \<open>queues/buffer_queue.hpp\<close>: three maps that threads replace, with
  compare-and-swap, by copies that have a new entry. Maps that were replaced are put on a list, and
  \<open>flush\<close> deletes the maps on the list.
\<close>

section \<open>Pointers to maps\<close>

text \<open>
  An atomic pointer and the maps that it has pointed to, which are numbered in the order of their
  publication: the number is the address of the map. A deleted map is \<open>None\<close>. An allocator may use
  the memory of a deleted map again, but then a pointer to it is not valid any more: every use of a pointer to
  a deleted map, also in a comparison, is an error below.
\<close>

record 'm cow =
  cw_cur :: nat
  cw_heap :: "nat \<Rightarrow> 'm option"
  cw_retired :: "nat list"

definition cow_new :: "'m \<Rightarrow> 'm cow" where
  "cow_new m = \<lparr>cw_cur = 0, cw_heap = [0 \<mapsto> m], cw_retired = []\<rparr>"

definition cow_cas :: "nat \<Rightarrow> 'm \<Rightarrow> 'm cow \<Rightarrow> 'm cow option" where
  "cow_cas a m c =
     (if cw_cur c = a then Some (c\<lparr>cw_cur := Suc a, cw_heap := (cw_heap c)(Suc a \<mapsto> m)\<rparr>) else None)"

definition cow_retire :: "nat \<Rightarrow> 'm cow \<Rightarrow> 'm cow" where
  "cow_retire a c = c\<lparr>cw_retired := a # cw_retired c\<rparr>"

definition cow_free :: "'m cow \<Rightarrow> 'm cow" where
  "cow_free c =
     c\<lparr>cw_heap := (\<lambda>a. if a \<in> set (cw_retired c) then None else cw_heap c a), cw_retired := []\<rparr>"

definition cow_ok :: "'m cow \<Rightarrow> bool" where
  "cow_ok c \<longleftrightarrow> cw_heap c (cw_cur c) \<noteq> None \<and> (\<forall>a. cw_heap c a \<noteq> None \<longrightarrow> a \<le> cw_cur c) \<and>
     (\<forall>a \<in> set (cw_retired c). a < cw_cur c)"

text \<open>The map that the pointer points to.\<close>

definition cow_get :: "'m cow \<Rightarrow> 'm" where
  "cow_get c = the (cw_heap c (cw_cur c))"

lemma cow_cur: "cow_ok c \<Longrightarrow> cw_heap c (cw_cur c) = Some (cow_get c)"
  by (auto simp: cow_ok_def cow_get_def)

lemma cow_new_ok: "cow_ok (cow_new m)" "cow_get (cow_new m) = m"
  by (auto simp: cow_ok_def cow_new_def cow_get_def split: if_splits)

lemma cow_cas_ok:
  assumes "cow_ok c" and "cow_cas a m c = Some c'"
  shows "cow_ok c'" "cow_get c' = m" "a = cw_cur c" "cw_cur c' = Suc (cw_cur c)"
    and "cw_heap c' b = Some x \<longleftrightarrow> b = Suc (cw_cur c) \<and> x = m \<or> cw_heap c b = Some x"
proof -
  have c': "a = cw_cur c" "c' = c\<lparr>cw_cur := Suc a, cw_heap := (cw_heap c)(Suc a \<mapsto> m)\<rparr>"
    using assms(2) by (auto simp: cow_cas_def split: if_splits)
  have "cw_heap c (Suc a) = None" using assms(1) c'(1) by (fastforce simp: cow_ok_def)
  then show "cw_heap c' b = Some x \<longleftrightarrow> b = Suc (cw_cur c) \<and> x = m \<or> cw_heap c b = Some x"
    using c' by auto
  show "cow_ok c'" using assms(1) c' by (fastforce simp: cow_ok_def le_SucI less_SucI)
qed (use assms in \<open>auto simp: cow_cas_def cow_get_def split: if_splits\<close>)

lemma cow_retire_ok:
  assumes "cow_ok c" and "a < cw_cur c"
  shows "cow_ok (cow_retire a c)" "cow_get (cow_retire a c) = cow_get c"
    "cw_cur (cow_retire a c) = cw_cur c" "cw_heap (cow_retire a c) = cw_heap c"
  using assms by (auto simp: cow_ok_def cow_retire_def cow_get_def)

lemma cow_free_ok:
  assumes "cow_ok c"
  shows "cow_ok (cow_free c)" "cow_get (cow_free c) = cow_get c" "cw_cur (cow_free c) = cw_cur c"
    "cw_heap (cow_free c) b = Some x \<Longrightarrow> cw_heap c b = Some x"
  using assms by (auto simp: cow_ok_def cow_free_def cow_get_def split: if_splits)

section \<open>The table\<close>

text \<open>
  \<open>sizes\<close> gives the size of the entries of a function, \<open>functions\<close> and \<open>rev_functions\<close> the function of
  an index and the index of a function, and \<open>function_idx\<close> is the next index.
\<close>

record 'f ftable =
  ft_sizes :: "('f \<Rightarrow> nat option) cow"
  ft_funs :: "(nat \<Rightarrow> 'f option) cow"
  ft_rfuns :: "('f \<Rightarrow> nat option) cow"
  ft_idx :: nat

definition ft_init :: "'f ftable" where
  "ft_init =
     \<lparr>ft_sizes = cow_new (\<lambda>_. None), ft_funs = cow_new (\<lambda>_. None), ft_rfuns = cow_new (\<lambda>_. None), ft_idx = 1\<rparr>"

text \<open>
  The first part of \<open>enqueue\<close>, one constructor per access: the load of \<open>rev_functions\<close> and the test whether the
  function is there; the loads of \<open>sizes\<close>, the fetch-and-add of \<open>function_idx\<close>, the loads of \<open>functions\<close> and
  \<open>rev_functions\<close>; for each map, the copy with the new entry, and its compare-and-swap; and the push of the
  replaced maps on the lists. \<open>RgDone\<close> is the rest of \<open>enqueue\<close>, which looks up the index of the function
  with another load of \<open>rev_functions\<close> and an access to the map. The locals are the index and the pointers \<open>current_sizes\<close>,
  \<open>current_funs\<close> and \<open>current_rfuns\<close>. The new maps are private to the thread until they are published.
\<close>

record reg_locals =
  rl_sizes :: nat
  rl_idx :: nat
  rl_funs :: nat
  rl_rfuns :: nat

datatype 'f reg =
    RgFind
  | RgCount nat
  | RgLoadSizes
  | RgNextIdx nat
  | RgLoadFuns nat nat
  | RgLoadRfuns nat nat nat
  | RgCopySizes reg_locals
  | RgCasSizes reg_locals "'f \<Rightarrow> nat option"
  | RgCopyFuns reg_locals
  | RgCasFuns reg_locals "nat \<Rightarrow> 'f option"
  | RgCopyRfuns reg_locals
  | RgCasRfuns reg_locals "'f \<Rightarrow> nat option"
  | RgRetire reg_locals
  | RgDone
  | RgDeref nat
  | RgCode nat
  | RgUndef

text \<open>
  A compare-and-swap may fail spuriously (\<open>spurious\<close>), and loads the pointer when it fails. \<open>f\<close> is the
  function and \<open>n\<close> the size of its entries.
\<close>

definition reg_step :: "'f \<Rightarrow> nat \<Rightarrow> bool \<Rightarrow> 'f reg \<Rightarrow> 'f ftable \<Rightarrow> 'f reg \<times> 'f ftable" where
  "reg_step f n spurious r T =
     (case r of
        RgFind \<Rightarrow> (RgCount (cw_cur (ft_rfuns T)), T)
      | RgCount a \<Rightarrow>
          (case cw_heap (ft_rfuns T) a of
             None \<Rightarrow> RgUndef
           | Some m \<Rightarrow> if m f = None then RgLoadSizes else RgDone, T)
      | RgLoadSizes \<Rightarrow> (RgNextIdx (cw_cur (ft_sizes T)), T)
      | RgNextIdx cs \<Rightarrow> (RgLoadFuns cs (ft_idx T), T\<lparr>ft_idx := ft_idx T + 1\<rparr>)
      | RgLoadFuns cs i \<Rightarrow> (RgLoadRfuns cs i (cw_cur (ft_funs T)), T)
      | RgLoadRfuns cs i cf \<Rightarrow>
          (RgCopySizes \<lparr>rl_sizes = cs, rl_idx = i, rl_funs = cf, rl_rfuns = cw_cur (ft_rfuns T)\<rparr>, T)
      | RgCopySizes l \<Rightarrow>
          (case cw_heap (ft_sizes T) (rl_sizes l) of
             None \<Rightarrow> RgUndef | Some m \<Rightarrow> RgCasSizes l (m(f \<mapsto> n)), T)
      | RgCasSizes l m \<Rightarrow>
          (if cw_heap (ft_sizes T) (rl_sizes l) = None then (RgUndef, T)
           else case (if spurious then None else cow_cas (rl_sizes l) m (ft_sizes T)) of
                  None \<Rightarrow> (RgCopySizes (l\<lparr>rl_sizes := cw_cur (ft_sizes T)\<rparr>), T)
                | Some c \<Rightarrow> (RgCopyFuns l, T\<lparr>ft_sizes := c\<rparr>))
      | RgCopyFuns l \<Rightarrow>
          (case cw_heap (ft_funs T) (rl_funs l) of
             None \<Rightarrow> RgUndef | Some m \<Rightarrow> RgCasFuns l (m(rl_idx l \<mapsto> f)), T)
      | RgCasFuns l m \<Rightarrow>
          (if cw_heap (ft_funs T) (rl_funs l) = None then (RgUndef, T)
           else case (if spurious then None else cow_cas (rl_funs l) m (ft_funs T)) of
                  None \<Rightarrow> (RgCopyFuns (l\<lparr>rl_funs := cw_cur (ft_funs T)\<rparr>), T)
                | Some c \<Rightarrow> (RgCopyRfuns l, T\<lparr>ft_funs := c\<rparr>))
      | RgCopyRfuns l \<Rightarrow>
          (case cw_heap (ft_rfuns T) (rl_rfuns l) of
             None \<Rightarrow> RgUndef | Some m \<Rightarrow> RgCasRfuns l (m(f \<mapsto> rl_idx l)), T)
      | RgCasRfuns l m \<Rightarrow>
          (if cw_heap (ft_rfuns T) (rl_rfuns l) = None then (RgUndef, T)
           else case (if spurious then None else cow_cas (rl_rfuns l) m (ft_rfuns T)) of
                  None \<Rightarrow> (RgCopyRfuns (l\<lparr>rl_rfuns := cw_cur (ft_rfuns T)\<rparr>), T)
                | Some c \<Rightarrow> (RgRetire l, T\<lparr>ft_rfuns := c\<rparr>))
      | RgRetire l \<Rightarrow>
          (RgDone, T\<lparr>ft_sizes := cow_retire (rl_sizes l) (ft_sizes T),
                     ft_rfuns := cow_retire (rl_rfuns l) (ft_rfuns T),
                     ft_funs := cow_retire (rl_funs l) (ft_funs T)\<rparr>)
      | _ \<Rightarrow> (r, T))"

text \<open>
  The lookup of the index, \<open>(*rev_functions.load())[op]\<close>. The operator inserts 0 if the function is not there.
\<close>

definition cow_put :: "nat \<Rightarrow> 'm \<Rightarrow> 'm cow \<Rightarrow> 'm cow" where
  "cow_put a m c = c\<lparr>cw_heap := (cw_heap c)(a \<mapsto> m)\<rparr>"

definition reg_lookup :: "'f \<Rightarrow> 'f reg \<Rightarrow> 'f ftable \<Rightarrow> 'f reg \<times> 'f ftable" where
  "reg_lookup f r T =
     (case r of
        RgDone \<Rightarrow> (RgDeref (cw_cur (ft_rfuns T)), T)
      | RgDeref a \<Rightarrow>
          (case cw_heap (ft_rfuns T) a of
             None \<Rightarrow> (RgUndef, T)
           | Some m \<Rightarrow>
               (case m f of
                  None \<Rightarrow> (RgCode 0, T\<lparr>ft_rfuns := cow_put a (m(f \<mapsto> 0)) (ft_rfuns T)\<rparr>)
                | Some i \<Rightarrow> (RgCode i, T)))
      | _ \<Rightarrow> (r, T))"

text \<open>The end of \<open>flush\<close> deletes the maps on the lists.\<close>

definition ft_free :: "'f ftable \<Rightarrow> 'f ftable" where
  "ft_free T = T\<lparr>ft_sizes := cow_free (ft_sizes T), ft_funs := cow_free (ft_funs T), ft_rfuns := cow_free (ft_rfuns T)\<rparr>"

section \<open>Invariant\<close>

definition ft_ok :: "('f \<Rightarrow> nat) \<Rightarrow> 'f ftable \<Rightarrow> bool" where
  "ft_ok sz T \<longleftrightarrow>
     cow_ok (ft_sizes T) \<and> cow_ok (ft_funs T) \<and> cow_ok (ft_rfuns T) \<and> 0 < ft_idx T \<and>
     (\<forall>a m f n. cw_heap (ft_sizes T) a = Some m \<longrightarrow> m f = Some n \<longrightarrow> n = sz f) \<and>
     (\<forall>a m i f. cw_heap (ft_funs T) a = Some m \<longrightarrow> m i = Some f \<longrightarrow>
        cow_get (ft_funs T) i = Some f \<and> cow_get (ft_sizes T) f \<noteq> None \<and> 0 < i \<and> i < ft_idx T) \<and>
     (\<forall>a m f i. cw_heap (ft_rfuns T) a = Some m \<longrightarrow> m f = Some i \<longrightarrow>
        cow_get (ft_funs T) i = Some f \<and> cow_get (ft_rfuns T) f \<noteq> None)"

lemma ft_okD:
  assumes "ft_ok sz T"
  shows "cow_ok (ft_sizes T)" "cow_ok (ft_funs T)" "cow_ok (ft_rfuns T)" "0 < ft_idx T"
    and "cw_heap (ft_sizes T) a = Some m \<Longrightarrow> m f = Some n \<Longrightarrow> n = sz f"
    and "cw_heap (ft_funs T) a = Some m' \<Longrightarrow> m' i = Some f \<Longrightarrow>
        cow_get (ft_funs T) i = Some f \<and> cow_get (ft_sizes T) f \<noteq> None \<and> 0 < i \<and> i < ft_idx T"
    and "cw_heap (ft_rfuns T) a = Some m \<Longrightarrow> m f = Some i \<Longrightarrow>
        cow_get (ft_funs T) i = Some f \<and> cow_get (ft_rfuns T) f \<noteq> None"
  using assms unfolding ft_ok_def by blast+

text \<open>An index that a thread has drawn and not published; what a thread knows.\<close>

fun reg_idx :: "'f reg \<Rightarrow> nat option" where
  "reg_idx (RgLoadFuns cs i) = Some i"
| "reg_idx (RgLoadRfuns cs i cf) = Some i"
| "reg_idx (RgCopySizes l) = Some (rl_idx l)"
| "reg_idx (RgCasSizes l m) = Some (rl_idx l)"
| "reg_idx (RgCopyFuns l) = Some (rl_idx l)"
| "reg_idx (RgCasFuns l n) = Some (rl_idx l)"
| "reg_idx _ = None"

definition ft_fresh :: "'f ftable \<Rightarrow> nat \<Rightarrow> bool" where
  "ft_fresh T i \<longleftrightarrow> 0 < i \<and> i < ft_idx T \<and> cow_get (ft_funs T) i = None"

fun reg_ptrs :: "'f ftable \<Rightarrow> 'f reg \<Rightarrow> bool" where
  "reg_ptrs T (RgCount a) = (a \<le> cw_cur (ft_rfuns T))"
| "reg_ptrs T (RgNextIdx cs) = (cs \<le> cw_cur (ft_sizes T))"
| "reg_ptrs T (RgLoadFuns cs i) = (cs \<le> cw_cur (ft_sizes T))"
| "reg_ptrs T (RgLoadRfuns cs i cf) = (cs \<le> cw_cur (ft_sizes T) \<and> cf \<le> cw_cur (ft_funs T))"
| "reg_ptrs T (RgCopySizes l) = (rl_sizes l \<le> cw_cur (ft_sizes T) \<and> rl_funs l \<le> cw_cur (ft_funs T) \<and> rl_rfuns l \<le> cw_cur (ft_rfuns T))"
| "reg_ptrs T (RgCasSizes l m) = (rl_sizes l \<le> cw_cur (ft_sizes T) \<and> rl_funs l \<le> cw_cur (ft_funs T) \<and> rl_rfuns l \<le> cw_cur (ft_rfuns T))"
| "reg_ptrs T (RgCopyFuns l) = (rl_sizes l < cw_cur (ft_sizes T) \<and> rl_funs l \<le> cw_cur (ft_funs T) \<and> rl_rfuns l \<le> cw_cur (ft_rfuns T))"
| "reg_ptrs T (RgCasFuns l n) = (rl_sizes l < cw_cur (ft_sizes T) \<and> rl_funs l \<le> cw_cur (ft_funs T) \<and> rl_rfuns l \<le> cw_cur (ft_rfuns T))"
| "reg_ptrs T (RgCopyRfuns l) = (rl_sizes l < cw_cur (ft_sizes T) \<and> rl_funs l < cw_cur (ft_funs T) \<and> rl_rfuns l \<le> cw_cur (ft_rfuns T))"
| "reg_ptrs T (RgCasRfuns l m) = (rl_sizes l < cw_cur (ft_sizes T) \<and> rl_funs l < cw_cur (ft_funs T) \<and> rl_rfuns l \<le> cw_cur (ft_rfuns T))"
| "reg_ptrs T (RgRetire l) = (rl_sizes l < cw_cur (ft_sizes T) \<and> rl_funs l < cw_cur (ft_funs T) \<and> rl_rfuns l < cw_cur (ft_rfuns T))"
| "reg_ptrs T (RgDeref a) = (a \<le> cw_cur (ft_rfuns T))"
| "reg_ptrs T _ = True"

fun reg_knows :: "('f \<Rightarrow> nat) \<Rightarrow> 'f ftable \<Rightarrow> 'f \<Rightarrow> 'f reg \<Rightarrow> bool" where
  "reg_knows sz T f (RgCasSizes l m) =
     (\<forall>m0. cw_heap (ft_sizes T) (rl_sizes l) = Some m0 \<longrightarrow> m = m0(f \<mapsto> sz f))"
| "reg_knows sz T f (RgCopyFuns l) = (cow_get (ft_sizes T) f \<noteq> None)"
| "reg_knows sz T f (RgCasFuns l n) =
     (cow_get (ft_sizes T) f \<noteq> None \<and> (\<forall>n0. cw_heap (ft_funs T) (rl_funs l) = Some n0 \<longrightarrow> n = n0(rl_idx l \<mapsto> f)))"
| "reg_knows sz T f (RgCopyRfuns l) = (cow_get (ft_funs T) (rl_idx l) = Some f)"
| "reg_knows sz T f (RgCasRfuns l m) =
     (cow_get (ft_funs T) (rl_idx l) = Some f \<and>
      (\<forall>m0. cw_heap (ft_rfuns T) (rl_rfuns l) = Some m0 \<longrightarrow> m = m0(f \<mapsto> rl_idx l)))"
| "reg_knows sz T f (RgRetire l) = (cow_get (ft_rfuns T) f \<noteq> None)"
| "reg_knows sz T f RgDone = (cow_get (ft_rfuns T) f \<noteq> None)"
| "reg_knows sz T f (RgDeref a) =
     (cow_get (ft_rfuns T) f \<noteq> None \<and> (\<forall>m0. cw_heap (ft_rfuns T) a = Some m0 \<longrightarrow> m0 f \<noteq> None))"
| "reg_knows sz T f (RgCode i) = (cow_get (ft_funs T) i = Some f)"
| "reg_knows sz T f _ = True"

text \<open>The table only grows: maps keep their contents, and entries of the current maps stay.\<close>

definition cow_le :: "'m cow \<Rightarrow> 'm cow \<Rightarrow> bool" where
  "cow_le c c' \<longleftrightarrow> cw_cur c \<le> cw_cur c' \<and> (\<forall>a m. a \<le> cw_cur c \<longrightarrow> cw_heap c' a = Some m \<longrightarrow> cw_heap c a = Some m)"

definition ft_le :: "'f ftable \<Rightarrow> 'f ftable \<Rightarrow> bool" where
  "ft_le T T' \<longleftrightarrow>
     cow_le (ft_sizes T) (ft_sizes T') \<and> cow_le (ft_funs T) (ft_funs T') \<and> cow_le (ft_rfuns T) (ft_rfuns T') \<and>
     ft_idx T \<le> ft_idx T' \<and>
     (\<forall>f. cow_get (ft_sizes T) f \<noteq> None \<longrightarrow> cow_get (ft_sizes T') f \<noteq> None) \<and>
     (\<forall>i f. cow_get (ft_funs T) i = Some f \<longrightarrow> cow_get (ft_funs T') i = Some f) \<and>
     (\<forall>f. cow_get (ft_rfuns T) f \<noteq> None \<longrightarrow> cow_get (ft_rfuns T') f \<noteq> None)"

lemma cow_le_refl [simp]: "cow_le c c"
  by (simp add: cow_le_def)

lemma ft_le_refl [simp]: "ft_le T T"
  by (simp add: ft_le_def)

lemma cow_le_cas: "cow_ok c \<Longrightarrow> cow_cas a m c = Some c' \<Longrightarrow> cow_le c c'"
  using cow_cas_ok by (fastforce simp: cow_le_def)

lemma reg_ptrs_le: "ft_le T T' \<Longrightarrow> reg_ptrs T r \<Longrightarrow> reg_ptrs T' r"
  by (cases r) (auto simp: ft_le_def cow_le_def)

lemma reg_knows_le: "ft_le T T' \<Longrightarrow> reg_ptrs T r \<Longrightarrow> reg_knows sz T f r \<Longrightarrow> reg_knows sz T' f r"
  by (cases r) (auto simp: ft_le_def cow_le_def)

section \<open>Each step keeps the invariant\<close>

lemma ft_add_size:
  assumes ok: "ft_ok sz T" and c: "cow_cas a ((cow_get (ft_sizes T))(f \<mapsto> sz f)) (ft_sizes T) = Some c"
  shows "ft_ok sz (T\<lparr>ft_sizes := c\<rparr>)" "ft_le T (T\<lparr>ft_sizes := c\<rparr>)" "cow_get c f \<noteq> None"
proof -
  note D = ft_okD [OF ok] and K = cow_cas_ok [OF ft_okD(1) [OF ok] c]
  have old: "cow_get (ft_sizes T) g = Some n \<Longrightarrow> n = sz g" for g n
    using D(5) [OF cow_cur [OF D(1)]] by blast
  show "ft_ok sz (T\<lparr>ft_sizes := c\<rparr>)"
    using D(2,3,4) D(5) D(6) D(7) K(1,2,5) old unfolding ft_ok_def by (auto split: if_splits)
  show "ft_le T (T\<lparr>ft_sizes := c\<rparr>)"
    using cow_le_cas [OF D(1) c] K(2) by (auto simp: ft_le_def)
  show "cow_get c f \<noteq> None" using K(2) by simp
qed

lemma ft_add_fun:
  assumes ok: "ft_ok sz T" and c: "cow_cas a ((cow_get (ft_funs T))(i \<mapsto> f)) (ft_funs T) = Some c"
    and fresh: "ft_fresh T i" and f: "cow_get (ft_sizes T) f \<noteq> None"
  shows "ft_ok sz (T\<lparr>ft_funs := c\<rparr>)" "ft_le T (T\<lparr>ft_funs := c\<rparr>)" "cow_get c = (cow_get (ft_funs T))(i \<mapsto> f)"
proof -
  note D = ft_okD [OF ok] and K = cow_cas_ok [OF ft_okD(2) [OF ok] c]
  note cur = D(6) [OF cow_cur [OF D(2)]]
  have i: "0 < i" "i < ft_idx T" "cow_get (ft_funs T) i = None" using fresh by (auto simp: ft_fresh_def)
  have new: "cow_get c j = Some g" if "cow_get (ft_funs T) j = Some g" for j g
    using that K(2) i(3) by auto
  show "ft_le T (T\<lparr>ft_funs := c\<rparr>)"
    using cow_le_cas [OF D(2) c] new by (auto simp: ft_le_def)
  have funs: "cow_get c j = Some g \<and> cow_get (ft_sizes T) g \<noteq> None \<and> 0 < j \<and> j < ft_idx T"
    if n: "cw_heap c b = Some n" "n j = Some g" for b n j g
  proof -
    consider "n = (cow_get (ft_funs T))(i \<mapsto> f)" | "cw_heap (ft_funs T) b = Some n"
      using n(1) K(5) [of b n] by auto
    then show ?thesis
    proof cases
      case 1
      then show ?thesis using n(2) K(2) cur [of j g] i f by (auto split: if_splits)
    next
      case 2
      then show ?thesis using D(6) [OF 2 n(2)] new by blast
    qed
  qed
  show "ft_ok sz (T\<lparr>ft_funs := c\<rparr>)"
    unfolding ft_ok_def using D(1,3,4,5) K(1) funs D(7) new by simp
  show "cow_get c = (cow_get (ft_funs T))(i \<mapsto> f)" by (rule K(2))
qed

lemma ft_add_rfun:
  assumes ok: "ft_ok sz T" and c: "cow_cas a ((cow_get (ft_rfuns T))(f \<mapsto> i)) (ft_rfuns T) = Some c"
    and f: "cow_get (ft_funs T) i = Some f"
  shows "ft_ok sz (T\<lparr>ft_rfuns := c\<rparr>)" "ft_le T (T\<lparr>ft_rfuns := c\<rparr>)" "cow_get c f \<noteq> None"
proof -
  note D = ft_okD [OF ok] and K = cow_cas_ok [OF ft_okD(3) [OF ok] c]
  note cur = D(7) [OF cow_cur [OF D(3)]]
  have new: "cow_get (ft_rfuns T) g \<noteq> None \<Longrightarrow> cow_get c g \<noteq> None" for g using K(2) by auto
  show "ft_le T (T\<lparr>ft_rfuns := c\<rparr>)"
    using cow_le_cas [OF D(3) c] new by (simp add: ft_le_def)
  have rfuns: "cow_get (ft_funs T) j = Some g \<and> cow_get c g \<noteq> None"
    if m: "cw_heap c b = Some m" "m g = Some j" for b m j g
  proof -
    consider "m = (cow_get (ft_rfuns T))(f \<mapsto> i)" | "cw_heap (ft_rfuns T) b = Some m"
      using m(1) K(5) [of b m] by auto
    then show ?thesis
    proof cases
      case 1
      then show ?thesis using m(2) K(2) cur [of g j] f by (auto split: if_splits)
    next
      case 2
      then show ?thesis using D(7) [OF 2 m(2)] new by blast
    qed
  qed
  show "ft_ok sz (T\<lparr>ft_rfuns := c\<rparr>)"
    unfolding ft_ok_def using D(1,2,4,5,6) K(1) rfuns by simp
  show "cow_get c f \<noteq> None" using K(2) by simp
qed

lemma ft_next_idx:
  assumes "ft_ok sz T"
  shows "ft_ok sz (T\<lparr>ft_idx := ft_idx T + 1\<rparr>)" "ft_le T (T\<lparr>ft_idx := ft_idx T + 1\<rparr>)"
    "ft_fresh (T\<lparr>ft_idx := ft_idx T + 1\<rparr>) (ft_idx T)"
proof -
  note D = ft_okD [OF assms]
  show "ft_ok sz (T\<lparr>ft_idx := ft_idx T + 1\<rparr>)"
    unfolding ft_ok_def using D(1-3) D(5,6,7) by (simp add: less_SucI)
  show "ft_le T (T\<lparr>ft_idx := ft_idx T + 1\<rparr>)" by (simp add: ft_le_def)
  have "cow_get (ft_funs T) (ft_idx T) = None"
    using D(6) [OF cow_cur [OF D(2)], of "ft_idx T"] by (cases "cow_get (ft_funs T) (ft_idx T)") auto
  then show "ft_fresh (T\<lparr>ft_idx := ft_idx T + 1\<rparr>) (ft_idx T)" using D(4) by (simp add: ft_fresh_def)
qed

lemma ft_retire:
  assumes ok: "ft_ok sz T" and l: "rl_sizes l < cw_cur (ft_sizes T)" "rl_funs l < cw_cur (ft_funs T)" "rl_rfuns l < cw_cur (ft_rfuns T)"
    and T': "T' = T\<lparr>ft_sizes := cow_retire (rl_sizes l) (ft_sizes T), ft_rfuns := cow_retire (rl_rfuns l) (ft_rfuns T),
                     ft_funs := cow_retire (rl_funs l) (ft_funs T)\<rparr>"
  shows "ft_ok sz T'" "ft_le T T'"
proof -
  note D = ft_okD [OF ok]
  note R = cow_retire_ok [OF D(1) l(1)] cow_retire_ok [OF D(2) l(2)] cow_retire_ok [OF D(3) l(3)]
  show "ft_ok sz T'" using ok by (simp add: ft_ok_def T' R)
  show "ft_le T T'" by (simp add: ft_le_def cow_le_def T' R)
qed

lemma ft_free_ok:
  assumes ok: "ft_ok sz T"
  shows "ft_ok sz (ft_free T)" "ft_le T (ft_free T)"
proof -
  note D = ft_okD [OF ok]
  note F = cow_free_ok [OF D(1)] cow_free_ok [OF D(2)] cow_free_ok [OF D(3)]
  show "ft_ok sz (ft_free T)"
    unfolding ft_ok_def ft_free_def using F D(4) D(5) D(6) D(7) by simp blast
  show "ft_le T (ft_free T)" by (auto simp: ft_le_def ft_free_def cow_le_def F)
qed

text \<open>What a step of a thread keeps and leads to; other threads keep their unpublished indices.\<close>

definition reg_goes :: "('f \<Rightarrow> nat) \<Rightarrow> 'f \<Rightarrow> 'f reg \<Rightarrow> 'f ftable \<Rightarrow> 'f reg \<Rightarrow> 'f ftable \<Rightarrow> bool" where
  "reg_goes sz f r T r' T' \<longleftrightarrow>
     ft_ok sz T' \<and> ft_le T T' \<and> reg_ptrs T' r' \<and> reg_knows sz T' f r' \<and>
     (\<forall>i. reg_idx r' = Some i \<longrightarrow> ft_fresh T' i \<and> (reg_idx r = Some i \<or> i = ft_idx T)) \<and>
     (\<forall>i. ft_fresh T i \<longrightarrow> reg_idx r \<noteq> Some i \<longrightarrow> ft_fresh T' i)"

lemma reg_goes_stay:
  assumes "ft_ok sz T" "reg_ptrs T r'" "reg_knows sz T f r'"
    and "\<And>i. reg_idx r' = Some i \<Longrightarrow> ft_fresh T i \<and> reg_idx r = Some i"
  shows "reg_goes sz f r T r' T"
  using assms by (simp add: reg_goes_def)

lemma reg_cas_sizes:
  assumes ok: "ft_ok sz T" and p: "reg_ptrs T (RgCasSizes l m)" and k: "reg_knows sz T f (RgCasSizes l m)"
    and fresh: "ft_fresh T (rl_idx l)" and c: "cow_cas (rl_sizes l) m (ft_sizes T) = Some c"
  shows "reg_goes sz f (RgCasSizes l m) T (RgCopyFuns l) (T\<lparr>ft_sizes := c\<rparr>)"
proof -
  note K = cow_cas_ok [OF ft_okD(1) [OF ok] c]
  have "m = (cow_get (ft_sizes T))(f \<mapsto> sz f)" using k K(3) cow_cur [OF ft_okD(1) [OF ok]] by simp
  note A = ft_add_size [OF ok c [unfolded this]]
  show ?thesis
    using A p fresh K(3,4) by (auto simp: reg_goes_def ft_fresh_def)
qed

lemma reg_cas_funs:
  assumes ok: "ft_ok sz T" and p: "reg_ptrs T (RgCasFuns l n)" and k: "reg_knows sz T f (RgCasFuns l n)"
    and fresh: "ft_fresh T (rl_idx l)" and c: "cow_cas (rl_funs l) n (ft_funs T) = Some c"
  shows "reg_goes sz f (RgCasFuns l n) T (RgCopyRfuns l) (T\<lparr>ft_funs := c\<rparr>)"
proof -
  note K = cow_cas_ok [OF ft_okD(2) [OF ok] c]
  have n: "n = (cow_get (ft_funs T))(rl_idx l \<mapsto> f)" using k K(3) cow_cur [OF ft_okD(2) [OF ok]] by simp
  have "cow_get (ft_sizes T) f \<noteq> None" using k by simp
  note A = ft_add_fun [OF ok c [unfolded n] fresh this]
  show ?thesis
    using A p K(3,4) by (auto simp: reg_goes_def ft_fresh_def)
qed

lemma reg_cas_rfuns:
  assumes ok: "ft_ok sz T" and p: "reg_ptrs T (RgCasRfuns l m)" and k: "reg_knows sz T f (RgCasRfuns l m)"
    and c: "cow_cas (rl_rfuns l) m (ft_rfuns T) = Some c"
  shows "reg_goes sz f (RgCasRfuns l m) T (RgRetire l) (T\<lparr>ft_rfuns := c\<rparr>)"
proof -
  note K = cow_cas_ok [OF ft_okD(3) [OF ok] c]
  have m: "m = (cow_get (ft_rfuns T))(f \<mapsto> rl_idx l)" using k K(3) cow_cur [OF ft_okD(3) [OF ok]] by simp
  have "cow_get (ft_funs T) (rl_idx l) = Some f" using k by simp
  note A = ft_add_rfun [OF ok c [unfolded m] this]
  show ?thesis
    using A p K(3,4) by (auto simp: reg_goes_def ft_fresh_def)
qed

lemma reg_step_goes:
  assumes ok: "ft_ok sz T" and p: "reg_ptrs T r" and k: "reg_knows sz T f r"
    and fresh: "\<And>i. reg_idx r = Some i \<Longrightarrow> ft_fresh T i" and st: "reg_step f (sz f) spurious r T = (r', T')"
  shows "reg_goes sz f r T r' T'"
proof -
  note D = ft_okD [OF ok]
  show ?thesis
  proof (cases r)
    case RgFind
    then show ?thesis using ok st by (auto simp: reg_step_def intro!: reg_goes_stay)
  next
    case (RgCount a)
    have "cow_get (ft_rfuns T) f \<noteq> None" if "cw_heap (ft_rfuns T) a = Some m" "m f \<noteq> None" for m
      using D(7) [OF that(1), of f] that(2) by blast
    then show ?thesis using ok st RgCount by (auto simp: reg_step_def intro!: reg_goes_stay split: option.splits if_splits)
  next
    case RgLoadSizes
    then show ?thesis using ok st by (auto simp: reg_step_def intro!: reg_goes_stay)
  next
    case (RgNextIdx cs)
    then have "r' = RgLoadFuns cs (ft_idx T)" "T' = T\<lparr>ft_idx := ft_idx T + 1\<rparr>" using ok st by (auto simp: reg_step_def)
    then show ?thesis using ft_next_idx [OF ok] p RgNextIdx by (auto simp: reg_goes_def ft_fresh_def)
  next
    case (RgLoadFuns cs i)
    then show ?thesis using ok st p fresh by (auto simp: reg_step_def intro!: reg_goes_stay)
  next
    case (RgLoadRfuns cs i cf)
    then show ?thesis using ok st p fresh by (auto simp: reg_step_def intro!: reg_goes_stay)
  next
    case (RgCopySizes l)
    then show ?thesis using ok st p fresh by (auto simp: reg_step_def intro!: reg_goes_stay split: option.splits)
  next
    case (RgCasSizes l m)
    show ?thesis
    proof (cases "cw_heap (ft_sizes T) (rl_sizes l) \<noteq> None \<and> \<not> spurious \<and> cow_cas (rl_sizes l) m (ft_sizes T) \<noteq> None")
      case True
      then obtain c where c: "cow_cas (rl_sizes l) m (ft_sizes T) = Some c" by auto
      then have "r' = RgCopyFuns l" "T' = T\<lparr>ft_sizes := c\<rparr>" using st RgCasSizes True by (auto simp: reg_step_def)
      then show ?thesis using reg_cas_sizes [OF ok _ _ _ c] p k fresh RgCasSizes by simp
    next
      case False
      then show ?thesis using ok st p fresh RgCasSizes
        by (auto simp: reg_step_def intro!: reg_goes_stay split: option.splits if_splits)
    qed
  next
    case (RgCopyFuns l)
    then show ?thesis using ok st p k fresh by (auto simp: reg_step_def intro!: reg_goes_stay split: option.splits)
  next
    case (RgCasFuns l n)
    show ?thesis
    proof (cases "cw_heap (ft_funs T) (rl_funs l) \<noteq> None \<and> \<not> spurious \<and> cow_cas (rl_funs l) n (ft_funs T) \<noteq> None")
      case True
      then obtain c where c: "cow_cas (rl_funs l) n (ft_funs T) = Some c" by auto
      then have "r' = RgCopyRfuns l" "T' = T\<lparr>ft_funs := c\<rparr>" using st RgCasFuns True by (auto simp: reg_step_def)
      then show ?thesis using reg_cas_funs [OF ok _ _ _ c] p k fresh RgCasFuns by simp
    next
      case False
      then show ?thesis using ok st p k fresh RgCasFuns
        by (auto simp: reg_step_def intro!: reg_goes_stay split: option.splits if_splits)
    qed
  next
    case (RgCopyRfuns l)
    then show ?thesis using ok st p k by (auto simp: reg_step_def intro!: reg_goes_stay split: option.splits)
  next
    case (RgCasRfuns l m)
    show ?thesis
    proof (cases "cw_heap (ft_rfuns T) (rl_rfuns l) \<noteq> None \<and> \<not> spurious \<and> cow_cas (rl_rfuns l) m (ft_rfuns T) \<noteq> None")
      case True
      then obtain c where c: "cow_cas (rl_rfuns l) m (ft_rfuns T) = Some c" by auto
      then have "r' = RgRetire l" "T' = T\<lparr>ft_rfuns := c\<rparr>" using st RgCasRfuns True by (auto simp: reg_step_def)
      then show ?thesis using reg_cas_rfuns [OF ok _ _ c] p k RgCasRfuns by simp
    next
      case False
      then show ?thesis using ok st p k RgCasRfuns
        by (auto simp: reg_step_def intro!: reg_goes_stay split: option.splits if_splits)
    qed
  next
    case (RgRetire l)
    have l: "rl_sizes l < cw_cur (ft_sizes T)" "rl_funs l < cw_cur (ft_funs T)" "rl_rfuns l < cw_cur (ft_rfuns T)"
      using p RgRetire by simp_all
    have r': "r' = RgDone" and T': "T' = T\<lparr>ft_sizes := cow_retire (rl_sizes l) (ft_sizes T), ft_rfuns := cow_retire (rl_rfuns l) (ft_rfuns T),
        ft_funs := cow_retire (rl_funs l) (ft_funs T)\<rparr>"
      using st RgRetire by (auto simp: reg_step_def)
    note R = ft_retire [OF ok l T']
    have "cow_get (ft_funs T') = cow_get (ft_funs T)" "ft_idx T' = ft_idx T" "cow_get (ft_rfuns T') = cow_get (ft_rfuns T)"
      using T' cow_retire_ok(2) [OF D(2) l(2)] cow_retire_ok(2) [OF D(3) l(3)] by simp_all
    then show ?thesis using R k RgRetire r' by (simp add: reg_goes_def ft_fresh_def)
  qed (use ok st p k in \<open>auto simp: reg_step_def intro!: reg_goes_stay\<close>)
qed

lemma reg_lookup_goes:
  assumes ok: "ft_ok sz T" and p: "reg_ptrs T r" and k: "reg_knows sz T f r"
    and st: "reg_lookup f r T = (r', T')" and r: "r \<in> {RgDone} \<union> range RgDeref"
  shows "T' = T" "reg_goes sz f r T r' T'"
proof -
  note D = ft_okD [OF ok]
  have "T' = T \<and> reg_goes sz f r T r' T'"
  proof (cases r)
    case RgDone
    have "m f \<noteq> None" if "cw_heap (ft_rfuns T) (cw_cur (ft_rfuns T)) = Some m" for m
      using that k cow_cur [OF D(3)] RgDone by simp
    then show ?thesis using RgDone ok st k by (auto simp: reg_lookup_def intro!: reg_goes_stay)
  next
    case (RgDeref a)
    then show ?thesis using ok st k D(7) [of a]
      by (auto simp: reg_lookup_def intro!: reg_goes_stay split: option.splits)
  qed (use r in auto)
  then show "T' = T" "reg_goes sz f r T r' T'" by auto
qed

section \<open>All threads\<close>

text \<open>
  \<open>regs t\<close> is the function that thread \<open>t\<close> is looking up or adding, and how far it has come. Two
  threads never have the same unpublished index.
\<close>

definition ft_inv :: "('f \<Rightarrow> nat) \<Rightarrow> (tid \<Rightarrow> ('f \<times> 'f reg) option) \<Rightarrow> 'f ftable \<Rightarrow> bool" where
  "ft_inv sz regs T \<longleftrightarrow> ft_ok sz T \<and>
     (\<forall>t f r. regs t = Some (f, r) \<longrightarrow> reg_ptrs T r \<and> reg_knows sz T f r \<and>
        (\<forall>i. reg_idx r = Some i \<longrightarrow> ft_fresh T i)) \<and>
     (\<forall>t u f g r r' i. regs t = Some (f, r) \<longrightarrow> regs u = Some (g, r') \<longrightarrow>
        reg_idx r = Some i \<longrightarrow> reg_idx r' = Some i \<longrightarrow> t = u)"

lemma ft_invD:
  assumes "ft_inv sz regs T"
  shows "ft_ok sz T" "regs t = Some (f, r) \<Longrightarrow> reg_ptrs T r" "regs t = Some (f, r) \<Longrightarrow> reg_knows sz T f r"
    and "regs t = Some (f, r) \<Longrightarrow> reg_idx r = Some i \<Longrightarrow> ft_fresh T i"
    and "regs t = Some (f, r) \<Longrightarrow> regs u = Some (g, r') \<Longrightarrow> reg_idx r = Some i \<Longrightarrow> reg_idx r' = Some i \<Longrightarrow> t = u"
  using assms unfolding ft_inv_def by blast+

lemma ft_inv_goes:
  assumes inv: "ft_inv sz regs T" and t: "regs t = Some (f, r)" and go: "reg_goes sz f r T r' T'"
  shows "ft_inv sz (regs(t := Some (f, r'))) T'"
proof -
  note D = ft_invD [OF inv]
  have G: "ft_ok sz T'" "ft_le T T'" "reg_ptrs T' r'" "reg_knows sz T' f r'"
    and new: "\<And>i. reg_idx r' = Some i \<Longrightarrow> ft_fresh T' i \<and> (reg_idx r = Some i \<or> i = ft_idx T)"
    and keep: "\<And>i. ft_fresh T i \<Longrightarrow> reg_idx r \<noteq> Some i \<Longrightarrow> ft_fresh T' i"
    using go by (auto simp: reg_goes_def)
  have other: "reg_ptrs T' r0 \<and> reg_knows sz T' g r0 \<and> (\<forall>i. reg_idx r0 = Some i \<longrightarrow> ft_fresh T' i)"
    if u: "regs u = Some (g, r0)" "u \<noteq> t" for u g r0
  proof -
    have "ft_fresh T' i" if "reg_idx r0 = Some i" for i
      using keep [of i] D(4) [OF u(1) that] D(5) [OF u(1) t that] u(2) by blast
    then show ?thesis using reg_ptrs_le [OF G(2) D(2) [OF u(1)]] reg_knows_le [OF G(2) D(2,3) [OF u(1)]] by blast
  qed
  have distinct: "reg_idx r0 \<noteq> Some i" if u: "regs u = Some (g, r0)" "u \<noteq> t" "reg_idx r' = Some i" for u g r0 i
  proof
    assume i: "reg_idx r0 = Some i"
    then have "i \<noteq> ft_idx T" using D(4) [OF u(1)] by (auto simp: ft_fresh_def)
    then have "reg_idx r = Some i" using new [OF u(3)] by blast
    then show False using D(5) [OF u(1) t i] u(2) by blast
  qed
  show ?thesis
    unfolding ft_inv_def
  proof (intro conjI allI impI)
    fix u v g h r0 r1 i
    assume "(regs(t := Some (f, r'))) u = Some (g, r0)" "(regs(t := Some (f, r'))) v = Some (h, r1)"
      "reg_idx r0 = Some i" "reg_idx r1 = Some i"
    then show "u = v" using distinct D(5) by (auto split: if_splits)
  qed (use G new other in \<open>auto split: if_splits\<close>)
qed

lemma ft_inv_enter:
  assumes "ft_inv sz regs T"
  shows "ft_inv sz (regs(t := Some (f, RgFind))) T"
  using assms unfolding ft_inv_def by auto

lemma ft_inv_leave:
  assumes "ft_inv sz regs T"
  shows "ft_inv sz (regs(t := None)) T"
  using assms unfolding ft_inv_def by auto

lemma ft_inv_free:
  assumes inv: "ft_inv sz regs T"
  shows "ft_inv sz regs (ft_free T)"
proof -
  note D = ft_invD [OF inv] and F = ft_free_ok [OF ft_invD(1) [OF inv]]
  have "ft_fresh (ft_free T) i = ft_fresh T i" for i
    using cow_free_ok(2) [OF ft_okD(2) [OF D(1)]] by (simp add: ft_fresh_def ft_free_def)
  then show ?thesis
    unfolding ft_inv_def using D(4,5) reg_ptrs_le [OF F(2) D(2)] reg_knows_le [OF F(2) D(2,3)] F(1) by blast
qed

lemma ft_inv_init: "ft_inv sz (\<lambda>_. None) ft_init"
  by (auto simp: ft_inv_def ft_ok_def ft_init_def cow_new_ok) (auto simp: cow_new_def split: if_splits)

end
