(* ===== verification/Buffer_Queue.thy ===== *)
theory Buffer_Queue
  imports Queue_Spec Marshal Reservations Function_Table
begin

text \<open>
  The queue of \<open>queues/buffer_queue.hpp\<close>: one array of bytes, in which an operation takes the four bytes
  of the index of its function and the bytes of its parameters, directly behind the operation before
  it. The indices of the functions are in the table of Function_Table, to which \<open>enqueue\<close> adds
  functions that it does not have.

  The 64-bit counter is a natural number. The 32-bit index of an entry is read and written in one
  step, at any address, as the code has it.
\<close>

section \<open>Configuration and state\<close>

text \<open>\<open>bq_array\<close> is \<open>ARRAY_SIZE\<close>, \<open>bq_params\<close> are the sizes of the parameters that a function unpacks.\<close>

record 'f bq_config =
  bq_array :: nat
  bq_params :: "'f \<Rightarrow> nat list"

definition bq_size :: "'f bq_config \<Rightarrow> 'f \<Rightarrow> nat" where
  "bq_size C f = 4 + sumsizes (bq_params C f)"

text \<open>Subtraction of \<open>unsigned long\<close>; the offset behind which no entry can start.\<close>

definition usub64 :: "nat \<Rightarrow> nat \<Rightarrow> nat" where
  "usub64 a b = (a + (2 ^ 64 - b mod 2 ^ 64)) mod 2 ^ 64"

definition bq_limit :: "'f bq_config \<Rightarrow> nat" where
  "bq_limit C = usub64 (bq_array C) 4"

text \<open>
  A thread in \<open>enqueue\<close> adds its function to the table (\<open>BqReg\<close>); is before the load of \<open>closed\<close>, before
  the fetch-and-add; writes parameter \<open>k\<close>, or looks up the index of its function and then stores it
  (\<open>BqCode\<close>); or it found too little space and is before the store of -1, or before the store of \<open>closed\<close>. \<open>BqUndef\<close> is
  undefined behaviour: the use of a pointer to a deleted map.
\<close>

datatype 'f bq_pc =
    BqIdle
  | BqReg 'f "byte list list" "'f reg"
  | BqEnter 'f "byte list list"
  | BqFetch 'f "byte list list"
  | BqWrite 'f "byte list list" nat nat
  | BqCode 'f "byte list list" nat "'f reg"
  | BqMark 'f "byte list list" nat
  | BqFull 'f "byte list list"
  | BqUndef

text \<open>
  The owner, as for the entry queue. For an entry, \<open>flush\<close> waits for the index of the function (\<open>BwSpin\<close>), loads
  \<open>functions\<close> and looks up the index, loads \<open>sizes\<close> and looks up the size, and then calls the function and clears the
  entry. \<open>BwUnmark\<close> clears the mark of a full buffer, \<open>BwFree\<close> deletes the maps that were replaced.
\<close>

datatype 'f bq_owner =
    BwClosed
  | BwOpening
  | BwOpened
  | BwLoad nat
  | BwXchg nat
  | BwClose1 nat nat
  | BwClose2 nat
  | BwSpin bool nat nat
  | BwFuns bool nat nat nat
  | BwFun bool nat nat nat nat
  | BwSizes bool nat nat 'f
  | BwSize bool nat nat 'f nat
  | BwCall bool nat nat 'f nat
  | BwUnmark nat
  | BwFree
  | BwUndef

record 'f buffer_queue =
  bq_counter :: nat
  bq_closed :: status
  bq_buf :: "byte list"
  bq_table :: "'f ftable"
  bq_pc :: "tid \<Rightarrow> 'f bq_pc"
  bq_owner :: "'f bq_owner"

definition bq_init :: "'f bq_config \<Rightarrow> 'f buffer_queue" where
  "bq_init C =
     \<lparr>bq_counter = bq_array C, bq_closed = CLOSED, bq_buf = replicate (bq_array C) 0, bq_table = ft_init,
      bq_pc = (\<lambda>_. BqIdle), bq_owner = BwClosed\<rparr>"

fun bq_is_idle :: "'f bq_pc \<Rightarrow> bool" where
  "bq_is_idle BqIdle = True"
| "bq_is_idle _ = False"

fun reg_is_undef :: "'f reg \<Rightarrow> bool" where
  "reg_is_undef RgUndef = True"
| "reg_is_undef _ = False"

lemma bq_is_idle_iff [simp]: "bq_is_idle p \<longleftrightarrow> p = BqIdle"
  by (cases p) simp_all

lemma reg_is_undef_iff [simp]: "reg_is_undef r \<longleftrightarrow> r = RgUndef"
  by (cases r) simp_all

definition bq_goto :: "tid \<Rightarrow> 'f bq_pc \<Rightarrow> 'f buffer_queue \<Rightarrow> 'f buffer_queue" where
  "bq_goto t p s = s\<lparr>bq_pc := (bq_pc s)(t := p)\<rparr>"

section \<open>\<open>enqueue\<close>\<close>

text \<open>-1, the value that marks the rest of a buffer that is full.\<close>

definition bq_mark :: nat where
  "bq_mark = 2 ^ 32 - 1"

definition bq_store :: "nat \<Rightarrow> byte list \<Rightarrow> tid \<Rightarrow> 'f bq_pc \<Rightarrow> 'f buffer_queue \<Rightarrow> 'f buffer_queue option" where
  "bq_store off bs t p s =
     (case write_bytes off bs (bq_buf s) of
        None \<Rightarrow> None | Some b \<Rightarrow> Some (bq_goto t p (s\<lparr>bq_buf := b\<rparr>)))"

definition bq_registered :: "'f \<Rightarrow> byte list list \<Rightarrow> 'f reg \<Rightarrow> 'f bq_pc" where
  "bq_registered f ps r =
     (case r of RgDone \<Rightarrow> BqEnter f ps | RgUndef \<Rightarrow> BqUndef | _ \<Rightarrow> BqReg f ps r)"

definition bq_enqueue :: "'f bq_config \<Rightarrow> bool \<Rightarrow> tid \<Rightarrow> 'f buffer_queue \<Rightarrow> 'f buffer_queue option" where
  "bq_enqueue C spurious t s =
     (case bq_pc s t of
        BqReg f ps r \<Rightarrow>
          (case reg_step f (bq_size C f) spurious r (bq_table s) of
             (r', T) \<Rightarrow> Some (bq_goto t (bq_registered f ps r') (s\<lparr>bq_table := T\<rparr>)))
      | BqEnter f ps \<Rightarrow> Some (bq_goto t (if bq_closed s \<noteq> OPEN then BqIdle else BqFetch f ps) s)
      | BqFetch f ps \<Rightarrow>
          (let index = bq_counter s in
           Some (bq_goto t
                  (if index \<le> usub64 (bq_array C) (bq_size C f) then BqWrite f ps index 0
                   else if index < bq_limit C then BqMark f ps index
                   else BqFull f ps)
                  (s\<lparr>bq_counter := index + bq_size C f\<rparr>)))
      | BqWrite f ps index k \<Rightarrow>
          if k < length ps
          then bq_store (index + 4 + sumsizes (map length (take k ps))) (ps ! k) t (BqWrite f ps index (k + 1)) s
          else Some (bq_goto t (BqCode f ps index RgDone) s)
      | BqCode f ps index (RgCode i) \<Rightarrow> bq_store index (u32_bytes i) t BqIdle s
      | BqCode f ps index r \<Rightarrow>
          (case reg_lookup f r (bq_table s) of
             (r', T) \<Rightarrow>
               Some (bq_goto t (if reg_is_undef r' then BqUndef else BqCode f ps index r') (s\<lparr>bq_table := T\<rparr>)))
      | BqMark f ps index \<Rightarrow> bq_store index (u32_bytes bq_mark) t (BqFull f ps) s
      | BqFull f ps \<Rightarrow> Some (bq_goto t BqIdle (s\<lparr>bq_closed := FULL\<rparr>))
      | _ \<Rightarrow> None)"

section \<open>\<open>open\<close> and \<open>flush\<close>\<close>

definition bq_open :: "'f buffer_queue \<Rightarrow> 'f buffer_queue option" where
  "bq_open s =
     (case bq_owner s of
        BwClosed \<Rightarrow> Some (s\<lparr>bq_counter := 0, bq_owner := BwOpening\<rparr>)
      | BwOpening \<Rightarrow> Some (s\<lparr>bq_closed := OPEN, bq_owner := BwOpened\<rparr>)
      | _ \<Rightarrow> None)"

text \<open>The head of the \<open>for\<close> loop, and, when it ends, of the \<open>while\<close> loop.\<close>

definition bq_for :: "bool \<Rightarrow> nat \<Rightarrow> nat \<Rightarrow> 'f bq_owner" where
  "bq_for opn index todo =
     (if index < todo then BwSpin opn index todo else if opn then BwLoad todo else BwFree)"

text \<open>
  A function that is not in the map is a null pointer, whose call is undefined behaviour; a size that
  is not in the map is inserted, with value 0.
\<close>

definition bq_flush :: "'f bq_config \<Rightarrow> 'f buffer_queue \<Rightarrow> 'f buffer_queue option" where
  "bq_flush C s =
     (case bq_owner s of
        BwLoad done \<Rightarrow>
          (let todo = bq_counter s in
           Some (s\<lparr>bq_owner := (if todo = done then BwXchg done
                               else if bq_limit C \<le> todo then BwClose2 done
                               else bq_for True done todo)\<rparr>))
      | BwXchg done \<Rightarrow> Some (s\<lparr>bq_counter := bq_array C, bq_owner := BwClose1 done (bq_counter s)\<rparr>)
      | BwClose1 done todo \<Rightarrow>
          Some (s\<lparr>bq_closed := CLOSED,
                  bq_owner := (if bq_limit C \<le> todo then BwClose2 done else bq_for False done todo)\<rparr>)
      | BwClose2 done \<Rightarrow> Some (s\<lparr>bq_closed := CLOSED, bq_owner := bq_for False done (bq_limit C)\<rparr>)
      | BwSpin opn index todo \<Rightarrow>
          (case read_bytes index 4 (bq_buf s) of
             None \<Rightarrow> None
           | Some code \<Rightarrow>
               Some (if u32_of code = 0 then s
                     else if u32_of code = bq_mark then s\<lparr>bq_owner := BwUnmark index\<rparr>
                     else s\<lparr>bq_owner := BwFuns opn index todo (u32_of code)\<rparr>))
      | BwFuns opn index todo i \<Rightarrow> Some (s\<lparr>bq_owner := BwFun opn index todo i (cw_cur (ft_funs (bq_table s)))\<rparr>)
      | BwFun opn index todo i a \<Rightarrow>
          (case cw_heap (ft_funs (bq_table s)) a of
             None \<Rightarrow> Some (s\<lparr>bq_owner := BwUndef\<rparr>)
           | Some m \<Rightarrow> Some (s\<lparr>bq_owner := (case m i of None \<Rightarrow> BwUndef | Some f \<Rightarrow> BwSizes opn index todo f)\<rparr>))
      | BwSizes opn index todo f \<Rightarrow>
          Some (s\<lparr>bq_owner := BwSize opn index todo f (cw_cur (ft_sizes (bq_table s)))\<rparr>)
      | BwSize opn index todo f a \<Rightarrow>
          (case cw_heap (ft_sizes (bq_table s)) a of
             None \<Rightarrow> Some (s\<lparr>bq_owner := BwUndef\<rparr>)
           | Some m \<Rightarrow>
               (case m f of
                  None \<Rightarrow>
                    Some (s\<lparr>bq_owner := BwCall opn index todo f 0,
                            bq_table := (bq_table s)\<lparr>ft_sizes := cow_put a (m(f \<mapsto> 0)) (ft_sizes (bq_table s))\<rparr>\<rparr>)
                | Some n \<Rightarrow> Some (s\<lparr>bq_owner := BwCall opn index todo f n\<rparr>)))
      | BwCall opn index todo f n \<Rightarrow>
          (case (unroll (bq_params C f) (bq_buf s) (index + 4) [], write_bytes index (replicate n 0) (bq_buf s)) of
             (Some _, Some b) \<Rightarrow> Some (s\<lparr>bq_buf := b, bq_owner := bq_for opn (index + n) todo\<rparr>)
           | _ \<Rightarrow> None)
      | BwUnmark index \<Rightarrow>
          (case write_bytes index (replicate 4 0) (bq_buf s) of
             None \<Rightarrow> None | Some b \<Rightarrow> Some (s\<lparr>bq_buf := b, bq_owner := BwFree\<rparr>))
      | BwFree \<Rightarrow> Some (s\<lparr>bq_table := ft_free (bq_table s), bq_owner := BwClosed\<rparr>)
      | _ \<Rightarrow> None)"

section \<open>The queue as a transition system\<close>

text \<open>\<open>BqSpurious t\<close> is a step of thread \<open>t\<close> in which a weak compare-and-swap fails spuriously.\<close>

datatype 'f bq_label = BqDo "'f q_label" | BqSpurious tid

fun bq_step :: "'f bq_config \<Rightarrow> 'f bq_label \<Rightarrow> 'f buffer_queue \<Rightarrow> 'f buffer_queue option" where
  "bq_step C (BqDo (QCall t f ps)) s =
     (if bq_is_idle (bq_pc s t) \<and> map length ps = bq_params C f then Some (bq_goto t (BqReg f ps RgFind) s) else None)"
| "bq_step C (BqDo (QGo t)) s = bq_enqueue C False t s"
| "bq_step C (BqDo QOpen) s = (if bq_owner s = BwClosed then bq_open s else None)"
| "bq_step C (BqDo QFlush) s = (if bq_owner s = BwOpened then Some (s\<lparr>bq_owner := BwLoad 0\<rparr>) else None)"
| "bq_step C (BqDo QOwner) s =
     (if bq_owner s = BwClosed then None
      else if bq_owner s = BwOpening then bq_open s else bq_flush C s)"
| "bq_step C (BqSpurious t) s = (case bq_pc s t of BqReg f ps r \<Rightarrow> bq_enqueue C True t s | _ \<Rightarrow> None)"

text \<open>What each step means to the abstract queue.\<close>

definition bq_thread_events :: "'f bq_config \<Rightarrow> 'f buffer_queue \<Rightarrow> tid \<Rightarrow> ('f \<times> byte list list) tq_event list" where
  "bq_thread_events C s t =
     (case bq_pc s t of
        BqEnter f ps \<Rightarrow> if bq_closed s \<noteq> OPEN then [TqReturn t (bq_closed s)] else []
      | BqFetch f ps \<Rightarrow> if bq_counter s \<le> usub64 (bq_array C) (bq_size C f) then [TqAccept t] else []
      | BqCode f ps index (RgCode i) \<Rightarrow> [TqReturn t SUCCESS]
      | BqFull f ps \<Rightarrow> [TqReturn t FULL]
      | _ \<Rightarrow> [])"

definition bq_owner_events :: "'f bq_config \<Rightarrow> 'f buffer_queue \<Rightarrow> ('f \<times> byte list list) tq_event list" where
  "bq_owner_events C s =
     (case bq_owner s of
        BwLoad done \<Rightarrow> if bq_counter s \<noteq> done \<and> bq_limit C \<le> bq_counter s then [TqClose] else []
      | BwXchg done \<Rightarrow> [TqClose]
      | BwCall opn index todo f n \<Rightarrow>
          (case unroll (bq_params C f) (bq_buf s) (index + 4) [] of
             None \<Rightarrow> [] | Some (ps, _) \<Rightarrow> [TqExec (f, ps)])
      | BwFree \<Rightarrow> [TqDrained]
      | _ \<Rightarrow> [])"

fun bq_events :: "'f bq_config \<Rightarrow> 'f buffer_queue \<Rightarrow> 'f bq_label \<Rightarrow> ('f \<times> byte list list) tq_event list" where
  "bq_events C s (BqDo (QCall t f ps)) = [TqCall t (f, ps)]"
| "bq_events C s (BqDo (QGo t)) = bq_thread_events C s t"
| "bq_events C s (BqDo QOpen) = [TqOpen]"
| "bq_events C s (BqDo QFlush) = []"
| "bq_events C s (BqDo QOwner) = bq_owner_events C s"
| "bq_events C s (BqSpurious t) = []"

section \<open>Sound configurations\<close>

text \<open>
  What the code relies on: every operation has at least one byte of parameters and fits into the
  buffer.
\<close>

definition bq_ok :: "'f bq_config \<Rightarrow> bool" where
  "bq_ok C \<longleftrightarrow> bq_array C < 2 ^ 64 \<and> (\<forall>f. 4 < bq_size C f \<and> bq_size C f \<le> bq_array C)"

lemma usub64_le: "b \<le> a \<Longrightarrow> a < 2 ^ 64 \<Longrightarrow> usub64 a b = a - b"
proof -
  assume a: "b \<le> a" "a < 2 ^ 64"
  then have eq: "a + (2 ^ 64 - b mod 2 ^ 64) = (a - b) + 2 ^ 64" by simp
  have "usub64 a b = (a - b) mod 2 ^ 64" unfolding usub64_def eq by (rule mod_add_self2)
  also have "\<dots> = a - b" using a by (intro mod_less) simp
  finally show ?thesis .
qed

lemma bq_okD:
  assumes "bq_ok C"
  shows "4 < bq_size C f" "bq_size C f \<le> bq_array C" "4 < bq_array C"
    and "usub64 (bq_array C) (bq_size C f) = bq_array C - bq_size C f" "bq_limit C = bq_array C - 4"
proof -
  have a: "bq_array C < 2 ^ 64" "4 < bq_size C f" "bq_size C f \<le> bq_array C" using assms by (auto simp: bq_ok_def)
  then show "4 < bq_size C f" "bq_size C f \<le> bq_array C" "4 < bq_array C" by auto
  show "usub64 (bq_array C) (bq_size C f) = bq_array C - bq_size C f" by (rule usub64_le [OF a(3,1)])
  show "bq_limit C = bq_array C - 4" unfolding bq_limit_def by (rule usub64_le) (use a in auto)
qed

section \<open>The relation to the abstract queue\<close>

fun bq_call :: "'f bq_pc \<Rightarrow> ('f \<times> byte list list) tq_call" where
  "bq_call BqIdle = TqNone"
| "bq_call (BqReg f ps r) = TqCalled (f, ps)"
| "bq_call (BqEnter f ps) = TqCalled (f, ps)"
| "bq_call (BqFetch f ps) = TqCalled (f, ps)"
| "bq_call (BqWrite f ps index k) = TqAccepted (f, ps)"
| "bq_call (BqCode f ps index r) = TqAccepted (f, ps)"
| "bq_call (BqMark f ps index) = TqCalled (f, ps)"
| "bq_call (BqFull f ps) = TqCalled (f, ps)"
| "bq_call BqUndef = TqNone"

fun bq_reserving :: "'f bq_pc \<Rightarrow> nat option" where
  "bq_reserving (BqWrite f ps index k) = Some index"
| "bq_reserving (BqCode f ps index r) = Some index"
| "bq_reserving (BqMark f ps index) = Some index"
| "bq_reserving _ = None"

text \<open>What a thread is doing with the table; from \<open>BqEnter\<close> on its function is in it.\<close>

fun bq_reg :: "'f bq_pc \<Rightarrow> ('f \<times> 'f reg) option" where
  "bq_reg (BqReg f ps r) = Some (f, r)"
| "bq_reg (BqEnter f ps) = Some (f, RgDone)"
| "bq_reg (BqFetch f ps) = Some (f, RgDone)"
| "bq_reg (BqWrite f ps index k) = Some (f, RgDone)"
| "bq_reg (BqCode f ps index r) = Some (f, r)"
| "bq_reg _ = None"

fun bq_pc_ok :: "'f bq_config \<Rightarrow> 'f bq_pc \<Rightarrow> bool" where
  "bq_pc_ok C (BqReg f ps r) = (map length ps = bq_params C f)"
| "bq_pc_ok C (BqEnter f ps) = (map length ps = bq_params C f)"
| "bq_pc_ok C (BqFetch f ps) = (map length ps = bq_params C f)"
| "bq_pc_ok C (BqWrite f ps index k) = (map length ps = bq_params C f)"
| "bq_pc_ok C (BqCode f ps index r) = (map length ps = bq_params C f \<and> (r = RgDone \<or> r \<in> range RgDeref \<or> r \<in> range RgCode))"
| "bq_pc_ok C (BqMark f ps index) = (map length ps = bq_params C f)"
| "bq_pc_ok C (BqFull f ps) = (map length ps = bq_params C f)"
| "bq_pc_ok C BqIdle = True"
| "bq_pc_ok C BqUndef = False"

text \<open>The four bytes of the index, and the parameters behind them.\<close>

definition bq_field :: "byte list \<Rightarrow> nat \<Rightarrow> nat \<Rightarrow> bool" where
  "bq_field b i code \<longleftrightarrow> read_bytes i 4 b = Some (u32_bytes code)"

definition bq_has_params :: "byte list \<Rightarrow> nat \<Rightarrow> byte list list \<Rightarrow> bool" where
  "bq_has_params b i ps \<longleftrightarrow> unroll (map length ps) b (i + 4) [] = Some (ps, i + 4 + sumsizes (map length ps))"

text \<open>
  A reservation of an operation is published, with the index of its function and its parameters, or a
  thread is working on it; that of the rest of the buffer is marked, or a thread is about to.
\<close>

fun bq_slot :: "'f bq_config \<Rightarrow> (nat \<Rightarrow> 'f option) \<Rightarrow> byte list \<Rightarrow> (tid \<Rightarrow> 'f bq_pc) \<Rightarrow> ('f \<times> byte list list) resv \<Rightarrow> bool" where
  "bq_slot C funs b pc (i, n, Some (f, ps)) \<longleftrightarrow>
     n = bq_size C f \<and> map length ps = bq_params C f \<and>
     ((\<exists>c. 0 < c \<and> c < bq_mark \<and> funs c = Some f \<and> bq_field b i c) \<and> bq_has_params b i ps \<and>
        (\<forall>t. bq_reserving (pc t) \<noteq> Some i) \<or>
      bq_field b i 0 \<and> (\<exists>t k. pc t = BqWrite f ps i k \<and> k \<le> length ps \<and> bq_has_params b i (take k ps)) \<or>
      bq_field b i 0 \<and> (\<exists>t r. pc t = BqCode f ps i r) \<and> bq_has_params b i ps)"
| "bq_slot C funs b pc (i, n, None) \<longleftrightarrow>
     n = bq_array C - i \<and> i < bq_limit C \<and> (\<forall>j. i + 4 \<le> j \<and> j < bq_array C \<longrightarrow> b ! j = 0) \<and>
     (bq_field b i bq_mark \<and> (\<forall>t. bq_reserving (pc t) \<noteq> Some i) \<or>
      bq_field b i 0 \<and> (\<exists>t f ps. pc t = BqMark f ps i))"

definition bq_tiles :: "'f bq_config \<Rightarrow> 'f buffer_queue \<Rightarrow> nat \<Rightarrow> nat \<Rightarrow> ('f \<times> byte list list) resv list \<Rightarrow> bool" where
  "bq_tiles C s lo hi L \<longleftrightarrow>
     tiling lo hi L \<and> hi \<le> bq_array C \<and> length (bq_buf s) = bq_array C \<and>
     (\<forall>x \<in> set L. bq_slot C (cow_get (ft_funs (bq_table s))) (bq_buf s) (bq_pc s) x) \<and>
     (\<forall>j. j < bq_array C \<longrightarrow> j < lo \<or> hi \<le> j \<longrightarrow> bq_buf s ! j = 0) \<and>
     (\<forall>t i. bq_reserving (bq_pc s t) = Some i \<longrightarrow> i \<in> fst ` set L) \<and>
     (\<forall>t u i. bq_reserving (bq_pc s t) = Some i \<longrightarrow> bq_reserving (bq_pc s u) = Some i \<longrightarrow> t = u)"

lemma bq_tilesD:
  assumes "bq_tiles C s lo hi L"
  shows "tiling lo hi L" "hi \<le> bq_array C" "length (bq_buf s) = bq_array C"
    and "(i, n, e) \<in> set L \<Longrightarrow> bq_slot C (cow_get (ft_funs (bq_table s))) (bq_buf s) (bq_pc s) (i, n, e)"
    and "j < bq_array C \<Longrightarrow> j < lo \<or> hi \<le> j \<Longrightarrow> bq_buf s ! j = 0"
    and "bq_reserving (bq_pc s t) = Some i \<Longrightarrow> \<exists>n e. (i, n, e) \<in> set L"
    and "bq_reserving (bq_pc s t) = Some i \<Longrightarrow> bq_reserving (bq_pc s u) = Some i \<Longrightarrow> t = u"
  using assms unfolding bq_tiles_def resv_at by (blast | force)+

lemma bq_tilesI:
  assumes "tiling lo hi L" "hi \<le> bq_array C" "length (bq_buf s) = bq_array C"
    and "\<And>i n e. (i, n, e) \<in> set L \<Longrightarrow> bq_slot C (cow_get (ft_funs (bq_table s))) (bq_buf s) (bq_pc s) (i, n, e)"
    and "\<And>j. j < bq_array C \<Longrightarrow> j < lo \<or> hi \<le> j \<Longrightarrow> bq_buf s ! j = 0"
    and "\<And>t i. bq_reserving (bq_pc s t) = Some i \<Longrightarrow> \<exists>n e. (i, n, e) \<in> set L"
    and "\<And>t u i. bq_reserving (bq_pc s t) = Some i \<Longrightarrow> bq_reserving (bq_pc s u) = Some i \<Longrightarrow> t = u"
  shows "bq_tiles C s lo hi L"
  unfolding bq_tiles_def resv_at
proof (intro conjI ballI)
  fix x assume x: "x \<in> set L"
  obtain i n e where "x = (i, n, e)" by (cases x) auto
  then show "bq_slot C (cow_get (ft_funs (bq_table s))) (bq_buf s) (bq_pc s) x"
    using assms(4) [of i n e] x by simp
qed (use assms in blast)+

section \<open>Reservations\<close>

lemma bq_slot_size: "bq_ok C \<Longrightarrow> bq_slot C funs b pc (i, n, e) \<Longrightarrow> 4 < n"
  by (cases e) (auto simp: bq_okD)

lemma bq_slot_cong:
  assumes ok: "bq_ok C" and sl: "bq_slot C funs b pc (i, n, e)" and len: "length b' = length b"
    and bytes: "\<And>j. i \<le> j \<Longrightarrow> j < i + n \<Longrightarrow> b' ! j = b ! j"
    and pc: "\<And>t. bq_reserving (pc t) = Some i \<or> bq_reserving (pc' t) = Some i \<Longrightarrow> pc' t = pc t"
    and funs: "\<And>c f. funs c = Some f \<Longrightarrow> funs' c = Some f"
  shows "bq_slot C funs' b' pc' (i, n, e)"
proof -
  have n: "4 < n" by (rule bq_slot_size [OF ok sl])
  have field: "bq_field b' i c = bq_field b i c" for c
    unfolding bq_field_def using read_bytes_cong [OF len, of i 4] bytes n by simp
  have at: "(pc' t = p) = (pc t = p)" if "bq_reserving p = Some i" for t p
    using pc [of t] that by auto
  have free: "(bq_reserving (pc' t) = Some i) = (bq_reserving (pc t) = Some i)" for t
    using pc [of t] by auto
  show ?thesis
  proof (cases e)
    case None
    have "b' ! j = 0" if "i + 4 \<le> j" "j < bq_array C" for j
      using sl bytes [of j] that None bq_okD(5) [OF ok] by auto
    then show ?thesis using sl None by (simp add: field at free)
  next
    case (Some x)
    then obtain f ps where e: "e = Some (f, ps)" by (cases x) auto
    have size: "n = 4 + sumsizes (map length ps)" using sl by (simp add: e bq_size_def)
    have params: "bq_has_params b' i (take k ps) = bq_has_params b i (take k ps)" for k
    proof -
      have "sumsizes (map length (take k ps)) \<le> sumsizes (map length ps)"
        by (metis append_take_drop_id le_add1 map_append sumsizes_append)
      then show ?thesis unfolding bq_has_params_def
        using unroll_cong [OF len, of "i + 4" "map length (take k ps)" "[]"] bytes size by auto
    qed
    show ?thesis using sl params params [of "length ps"] funs by (auto simp: e field at free)
  qed
qed

text \<open>Steps that change the place of a thread without a reservation, or add to the table.\<close>

lemma bq_tiles_pc:
  assumes ok: "bq_ok C" and tl: "bq_tiles C s lo hi L"
    and w: "bq_reserving (bq_pc s t) = None" "bq_reserving p = None"
    and s': "bq_buf s' = bq_buf s" "bq_pc s' = (bq_pc s)(t := p)"
    and funs: "\<And>c f. cow_get (ft_funs (bq_table s)) c = Some f \<Longrightarrow> cow_get (ft_funs (bq_table s')) c = Some f"
  shows "bq_tiles C s' lo hi L"
proof (rule bq_tilesI)
  note D = bq_tilesD [OF tl]
  fix i n e assume x: "(i, n, e) \<in> set L"
  show "bq_slot C (cow_get (ft_funs (bq_table s'))) (bq_buf s') (bq_pc s') (i, n, e)"
    by (rule bq_slot_cong [OF ok D(4) [OF x]]) (use w s' funs in auto)
qed (use bq_tilesD [OF tl] w in \<open>auto simp: s' split: if_splits\<close>)

lemma bq_tiles_same:
  assumes tl: "bq_tiles C s lo hi L"
    and s': "bq_buf s' = bq_buf s" "bq_pc s' = bq_pc s"
      "cow_get (ft_funs (bq_table s')) = cow_get (ft_funs (bq_table s))"
  shows "bq_tiles C s' lo hi L"
  using tl by (simp add: bq_tiles_def s')

lemma u32_bytes_zero: "u32_bytes 0 = replicate 4 0"
proof -
  have "replicate 4 (0 :: byte) = [0, 0, 0, 0]" by (simp add: numeral_eq_Suc)
  then show ?thesis by (simp add: u32_bytes_def)
qed

lemma bq_field_zero:
  assumes "i + 4 \<le> length b" and "\<And>j. i \<le> j \<Longrightarrow> j < i + 4 \<Longrightarrow> b ! j = 0"
  shows "bq_field b i 0"
  using assms by (simp add: bq_field_def read_bytes_eq_iff u32_bytes_zero)

text \<open>A new reservation takes bytes that are zero.\<close>

lemma bq_tiles_fetch:
  assumes ok: "bq_ok C" and tl: "bq_tiles C s lo hi L" and n: "4 < n" "hi + n \<le> bq_array C"
    and w: "bq_reserving (bq_pc s t) = None" "bq_reserving p = Some hi"
    and s': "bq_buf s' = bq_buf s" "bq_pc s' = (bq_pc s)(t := p)" "bq_table s' = bq_table s"
    and new: "bq_field (bq_buf s) hi 0 \<Longrightarrow> (\<And>j. hi \<le> j \<Longrightarrow> j < bq_array C \<Longrightarrow> bq_buf s ! j = 0) \<Longrightarrow>
      bq_slot C (cow_get (ft_funs (bq_table s))) (bq_buf s) ((bq_pc s)(t := p)) (hi, n, e)"
  shows "bq_tiles C s' lo (hi + n) (L @ [(hi, n, e)])"
proof (rule bq_tilesI)
  note D = bq_tilesD [OF tl]
  have zero: "bq_buf s ! j = 0" if "hi \<le> j" "j < bq_array C" for j using D(5) that by blast
  have field: "bq_field (bq_buf s) hi 0" by (rule bq_field_zero) (use zero n D(3) in auto)
  have old: "bq_slot C (cow_get (ft_funs (bq_table s))) (bq_buf s) ((bq_pc s)(t := p)) (i, m, d)"
    if x: "(i, m, d) \<in> set L" for i m d
    by (rule bq_slot_cong [OF ok D(4) [OF x]]) (use w tiling_bounds [OF D(1) x] in auto)
  show "\<And>i m d. (i, m, d) \<in> set (L @ [(hi, n, e)]) \<Longrightarrow>
      bq_slot C (cow_get (ft_funs (bq_table s'))) (bq_buf s') (bq_pc s') (i, m, d)"
    using old new [OF field zero] by (auto simp: s')
  have free: "bq_reserving (bq_pc s u) \<noteq> Some hi" for u
    using D(6) [of u hi] tiling_bounds [OF D(1)] by fastforce
  show "\<And>u v i. bq_reserving (bq_pc s' u) = Some i \<Longrightarrow> bq_reserving (bq_pc s' v) = Some i \<Longrightarrow> u = v"
    using D(7) free w(2) by (auto simp: s' split: if_splits)
  show "tiling lo (hi + n) (L @ [(hi, n, e)])" using D(1) n(1) by (auto simp: tiling_append)
  fix u i assume "bq_reserving (bq_pc s' u) = Some i"
  then show "\<exists>m d. (i, m, d) \<in> set (L @ [(hi, n, e)])"
    using D(6) [of u i] w by (cases "u = t") (auto simp: s')
next
qed (use bq_tilesD [OF tl] n in \<open>auto simp: s'\<close>)

text \<open>A thread works on its own reservation.\<close>

lemma bq_tiles_update:
  assumes ok: "bq_ok C" and tl: "bq_tiles C s lo hi L" and x: "(i, n, e) \<in> set L"
    and w: "bq_reserving (bq_pc s t) = Some i" "bq_reserving p = Some i \<or> bq_reserving p = None"
    and buf: "length (bq_buf s') = length (bq_buf s)"
      "\<And>j. j < length (bq_buf s) \<Longrightarrow> \<not> (i \<le> j \<and> j < i + n) \<Longrightarrow> bq_buf s' ! j = bq_buf s ! j"
    and s': "bq_pc s' = (bq_pc s)(t := p)" "cow_get (ft_funs (bq_table s')) = cow_get (ft_funs (bq_table s))"
    and new: "bq_slot C (cow_get (ft_funs (bq_table s))) (bq_buf s') (bq_pc s') (i, n, e)"
  shows "bq_tiles C s' lo hi L"
proof (rule bq_tilesI)
  note D = bq_tilesD [OF tl]
  fix k m d assume y: "(k, m, d) \<in> set L"
  show "bq_slot C (cow_get (ft_funs (bq_table s'))) (bq_buf s') (bq_pc s') (k, m, d)"
  proof (cases "k = i")
    case True
    then have "(k, m, d) = (i, n, e)" using tiling_inj [OF D(1) x, of m d] y by auto
    then show ?thesis using new s'(2) by simp
  next
    case False
    then have disj: "i + n \<le> k \<or> k + m \<le> i" using tiling_disjoint [OF D(1) x y] by auto
    have bound: "k + m \<le> bq_array C" using tiling_bounds [OF D(1) y] D(2) by simp
    show ?thesis
    proof (rule bq_slot_cong [OF ok D(4) [OF y] buf(1)])
      fix j assume j: "k \<le> j" "j < k + m"
      then show "bq_buf s' ! j = bq_buf s ! j" using buf(2) [of j] disj bound D(3) by linarith
    qed (use w False s' in auto)
  qed
next
  note D = bq_tilesD [OF tl]
  fix j assume j: "j < bq_array C" "j < lo \<or> hi \<le> j"
  then have "\<not> (i \<le> j \<and> j < i + n)" using tiling_bounds [OF D(1) x] by auto
  then show "bq_buf s' ! j = 0" using buf(2) [of j] D(3) D(5) [OF j] j by simp
next
  note D = bq_tilesD [OF tl]
  fix u k assume "bq_reserving (bq_pc s' u) = Some k"
  then show "\<exists>n e. (k, n, e) \<in> set L" using D(6) [of u k] w x by (cases "u = t") (auto simp: s')
next
  note D = bq_tilesD [OF tl]
  fix u v k assume "bq_reserving (bq_pc s' u) = Some k" "bq_reserving (bq_pc s' v) = Some k"
  then have "bq_reserving (bq_pc s u) = Some k" "bq_reserving (bq_pc s v) = Some k"
    using w by (auto simp: s' split: if_splits)
  then show "u = v" by (rule D(7))
qed (use bq_tilesD [OF tl] buf(1) in \<open>auto simp: s'\<close>)

text \<open>The first reservation is published, executed and cleared.\<close>

lemma bq_tiles_exec:
  assumes ok: "bq_ok C" and tl: "bq_tiles C s lo hi ((lo, n, e) # L)" and pub: "\<not> bq_field (bq_buf s) lo 0"
    and buf: "write_bytes lo (replicate m 0) (bq_buf s) = Some (bq_buf s')" "m = n"
    and s': "bq_pc s' = bq_pc s" "cow_get (ft_funs (bq_table s')) = cow_get (ft_funs (bq_table s))"
  shows "bq_tiles C s' (lo + n) hi L"
proof (rule bq_tilesI)
  note D = bq_tilesD [OF tl]
  note len = write_bytes_length [OF buf(1)] and nth = write_bytes_nth [OF buf(1)]
  have x: "(lo, n, e) \<in> set ((lo, n, e) # L)" by simp
  have free: "bq_reserving (bq_pc s t) \<noteq> Some lo" for t
    using D(4) [OF x] pub by (cases e) auto
  have tail: "tiling (lo + n) hi L" using D(1) by simp
  show "tiling (lo + n) hi L" by (rule tail)
  show "bq_slot C (cow_get (ft_funs (bq_table s'))) (bq_buf s') (bq_pc s') (i, k, d)" if y: "(i, k, d) \<in> set L" for i k d
  proof (rule bq_slot_cong [OF ok D(4) len])
    show "(i, k, d) \<in> set ((lo, n, e) # L)" using y by simp
    fix j assume "i \<le> j" "j < i + k"
    then show "bq_buf s' ! j = bq_buf s ! j"
      using nth [of j] tiling_bounds [OF tail y] D(2,3) buf(2) by auto
  qed (use s' in auto)
  show "bq_buf s' ! j = 0" if "j < bq_array C" "j < lo + n \<or> hi \<le> j" for j
    using nth [of j] D(3) D(5) [of j] that buf(2) by auto
  show "\<exists>m d. (i, m, d) \<in> set L" if "bq_reserving (bq_pc s' t) = Some i" for t i
    using D(6) [of t i] free [of t] that by (auto simp: s')
qed (use bq_tilesD [OF tl] write_bytes_length [OF buf(1)] in \<open>auto simp: s'\<close>)

section \<open>The part of the buffer in use\<close>

text \<open>
  The reservations go from \<open>lo\<close>, where the owner is, to \<open>hi\<close>. In an open queue that is the counter, or, once
  the counter is beyond the array, a place behind which no entry starts. In a closed queue it is the
  value \<open>todo\<close> that \<open>flush\<close> took the counter to have, if that is below the limit.
\<close>

fun bq_is_open :: "'f bq_owner \<Rightarrow> bool" where
  "bq_is_open BwOpening = True"
| "bq_is_open BwOpened = True"
| "bq_is_open (BwLoad done) = True"
| "bq_is_open (BwXchg done) = True"
| "bq_is_open (BwSpin opn index todo) = opn"
| "bq_is_open (BwFuns opn index todo i) = opn"
| "bq_is_open (BwFun opn index todo i a) = opn"
| "bq_is_open (BwSizes opn index todo f) = opn"
| "bq_is_open (BwSize opn index todo f a) = opn"
| "bq_is_open (BwCall opn index todo f n) = opn"
| "bq_is_open _ = False"

definition bq_open_hi :: "'f bq_config \<Rightarrow> nat \<Rightarrow> nat \<Rightarrow> bool" where
  "bq_open_hi C counter hi \<longleftrightarrow> (if counter \<le> bq_array C then hi = counter else bq_limit C \<le> hi)"

definition bq_closed_hi :: "'f bq_config \<Rightarrow> nat \<Rightarrow> nat \<Rightarrow> bool" where
  "bq_closed_hi C todo hi \<longleftrightarrow> (if todo < bq_limit C then hi = todo else bq_limit C \<le> hi)"

definition bq_loop ::
  "'f bq_config \<Rightarrow> nat \<Rightarrow> bool \<Rightarrow> nat \<Rightarrow> nat \<Rightarrow> nat \<Rightarrow> ('f \<times> byte list list) resv list \<Rightarrow> bool"
where
  "bq_loop C counter opn index todo hi L \<longleftrightarrow>
     (if opn then bq_open_hi C counter hi \<and> todo < bq_limit C \<and> resv_boundary index hi todo L
      else bq_closed_hi C todo hi \<and> todo \<le> bq_limit C)"

text \<open>The entry at which the owner is, is a published operation of \<open>f\<close>.\<close>

definition bq_head :: "'f buffer_queue \<Rightarrow> nat \<Rightarrow> 'f \<Rightarrow> ('f \<times> byte list list) resv list \<Rightarrow> bool" where
  "bq_head s i f L \<longleftrightarrow> (\<exists>n ps L'. L = (i, n, Some (f, ps)) # L') \<and> \<not> bq_field (bq_buf s) i 0"

fun bq_owner_ok ::
  "'f bq_config \<Rightarrow> 'f buffer_queue \<Rightarrow> nat \<Rightarrow> nat \<Rightarrow> ('f \<times> byte list list) resv list \<Rightarrow> 'f bq_owner \<Rightarrow> bool"
where
  "bq_owner_ok C s lo hi L BwClosed = (lo = 0 \<and> hi = 0)"
| "bq_owner_ok C s lo hi L BwOpening = (lo = 0 \<and> bq_open_hi C (bq_counter s) hi)"
| "bq_owner_ok C s lo hi L BwOpened = (lo = 0 \<and> bq_open_hi C (bq_counter s) hi)"
| "bq_owner_ok C s lo hi L (BwLoad done) = (lo = done \<and> bq_open_hi C (bq_counter s) hi)"
| "bq_owner_ok C s lo hi L (BwXchg done) = (lo = done \<and> bq_open_hi C (bq_counter s) hi)"
| "bq_owner_ok C s lo hi L (BwClose1 done todo) = (lo = done \<and> bq_closed_hi C todo hi)"
| "bq_owner_ok C s lo hi L (BwClose2 done) = (lo = done \<and> bq_limit C \<le> hi)"
| "bq_owner_ok C s lo hi L (BwSpin opn index todo) =
     (lo = index \<and> index < todo \<and> bq_loop C (bq_counter s) opn index todo hi L)"
| "bq_owner_ok C s lo hi L (BwFuns opn index todo i) =
     (lo = index \<and> index < todo \<and> bq_loop C (bq_counter s) opn index todo hi L \<and>
      (\<exists>f. bq_head s index f L \<and> cow_get (ft_funs (bq_table s)) i = Some f))"
| "bq_owner_ok C s lo hi L (BwFun opn index todo i a) =
     (lo = index \<and> index < todo \<and> bq_loop C (bq_counter s) opn index todo hi L \<and>
      (\<exists>f m. bq_head s index f L \<and> cw_heap (ft_funs (bq_table s)) a = Some m \<and> m i = Some f))"
| "bq_owner_ok C s lo hi L (BwSizes opn index todo f) =
     (lo = index \<and> index < todo \<and> bq_loop C (bq_counter s) opn index todo hi L \<and>
      bq_head s index f L \<and> cow_get (ft_sizes (bq_table s)) f \<noteq> None)"
| "bq_owner_ok C s lo hi L (BwSize opn index todo f a) =
     (lo = index \<and> index < todo \<and> bq_loop C (bq_counter s) opn index todo hi L \<and>
      bq_head s index f L \<and> (\<exists>m. cw_heap (ft_sizes (bq_table s)) a = Some m \<and> m f \<noteq> None))"
| "bq_owner_ok C s lo hi L (BwCall opn index todo f n) =
     (lo = index \<and> index < todo \<and> bq_loop C (bq_counter s) opn index todo hi L \<and>
      bq_head s index f L \<and> n = bq_size C f)"
| "bq_owner_ok C s lo hi L (BwUnmark index) =
     (lo = index \<and> hi = bq_array C \<and> L = [(index, bq_array C - index, None)] \<and> \<not> bq_field (bq_buf s) index 0)"
| "bq_owner_ok C s lo hi L BwFree = (lo = hi)"
| "bq_owner_ok C s lo hi L BwUndef = False"

definition bq_regs :: "'f buffer_queue \<Rightarrow> tid \<Rightarrow> ('f \<times> 'f reg) option" where
  "bq_regs s t = bq_reg (bq_pc s t)"

definition bq_rel :: "'f bq_config \<Rightarrow> 'f buffer_queue \<Rightarrow> ('f \<times> byte list list) tqueue \<Rightarrow> bool" where
  "bq_rel C s q \<longleftrightarrow>
     tq_open q = bq_is_open (bq_owner s) \<and> (\<not> tq_open q \<longrightarrow> bq_limit C \<le> bq_counter s) \<and>
     (\<forall>t. tq_calls q t = bq_call (bq_pc s t)) \<and> (\<forall>t. bq_pc_ok C (bq_pc s t)) \<and>
     ft_inv (bq_size C) (bq_regs s) (bq_table s) \<and> ft_idx (bq_table s) \<le> bq_mark \<and>
     (\<exists>lo hi L. bq_tiles C s lo hi L \<and> tq_pend q = resv_pending L \<and> bq_owner_ok C s lo hi L (bq_owner s))"

lemma bq_relD:
  assumes "bq_rel C s q"
  shows "tq_open q = bq_is_open (bq_owner s)" "\<not> tq_open q \<Longrightarrow> bq_limit C \<le> bq_counter s"
    and "tq_calls q t = bq_call (bq_pc s t)" "bq_pc_ok C (bq_pc s t)"
    and "ft_inv (bq_size C) (bq_regs s) (bq_table s)" "ft_idx (bq_table s) \<le> bq_mark"
  using assms by (auto simp: bq_rel_def)

lemma bq_relE:
  assumes "bq_rel C s q"
  obtains lo hi L where "bq_tiles C s lo hi L" "tq_pend q = resv_pending L" "bq_owner_ok C s lo hi L (bq_owner s)"
  using assms by (auto simp: bq_rel_def)

lemma bq_relI:
  assumes "tq_open q = bq_is_open (bq_owner s)" "\<not> tq_open q \<Longrightarrow> bq_limit C \<le> bq_counter s"
    and "\<And>t. tq_calls q t = bq_call (bq_pc s t)" "\<And>t. bq_pc_ok C (bq_pc s t)"
    and "ft_inv (bq_size C) (bq_regs s) (bq_table s)" "ft_idx (bq_table s) \<le> bq_mark"
    and "bq_tiles C s lo hi L" "tq_pend q = resv_pending L" "bq_owner_ok C s lo hi L (bq_owner s)"
  shows "bq_rel C s q"
  using assms unfolding bq_rel_def by blast

lemma bq_sim_init: "bq_ok C \<Longrightarrow> bq_rel C (bq_init C) tq_init"
proof (rule bq_relI [where lo = 0 and hi = 0 and L = "[]"])
  assume ok: "bq_ok C"
  show "bq_limit C \<le> bq_counter (bq_init C)" using bq_okD(5) [OF ok] by (simp add: bq_init_def)
  show "ft_inv (bq_size C) (bq_regs (bq_init C)) (bq_table (bq_init C))"
    using ft_inv_init by (simp add: bq_init_def bq_regs_def [abs_def])
  show "bq_tiles C (bq_init C) 0 0 []" by (auto simp: bq_tiles_def bq_init_def)
qed (auto simp: bq_init_def tq_init_def ft_init_def bq_mark_def)

text \<open>What of the table the owner depends on.\<close>

definition bq_table_le :: "'f ftable \<Rightarrow> 'f ftable \<Rightarrow> bool" where
  "bq_table_le T T' \<longleftrightarrow>
     (\<forall>i f. cow_get (ft_funs T) i = Some f \<longrightarrow> cow_get (ft_funs T') i = Some f) \<and>
     (\<forall>f. cow_get (ft_sizes T) f \<noteq> None \<longrightarrow> cow_get (ft_sizes T') f \<noteq> None) \<and>
     (\<forall>a m. cw_heap (ft_funs T) a = Some m \<longrightarrow> cw_heap (ft_funs T') a = Some m) \<and>
     (\<forall>a m. cw_heap (ft_sizes T) a = Some m \<longrightarrow> cw_heap (ft_sizes T') a = Some m)"

lemma bq_table_le_refl [simp]: "bq_table_le T T"
  by (simp add: bq_table_le_def)

lemma bq_owner_ok_frame:
  assumes ow: "bq_owner_ok C s lo hi L ow" and s': "bq_counter s' = bq_counter s"
    and field: "\<And>i. lo = i \<Longrightarrow> \<not> bq_field (bq_buf s) i 0 \<Longrightarrow> \<not> bq_field (bq_buf s') i 0"
    and T: "bq_table_le (bq_table s) (bq_table s')"
  shows "bq_owner_ok C s' lo hi L ow"
proof -
  have head: "bq_head s lo f L \<Longrightarrow> bq_head s' lo f L" for f using field by (auto simp: bq_head_def)
  show ?thesis
  proof (cases ow)
    case (BwFuns opn index todo i)
    then show ?thesis using ow head s' T by (auto simp: bq_table_le_def)
  next
    case (BwFun opn index todo i a)
    then show ?thesis using ow head s' T by (fastforce simp: bq_table_le_def)
  next
    case (BwSizes opn index todo f)
    then show ?thesis using ow head s' T by (auto simp: bq_table_le_def)
  next
    case (BwSize opn index todo f a)
    then show ?thesis using ow head s' T by (fastforce simp: bq_table_le_def)
  qed (use ow head s' field in auto)
qed

section \<open>The simulation: \<open>enqueue\<close>\<close>

lemma bq_regs_upd: "bq_pc s' = (bq_pc s)(t := p) \<Longrightarrow> bq_regs s' = (bq_regs s)(t := bq_reg p)"
  by (auto simp: bq_regs_def fun_eq_iff)

lemma bq_regs_same: "bq_reg (bq_pc s t) = bq_reg p \<Longrightarrow> (bq_regs s)(t := bq_reg p) = bq_regs s"
  by (auto simp: bq_regs_def fun_eq_iff)

lemma bq_sim_move:
  assumes ok: "bq_ok C" and rel: "bq_rel C s q"
    and w: "bq_reserving (bq_pc s t) = None" "bq_reserving p = None" and pok: "bq_pc_ok C p"
    and s': "bq_counter s' = bq_counter s" "bq_buf s' = bq_buf s" "bq_owner s' = bq_owner s" "bq_pc s' = (bq_pc s)(t := p)"
    and T: "ft_inv (bq_size C) ((bq_regs s)(t := bq_reg p)) (bq_table s')" "ft_idx (bq_table s') \<le> bq_mark"
      "bq_table_le (bq_table s) (bq_table s')"
  shows "bq_rel C s' (q\<lparr>tq_calls := (tq_calls q)(t := bq_call p)\<rparr>)"
proof -
  obtain lo hi L where L: "bq_tiles C s lo hi L" "tq_pend q = resv_pending L" "bq_owner_ok C s lo hi L (bq_owner s)"
    using rel by (rule bq_relE)
  note D = bq_relD [OF rel]
  have tl: "bq_tiles C s' lo hi L"
    by (rule bq_tiles_pc [OF ok L(1) w s'(2,4)]) (use T(3) in \<open>auto simp: bq_table_le_def\<close>)
  have ow: "bq_owner_ok C s' lo hi L (bq_owner s')"
    unfolding s'(3) by (rule bq_owner_ok_frame [OF L(3) s'(1) _ T(3)]) (simp add: s')
  show ?thesis
    by (rule bq_relI [OF _ _ _ _ _ T(2) tl _ ow])
      (use D L(2) pok T(1) in \<open>auto simp: s' bq_regs_upd [OF s'(4)]\<close>)
qed

text \<open>Registration.\<close>

lemma reg_step_heaps:
  assumes ok: "ft_ok sz T" and st: "reg_step f n spurious r T = (r', T')"
  shows "cw_heap (ft_funs T) a = Some m \<Longrightarrow> cw_heap (ft_funs T') a = Some m"
    and "cw_heap (ft_sizes T) a = Some k \<Longrightarrow> cw_heap (ft_sizes T') a = Some k"
proof -
  note D = ft_okD [OF ok]
  have cas: "cow_ok c \<Longrightarrow> cow_cas b x c = Some c' \<Longrightarrow> cw_heap c a = Some y \<Longrightarrow> cw_heap c' a = Some y" for b x y and c c' :: "'z cow"
    using cow_cas_ok(5) [of c b x c' a y] by blast
  show "cw_heap (ft_funs T) a = Some m \<Longrightarrow> cw_heap (ft_funs T') a = Some m"
    using st cas [OF D(2)] by (auto simp: reg_step_def cow_retire_def split: reg.splits option.splits if_splits)
  show "cw_heap (ft_sizes T) a = Some k \<Longrightarrow> cw_heap (ft_sizes T') a = Some k"
    using st cas [OF D(1)] by (auto simp: reg_step_def cow_retire_def split: reg.splits option.splits if_splits)
qed

lemma bq_sim_reg:
  assumes ok: "bq_ok C" and rel: "bq_rel C s q" and pc: "bq_pc s t = BqReg f ps r"
    and st: "bq_enqueue C spurious t s = Some s'"
    and safe: "bq_pc s' t \<noteq> BqUndef" "ft_idx (bq_table s') \<le> bq_mark"
  shows "bq_rel C s' q"
proof -
  note D = bq_relD [OF rel] and inv = bq_relD(5) [OF rel]
  obtain r' T where T: "reg_step f (bq_size C f) spurious r (bq_table s) = (r', T)" by fastforce
  have s': "s' = bq_goto t (bq_registered f ps r') (s\<lparr>bq_table := T\<rparr>)"
    using st T by (simp add: bq_enqueue_def pc)
  have t: "bq_regs s t = Some (f, r)" by (simp add: bq_regs_def pc)
  note I = ft_invD [OF inv]
  have go: "reg_goes (bq_size C) f r (bq_table s) r' T"
    by (rule reg_step_goes [OF I(1) I(2) [OF t] I(3) [OF t] I(4) [OF t] T])
  have undef: "r' \<noteq> RgUndef" using safe(1) by (auto simp: s' bq_goto_def bq_registered_def)
  have p: "bq_reg (bq_registered f ps r') = Some (f, r')" "bq_reserving (bq_registered f ps r') = None"
    "bq_call (bq_registered f ps r') = TqCalled (f, ps)" "bq_pc_ok C (bq_registered f ps r')"
    using undef D(4) [of t] pc by (auto simp: bq_registered_def split: reg.splits)
  have "ft_le (bq_table s) T" using go by (simp add: reg_goes_def)
  then have le: "bq_table_le (bq_table s) T"
    using reg_step_heaps [OF I(1) T] by (auto simp: bq_table_le_def ft_le_def)
  have "bq_rel C s' (q\<lparr>tq_calls := (tq_calls q)(t := bq_call (bq_registered f ps r'))\<rparr>)"
    by (rule bq_sim_move [OF ok rel]) (use p ft_inv_goes [OF inv t go] safe(2) le pc in \<open>auto simp: s' bq_goto_def\<close>)
  moreover have "q\<lparr>tq_calls := (tq_calls q)(t := TqCalled (f, ps))\<rparr> = q"
    using D(3) [of t] pc by (simp add: fun_upd_idem)
  ultimately show ?thesis using p(3) by simp
qed

text \<open>The fetch-and-add.\<close>

lemma bq_sim_fetch:
  assumes ok: "bq_ok C" and rel: "bq_rel C s q" and pc: "bq_pc s t = BqFetch f ps"
    and st: "bq_enqueue C spurious t s = Some s'"
  shows "\<exists>q'. run tq_step (bq_thread_events C s t) q = Some q' \<and> bq_rel C s' q'"
proof -
  note D = bq_relD [OF rel] and O = bq_okD [OF ok]
  obtain lo hi L where L: "bq_tiles C s lo hi L" "tq_pend q = resv_pending L" "bq_owner_ok C s lo hi L (bq_owner s)"
    using rel by (rule bq_relE)
  let ?n = "bq_counter s" and ?r = "bq_size C f" and ?N = "bq_array C"
  have fits: "map length ps = bq_params C f" using D(4) [of t] pc by simp
  have wn: "bq_reserving (bq_pc s t) = None" by (simp add: pc)
  define acc where "acc \<longleftrightarrow> ?n \<le> ?N - ?r"
  define p where "p = (if acc then BqWrite f ps ?n 0 else if ?n < bq_limit C then BqMark f ps ?n else BqFull f ps)"
  have s': "s' = bq_goto t p (s\<lparr>bq_counter := ?n + ?r\<rparr>)"
    using st O(4) by (simp add: bq_enqueue_def pc Let_def p_def acc_def)
  have pok: "bq_pc_ok C p" using fits by (simp add: p_def)
  have inv: "ft_inv (bq_size C) (bq_regs s') (bq_table s')"
  proof -
    have "bq_regs s' = (bq_regs s)(t := bq_reg p)" by (rule bq_regs_upd) (simp add: s' bq_goto_def)
    moreover have "bq_reg p = bq_regs s t \<or> bq_reg p = None" by (simp add: bq_regs_def pc p_def)
    ultimately show ?thesis
      using D(5) ft_inv_leave [OF D(5)] by (auto simp: s' bq_goto_def)
  qed
  have ev: "run tq_step (bq_thread_events C s t) q =
      Some (if acc then q\<lparr>tq_pend := tq_pend q @ [(f, ps)], tq_calls := (tq_calls q)(t := TqAccepted (f, ps))\<rparr> else q)"
    if "acc \<longrightarrow> tq_open q"
    using D(3) [of t] that O(4) [of f] by (simp add: bq_thread_events_def pc acc_def)
  have limit: "bq_limit C = ?N - 4" "4 < ?r" "?r \<le> ?N" "4 < ?N" using O by auto
  show ?thesis
  proof (cases "?n < bq_limit C")
    case below: True
    then have opn: "bq_is_open (bq_owner s)" "tq_open q" using D(1,2) by auto
    have hi: "hi = ?n" using L(3) below opn(1) limit bq_open_hi_def [of C]
      by (cases "bq_owner s") (auto simp: bq_loop_def)
    define n where "n = (if acc then ?r else ?N - ?n)"
    define e where "e = (if acc then Some (f, ps) else None)"
    have n: "4 < n" "?n + n \<le> ?N" using below limit by (auto simp: n_def acc_def)
    have tl: "bq_tiles C s' lo (?n + n) (L @ [(?n, n, e)])"
    proof (rule bq_tiles_fetch [OF ok L(1) [unfolded hi] n wn])
      show "bq_slot C (cow_get (ft_funs (bq_table s))) (bq_buf s) ((bq_pc s)(t := p)) (?n, n, e)"
        if "bq_field (bq_buf s) ?n 0" "\<And>j. ?n \<le> j \<Longrightarrow> j < ?N \<Longrightarrow> bq_buf s ! j = 0"
        using that fits below by (auto simp: n_def e_def p_def bq_has_params_def)
    qed (use below in \<open>auto simp: s' bq_goto_def p_def\<close>)
    have hi': "bq_open_hi C (bq_counter s') (?n + n)"
      using below limit by (auto simp: s' bq_goto_def n_def acc_def bq_open_hi_def)
    have ow: "bq_owner_ok C s' lo (?n + n) (L @ [(?n, n, e)]) (bq_owner s')"
      using L(3) opn(1) n(1) hi' resv_boundary_snoc [of lo ?n _ L n e] unfolding hi
      by (cases "bq_owner s") (auto simp: s' bq_goto_def bq_loop_def bq_head_def)
    have "bq_rel C s' (q\<lparr>tq_pend := tq_pend q @ resv_pending [(?n, n, e)], tq_calls := (tq_calls q)(t := bq_call p)\<rparr>)"
      by (rule bq_relI [OF _ _ _ _ inv _ tl _ ow])
        (use D L(2) opn pok in \<open>auto simp: s' bq_goto_def resv_pending_append\<close>)
    moreover have "q\<lparr>tq_calls := (tq_calls q)(t := TqCalled (f, ps))\<rparr> = q"
      using D(3) [of t] pc by (simp add: fun_upd_idem)
    ultimately show ?thesis using ev opn below by (auto simp: e_def p_def split: if_splits)
  next
    case above: False
    then have no: "\<not> acc" "p = BqFull f ps" using limit by (auto simp: acc_def p_def)
    let ?s = "s\<lparr>bq_counter := ?n + ?r\<rparr>"
    have hi: "bq_open_hi C ?n hi \<Longrightarrow> bq_open_hi C (?n + ?r) hi"
      using above limit by (auto simp: bq_open_hi_def split: if_splits)
    have "bq_owner_ok C ?s lo hi L (bq_owner s)"
      using L(3) hi by (cases "bq_owner s") (auto simp: bq_loop_def bq_head_def)
    moreover have "bq_tiles C ?s lo hi L" by (rule bq_tiles_same [OF L(1)]) simp_all
    moreover have regs: "bq_regs ?s = bq_regs s" by (simp add: bq_regs_def fun_eq_iff)
    ultimately have "bq_rel C ?s q" using D L(2) by (intro bq_relI [where lo = lo and hi = hi and L = L]) auto
    then have "bq_rel C s' (q\<lparr>tq_calls := (tq_calls q)(t := bq_call p)\<rparr>)"
      by (rule bq_sim_move [OF ok])
        (use no D ft_inv_leave [OF D(5)] pok pc in \<open>auto simp: s' bq_goto_def regs\<close>)
    moreover have "q\<lparr>tq_calls := (tq_calls q)(t := TqCalled (f, ps))\<rparr> = q"
      using D(3) [of t] pc by (simp add: fun_upd_idem)
    ultimately show ?thesis using ev no by simp
  qed
qed

text \<open>A thread works on its reservation, whose index is still 0.\<close>

lemma bq_working:
  assumes "bq_slot C funs b pc (i, n, e)" and "bq_reserving (pc t) = Some i"
  shows "bq_field b i 0"
  using assms by (cases e) auto

lemma bq_sim_work:
  assumes ok: "bq_ok C" and rel: "bq_rel C s q" and i: "bq_reserving (bq_pc s t) = Some i"
    and p: "bq_reserving p = Some i \<or> bq_reserving p = None" and pok: "bq_pc_ok C p"
    and s': "bq_counter s' = bq_counter s" "bq_owner s' = bq_owner s" "bq_pc s' = (bq_pc s)(t := p)" "bq_table s' = bq_table s"
    and inv: "ft_inv (bq_size C) ((bq_regs s)(t := bq_reg p)) (bq_table s)"
    and work: "\<And>n e. \<lbrakk>bq_slot C (cow_get (ft_funs (bq_table s))) (bq_buf s) (bq_pc s) (i, n, e); i + n \<le> bq_array C;
        \<And>u. bq_reserving (bq_pc s u) = Some i \<Longrightarrow> u = t\<rbrakk> \<Longrightarrow>
      length (bq_buf s') = length (bq_buf s) \<and>
      (\<forall>j < length (bq_buf s). \<not> (i \<le> j \<and> j < i + n) \<longrightarrow> bq_buf s' ! j = bq_buf s ! j) \<and>
      bq_slot C (cow_get (ft_funs (bq_table s))) (bq_buf s') ((bq_pc s)(t := p)) (i, n, e)"
  shows "bq_rel C s' (q\<lparr>tq_calls := (tq_calls q)(t := bq_call p)\<rparr>)"
proof -
  note D = bq_relD [OF rel]
  obtain lo hi L where L: "bq_tiles C s lo hi L" "tq_pend q = resv_pending L" "bq_owner_ok C s lo hi L (bq_owner s)"
    using rel by (rule bq_relE)
  note T = bq_tilesD [OF L(1)]
  obtain n e where x: "(i, n, e) \<in> set L" using T(6) [OF i] by blast
  have W: "length (bq_buf s') = length (bq_buf s)"
      "\<And>j. j < length (bq_buf s) \<Longrightarrow> \<not> (i \<le> j \<and> j < i + n) \<Longrightarrow> bq_buf s' ! j = bq_buf s ! j"
      "bq_slot C (cow_get (ft_funs (bq_table s))) (bq_buf s') (bq_pc s') (i, n, e)"
    using work [OF T(4) [OF x]] tiling_bounds [OF T(1) x] T(2) T(7) [OF _ i] by (auto simp: s'(3))
  have tl: "bq_tiles C s' lo hi L"
    by (rule bq_tiles_update [OF ok L(1) x i p W(1,2) s'(3) _ W(3)]) (use s'(4) W in auto)
  have field: "\<not> bq_field (bq_buf s') lo 0" if "\<not> bq_field (bq_buf s) lo 0"
  proof -
    have lo: "lo \<noteq> i" using that bq_working [OF T(4) [OF x] i] by auto
    obtain m d L' where "L = (lo, m, d) # L'" using x T(1) by (cases L) auto
    then have y: "(lo, m, d) \<in> set L" by simp
    have m: "4 < m" by (rule bq_slot_size [OF ok T(4) [OF y]])
    have "lo + m \<le> i" using tiling_disjoint [OF T(1) y x] tiling_bounds [OF T(1) x] lo by auto
    then have "bq_buf s' ! j = bq_buf s ! j" if "lo \<le> j" "j < lo + 4" for j
      using W(2) [of j] that m tiling_bounds [OF T(1) y] T(2,3) by simp
    then have "read_bytes lo 4 (bq_buf s') = read_bytes lo 4 (bq_buf s)" by (rule read_bytes_cong [OF W(1)])
    then show ?thesis using that by (simp add: bq_field_def)
  qed
  have ow: "bq_owner_ok C s' lo hi L (bq_owner s')"
    unfolding s'(2) by (rule bq_owner_ok_frame [OF L(3) s'(1)]) (use field s'(4) in auto)
  show ?thesis
    by (rule bq_relI [OF _ _ _ _ _ _ tl _ ow]) (use D L(2) pok inv in \<open>auto simp: s' bq_regs_upd [OF s'(3)]\<close>)
qed

text \<open>What the place of a thread says of its reservation.\<close>

lemma bq_slot_of:
  assumes sl: "bq_slot C funs b pc (i, n, e)" and only: "\<And>u. bq_reserving (pc u) = Some i \<Longrightarrow> u = t"
  shows "pc t = BqWrite f ps i k \<Longrightarrow> e = Some (f, ps) \<and> n = bq_size C f \<and> map length ps = bq_params C f \<and>
      bq_field b i 0 \<and> k \<le> length ps \<and> bq_has_params b i (take k ps)"
    and "pc t = BqCode f ps i r \<Longrightarrow> e = Some (f, ps) \<and> n = bq_size C f \<and> map length ps = bq_params C f \<and>
      bq_field b i 0 \<and> bq_has_params b i ps"
    and "pc t = BqMark f ps i \<Longrightarrow> e = None \<and> n = bq_array C - i \<and> i < bq_limit C \<and> bq_field b i 0 \<and>
      (\<forall>j. i + 4 \<le> j \<and> j < bq_array C \<longrightarrow> b ! j = 0)"
proof -
  have at: "pc u = BqWrite g qs i k' \<Longrightarrow> pc t = BqWrite g qs i k'" "pc u = BqCode g qs i r' \<Longrightarrow> pc t = BqCode g qs i r'"
    "pc u = BqMark g qs i \<Longrightarrow> pc t = BqMark g qs i" for u g qs k' r'
    using only [of u] by auto
  have facts: "(\<exists>g qs. e = Some (g, qs) \<and> n = bq_size C g \<and> map length qs = bq_params C g \<and> bq_field b i 0 \<and>
        ((\<exists>k. pc t = BqWrite g qs i k \<and> k \<le> length qs \<and> bq_has_params b i (take k qs)) \<or>
         (\<exists>r. pc t = BqCode g qs i r) \<and> bq_has_params b i qs)) \<or>
      e = None \<and> n = bq_array C - i \<and> i < bq_limit C \<and> bq_field b i 0 \<and>
        (\<forall>j. i + 4 \<le> j \<and> j < bq_array C \<longrightarrow> b ! j = 0) \<and> (\<exists>g qs. pc t = BqMark g qs i)"
    if w: "bq_reserving (pc t) = Some i"
  proof (cases e)
    case None
    have "n = bq_array C - i" "i < bq_limit C" "\<forall>j. i + 4 \<le> j \<and> j < bq_array C \<longrightarrow> b ! j = 0"
      "bq_field b i 0" "\<exists>u g qs. pc u = BqMark g qs i"
      using sl w None by auto
    then show ?thesis using None at(3) by blast
  next
    case (Some x)
    then obtain g qs where x: "e = Some (g, qs)" by (cases x) auto
    have n: "n = bq_size C g" "map length qs = bq_params C g" "bq_field b i 0"
      and "(\<exists>u k. pc u = BqWrite g qs i k \<and> k \<le> length qs \<and> bq_has_params b i (take k qs)) \<or>
        (\<exists>u r. pc u = BqCode g qs i r) \<and> bq_has_params b i qs"
      using sl w x by auto
    then have "(\<exists>k. pc t = BqWrite g qs i k \<and> k \<le> length qs \<and> bq_has_params b i (take k qs)) \<or>
        (\<exists>r. pc t = BqCode g qs i r) \<and> bq_has_params b i qs"
      using at(1,2) by meson
    then show ?thesis using x n by simp
  qed
  show "e = Some (f, ps) \<and> n = bq_size C f \<and> map length ps = bq_params C f \<and>
      bq_field b i 0 \<and> k \<le> length ps \<and> bq_has_params b i (take k ps)" if "pc t = BqWrite f ps i k"
    using facts unfolding that by auto
  show "e = Some (f, ps) \<and> n = bq_size C f \<and> map length ps = bq_params C f \<and>
      bq_field b i 0 \<and> bq_has_params b i ps" if "pc t = BqCode f ps i r"
    using facts unfolding that by auto
  show "e = None \<and> n = bq_array C - i \<and> i < bq_limit C \<and> bq_field b i 0 \<and>
      (\<forall>j. i + 4 \<le> j \<and> j < bq_array C \<longrightarrow> b ! j = 0)" if "pc t = BqMark f ps i"
    using facts unfolding that by auto
qed

text \<open>The stores of a thread into its reservation.\<close>

lemma bq_write_region:
  assumes w: "write_bytes off bs b = Some b'" and r: "i \<le> off" "off + length bs \<le> i + n"
  shows "length b' = length b \<and> (\<forall>j < length b. \<not> (i \<le> j \<and> j < i + n) \<longrightarrow> b' ! j = b ! j)"
  using write_bytes_length [OF w] write_bytes_nth [OF w] r by auto

lemma bq_write_param:
  assumes w: "write_bytes (i + 4 + sumsizes (map length (take k ps))) (ps ! k) b = Some b'"
    and k: "k < length ps" and has: "bq_has_params b i (take k ps)"
  shows "bq_has_params b' i (take (k + 1) ps)"
proof -
  let ?off = "i + 4" and ?ns = "map length (take k ps)"
  note len = write_bytes_length [OF w]
  have fit: "?off + sumsizes ?ns + length (ps ! k) \<le> length b"
    using w by (simp add: write_bytes_def split: if_splits)
  have "unroll ?ns b' ?off [] = unroll ?ns b ?off []"
    using fit by (intro unroll_cong [OF len]) (simp add: write_bytes_nth [OF w])
  then have "unroll (map length (take (k + 1) ps)) b' ?off [] =
      Some (take (k + 1) ps, ?off + sumsizes (map length (take (k + 1) ps)))"
    using has k read_write_bytes [OF w]
    by (simp add: bq_has_params_def take_Suc_conv_app_nth unroll_snoc)
  then show ?thesis by (simp add: bq_has_params_def)
qed

lemma bq_keep_field:
  assumes w: "write_bytes off bs b = Some b'" and "i + 4 \<le> off" and "bq_field b i c"
  shows "bq_field b' i c"
proof -
  note len = write_bytes_length [OF w]
  have "i + 4 \<le> length b" using assms(3) by (simp add: bq_field_def read_bytes_eq_iff)
  then have "read_bytes i 4 b' = read_bytes i 4 b"
    using assms(2) by (intro read_bytes_cong [OF len]) (simp add: write_bytes_nth [OF w])
  then show ?thesis using assms(3) by (simp add: bq_field_def)
qed

lemma bq_keep_params:
  assumes w: "write_bytes i bs b = Some b'" "length bs = 4" and has: "bq_has_params b i ps"
    and fit: "i + 4 + sumsizes (map length ps) \<le> length b"
  shows "bq_has_params b' i ps"
proof -
  have "unroll (map length ps) b' (i + 4) [] = unroll (map length ps) b (i + 4) []"
    using fit w(2) by (intro unroll_cong [OF write_bytes_length [OF w(1)]]) (simp add: write_bytes_nth [OF w(1)])
  then show ?thesis using has by (simp add: bq_has_params_def)
qed

lemma bq_write_field: "write_bytes i (u32_bytes c) b = Some b' \<Longrightarrow> bq_field b' i c"
  unfolding bq_field_def using read_write_bytes by fastforce

lemma bq_storeE:
  assumes "bq_store off bs t p s = Some s'"
  obtains b where "write_bytes off bs (bq_buf s) = Some b" "s' = bq_goto t p (s\<lparr>bq_buf := b\<rparr>)"
  using assms by (auto simp: bq_store_def split: option.splits)

lemma bq_sim_param:
  assumes ok: "bq_ok C" and rel: "bq_rel C s q" and pc: "bq_pc s t = BqWrite f ps i k" and k: "k < length ps"
    and st: "bq_enqueue C spurious t s = Some s'"
  shows "bq_rel C s' (q\<lparr>tq_calls := (tq_calls q)(t := TqAccepted (f, ps))\<rparr>)"
proof -
  note D = bq_relD [OF rel]
  let ?off = "i + 4 + sumsizes (map length (take k ps))" and ?p = "BqWrite f ps i (k + 1)"
  have "bq_store ?off (ps ! k) t ?p s = Some s'"
    using st k by (simp add: bq_enqueue_def pc)
  then obtain b where b: "write_bytes ?off (ps ! k) (bq_buf s) = Some b" and s': "s' = bq_goto t ?p (s\<lparr>bq_buf := b\<rparr>)"
    by (rule bq_storeE)
  have "bq_rel C s' (q\<lparr>tq_calls := (tq_calls q)(t := bq_call ?p)\<rparr>)"
  proof (rule bq_sim_work [OF ok rel])
    fix n e
    assume sl: "bq_slot C (cow_get (ft_funs (bq_table s))) (bq_buf s) (bq_pc s) (i, n, e)"
      and only: "\<And>u. bq_reserving (bq_pc s u) = Some i \<Longrightarrow> u = t"
    note S = bq_slot_of(1) [OF sl only pc]
    have "sumsizes (map length (take k ps)) + length (ps ! k) \<le> sumsizes (map length ps)"
      by (rule sumsizes_take_le [OF k])
    then have "?off + length (ps ! k) \<le> i + n" using S by (simp add: bq_size_def)
    with bq_write_region [OF b, of i n]
    have region: "length b = length (bq_buf s) \<and>
      (\<forall>j < length (bq_buf s). \<not> (i \<le> j \<and> j < i + n) \<longrightarrow> b ! j = bq_buf s ! j)" by simp
    have "bq_field b i 0" "bq_has_params b i (take (k + 1) ps)"
      using bq_keep_field [OF b, of i 0] bq_write_param [OF b k] S by auto
    then have "bq_slot C (cow_get (ft_funs (bq_table s))) b ((bq_pc s)(t := ?p)) (i, n, e)"
      using S k by (auto intro!: exI [of _ t])
    then show "length (bq_buf s') = length (bq_buf s) \<and>
      (\<forall>j < length (bq_buf s). \<not> (i \<le> j \<and> j < i + n) \<longrightarrow> bq_buf s' ! j = bq_buf s ! j) \<and>
      bq_slot C (cow_get (ft_funs (bq_table s))) (bq_buf s') ((bq_pc s)(t := ?p)) (i, n, e)"
      using region by (simp add: s' bq_goto_def)
  qed (use D(4) [of t] D(5) bq_regs_same [of s t ?p] in \<open>auto simp: s' bq_goto_def pc\<close>)
  then show ?thesis by simp
qed

text \<open>Steps that only look at the table.\<close>

lemma bq_sim_code:
  assumes ok: "bq_ok C" and rel: "bq_rel C s q"
    and pc: "bq_pc s t = BqWrite f ps i (length ps) \<and> r' = RgDone \<or>
      bq_pc s t = BqCode f ps i r \<and> reg_lookup f r (bq_table s) = (r', bq_table s) \<and> r \<in> {RgDone} \<union> range RgDeref \<and> r' \<noteq> RgUndef"
    and s': "s' = bq_goto t (BqCode f ps i r') s"
  shows "bq_rel C s' (q\<lparr>tq_calls := (tq_calls q)(t := TqAccepted (f, ps))\<rparr>)"
proof -
  note D = bq_relD [OF rel]
  note I = ft_invD [OF D(5)]
  let ?p = "BqCode f ps i r'"
  have inv: "ft_inv (bq_size C) ((bq_regs s)(t := bq_reg ?p)) (bq_table s)"
  proof (cases "bq_pc s t = BqWrite f ps i (length ps)")
    case True
    then show ?thesis using pc D(5) bq_regs_same [of s t ?p] by auto
  next
    case False
    then have c: "bq_pc s t = BqCode f ps i r" "reg_lookup f r (bq_table s) = (r', bq_table s)" "r \<in> {RgDone} \<union> range RgDeref"
      using pc by auto
    then have t: "bq_regs s t = Some (f, r)" by (simp add: bq_regs_def)
    show ?thesis
      using ft_inv_goes [OF D(5) t reg_lookup_goes(2) [OF I(1) I(2) [OF t] I(3) [OF t] c(2,3)]] by simp
  qed
  have r': "r' = RgDone \<or> r' \<in> range RgDeref \<or> r' \<in> range RgCode"
    using pc by (auto simp: reg_lookup_def split: option.splits)
  have "bq_rel C s' (q\<lparr>tq_calls := (tq_calls q)(t := bq_call ?p)\<rparr>)"
  proof (rule bq_sim_work [OF ok rel _ _ _ _ _ _ _ inv])
    fix n e
    assume sl: "bq_slot C (cow_get (ft_funs (bq_table s))) (bq_buf s) (bq_pc s) (i, n, e)"
      and only: "\<And>u. bq_reserving (bq_pc s u) = Some i \<Longrightarrow> u = t"
    have "e = Some (f, ps) \<and> n = bq_size C f \<and> map length ps = bq_params C f \<and> bq_field (bq_buf s) i 0 \<and> bq_has_params (bq_buf s) i ps"
      using pc bq_slot_of(1) [OF sl only, of f ps "length ps"] bq_slot_of(2) [OF sl only, of f ps r] by auto
    then have "bq_slot C (cow_get (ft_funs (bq_table s))) (bq_buf s) ((bq_pc s)(t := ?p)) (i, n, e)"
      by (auto intro!: exI [of _ t])
    then show "length (bq_buf s') = length (bq_buf s) \<and>
      (\<forall>j < length (bq_buf s). \<not> (i \<le> j \<and> j < i + n) \<longrightarrow> bq_buf s' ! j = bq_buf s ! j) \<and>
      bq_slot C (cow_get (ft_funs (bq_table s))) (bq_buf s') ((bq_pc s)(t := ?p)) (i, n, e)"
      by (simp add: s' bq_goto_def)
  qed (use D(4) [of t] pc r' in \<open>auto simp: s' bq_goto_def\<close>)
  then show ?thesis by simp
qed

text \<open>The two publications.\<close>

lemma bq_sim_publish:
  assumes ok: "bq_ok C" and rel: "bq_rel C s q" and pc: "bq_pc s t = BqCode f ps i (RgCode c)"
    and st: "bq_enqueue C spurious t s = Some s'"
  shows "bq_rel C s' (q\<lparr>tq_calls := (tq_calls q)(t := TqNone)\<rparr>)"
proof -
  note D = bq_relD [OF rel]
  note I = ft_invD [OF D(5)]
  have "bq_store i (u32_bytes c) t BqIdle s = Some s'" using st by (simp add: bq_enqueue_def pc)
  then obtain b where b: "write_bytes i (u32_bytes c) (bq_buf s) = Some b" and s': "s' = bq_goto t BqIdle (s\<lparr>bq_buf := b\<rparr>)"
    by (rule bq_storeE)
  have t: "bq_regs s t = Some (f, RgCode c)" by (simp add: bq_regs_def pc)
  have fc: "cow_get (ft_funs (bq_table s)) c = Some f" using I(3) [OF t] by simp
  then have c: "0 < c" "c < bq_mark"
    using ft_okD(6) [OF I(1) cow_cur [OF ft_okD(2) [OF I(1)]] fc] D(6) by auto
  have "bq_rel C s' (q\<lparr>tq_calls := (tq_calls q)(t := bq_call BqIdle)\<rparr>)"
  proof (rule bq_sim_work [OF ok rel])
    fix n e
    assume sl: "bq_slot C (cow_get (ft_funs (bq_table s))) (bq_buf s) (bq_pc s) (i, n, e)" and le: "i + n \<le> bq_array C"
      and only: "\<And>u. bq_reserving (bq_pc s u) = Some i \<Longrightarrow> u = t"
    note S = bq_slot_of(2) [OF sl only pc]
    have n: "n = 4 + sumsizes (map length ps)" using S by (simp add: bq_size_def)
    obtain lo hi L where "bq_tiles C s lo hi L" using rel by (rule bq_relE)
    then have len: "length (bq_buf s) = bq_array C" by (rule bq_tilesD(3))
    have region: "length b = length (bq_buf s) \<and>
      (\<forall>j < length (bq_buf s). \<not> (i \<le> j \<and> j < i + n) \<longrightarrow> b ! j = bq_buf s ! j)"
      by (rule bq_write_region [OF b]) (use n in simp_all)
    have "bq_has_params b i ps" by (rule bq_keep_params [OF b]) (use S n le len in auto)
    moreover have "\<forall>u. bq_reserving (((bq_pc s)(t := BqIdle)) u) \<noteq> Some i" using only by auto
    ultimately have "bq_slot C (cow_get (ft_funs (bq_table s))) b ((bq_pc s)(t := BqIdle)) (i, n, e)"
      using S fc c bq_write_field [OF b] by auto
    then show "length (bq_buf s') = length (bq_buf s) \<and>
      (\<forall>j < length (bq_buf s). \<not> (i \<le> j \<and> j < i + n) \<longrightarrow> bq_buf s' ! j = bq_buf s ! j) \<and>
      bq_slot C (cow_get (ft_funs (bq_table s))) (bq_buf s') ((bq_pc s)(t := BqIdle)) (i, n, e)"
      using region by (simp add: s' bq_goto_def)
  qed (use ft_inv_leave [OF D(5)] in \<open>auto simp: s' bq_goto_def pc\<close>)
  then show ?thesis by simp
qed

lemma bq_sim_mark:
  assumes ok: "bq_ok C" and rel: "bq_rel C s q" and pc: "bq_pc s t = BqMark f ps i"
    and st: "bq_enqueue C spurious t s = Some s'"
  shows "bq_rel C s' (q\<lparr>tq_calls := (tq_calls q)(t := TqCalled (f, ps))\<rparr>)"
proof -
  note D = bq_relD [OF rel]
  let ?p = "BqFull f ps"
  have "bq_store i (u32_bytes bq_mark) t ?p s = Some s'" using st by (simp add: bq_enqueue_def pc)
  then obtain b where b: "write_bytes i (u32_bytes bq_mark) (bq_buf s) = Some b" and s': "s' = bq_goto t ?p (s\<lparr>bq_buf := b\<rparr>)"
    by (rule bq_storeE)
  have "bq_rel C s' (q\<lparr>tq_calls := (tq_calls q)(t := bq_call ?p)\<rparr>)"
  proof (rule bq_sim_work [OF ok rel])
    fix n e
    assume sl: "bq_slot C (cow_get (ft_funs (bq_table s))) (bq_buf s) (bq_pc s) (i, n, e)"
      and only: "\<And>u. bq_reserving (bq_pc s u) = Some i \<Longrightarrow> u = t"
    note S = bq_slot_of(3) [OF sl only pc]
    have "4 < n" by (rule bq_slot_size [OF ok sl])
    then have region: "length b = length (bq_buf s) \<and>
      (\<forall>j < length (bq_buf s). \<not> (i \<le> j \<and> j < i + n) \<longrightarrow> b ! j = bq_buf s ! j)"
      by (intro bq_write_region [OF b]) simp_all
    obtain lo hi L where "bq_tiles C s lo hi L" using rel by (rule bq_relE)
    then have "length (bq_buf s) = bq_array C" by (rule bq_tilesD(3))
    then have "\<forall>j. i + 4 \<le> j \<and> j < bq_array C \<longrightarrow> b ! j = 0" using S write_bytes_nth [OF b] by simp
    moreover have "\<forall>u. bq_reserving (((bq_pc s)(t := ?p)) u) \<noteq> Some i" using only by auto
    ultimately have "bq_slot C (cow_get (ft_funs (bq_table s))) b ((bq_pc s)(t := ?p)) (i, n, e)"
      using S bq_write_field [OF b] by simp
    then show "length (bq_buf s') = length (bq_buf s) \<and>
      (\<forall>j < length (bq_buf s). \<not> (i \<le> j \<and> j < i + n) \<longrightarrow> bq_buf s' ! j = bq_buf s ! j) \<and>
      bq_slot C (cow_get (ft_funs (bq_table s))) (bq_buf s') ((bq_pc s)(t := ?p)) (i, n, e)"
      using region by (simp add: s' bq_goto_def)
  qed (use D(4) [of t] ft_inv_leave [OF D(5)] in \<open>auto simp: s' bq_goto_def pc\<close>)
  then show ?thesis by simp
qed

lemma bq_write_le:
  assumes "bq_rel C s q" and "bq_pc s t = BqWrite f ps i k"
  shows "k \<le> length ps"
proof -
  obtain lo hi L where L: "bq_tiles C s lo hi L" using assms(1) by (rule bq_relE)
  note T = bq_tilesD [OF L]
  have i: "bq_reserving (bq_pc s t) = Some i" using assms(2) by simp
  obtain n e where x: "(i, n, e) \<in> set L" using T(6) [OF i] by blast
  from bq_slot_of(1) [OF T(4) [OF x] T(7) [OF _ i] assms(2)] show ?thesis by simp
qed

lemma bq_sim_thread:
  assumes ok: "bq_ok C" and rel: "bq_rel C s q" and st: "bq_enqueue C spurious t s = Some s'"
    and safe: "bq_pc s' t \<noteq> BqUndef" "ft_idx (bq_table s') \<le> bq_mark"
  shows "\<exists>q'. run tq_step (bq_thread_events C s t) q = Some q' \<and> bq_rel C s' q'"
proof (cases "bq_pc s t")
  note D = bq_relD [OF rel]
  have same: "tq_calls q t = c \<Longrightarrow> q\<lparr>tq_calls := (tq_calls q)(t := c)\<rparr> = q" for c
    by (simp add: fun_upd_idem)
  {
    case (BqReg f ps r)
    then show ?thesis using bq_sim_reg [OF ok rel BqReg st safe] by (simp add: bq_thread_events_def)
  next
    case (BqEnter f ps)
    define p where "p = (if bq_closed s \<noteq> OPEN then BqIdle else BqFetch f ps)"
    have s': "s' = bq_goto t p s" using st by (simp add: bq_enqueue_def BqEnter p_def)
    have "ft_inv (bq_size C) ((bq_regs s)(t := bq_reg p)) (bq_table s)"
      using D(5) ft_inv_leave [OF D(5)] bq_regs_same [of s t p] BqEnter by (auto simp: p_def)
    then have "bq_rel C s' (q\<lparr>tq_calls := (tq_calls q)(t := bq_call p)\<rparr>)"
      by (intro bq_sim_move [OF ok rel]) (use D(4) [of t] D(6) in \<open>auto simp: s' bq_goto_def BqEnter p_def\<close>)
    then show ?thesis using D(3) [of t] same [of "TqCalled (f, ps)"]
      by (auto simp: BqEnter p_def bq_thread_events_def)
  next
    case (BqFetch f ps)
    then show ?thesis by (rule bq_sim_fetch [OF ok rel _ st])
  next
    case (BqWrite f ps i k)
    show ?thesis
    proof (cases "k < length ps")
      case True
      then show ?thesis using bq_sim_param [OF ok rel BqWrite True st] D(3) [of t] same [of "TqAccepted (f, ps)"]
        by (simp add: BqWrite bq_thread_events_def)
    next
      case False
      then have k: "k = length ps" using bq_write_le [OF rel BqWrite] by simp
      have "s' = bq_goto t (BqCode f ps i RgDone) s" using st False by (simp add: bq_enqueue_def BqWrite)
      from bq_sim_code [OF ok rel _ this] show ?thesis
        using D(3) [of t] same [of "TqAccepted (f, ps)"] BqWrite k by (simp add: bq_thread_events_def)
    qed
  next
    case (BqCode f ps i r)
    show ?thesis
    proof (cases "\<exists>c. r = RgCode c")
      case True
      then obtain c where c: "r = RgCode c" by blast
      then show ?thesis using bq_sim_publish [OF ok rel BqCode [unfolded c] st] D(3) [of t]
        by (simp add: BqCode bq_thread_events_def)
    next
      case False
      then have r: "r \<in> {RgDone} \<union> range RgDeref" using D(4) [of t] BqCode by auto
      obtain r' T where T: "reg_lookup f r (bq_table s) = (r', T)" by fastforce
      have t: "bq_regs s t = Some (f, r)" by (simp add: bq_regs_def BqCode)
      note I = ft_invD [OF D(5)]
      have "T = bq_table s" by (rule reg_lookup_goes(1) [OF I(1) I(2) [OF t] I(3) [OF t] T r])
      moreover have step: "s' = bq_goto t (if r' = RgUndef then BqUndef else BqCode f ps i r') (s\<lparr>bq_table := T\<rparr>)"
        using st T r by (auto simp: bq_enqueue_def BqCode)
      ultimately have "r' \<noteq> RgUndef" "s' = bq_goto t (BqCode f ps i r') s"
        using safe(1) by (auto simp: bq_goto_def split: if_splits)
      then show ?thesis
        using bq_sim_code [OF ok rel, of t f ps i r' r s'] BqCode T r \<open>T = bq_table s\<close> D(3) [of t] same [of "TqAccepted (f, ps)"]
        by (auto simp: bq_thread_events_def)
    qed
  next
    case (BqMark f ps i)
    then show ?thesis using bq_sim_mark [OF ok rel BqMark st] D(3) [of t] same [of "TqCalled (f, ps)"]
      by (simp add: bq_thread_events_def)
  next
    case (BqFull f ps)
    then have s': "s' = bq_goto t BqIdle (s\<lparr>bq_closed := FULL\<rparr>)" using st by (simp add: bq_enqueue_def)
    have "bq_rel C s' (q\<lparr>tq_calls := (tq_calls q)(t := bq_call BqIdle)\<rparr>)"
      by (rule bq_sim_move [OF ok rel])
        (use D(6) ft_inv_leave [OF D(5)] in \<open>auto simp: s' bq_goto_def BqFull\<close>)
    then show ?thesis using D(3) [of t] by (simp add: BqFull bq_thread_events_def)
  next
    case BqIdle
    then show ?thesis using st by (simp add: bq_enqueue_def)
  next
    case BqUndef
    then show ?thesis using st by (simp add: bq_enqueue_def)
  }
qed

section \<open>The simulation: the owner\<close>

lemma bq_sim_owner:
  assumes rel: "bq_rel C s q"
    and same: "bq_pc s' = bq_pc s" "bq_table s' = bq_table s"
    and q': "q' = q\<lparr>tq_open := bq_is_open (bq_owner s'), tq_pend := resv_pending L\<rparr>"
    and closed: "\<not> bq_is_open (bq_owner s') \<Longrightarrow> bq_limit C \<le> bq_counter s'"
    and tl: "bq_tiles C s' lo hi L" and ow: "bq_owner_ok C s' lo hi L (bq_owner s')"
  shows "bq_rel C s' q'"
proof (rule bq_relI [OF _ _ _ _ _ _ tl _ ow])
  show "ft_inv (bq_size C) (bq_regs s') (bq_table s')"
    using bq_relD(5) [OF rel] same by (simp add: bq_regs_def [abs_def])
qed (use bq_relD [OF rel] q' closed same in auto)

lemma bq_same_id: "tq_open q = b \<Longrightarrow> tq_pend q = l \<Longrightarrow> q = q\<lparr>tq_open := b, tq_pend := l\<rparr>"
  by simp

text \<open>Entering the \<open>for\<close> loop at \<open>i\<close>.\<close>

lemma bq_for_ok:
  assumes ok: "bq_ok C" and tl: "bq_tiles C s' i hi L" and le: "i \<le> todo \<or> \<not> opn"
    and loop: "bq_loop C (bq_counter s') opn i todo hi L" and ow: "bq_owner s' = bq_for opn i todo"
  shows "bq_is_open (bq_owner s') = opn \<and> bq_owner_ok C s' i hi L (bq_owner s')"
proof (cases "i < todo")
  case True
  then show ?thesis using loop ow by (simp add: bq_for_def)
next
  case False
  note T = bq_tilesD [OF tl]
  show ?thesis
  proof (cases opn)
    case True
    then show ?thesis using loop ow False le by (auto simp: bq_for_def bq_loop_def)
  next
    case opn: False
    have "i = hi"
    proof (rule ccontr)
      assume "i \<noteq> hi"
      then obtain m d L' where "L = (i, m, d) # L'" using T(1) by (cases L) auto
      then have y: "(i, m, d) \<in> set L" by simp
      have "i + m \<le> hi" "hi \<le> bq_array C" using tiling_bounds [OF T(1) y] T(2) by auto
      moreover have "4 < m" by (rule bq_slot_size [OF ok T(4) [OF y]])
      ultimately have "i < bq_limit C" using bq_okD(5) [OF ok] by simp
      then show False using loop opn False \<open>i + m \<le> hi\<close> \<open>4 < m\<close>
        by (auto simp: bq_loop_def bq_closed_hi_def split: if_splits)
    qed
    then show ?thesis using ow False opn by (simp add: bq_for_def)
  qed
qed

lemma bq_sim_close:
  assumes ok: "bq_ok C" and rel: "bq_rel C s q" and st: "bq_flush C s = Some s'"
    and ow: "bq_owner s = BwLoad d \<or> bq_owner s = BwXchg d \<or> bq_owner s = BwClose1 d todo \<or> bq_owner s = BwClose2 d"
  shows "\<exists>q'. run tq_step (bq_owner_events C s) q = Some q' \<and> bq_rel C s' q'"
proof -
  note D = bq_relD [OF rel] and O = bq_okD [OF ok]
  obtain lo hi L where L: "bq_tiles C s lo hi L" "tq_pend q = resv_pending L" "bq_owner_ok C s lo hi L (bq_owner s)"
    using rel by (rule bq_relE)
  note T = bq_tilesD [OF L(1)]
  have lim: "bq_limit C = bq_array C - 4" "4 < bq_array C" using O by auto
  have d: "lo = d" using L(3) ow by auto
  note lohi = tiling_le [OF T(1)] and hiN = T(2)
  have goto: "bq_tiles C s' d hi L" if "bq_buf s' = bq_buf s" "bq_pc s' = bq_pc s" "bq_table s' = bq_table s"
    using bq_tiles_same [OF L(1), of s'] that d by simp
  consider (load) "bq_owner s = BwLoad d" | (xchg) "bq_owner s = BwXchg d"
    | (close1) "bq_owner s = BwClose1 d todo" | (close2) "bq_owner s = BwClose2 d" using ow by blast
  then show ?thesis
  proof cases
    case load
    have hi: "bq_open_hi C (bq_counter s) hi" and opn: "tq_open q" using L(3) D(1) load by simp_all
    consider "bq_counter s = d" | "bq_counter s \<noteq> d" "bq_limit C \<le> bq_counter s"
      | "bq_counter s \<noteq> d" "\<not> bq_limit C \<le> bq_counter s" by blast
    then show ?thesis
    proof cases
      case 1
      then have s': "s' = s\<lparr>bq_owner := BwXchg d\<rparr>" using st by (simp add: bq_flush_def load)
      have "bq_rel C s' q"
        by (rule bq_sim_owner [OF rel _ _ bq_same_id _ goto]) (use hi opn L(2) in \<open>auto simp: s'\<close>)
      then show ?thesis using 1 by (simp add: bq_owner_events_def load)
    next
      case 2
      then have s': "s' = s\<lparr>bq_owner := BwClose2 d\<rparr>" using st by (simp add: bq_flush_def load)
      have "bq_limit C \<le> hi" using hi 2 lim by (auto simp: bq_open_hi_def split: if_splits)
      then have "bq_rel C s' (q\<lparr>tq_open := False\<rparr>)"
        by (intro bq_sim_owner [OF rel _ _ _ _ goto]) (use L(2) 2 in \<open>auto simp: s'\<close>)
      then show ?thesis using 2 opn by (simp add: bq_owner_events_def load)
    next
      case 3
      then have s': "s' = s\<lparr>bq_owner := bq_for True d (bq_counter s)\<rparr>" using st by (simp add: bq_flush_def load)
      have c: "hi = bq_counter s" using hi 3 lim by (auto simp: bq_open_hi_def split: if_splits)
      have tl: "bq_tiles C s' d hi L" by (rule goto) (simp_all add: s')
      have "bq_loop C (bq_counter s') True d (bq_counter s) hi L"
        using hi 3 resv_boundary_refl [OF T(1)] c d by (simp add: bq_loop_def s')
      from bq_for_ok [OF ok tl _ this] have F: "bq_is_open (bq_owner s') = True \<and> bq_owner_ok C s' d hi L (bq_owner s')"
        using lohi c d by (simp add: s')
      have "bq_rel C s' q"
        by (rule bq_sim_owner [OF rel _ _ bq_same_id _ tl]) (use F opn L(2) in \<open>auto simp: s'\<close>)
      then show ?thesis using 3 by (simp add: bq_owner_events_def load)
    qed
  next
    case xchg
    have hi: "bq_open_hi C (bq_counter s) hi" and opn: "tq_open q" using L(3) D(1) xchg by simp_all
    have s': "s' = s\<lparr>bq_counter := bq_array C, bq_owner := BwClose1 d (bq_counter s)\<rparr>"
      using st by (simp add: bq_flush_def xchg)
    have "bq_closed_hi C (bq_counter s) hi"
      using hi lim by (auto simp: bq_open_hi_def bq_closed_hi_def split: if_splits)
    then have "bq_rel C s' (q\<lparr>tq_open := False\<rparr>)"
      by (intro bq_sim_owner [OF rel _ _ _ _ goto]) (use L(2) lim in \<open>auto simp: s'\<close>)
    then show ?thesis using opn by (simp add: bq_owner_events_def xchg)
  next
    case close1
    have hi: "bq_closed_hi C todo hi" and opn: "\<not> tq_open q" "bq_limit C \<le> bq_counter s"
      using L(3) D(1,2) close1 by simp_all
    have s': "s' = s\<lparr>bq_closed := CLOSED, bq_owner := (if bq_limit C \<le> todo then BwClose2 d else bq_for False d todo)\<rparr>"
      using st by (simp add: bq_flush_def close1)
    have tl: "bq_tiles C s' d hi L" by (rule goto) (simp_all add: s')
    have F: "\<not> bq_is_open (bq_owner s') \<and> bq_owner_ok C s' d hi L (bq_owner s')"
    proof (cases "bq_limit C \<le> todo")
      case True
      then show ?thesis using hi by (auto simp: s' bq_closed_hi_def)
    next
      case False
      then have "bq_loop C (bq_counter s') False d todo hi L" using hi by (simp add: bq_loop_def)
      from bq_for_ok [OF ok tl _ this] show ?thesis using False by (simp add: s')
    qed
    have "bq_rel C s' q"
      by (rule bq_sim_owner [OF rel _ _ bq_same_id _ tl]) (use F opn L(2) in \<open>auto simp: s'\<close>)
    then show ?thesis by (simp add: bq_owner_events_def close1)
  next
    case close2
    have hi: "bq_limit C \<le> hi" and opn: "\<not> tq_open q" "bq_limit C \<le> bq_counter s"
      using L(3) D(1,2) close2 by simp_all
    have s': "s' = s\<lparr>bq_closed := CLOSED, bq_owner := bq_for False d (bq_limit C)\<rparr>"
      using st by (simp add: bq_flush_def close2)
    have tl: "bq_tiles C s' d hi L" by (rule goto) (simp_all add: s')
    have "bq_loop C (bq_counter s') False d (bq_limit C) hi L" using hi by (simp add: bq_loop_def bq_closed_hi_def)
    from bq_for_ok [OF ok tl _ this] have F: "\<not> bq_is_open (bq_owner s') \<and> bq_owner_ok C s' d hi L (bq_owner s')"
      by (simp add: s')
    have "bq_rel C s' q"
      by (rule bq_sim_owner [OF rel _ _ bq_same_id _ tl]) (use F opn L(2) in \<open>auto simp: s'\<close>)
    then show ?thesis by (simp add: bq_owner_events_def close2)
  qed
qed

lemma bq_loop_head:
  assumes tl: "bq_tiles C s i hi L" and i: "i < todo" and loop: "bq_loop C c opn i todo hi L"
  obtains n e L' where "L = (i, n, e) # L'"
proof -
  note T = bq_tilesD(1) [OF tl]
  have "L \<noteq> []"
  proof
    assume "L = []"
    then show False using T i loop
      by (auto simp: bq_loop_def bq_closed_hi_def resv_boundary_def split: if_splits)
  qed
  then obtain x L' where "L = x # L'" by (cases L) auto
  then show thesis using that T by (cases x) auto
qed

lemma bq_field_of: "bq_field b i c \<Longrightarrow> c < 2 ^ 32 \<Longrightarrow> \<exists>code. read_bytes i 4 b = Some code \<and> u32_of code = c"
  by (simp add: bq_field_def u32_roundtrip)

lemma bq_field_inj: "bq_field b i c \<Longrightarrow> bq_field b i c' \<Longrightarrow> c < 2 ^ 32 \<Longrightarrow> c' < 2 ^ 32 \<Longrightarrow> c = c'"
  using bq_field_of [of b i c] bq_field_of [of b i c'] by auto

text \<open>The owner at an entry of the \<open>for\<close> loop.\<close>

lemma bq_sim_entry:
  assumes ok: "bq_ok C" and rel: "bq_rel C s q" and L: "bq_tiles C s i hi L" "tq_pend q = resv_pending L"
    and loop: "i < todo" "bq_loop C (bq_counter s) opn i todo hi L" "bq_is_open (bq_owner s) = opn"
    and s': "s' = s\<lparr>bq_owner := ow\<rparr>" and ow: "bq_owner_ok C s' i hi L ow" "bq_is_open ow = opn"
  shows "bq_rel C s' q"
proof (rule bq_sim_owner [OF rel _ _ bq_same_id])
  show "bq_tiles C s' i hi L" by (rule bq_tiles_same [OF L(1)]) (simp_all add: s')
  show "bq_owner_ok C s' i hi L (bq_owner s')" using ow(1) by (simp add: s')
qed (use bq_relD [OF rel] L(2) loop(3) ow(2) in \<open>auto simp: s'\<close>)

lemma bq_sim_spin:
  assumes ok: "bq_ok C" and rel: "bq_rel C s q" and pc: "bq_owner s = BwSpin opn i todo"
    and st: "bq_flush C s = Some s'"
  shows "bq_rel C s' q"
proof -
  note D = bq_relD [OF rel] and O = bq_okD [OF ok]
  obtain hi L where L: "bq_tiles C s i hi L" "tq_pend q = resv_pending L"
      and loop: "i < todo" "bq_loop C (bq_counter s) opn i todo hi L"
    using rel by (rule bq_relE) (simp add: pc)
  note T = bq_tilesD [OF L(1)]
  obtain n e L' where L': "L = (i, n, e) # L'" using bq_loop_head [OF L(1) loop] .
  have slot: "bq_slot C (cow_get (ft_funs (bq_table s))) (bq_buf s) (bq_pc s) (i, n, e)" using T(4) L' by simp
  obtain c where c: "bq_field (bq_buf s) i c" "c = 0 \<or> c = bq_mark \<and> e = None \<and> n = bq_array C - i \<or>
      0 < c \<and> c < bq_mark \<and> (\<exists>f ps. e = Some (f, ps) \<and> cow_get (ft_funs (bq_table s)) c = Some f)"
  proof (cases e)
    case None
    then show ?thesis using slot that by (auto simp: bq_mark_def)
  next
    case (Some x)
    then show ?thesis using slot that by (cases x) auto
  qed
  have "c < 2 ^ 32" using c(2) by (auto simp: bq_mark_def)
  then obtain code where code: "read_bytes i 4 (bq_buf s) = Some code" "u32_of code = c"
    using bq_field_of [OF c(1)] by blast
  have nz: "\<not> bq_field (bq_buf s) i 0" if "c \<noteq> 0"
    using bq_field_inj [OF c(1), of 0] \<open>c < 2 ^ 32\<close> that by auto
  consider "c = 0" | (mark) "c = bq_mark" "e = None" "n = bq_array C - i"
    | (found) f ps where "0 < c" "c < bq_mark" "e = Some (f, ps)" "cow_get (ft_funs (bq_table s)) c = Some f"
    using c(2) by blast
  then show ?thesis
  proof cases
    case 1
    then have "s' = s" using st code by (simp add: bq_flush_def pc)
    then show ?thesis using rel by simp
  next
    case mark
    have s': "s' = s\<lparr>bq_owner := BwUnmark i\<rparr>" using st code mark by (simp add: bq_flush_def pc bq_mark_def)
    have iN: "i + n = bq_array C" using mark(3) tiling_bounds [OF T(1), of i n e] T(2) L' by auto
    have closed: "\<not> opn"
    proof
      assume opn
      then have b: "resv_boundary i hi todo ((i, n, e) # L')" "todo < bq_limit C" using loop(2) L' by (simp_all add: bq_loop_def)
      have "i + n \<le> todo" by (rule resv_boundary_tail(2) [OF b(1) loop(1)])
      then show False using b(2) iN O(5) by simp
    qed
    have "tiling (bq_array C) hi L'" using T(1) L' iN by simp
    then have "hi = bq_array C" "L' = []" using tiling_le [of "bq_array C" hi L'] T(2) tiling_empty by fastforce+
    then have "bq_owner_ok C s' i hi L (BwUnmark i)"
      using L' mark nz by (simp add: s' bq_mark_def)
    then show ?thesis
      by (intro bq_sim_entry [OF ok rel L loop _ s']) (use closed in \<open>auto simp: pc\<close>)
  next
    case found
    have s': "s' = s\<lparr>bq_owner := BwFuns opn i todo c\<rparr>" using st code found by (simp add: bq_flush_def pc)
    have "bq_owner_ok C s' i hi L (BwFuns opn i todo c)"
      using L' found nz loop by (auto simp: s' bq_head_def)
    then show ?thesis by (intro bq_sim_entry [OF ok rel L loop _ s']) (auto simp: pc)
  qed
qed

lemma bq_sim_lookup:
  assumes ok: "bq_ok C" and rel: "bq_rel C s q" and st: "bq_flush C s = Some s'"
    and pc: "bq_owner s = BwFuns opn i todo c \<or> bq_owner s = BwFun opn i todo c a \<or>
      bq_owner s = BwSizes opn i todo f \<or> bq_owner s = BwSize opn i todo f a"
  shows "bq_rel C s' q"
proof -
  obtain hi L where L: "bq_tiles C s i hi L" "tq_pend q = resv_pending L" "bq_owner_ok C s i hi L (bq_owner s)"
      and loop: "i < todo" "bq_loop C (bq_counter s) opn i todo hi L"
    using rel by (rule bq_relE) (use pc in auto)
  note inv = ft_invD(1) [OF bq_relD(5) [OF rel]]
  note F = ft_okD [OF inv]
  note entry = bq_sim_entry [OF ok rel L(1,2) loop]
  consider (funs) "bq_owner s = BwFuns opn i todo c" | (found) "bq_owner s = BwFun opn i todo c a"
    | (sizes) "bq_owner s = BwSizes opn i todo f" | (size) "bq_owner s = BwSize opn i todo f a" using pc by blast
  then show ?thesis
  proof cases
    case funs
    then have s': "s' = s\<lparr>bq_owner := BwFun opn i todo c (cw_cur (ft_funs (bq_table s)))\<rparr>" using st by (simp add: bq_flush_def)
    have "bq_owner_ok C s' i hi L (BwFun opn i todo c (cw_cur (ft_funs (bq_table s))))"
      using L(3) loop cow_cur [OF F(2)] funs by (auto simp: s' bq_head_def)
    then show ?thesis by (intro entry [OF _ s']) (simp_all add: funs)
  next
    case found
    obtain g m where g: "bq_head s i g L" "cw_heap (ft_funs (bq_table s)) a = Some m" "m c = Some g"
      using L(3) found by auto
    have s': "s' = s\<lparr>bq_owner := BwSizes opn i todo g\<rparr>" using st found g by (simp add: bq_flush_def)
    have "bq_owner_ok C s' i hi L (BwSizes opn i todo g)"
      using g F(6) [OF g(2,3)] loop by (simp add: s' bq_head_def)
    then show ?thesis by (intro entry [OF _ s']) (simp_all add: found)
  next
    case sizes
    then have s': "s' = s\<lparr>bq_owner := BwSize opn i todo f (cw_cur (ft_sizes (bq_table s)))\<rparr>" using st by (simp add: bq_flush_def)
    have "bq_owner_ok C s' i hi L (BwSize opn i todo f (cw_cur (ft_sizes (bq_table s))))"
      using L(3) loop cow_cur [OF F(1)] sizes by (simp add: s' bq_head_def)
    then show ?thesis by (intro entry [OF _ s']) (simp_all add: sizes)
  next
    case size
    obtain m n where m: "bq_head s i f L" "cw_heap (ft_sizes (bq_table s)) a = Some m" "m f = Some n"
      using L(3) size by auto
    have s': "s' = s\<lparr>bq_owner := BwCall opn i todo f n\<rparr>" using st size m by (simp add: bq_flush_def)
    have "bq_owner_ok C s' i hi L (BwCall opn i todo f n)"
      using m F(5) [OF m(2,3)] loop by (simp add: s' bq_head_def)
    then show ?thesis by (intro entry [OF _ s']) (simp_all add: size)
  qed
qed

lemma bq_sim_call:
  assumes ok: "bq_ok C" and rel: "bq_rel C s q" and pc: "bq_owner s = BwCall opn i todo f n"
    and st: "bq_flush C s = Some s'"
  shows "\<exists>q'. run tq_step (bq_owner_events C s) q = Some q' \<and> bq_rel C s' q'"
proof -
  note D = bq_relD [OF rel]
  obtain hi L where L: "bq_tiles C s i hi L" "tq_pend q = resv_pending L" "bq_head s i f L" "n = bq_size C f"
      and loop: "i < todo" "bq_loop C (bq_counter s) opn i todo hi L"
    using rel by (rule bq_relE) (simp add: pc)
  note T = bq_tilesD [OF L(1)]
  obtain m ps L' where L': "L = (i, m, Some (f, ps)) # L'" and nz: "\<not> bq_field (bq_buf s) i 0"
    using L(3) by (auto simp: bq_head_def)
  have slot: "bq_slot C (cow_get (ft_funs (bq_table s))) (bq_buf s) (bq_pc s) (i, m, Some (f, ps))"
    by (rule T(4)) (simp add: L')
  then have m: "m = n" "map length ps = bq_params C f" "bq_has_params (bq_buf s) i ps" using L(4) nz by auto
  have tl0: "bq_tiles C s i hi ((i, n, Some (f, ps)) # L')" using L(1) L' m by simp
  have un: "unroll (bq_params C f) (bq_buf s) (i + 4) [] = Some (ps, i + 4 + sumsizes (map length ps))"
    using m by (simp add: bq_has_params_def)
  obtain b where b: "write_bytes i (replicate n 0) (bq_buf s) = Some b"
    and s': "s' = s\<lparr>bq_buf := b, bq_owner := bq_for opn (i + n) todo\<rparr>"
    using st un by (auto simp: bq_flush_def pc split: option.splits)
  have tl: "bq_tiles C s' (i + n) hi L'"
    by (rule bq_tiles_exec [OF ok tl0 nz, of n]) (use b in \<open>simp_all add: s'\<close>)
  have loop': "bq_loop C (bq_counter s') opn (i + n) todo hi L'" and le: "i + n \<le> todo \<or> \<not> opn"
    using loop(2) resv_boundary_tail [of i hi todo n "Some (f, ps)" L', OF _ loop(1)] L' m
    by (auto simp: bq_loop_def s' split: if_splits)
  have F: "bq_is_open (bq_owner s') = opn \<and> bq_owner_ok C s' (i + n) hi L' (bq_owner s')"
    by (rule bq_for_ok [OF ok tl le loop']) (simp add: s')
  have "bq_rel C s' (q\<lparr>tq_pend := resv_pending L'\<rparr>)"
    by (rule bq_sim_owner [OF rel _ _ _ _ tl]) (use F D(1,2) pc in \<open>auto simp: s'\<close>)
  moreover have "run tq_step (bq_owner_events C s) q = Some (q\<lparr>tq_pend := resv_pending L'\<rparr>)"
    using L(2) L' un by (simp add: bq_owner_events_def pc)
  ultimately show ?thesis by blast
qed

lemma bq_sim_unmark:
  assumes ok: "bq_ok C" and rel: "bq_rel C s q" and pc: "bq_owner s = BwUnmark i"
    and st: "bq_flush C s = Some s'"
  shows "bq_rel C s' q"
proof -
  note D = bq_relD [OF rel] and O = bq_okD [OF ok]
  have T: "bq_tiles C s i (bq_array C) [(i, bq_array C - i, None)]" and p: "tq_pend q = []"
      and nz: "\<not> bq_field (bq_buf s) i 0"
    using rel by (rule bq_relE, simp add: pc)+
  note TD = bq_tilesD [OF T]
  have "bq_slot C (cow_get (ft_funs (bq_table s))) (bq_buf s) (bq_pc s) (i, bq_array C - i, None)"
    using TD(4) [of i "bq_array C - i" None] by simp
  then have slot: "i < bq_limit C" "\<forall>j. i + 4 \<le> j \<and> j < bq_array C \<longrightarrow> bq_buf s ! j = 0"
      "\<forall>t. bq_reserving (bq_pc s t) \<noteq> Some i" using nz by auto
  have free: "bq_reserving (bq_pc s t) \<noteq> Some j" for t j using TD(6) [of t j] slot(3) by auto
  obtain b where b: "write_bytes i (replicate 4 0) (bq_buf s) = Some b"
    and s': "s' = s\<lparr>bq_buf := b, bq_owner := BwFree\<rparr>"
    using st by (auto simp: bq_flush_def pc split: option.splits)
  have zero: "b ! j = 0" if "j < bq_array C" for j
    using write_bytes_nth [OF b, of j] TD(3) TD(5) [of j] slot(2) that by auto
  have tl: "bq_tiles C s' (bq_array C) (bq_array C) []"
    using free zero write_bytes_length [OF b] TD(3) by (simp add: bq_tiles_def s')
  show ?thesis
    by (rule bq_sim_owner [OF rel _ _ bq_same_id _ tl]) (use D(1,2) pc p in \<open>auto simp: s'\<close>)
qed

lemma bq_tiles_none:
  assumes "bq_tiles C s lo lo L"
  shows "L = []" "bq_reserving (bq_pc s t) = None" "j < bq_array C \<Longrightarrow> bq_buf s ! j = 0"
proof -
  note T = bq_tilesD [OF assms]
  show "L = []" by (rule tiling_empty [OF T(1)])
  then show "bq_reserving (bq_pc s t) = None" using T(6) [of t] by (cases "bq_reserving (bq_pc s t)") auto
  show "bq_buf s ! j = 0" if "j < bq_array C" using T(5) [OF that] by linarith
qed

lemma bq_sim_free:
  assumes rel: "bq_rel C s q" and pc: "bq_owner s = BwFree" and st: "bq_flush C s = Some s'"
  shows "run tq_step (bq_owner_events C s) q = Some q \<and> bq_rel C s' q"
proof -
  note D = bq_relD [OF rel]
  obtain lo L where L: "bq_tiles C s lo lo L" "tq_pend q = resv_pending L"
    using rel by (rule bq_relE) (simp add: pc)
  note N = bq_tiles_none [OF L(1)]
  have s': "s' = s\<lparr>bq_table := ft_free (bq_table s), bq_owner := BwClosed\<rparr>" using st by (simp add: bq_flush_def pc)
  have tl: "bq_tiles C s' 0 0 []"
    using N bq_tilesD(3) [OF L(1)] by (simp add: bq_tiles_def s')
  have "bq_rel C s' q"
  proof (rule bq_relI [OF _ _ _ _ _ _ tl])
    show "ft_inv (bq_size C) (bq_regs s') (bq_table s')"
      using ft_inv_free [OF D(5)] by (simp add: s' bq_regs_def [abs_def])
  qed (use D N(1) L(2) pc in \<open>auto simp: s' ft_free_def\<close>)
  then show ?thesis using D(1) L(2) N(1) by (simp add: bq_owner_events_def pc)
qed

lemma bq_sim_flush:
  assumes ok: "bq_ok C" and rel: "bq_rel C s q" and st: "bq_flush C s = Some s'"
  shows "\<exists>q'. run tq_step (bq_owner_events C s) q = Some q' \<and> bq_rel C s' q'"
proof (cases "bq_owner s")
  case (BwSpin opn i todo)
  then show ?thesis using bq_sim_spin [OF ok rel BwSpin st] by (simp add: bq_owner_events_def)
next
  case (BwFuns opn i todo c)
  then show ?thesis using bq_sim_lookup [OF ok rel st] by (simp add: bq_owner_events_def)
next
  case (BwFun opn i todo c a)
  then show ?thesis using bq_sim_lookup [OF ok rel st] by (simp add: bq_owner_events_def)
next
  case (BwSizes opn i todo f)
  then show ?thesis using bq_sim_lookup [OF ok rel st] by (simp add: bq_owner_events_def)
next
  case (BwSize opn i todo f a)
  then show ?thesis using bq_sim_lookup [OF ok rel st] by (simp add: bq_owner_events_def)
next
  case (BwCall opn i todo f n)
  then show ?thesis by (rule bq_sim_call [OF ok rel _ st])
next
  case (BwUnmark i)
  then show ?thesis using bq_sim_unmark [OF ok rel BwUnmark st] by (simp add: bq_owner_events_def)
next
  case BwFree
  then show ?thesis using bq_sim_free [OF rel BwFree st] by blast
next
  case (BwLoad d)
  then show ?thesis using bq_sim_close [OF ok rel st] by blast
next
  case (BwXchg d)
  then show ?thesis using bq_sim_close [OF ok rel st] by blast
next
  case (BwClose1 d todo)
  then show ?thesis using bq_sim_close [OF ok rel st] by blast
next
  case (BwClose2 d)
  then show ?thesis using bq_sim_close [OF ok rel st] by blast
qed (use st in \<open>simp_all add: bq_flush_def\<close>)

lemma bq_sim_open:
  assumes ok: "bq_ok C" and rel: "bq_rel C s q"
  shows "bq_owner s = BwClosed \<Longrightarrow> bq_open s = Some s' \<Longrightarrow> \<exists>q'. tq_step TqOpen q = Some q' \<and> bq_rel C s' q'"
    and "bq_owner s = BwOpening \<Longrightarrow> bq_open s = Some s' \<Longrightarrow> bq_rel C s' q"
    and "bq_owner s = BwOpened \<Longrightarrow> bq_rel C (s\<lparr>bq_owner := BwLoad 0\<rparr>) q"
proof -
  note D = bq_relD [OF rel]
  obtain lo hi L where L: "bq_tiles C s lo hi L" "tq_pend q = resv_pending L" "bq_owner_ok C s lo hi L (bq_owner s)"
    using rel by (rule bq_relE)
  show "\<exists>q'. tq_step TqOpen q = Some q' \<and> bq_rel C s' q'" if pc: "bq_owner s = BwClosed" and st: "bq_open s = Some s'"
  proof -
    have s': "s' = s\<lparr>bq_counter := 0, bq_owner := BwOpening\<rparr>" using st by (simp add: bq_open_def pc)
    have tl: "bq_tiles C s 0 0 L" using L(1,3) pc by simp
    note N = bq_tiles_none [OF tl]
    have tl': "bq_tiles C s' 0 0 []" by (rule bq_tiles_same [of C s]) (use tl N in \<open>simp_all add: s'\<close>)
    have "bq_rel C s' (q\<lparr>tq_open := True\<rparr>)"
      by (rule bq_sim_owner [OF rel _ _ _ _ tl']) (use L(2) N in \<open>auto simp: s' bq_open_hi_def\<close>)
    then show ?thesis using D(1) L(2) N(1) pc by simp
  qed
  show "bq_rel C s' q" if pc: "bq_owner s = BwOpening" and st: "bq_open s = Some s'"
  proof -
    have s': "s' = s\<lparr>bq_closed := OPEN, bq_owner := BwOpened\<rparr>" using st by (simp add: bq_open_def pc)
    have tl': "bq_tiles C s' lo hi L" by (rule bq_tiles_same [OF L(1)]) (simp_all add: s')
    show ?thesis
      by (rule bq_sim_owner [OF rel _ _ bq_same_id _ tl']) (use L D(1,2) pc in \<open>auto simp: s'\<close>)
  qed
  show "bq_rel C (s\<lparr>bq_owner := BwLoad 0\<rparr>) q" if pc: "bq_owner s = BwOpened"
  proof -
    have tl': "bq_tiles C (s\<lparr>bq_owner := BwLoad 0\<rparr>) lo hi L" by (rule bq_tiles_same [OF L(1)]) simp_all
    show ?thesis
      by (rule bq_sim_owner [OF rel _ _ bq_same_id _ tl']) (use L D(1,2) pc in auto)
  qed
qed

section \<open>The simulation\<close>

text \<open>
  The moves without undefined behaviour: the thread that moves does not use a pointer to a deleted map, and
  the index of the next function fits 32 bits. That the owner never does is part of the simulation.
\<close>

fun bq_thread :: "'f bq_label \<Rightarrow> tid option" where
  "bq_thread (BqDo (QCall t f ps)) = Some t"
| "bq_thread (BqDo (QGo t)) = Some t"
| "bq_thread (BqSpurious t) = Some t"
| "bq_thread _ = None"

definition bq_defined_step :: "'f bq_config \<Rightarrow> 'f bq_label \<Rightarrow> 'f buffer_queue \<Rightarrow> 'f buffer_queue option" where
  "bq_defined_step C l s =
     (case bq_step C l s of
        None \<Rightarrow> None
      | Some s' \<Rightarrow>
          if (\<exists>t. bq_thread l = Some t \<and> bq_pc s' t = BqUndef) \<or> bq_mark < ft_idx (bq_table s') then None else Some s')"

lemma bq_sim_step:
  assumes ok: "bq_ok C" and rel: "bq_rel C s q" and step: "bq_defined_step C l s = Some s'"
  shows "\<exists>q'. run tq_step (bq_events C s l) q = Some q' \<and> bq_rel C s' q'"
proof -
  have st: "bq_step C l s = Some s'" and idx: "ft_idx (bq_table s') \<le> bq_mark"
    and safe: "\<And>t. bq_thread l = Some t \<Longrightarrow> bq_pc s' t \<noteq> BqUndef"
    using step by (auto simp: bq_defined_step_def split: option.splits if_splits)
  note D = bq_relD [OF rel]
  show ?thesis
  proof (cases l)
    case (BqSpurious t)
    then obtain f ps r where r: "bq_pc s t = BqReg f ps r" "bq_enqueue C True t s = Some s'"
      using st by (auto split: bq_pc.splits)
    from bq_sim_reg [OF ok rel r safe idx] show ?thesis using BqSpurious by simp
  next
    case (BqDo a)
    show ?thesis
    proof (cases a)
      case (QCall t f ps)
      then have pc: "bq_pc s t = BqIdle" "map length ps = bq_params C f" and s': "s' = bq_goto t (BqReg f ps RgFind) s"
        using st BqDo by (auto split: if_splits)
      have "bq_rel C s' (q\<lparr>tq_calls := (tq_calls q)(t := bq_call (BqReg f ps RgFind))\<rparr>)"
        by (rule bq_sim_move [OF ok rel])
          (use pc D(6) ft_inv_enter [OF D(5)] in \<open>auto simp: s' bq_goto_def\<close>)
      then show ?thesis using D(3) [of t] pc QCall BqDo by simp
    next
      case (QGo t)
      then show ?thesis using bq_sim_thread [OF ok rel _ safe idx] st BqDo by simp
    next
      case QOpen
      then show ?thesis using st BqDo bq_sim_open(1) [OF ok rel, of s'] by (auto split: if_splits option.splits)
    next
      case QFlush
      then show ?thesis using st BqDo bq_sim_open(3) [OF ok rel] by (auto split: if_splits)
    next
      case QOwner
      show ?thesis
      proof (cases "bq_owner s = BwOpening")
        case True
        then show ?thesis using st BqDo QOwner bq_sim_open(2) [OF ok rel True, of s']
          by (auto simp: bq_owner_events_def)
      next
        case False
        then show ?thesis using st BqDo QOwner bq_sim_flush [OF ok rel, of s'] by (auto split: if_splits)
      qed
    qed
  qed
qed

lemma bq_tantrum_queue:
  assumes "bq_ok C"
  shows "tantrum_queue (bq_defined_step C) (bq_init C) (bq_rel C) (bq_events C)"
  by unfold_locales (fact bq_sim_init [OF assms], fact bq_sim_step [OF assms])

text \<open>A thread with undefined behaviour does not move, and function indices only grow.\<close>

lemma reg_step_idx: "reg_step f n spurious r T = (r', T') \<Longrightarrow> ft_idx T \<le> ft_idx T'"
  by (auto simp: reg_step_def split: reg.splits option.splits if_splits)

lemma reg_lookup_idx: "reg_lookup f r T = (r', T') \<Longrightarrow> ft_idx T' = ft_idx T"
  by (auto simp: reg_lookup_def split: reg.splits option.splits)

lemma bq_enqueue_keeps:
  assumes "bq_enqueue C spurious t s = Some s'"
  shows "bq_pc s t \<noteq> BqUndef" "u \<noteq> t \<Longrightarrow> bq_pc s' u = bq_pc s u" "ft_idx (bq_table s) \<le> ft_idx (bq_table s')"
  using assms
  by (auto simp: bq_enqueue_def bq_store_def bq_goto_def Let_def split: bq_pc.splits reg.splits option.splits prod.splits if_splits
      dest: reg_step_idx reg_lookup_idx)

lemma bq_owner_keeps:
  assumes "bq_flush C s = Some s' \<or> bq_open s = Some s'"
  shows "bq_pc s' = bq_pc s" "ft_idx (bq_table s') = ft_idx (bq_table s)"
  using assms
  by (auto simp: bq_flush_def bq_open_def Let_def ft_free_def split: bq_owner.splits option.splits if_splits)

lemma bq_step_keeps:
  assumes st: "bq_step C l s = Some s'"
  shows "bq_pc s u = BqUndef \<Longrightarrow> bq_pc s' u = BqUndef" "ft_idx (bq_table s) \<le> ft_idx (bq_table s')"
proof -
  have "(bq_pc s u = BqUndef \<longrightarrow> bq_pc s' u = BqUndef) \<and> ft_idx (bq_table s) \<le> ft_idx (bq_table s')"
  proof (cases l)
    case (BqSpurious t)
    then have "bq_enqueue C True t s = Some s'" using st by (auto split: bq_pc.splits)
    from bq_enqueue_keeps [OF this] show ?thesis by metis
  next
    case (BqDo a)
    show ?thesis
    proof (cases a)
      case (QCall t f ps)
      then show ?thesis using st BqDo by (auto simp: bq_goto_def split: if_splits)
    next
      case (QGo t)
      then have "bq_enqueue C False t s = Some s'" using st BqDo by simp
      from bq_enqueue_keeps [OF this] show ?thesis by metis
    next
      case QOpen
      then have "bq_flush C s = Some s' \<or> bq_open s = Some s'" using st BqDo by (auto split: if_splits)
      from bq_owner_keeps [OF this] show ?thesis by simp
    next
      case QFlush
      then show ?thesis using st BqDo by (auto split: if_splits)
    next
      case QOwner
      then have "bq_flush C s = Some s' \<or> bq_open s = Some s'" using st BqDo by (auto split: if_splits)
      from bq_owner_keeps [OF this] show ?thesis by simp
    qed
  qed
  then show "bq_pc s u = BqUndef \<Longrightarrow> bq_pc s' u = BqUndef" "ft_idx (bq_table s) \<le> ft_idx (bq_table s')" by auto
qed

lemma bq_run_keeps:
  assumes "run (bq_step C) ls s = Some s'"
  shows "bq_pc s u = BqUndef \<Longrightarrow> bq_pc s' u = BqUndef" "ft_idx (bq_table s) \<le> ft_idx (bq_table s')"
proof -
  have "(bq_pc s u = BqUndef \<longrightarrow> bq_pc s' u = BqUndef) \<and> ft_idx (bq_table s) \<le> ft_idx (bq_table s')"
    using assms
  proof (induction ls arbitrary: s)
    case (Cons l ls)
    then obtain s1 where s1: "bq_step C l s = Some s1" "run (bq_step C) ls s1 = Some s'" by (auto split: option.splits)
    show ?case using Cons.IH [OF s1(2)] bq_step_keeps(1) [OF s1(1), of u] bq_step_keeps(2) [OF s1(1)] by auto
  qed simp
  then show "bq_pc s u = BqUndef \<Longrightarrow> bq_pc s' u = BqUndef" "ft_idx (bq_table s) \<le> ft_idx (bq_table s')" by auto
qed

lemma bq_run_defined:
  assumes "run (bq_step C) ls s = Some s'" and "\<And>t. bq_pc s' t \<noteq> BqUndef" and "ft_idx (bq_table s') \<le> bq_mark"
  shows "run (bq_defined_step C) ls s = Some s'"
  using assms(1)
proof (induction ls arbitrary: s)
  case (Cons l ls)
  then obtain s1 where s1: "bq_step C l s = Some s1" "run (bq_step C) ls s1 = Some s'" by (auto split: option.splits)
  have "bq_defined_step C l s = Some s1"
    using s1(1) bq_run_keeps(1) [OF s1(2)] bq_run_keeps(2) [OF s1(2)] assms(2,3)
    by (auto simp: bq_defined_step_def dest: le_trans)
  then show ?case using Cons.IH [OF s1(2)] by simp
qed simp

lemma bq_defined_is_step: "bq_defined_step C l s = Some s' \<Longrightarrow> bq_step C l s = Some s'"
  by (auto simp: bq_defined_step_def split: option.splits if_splits)

section \<open>Properties\<close>

text \<open>
  C25. The buffer queue is a tantrum queue for operations that have at least one byte of parameters and fit
  into the buffer (\<open>bq_ok\<close>): every run in which no thread has used a deleted map, and which
  has registered less than \<open>2 ^ 32 - 1\<close> functions, is a run of the abstract queue. The operations executed, with the parameters found in
  the buffer, are those that were accepted, in the order of acceptance, each once, and the rest is pending;
  and the owner finds the function and the size of every entry in its maps.
\<close>
theorem buffer_queue_correct:
  assumes ok: "bq_ok C" and r: "run (bq_step C) ls (bq_init C) = Some s"
    and defined: "\<And>t. bq_pc s t \<noteq> BqUndef" and few: "ft_idx (bq_table s) \<le> bq_mark"
  shows "\<exists>q. run tq_step (trace (bq_step C) (bq_events C) ls (bq_init C)) tq_init = Some q \<and>
    accepted (trace (bq_step C) (bq_events C) ls (bq_init C)) =
      executed (trace (bq_step C) (bq_events C) ls (bq_init C)) @ tq_pend q \<and>
    tq_open q = bq_is_open (bq_owner s) \<and> bq_owner s \<noteq> BwUndef"
proof -
  have r': "run (bq_defined_step C) ls (bq_init C) = Some s" by (rule bq_run_defined [OF r defined few])
  have same: "trace (bq_defined_step C) (bq_events C) ls (bq_init C) = trace (bq_step C) (bq_events C) ls (bq_init C)"
    using run_restricted [where step = "bq_step C" and ev = "bq_events C", OF bq_defined_is_step r'] by blast
  obtain q :: "('a \<times> byte list list) tqueue" where q: "run tq_step (trace (bq_step C) (bq_events C) ls (bq_init C)) tq_init = Some q" "bq_rel C s q"
      "accepted (trace (bq_step C) (bq_events C) ls (bq_init C)) =
        executed (trace (bq_step C) (bq_events C) ls (bq_init C)) @ tq_pend q"
    using tantrum_queue.linearizable [OF bq_tantrum_queue [OF ok] r'] unfolding same by blast
  have "bq_owner s \<noteq> BwUndef" using q(2) by (rule bq_relE) auto
  then show ?thesis using q bq_relD(1) [OF q(2)] by blast
qed

section \<open>Concrete runs\<close>

text \<open>
  Two functions, of which \<open>True\<close> takes a parameter of four bytes; a thread that is alone in \<open>enqueue\<close>
  registers its function, in thirteen steps, and stores the operation.
\<close>

definition bq_demo :: "nat \<Rightarrow> nat list \<Rightarrow> bool bq_config" where
  "bq_demo n ms = \<lparr>bq_array = n, bq_params = (\<lambda>f. if f then [4] else ms)\<rparr>"

definition bq_solo :: "tid \<Rightarrow> bool \<Rightarrow> byte list list \<Rightarrow> bool bq_label list" where
  "bq_solo t f ps =
     BqDo (QCall t f ps) # replicate (13 + 2) (BqDo (QGo t)) @ replicate (length ps + 1) (BqDo (QGo t)) @
     replicate 3 (BqDo (QGo t))"

definition bq_demo_run :: "bool bq_label list" where
  "bq_demo_run =
     [BqDo QOpen, BqDo QOwner] @ bq_solo 1 True [[1, 2, 3, 4]] @ BqDo QFlush # replicate 11 (BqDo QOwner)"

definition bq_lost_run :: "bool bq_label list" where
  "bq_lost_run =
     [BqDo QOpen, BqDo QOwner] @ bq_solo 1 True [[1, 2, 3, 4]] @ bq_solo 2 False [] @
     BqDo QFlush # replicate 9 (BqDo QOwner)"

definition bq_freed_run :: "bool bq_label list" where
  "bq_freed_run =
     [BqDo QOpen, BqDo QOwner, BqDo (QCall 1 True [[5, 6, 7, 8]]), BqDo (QGo 1)] @
     bq_solo 2 True [[1, 2, 3, 4]] @ BqDo QFlush # replicate 11 (BqDo QOwner) @ [BqDo (QGo 1)]"

lemma bq_demo_simps:
  "bq_limit (bq_demo 12 ms) = 8" "bq_limit (bq_demo 16 ms) = 12"
  "usub64 12 8 = 4" "usub64 12 4 = 8" "usub64 16 8 = 8"
  "bq_size (bq_demo n ms) True = 8" "bq_size (bq_demo n ms) False = 4 + sumsizes ms"
  "bq_array (bq_demo n ms) = n" "bq_params (bq_demo n ms) True = [4]" "bq_params (bq_demo n ms) False = ms"
  by (simp_all add: bq_demo_def bq_limit_def usub64_def bq_size_def)

lemma bq_demo_ok: "bq_ok (bq_demo 16 [1])"
  by (simp add: bq_ok_def bq_size_def bq_demo_def)

lemma bq_demo_codes:
  "u32_bytes 0 = [0, 0, 0, 0]" "u32_bytes (Suc 0) = [1, 0, 0, 0]" "u32_of [1, 0, 0, 0] = 1"
  "bq_mark \<noteq> 0" "Suc 0 \<noteq> bq_mark"
  by (simp_all add: u32_bytes_def bq_mark_def)

lemma replicate_numeral: "replicate (numeral k) x = x # replicate (pred_numeral k) x"
  by (simp add: numeral_eq_Suc)

lemmas bq_run_simps =
  bq_solo_def bq_demo_simps bq_demo_codes replicate_numeral bq_init_def ft_init_def cow_new_def
  bq_enqueue_def bq_goto_def bq_registered_def bq_store_def bq_open_def bq_flush_def bq_for_def
  reg_step_def reg_lookup_def cow_cas_def cow_retire_def ft_free_def cow_free_def
  write_bytes_def read_bytes_def accepted_def bq_thread_events_def bq_owner_events_def

theorem buffer_queue_correct_witness:
  "\<exists>s q. run (bq_step (bq_demo 16 [1])) bq_demo_run (bq_init (bq_demo 16 [1])) = Some s \<and>
     executed (trace (bq_step (bq_demo 16 [1])) (bq_events (bq_demo 16 [1])) bq_demo_run (bq_init (bq_demo 16 [1]))) @
       tq_pend (q :: (bool \<times> byte list list) tqueue) = [(True, [[1, 2, 3, 4]])]"
proof -
  let ?C = "bq_demo 16 [1]"
  obtain s where s: "run (bq_step ?C) bq_demo_run (bq_init ?C) = Some s"
      "\<And>t. bq_pc s t \<noteq> BqUndef" "ft_idx (bq_table s) = 2"
    by (simp add: bq_demo_run_def bq_run_simps)
  have "ft_idx (bq_table s) \<le> bq_mark" using s(3) by (simp add: bq_mark_def)
  from buffer_queue_correct [OF bq_demo_ok s(1,2) this] obtain q :: "(bool \<times> byte list list) tqueue" where
    q: "accepted (trace (bq_step ?C) (bq_events ?C) bq_demo_run (bq_init ?C)) =
       executed (trace (bq_step ?C) (bq_events ?C) bq_demo_run (bq_init ?C)) @ tq_pend q" by blast
  have a: "accepted (trace (bq_step ?C) (bq_events ?C) bq_demo_run (bq_init ?C)) = [(True, [[1, 2, 3, 4]])]"
    by (simp add: bq_demo_run_def bq_run_simps)
  show ?thesis by (rule exI, rule exI, rule conjI, rule s(1), rule trans [OF q [symmetric] a])
qed

text \<open>
  The assumption on the parameters is needed. In a buffer of 12 bytes, an operation without parameters gets
  the entry of four bytes at offset \<open>ARRAY_SIZE - 4\<close>: \<open>enqueue\<close> returns \<open>SUCCESS\<close>, but \<open>flush\<close> reads no entry at that
  offset, and returns with the queue closed and the operation not executed.
\<close>
theorem buffer_queue_loses_operation:
  "\<exists>s. run (bq_step (bq_demo 12 [])) bq_lost_run (bq_init (bq_demo 12 [])) = Some s \<and>
     bq_owner s = BwClosed \<and> (\<forall>t. bq_pc s t = BqIdle) \<and>
     accepted (trace (bq_step (bq_demo 12 [])) (bq_events (bq_demo 12 [])) bq_lost_run (bq_init (bq_demo 12 []))) =
       [(True, [[1, 2, 3, 4]]), (False, [])] \<and>
     executed (trace (bq_step (bq_demo 12 [])) (bq_events (bq_demo 12 [])) bq_lost_run (bq_init (bq_demo 12 []))) =
       [(True, [[1, 2, 3, 4]])]"
  by (simp add: bq_lost_run_def bq_run_simps)

text \<open>
  C40. A map that was replaced can be deleted while it is in use: a thread has loaded \<open>rev_functions\<close>, another
  thread adds a function, and the \<open>flush\<close> that executes its operation deletes the map that the first thread
  then reads, which is undefined behaviour, in a sound configuration.
\<close>
theorem buffer_queue_use_after_free:
  "bq_ok (bq_demo 16 [1]) \<and>
   (\<exists>s. run (bq_step (bq_demo 16 [1])) bq_freed_run (bq_init (bq_demo 16 [1])) = Some s \<and> bq_pc s 1 = BqUndef)"
proof
  show "\<exists>s. run (bq_step (bq_demo 16 [1])) bq_freed_run (bq_init (bq_demo 16 [1])) = Some s \<and> bq_pc s 1 = BqUndef"
    by (simp add: bq_freed_run_def bq_run_simps)
qed (rule bq_demo_ok)

end
