(* ===== verification/Simple_Locked_Queue.thy ===== *)
theory Simple_Locked_Queue
  imports Queue_Spec Marshal
begin

unbundle bit_operations_syntax

text \<open>
  The queue of \<open>queues/simple_locked_queue.hpp\<close>: a \<open>std::queue\<close> of arrays of 128 bytes under a
  \<open>std::mutex\<close>. It is always open. A step of a thread is the locking or unlocking of the mutex, or
  what the thread does under the mutex up to the next call of an operation, which no other thread
  can observe.
\<close>

section \<open>Function pointers as bytes\<close>

text \<open>Entries start with the function pointer, eight bytes with the least significant one first.\<close>

definition ptr_bytes :: "64 word \<Rightarrow> byte list" where
  "ptr_bytes w = map (\<lambda>i. ucast (drop_bit (8 * i) w)) [0, 1, 2, 3, 4, 5, 6, 7]"

fun ptr_of :: "byte list \<Rightarrow> 64 word" where
  "ptr_of [] = 0"
| "ptr_of (b # bs) = ucast b OR push_bit 8 (ptr_of bs)"

lemma ptr_bytes_length [simp]: "length (ptr_bytes w) = 8"
  by (simp add: ptr_bytes_def)

lemma byte_of_word:
  "ucast (ucast (drop_bit k w) :: byte) OR push_bit 8 (drop_bit (k + 8) w) = drop_bit k (w :: 64 word)"
proof (rule bit_word_eqI)
  fix n
  assume "n < LENGTH(64)"
  then show "bit (ucast (ucast (drop_bit k w) :: byte) OR push_bit 8 (drop_bit (k + 8) w)) n = bit (drop_bit k w) n"
    by (cases "n < 8") (auto simp: bit_simps)
qed

lemma ptr_roundtrip [simp]: "ptr_of (ptr_bytes w) = w"
proof -
  have "drop_bit 64 w = 0" by (rule bit_word_eqI) (simp add: bit_simps)
  then have "drop_bit 56 w = ucast (ucast (drop_bit 56 w) :: byte) OR push_bit 8 0"
    using byte_of_word [of 56 w] by simp
  then show ?thesis
    using byte_of_word [of 48 w] byte_of_word [of 40 w] byte_of_word [of 32 w] byte_of_word [of 24 w]
      byte_of_word [of 16 w] byte_of_word [of 8 w] byte_of_word [of 0 w]
    by (simp add: ptr_bytes_def)
qed

section \<open>State\<close>

text \<open>
  \<open>sq_array\<close> are the bytes of the uninitialised array \<open>val\<close>, \<open>sq_ndebug\<close> tells whether \<open>assert\<close> is
  compiled to nothing, and \<open>sq_sizes\<close> gives the sizes of the parameters a wrapper unpacks.
\<close>

record sq_config =
  sq_sizes :: "64 word \<Rightarrow> nat list"
  sq_array :: "nat \<Rightarrow> byte"
  sq_ndebug :: bool

definition sq_val :: "sq_config \<Rightarrow> byte list" where
  "sq_val C = map (sq_array C) [0..<128]"

lemma sq_val_length [simp]: "length (sq_val C) = 128"
  by (simp add: sq_val_def)

text \<open>
  How \<open>forwardall\<close> ends: with the entry stored, with an exception, with a failed assertion, or with
  a write outside of the array, which is undefined behaviour.
\<close>

datatype sq_outcome = Stored | Thrown | Aborted | OutOfBounds

text \<open>
  A thread waits for the mutex in \<open>enqueue\<close> or in \<open>flush\<close> (\<open>False\<close>) and \<open>flush_one\<close> (\<open>True\<close>); has the
  mutex and is about to push the entry, to test the queue, to call an operation with its entry, to
  pop the front of the queue; leaves the function; or has ended the program.
\<close>

datatype sq_pc =
    SqIdle
  | SqEnqueue "64 word" "byte list list"
  | SqPush "64 word" "byte list list"
  | SqFlush bool
  | SqTest bool
  | SqCall bool "byte list"
  | SqPop bool
  | SqLeave "sq_outcome option"
  | SqDead

record simple_locked_queue =
  sq_lock :: "tid option"
  sq_queue :: "byte list list"
  sq_pc :: "tid \<Rightarrow> sq_pc"

definition sq_init :: simple_locked_queue where
  "sq_init = \<lparr>sq_lock = None, sq_queue = [], sq_pc = (\<lambda>_. SqIdle)\<rparr>"

definition sq_goto :: "tid \<Rightarrow> sq_pc \<Rightarrow> simple_locked_queue \<Rightarrow> simple_locked_queue" where
  "sq_goto t p s = s\<lparr>sq_pc := (sq_pc s)(t := p)\<rparr>"

definition sq_acquire :: "tid \<Rightarrow> sq_pc \<Rightarrow> simple_locked_queue \<Rightarrow> simple_locked_queue option" where
  "sq_acquire t p s = (if sq_lock s = None then Some (sq_goto t p (s\<lparr>sq_lock := Some t\<rparr>)) else None)"

section \<open>\<open>enqueue\<close>\<close>

text \<open>
  \<open>forwardall\<close> asserts that an object starts at most at byte 120 and then constructs it; when all are
  constructed it asserts, and tests, that they end there.
\<close>

fun sq_forwardall :: "bool \<Rightarrow> nat \<Rightarrow> byte list list \<Rightarrow> byte list \<Rightarrow> byte list \<times> sq_outcome" where
  "sq_forwardall ndebug i [] buf =
     (buf, if i \<le> 120 then Stored else if ndebug then Thrown else Aborted)"
| "sq_forwardall ndebug offset (p # ps) buf =
     (if 120 < offset \<and> \<not> ndebug then (buf, Aborted)
      else case write_bytes offset p buf of
             None \<Rightarrow> (buf, OutOfBounds)
           | Some buf' \<Rightarrow> sq_forwardall ndebug (offset + length p) ps buf')"

definition sq_enqueue :: "sq_config \<Rightarrow> tid \<Rightarrow> simple_locked_queue \<Rightarrow> simple_locked_queue option" where
  "sq_enqueue C t s =
     (case sq_pc s t of
        SqEnqueue op ps \<Rightarrow> sq_acquire t (SqPush op ps) s
      | SqPush op ps \<Rightarrow>
          (case sq_forwardall (sq_ndebug C) 0 (ptr_bytes op # ps) (sq_val C) of
             (val, outcome) \<Rightarrow>
               Some (sq_goto t (if outcome \<in> {Stored, Thrown} then SqLeave (Some outcome) else SqDead)
                      (s\<lparr>sq_queue := sq_queue s @ [val]\<rparr>)))
      | _ \<Rightarrow> None)"

section \<open>\<open>flush\<close> and \<open>flush_one\<close>\<close>

text \<open>What the entry holds for the call of its operation: the function and the parameters it unpacks.\<close>

definition sq_entry :: "sq_config \<Rightarrow> byte list \<Rightarrow> (64 word \<times> byte list list) option" where
  "sq_entry C val =
     (case read_bytes 0 8 val of
        None \<Rightarrow> None
      | Some fun \<Rightarrow> map_option (\<lambda>(ps, off). (ptr_of fun, ps)) (unroll (sq_sizes C (ptr_of fun)) val 8 []))"

text \<open>Both call the operation before they remove its entry from the queue.\<close>

definition sq_flush :: "sq_config \<Rightarrow> tid \<Rightarrow> simple_locked_queue \<Rightarrow> simple_locked_queue option" where
  "sq_flush C t s =
     (case sq_pc s t of
        SqFlush one \<Rightarrow> sq_acquire t (SqTest one) s
      | SqTest one \<Rightarrow>
          Some (sq_goto t (case sq_queue s of [] \<Rightarrow> SqLeave None | val # _ \<Rightarrow> SqCall one val) s)
      | SqCall one val \<Rightarrow> Some (sq_goto t (case sq_entry C val of None \<Rightarrow> SqDead | Some _ \<Rightarrow> SqPop one) s)
      | SqPop one \<Rightarrow>
          Some (sq_goto t (if one then SqLeave None else SqTest one) (s\<lparr>sq_queue := tl (sq_queue s)\<rparr>))
      | _ \<Rightarrow> None)"

text \<open>The \<open>lock_guard\<close> is destroyed, also when an exception leaves the function.\<close>

definition sq_leave :: "tid \<Rightarrow> simple_locked_queue \<Rightarrow> simple_locked_queue option" where
  "sq_leave t s =
     (case sq_pc s t of SqLeave _ \<Rightarrow> Some (sq_goto t SqIdle (s\<lparr>sq_lock := None\<rparr>)) | _ \<Rightarrow> None)"

section \<open>The queue as a transition system\<close>

text \<open>An idle thread calls a function, or a thread takes its next step. \<open>open\<close> does nothing.\<close>

datatype sq_label = SqDoEnqueue tid "64 word" "byte list list" | SqDoFlush tid bool | SqGo tid

fun sq_step :: "sq_config \<Rightarrow> sq_label \<Rightarrow> simple_locked_queue \<Rightarrow> simple_locked_queue option" where
  "sq_step C (SqDoEnqueue t op ps) s =
     (if sq_pc s t = SqIdle then Some (sq_goto t (SqEnqueue op ps) s) else None)"
| "sq_step C (SqDoFlush t one) s =
     (if sq_pc s t = SqIdle then Some (sq_goto t (SqFlush one) s) else None)"
| "sq_step C (SqGo t) s =
     (case sq_enqueue C t s of Some s' \<Rightarrow> Some s' | None \<Rightarrow>
     (case sq_flush C t s of Some s' \<Rightarrow> Some s' | None \<Rightarrow> sq_leave t s))"

fun sq_events :: "sq_config \<Rightarrow> simple_locked_queue \<Rightarrow> sq_label \<Rightarrow> (64 word \<times> byte list list) tq_event list" where
  "sq_events C s (SqDoEnqueue t op ps) = [TqCall t (op, ps)]"
| "sq_events C s (SqDoFlush t one) = []"
| "sq_events C s (SqGo t) =
     (case sq_pc s t of
        SqPush op ps \<Rightarrow> [TqAccept t]
      | SqCall one val \<Rightarrow> (case sq_entry C val of None \<Rightarrow> [] | Some e \<Rightarrow> [TqExec e])
      | SqLeave (Some Stored) \<Rightarrow> [TqReturn t SUCCESS]
      | _ \<Rightarrow> [])"

section \<open>What \<open>forwardall\<close> stores\<close>

lemma sq_forwardall_stored:
  "forwardall i ps buf = Some b \<Longrightarrow> ndebug \<or> i + sumsizes (map length ps) \<le> 120 \<Longrightarrow>
   sq_forwardall ndebug i ps buf = (b, if i + sumsizes (map length ps) \<le> 120 then Stored else Thrown)"
  by (induction i ps buf rule: forwardall.induct) (auto split: option.splits simp: add.assoc)

lemma sq_forwardall_outside:
  "forwardall i ps buf = None \<Longrightarrow> snd (sq_forwardall True i ps buf) = OutOfBounds"
  by (induction i ps buf rule: forwardall.induct) (auto split: option.splits)

lemma sq_forwardall_asserts:
  "120 < i + sumsizes (map length ps) \<Longrightarrow> snd (sq_forwardall False i ps buf) \<in> {Aborted, OutOfBounds}"
  by (induction i ps buf rule: forwardall.induct) (auto split: option.splits simp: add.assoc)

lemma forwardall_outside:
  "length buf < i + sumsizes (map length ps) \<Longrightarrow> ps \<noteq> [] \<Longrightarrow> forwardall i ps buf = None"
proof (induction i ps buf rule: forwardall.induct)
  case (2 i p ps buf)
  show ?case
  proof (cases "ps = []")
    case True
    then show ?thesis using "2.prems" by (simp add: write_bytes_def)
  next
    case False
    then show ?thesis using "2.IH" "2.prems" by (auto split: option.splits simp: write_bytes_length)
  qed
qed simp

lemma sq_entry_stored:
  assumes f: "forwardall 0 (ptr_bytes op # ps) buf = Some val" and sizes: "map length ps = sq_sizes C op"
  shows "sq_entry C val = Some (op, ps)"
proof -
  obtain b where b: "write_bytes 0 (ptr_bytes op) buf = Some b" "forwardall 8 ps b = Some val"
    using f by (auto split: option.splits)
  have len: "length val = length b" "8 \<le> length b"
    using forwardall_length [OF b(2)] b(1) by (auto simp: write_bytes_def split: if_splits)
  have "read_bytes 0 8 val = read_bytes 0 8 b"
    by (rule read_bytes_cong) (use len forwardall_other [OF b(2)] in auto)
  then have "read_bytes 0 8 val = Some (ptr_bytes op)" using read_write_bytes [OF b(1)] by simp
  moreover have "unroll (sq_sizes C op) val 8 [] = Some (ps, 8 + sumsizes (map length ps))"
    using unroll_forwardall [OF b(2), of "[]"] sizes by simp
  ultimately show ?thesis by (simp add: sq_entry_def)
qed

section \<open>Calls that fit\<close>

text \<open>
  The calls for which the queue is meant: the parameters are those that the function unpacks, and
  they fit into an entry.
\<close>

definition sq_fits :: "sq_config \<Rightarrow> 64 word \<Rightarrow> byte list list \<Rightarrow> bool" where
  "sq_fits C op ps \<longleftrightarrow> map length ps = sq_sizes C op \<and> 8 + sumsizes (sq_sizes C op) \<le> 120"

fun sq_label_fits :: "sq_config \<Rightarrow> sq_label \<Rightarrow> bool" where
  "sq_label_fits C (SqDoEnqueue t op ps) = sq_fits C op ps"
| "sq_label_fits C _ = True"

definition sq_fitting_step :: "sq_config \<Rightarrow> sq_label \<Rightarrow> simple_locked_queue \<Rightarrow> simple_locked_queue option" where
  "sq_fitting_step C l s = (if sq_label_fits C l then sq_step C l s else None)"

lemma sq_stored:
  assumes "sq_fits C op ps"
  obtains val where "sq_forwardall (sq_ndebug C) 0 (ptr_bytes op # ps) (sq_val C) = (val, Stored)"
    "sq_entry C val = Some (op, ps)"
proof -
  have sizes: "map length ps = sq_sizes C op" and fits: "8 + sumsizes (map length ps) \<le> 120"
    using assms by (auto simp: sq_fits_def)
  obtain val where val: "forwardall 0 (ptr_bytes op # ps) (sq_val C) = Some val"
    using forwardall_fits [of 0 "ptr_bytes op # ps" "sq_val C"] fits by auto
  show ?thesis
    by (rule that [OF _ sq_entry_stored [OF val sizes]])
      (use sq_forwardall_stored [OF val, of "sq_ndebug C"] fits in simp)
qed

section \<open>The relation to the abstract queue\<close>

fun sq_call_ok :: "sq_pc \<Rightarrow> (64 word \<times> byte list list) tq_call \<Rightarrow> bool" where
  "sq_call_ok (SqEnqueue op ps) c = (c = TqCalled (op, ps))"
| "sq_call_ok (SqPush op ps) c = (c = TqCalled (op, ps))"
| "sq_call_ok (SqLeave (Some outcome)) c = (\<exists>e. c = TqAccepted e)"
| "sq_call_ok _ c = (c = TqNone)"

fun sq_inside :: "sq_pc \<Rightarrow> bool" where
  "sq_inside SqIdle = False"
| "sq_inside (SqEnqueue op ps) = False"
| "sq_inside (SqFlush one) = False"
| "sq_inside _ = True"

text \<open>What a thread may be doing, given the queue, and the entries that it leaves pending.\<close>

fun sq_pc_ok :: "sq_config \<Rightarrow> byte list list \<Rightarrow> sq_pc \<Rightarrow> bool" where
  "sq_pc_ok C vals (SqEnqueue op ps) = sq_fits C op ps"
| "sq_pc_ok C vals (SqPush op ps) = sq_fits C op ps"
| "sq_pc_ok C vals (SqCall one val) = (\<exists>rest. vals = val # rest)"
| "sq_pc_ok C vals (SqPop one) = (vals \<noteq> [])"
| "sq_pc_ok C vals (SqLeave outcome) = (outcome \<in> {None, Some Stored})"
| "sq_pc_ok C vals SqDead = False"
| "sq_pc_ok C vals _ = True"

definition sq_pending :: "simple_locked_queue \<Rightarrow> byte list list" where
  "sq_pending s =
     (case sq_lock s of
        None \<Rightarrow> sq_queue s
      | Some t \<Rightarrow> (case sq_pc s t of SqPop one \<Rightarrow> tl (sq_queue s) | _ \<Rightarrow> sq_queue s))"

definition sq_rel :: "sq_config \<Rightarrow> simple_locked_queue \<Rightarrow> (64 word \<times> byte list list) tqueue \<Rightarrow> bool" where
  "sq_rel C s q \<longleftrightarrow>
     tq_open q \<and> (\<forall>t. sq_call_ok (sq_pc s t) (tq_calls q t)) \<and>
     (\<forall>t. sq_inside (sq_pc s t) \<longleftrightarrow> sq_lock s = Some t) \<and>
     (\<forall>t. sq_pc_ok C (sq_queue s) (sq_pc s t)) \<and> map (sq_entry C) (sq_pending s) = map Some (tq_pend q)"

lemma sq_relD:
  assumes "sq_rel C s q"
  shows "tq_open q" "sq_call_ok (sq_pc s t) (tq_calls q t)" "sq_inside (sq_pc s t) \<longleftrightarrow> sq_lock s = Some t"
    "sq_pc_ok C (sq_queue s) (sq_pc s t)" "map (sq_entry C) (sq_pending s) = map Some (tq_pend q)"
  using assms by (auto simp: sq_rel_def)

lemma sq_pc_ok_outside: "\<not> sq_inside p \<Longrightarrow> sq_pc_ok C vals p = sq_pc_ok C vals' p"
  by (cases p) auto

text \<open>
  A step of thread \<open>t\<close>: the other threads keep their places, and are outside of the mutex if the queue
  changes.
\<close>

lemma sq_rel_move:
  assumes rel: "sq_rel C s q" and q: "tq_open q'" "tq_calls q' = (tq_calls q)(t := c)"
    and s': "sq_pc s' = (sq_pc s)(t := p)" and call: "sq_call_ok p c"
    and ok: "sq_pc_ok C (sq_queue s') p"
    and lock: "sq_lock s' = (if sq_inside p then Some t else if sq_inside (sq_pc s t) then None else sq_lock s)"
    and enter: "sq_inside p \<Longrightarrow> \<not> sq_inside (sq_pc s t) \<Longrightarrow> sq_lock s = None"
    and queue: "sq_queue s' \<noteq> sq_queue s \<Longrightarrow> sq_inside (sq_pc s t)"
    and pend: "map (sq_entry C) (sq_pending s') = map Some (tq_pend q')"
  shows "sq_rel C s' q'"
proof -
  note D = sq_relD [OF rel]
  have "sq_pc_ok C (sq_queue s') (sq_pc s u)" if "u \<noteq> t" for u
  proof (cases "sq_queue s' = sq_queue s")
    case True
    then show ?thesis using D(4) [of u] by simp
  next
    case False
    then have "\<not> sq_inside (sq_pc s u)" using queue D(3) [of t] D(3) [of u] that by auto
    then show ?thesis using sq_pc_ok_outside D(4) [of u] by blast
  qed
  then have "\<forall>u. sq_pc_ok C (sq_queue s') (sq_pc s' u)" using ok s' by simp
  moreover have "sq_inside (sq_pc s' u) \<longleftrightarrow> sq_lock s' = Some u" for u
    using D(3) [of t] D(3) [of u] lock enter s' by (auto split: if_splits)
  moreover have "\<forall>u. sq_call_ok (sq_pc s' u) (tq_calls q' u)" using D(2) call q(2) s' by simp
  ultimately show ?thesis using q(1) pend by (simp add: sq_rel_def)
qed

lemmas sq_ops = sq_enqueue_def sq_flush_def sq_leave_def sq_acquire_def sq_goto_def

lemma sq_enqueue_sim:
  assumes rel: "sq_rel C s q" and e: "sq_enqueue C t s = Some s'"
  shows "\<exists>q'. run tq_step (sq_events C s (SqGo t)) q = Some q' \<and> sq_rel C s' q'"
proof (cases "sq_pc s t")
  case (SqEnqueue op ps)
  then have s': "s' = sq_goto t (SqPush op ps) (s\<lparr>sq_lock := Some t\<rparr>)" and free: "sq_lock s = None"
    using e by (auto simp: sq_ops split: if_splits)
  have "sq_rel C s' q"
    by (rule sq_rel_move [OF rel, where t = t and c = "tq_calls q t" and p = "SqPush op ps"])
      (use sq_relD(1) [OF rel] sq_relD(2-4) [OF rel, of t] sq_relD(5) [OF rel] SqEnqueue free in \<open>auto simp: s' sq_goto_def sq_pending_def\<close>)
  then show ?thesis using SqEnqueue by simp
next
  case (SqPush op ps)
  note D = sq_relD(1) [OF rel] sq_relD(2-4) [OF rel, of t] sq_relD(5) [OF rel]
  obtain val where val: "sq_forwardall (sq_ndebug C) 0 (ptr_bytes op # ps) (sq_val C) = (val, Stored)"
      "sq_entry C val = Some (op, ps)"
    using sq_stored [of C op ps] D(4) SqPush by auto
  have s': "s' = sq_goto t (SqLeave (Some Stored)) (s\<lparr>sq_queue := sq_queue s @ [val]\<rparr>)"
    using e val SqPush by (simp add: sq_enqueue_def)
  have lock: "sq_lock s = Some t" using D(3) SqPush by simp
  define q' where "q' = q\<lparr>tq_pend := tq_pend q @ [(op, ps)], tq_calls := (tq_calls q)(t := TqAccepted (op, ps))\<rparr>"
  have "sq_rel C s' q'"
    by (rule sq_rel_move [OF rel, where t = t and c = "TqAccepted (op, ps)" and p = "SqLeave (Some Stored)"])
      (use D SqPush lock val(2) in \<open>auto simp: s' q'_def sq_goto_def sq_pending_def\<close>)
  moreover have "tq_step (TqAccept t) q = Some q'" using D(1,2) SqPush by (simp add: q'_def)
  ultimately show ?thesis using SqPush by simp
qed (use e in \<open>simp_all add: sq_enqueue_def\<close>)

lemma sq_flush_sim:
  assumes rel: "sq_rel C s q" and e: "sq_flush C t s = Some s'"
  shows "\<exists>q'. run tq_step (sq_events C s (SqGo t)) q = Some q' \<and> sq_rel C s' q'"
proof (cases "sq_pc s t")
  case (SqFlush one)
  then have s': "s' = sq_goto t (SqTest one) (s\<lparr>sq_lock := Some t\<rparr>)" and free: "sq_lock s = None"
    using e by (auto simp: sq_ops split: if_splits)
  have "sq_rel C s' q"
    by (rule sq_rel_move [OF rel, where t = t and c = "tq_calls q t" and p = "SqTest one"])
      (use sq_relD(1) [OF rel] sq_relD(2-4) [OF rel, of t] sq_relD(5) [OF rel] SqFlush free in \<open>auto simp: s' sq_goto_def sq_pending_def\<close>)
  then show ?thesis using SqFlush by simp
next
  case (SqTest one)
  note D = sq_relD(1) [OF rel] sq_relD(2-4) [OF rel, of t] sq_relD(5) [OF rel]
  have lock: "sq_lock s = Some t" using D(3) SqTest by simp
  define p where "p = (case sq_queue s of [] \<Rightarrow> SqLeave None | val # _ \<Rightarrow> SqCall one val)"
  have s': "s' = sq_goto t p s" using e SqTest by (simp add: sq_flush_def p_def)
  have "sq_rel C s' q"
    by (rule sq_rel_move [OF rel, where t = t and c = "tq_calls q t" and p = p])
      (use D SqTest lock in \<open>auto simp: s' p_def sq_goto_def sq_pending_def split: list.splits\<close>)
  then show ?thesis using SqTest by simp
next
  case (SqCall one val)
  note D = sq_relD(1) [OF rel] sq_relD(2-4) [OF rel, of t] sq_relD(5) [OF rel]
  have lock: "sq_lock s = Some t" using D(3) SqCall by simp
  obtain rest where rest: "sq_queue s = val # rest" using D(4) SqCall by auto
  have "map (sq_entry C) (val # rest) = map Some (tq_pend q)" using D(5) SqCall lock rest by (simp add: sq_pending_def)
  then obtain x xs where q: "tq_pend q = x # xs" "sq_entry C val = Some x" "map (sq_entry C) rest = map Some xs"
    by (cases "tq_pend q") auto
  have s': "s' = sq_goto t (SqPop one) s" using e SqCall q by (simp add: sq_flush_def)
  have "sq_rel C s' (q\<lparr>tq_pend := xs\<rparr>)"
    by (rule sq_rel_move [OF rel, where t = t and c = "tq_calls q t" and p = "SqPop one"])
      (use D SqCall lock q rest in \<open>auto simp: s' sq_goto_def sq_pending_def\<close>)
  then show ?thesis using SqCall q by simp
next
  case (SqPop one)
  note D = sq_relD(1) [OF rel] sq_relD(2-4) [OF rel, of t] sq_relD(5) [OF rel]
  have lock: "sq_lock s = Some t" using D(3) SqPop by simp
  have s': "s' = sq_goto t (if one then SqLeave None else SqTest one) (s\<lparr>sq_queue := tl (sq_queue s)\<rparr>)"
    using e SqPop by (simp add: sq_flush_def)
  have "sq_rel C s' q"
    by (rule sq_rel_move [OF rel, where t = t and c = "tq_calls q t" and p = "if one then SqLeave None else SqTest one"])
      (use D SqPop lock in \<open>auto simp: s' sq_goto_def sq_pending_def split: if_splits\<close>)
  then show ?thesis using SqPop by simp
qed (use e in \<open>simp_all add: sq_flush_def\<close>)

lemma sq_leave_sim:
  assumes rel: "sq_rel C s q" and e: "sq_leave t s = Some s'"
  shows "\<exists>q'. run tq_step (sq_events C s (SqGo t)) q = Some q' \<and> sq_rel C s' q'"
proof -
  note D = sq_relD(1) [OF rel] sq_relD(2-4) [OF rel, of t] sq_relD(5) [OF rel]
  obtain r where pc: "sq_pc s t = SqLeave r" and s': "s' = sq_goto t SqIdle (s\<lparr>sq_lock := None\<rparr>)"
    using e by (auto simp: sq_leave_def split: sq_pc.splits)
  have lock: "sq_lock s = Some t" and r: "r \<in> {None, Some Stored}" using D(3,4) pc by simp_all
  define q' where "q' = q\<lparr>tq_calls := (tq_calls q)(t := TqNone)\<rparr>"
  have "sq_rel C s' q'"
    by (rule sq_rel_move [OF rel, where t = t and c = TqNone and p = SqIdle])
      (use D pc lock in \<open>auto simp: s' q'_def sq_goto_def sq_pending_def\<close>)
  moreover have "run tq_step (sq_events C s (SqGo t)) q = Some q'"
  proof (cases r)
    case None
    then have "tq_calls q t = TqNone" using D(2) pc by simp
    then have "q' = q" by (simp add: q'_def fun_upd_idem)
    then show ?thesis using pc None by simp
  qed (use D(2) pc r in \<open>auto simp: q'_def\<close>)
  ultimately show ?thesis by blast
qed

lemma sq_sim_step:
  assumes rel: "sq_rel C s q" and step: "sq_fitting_step C l s = Some s'"
  shows "\<exists>q'. run tq_step (sq_events C s l) q = Some q' \<and> sq_rel C s' q'"
proof -
  have fits: "sq_label_fits C l" and st: "sq_step C l s = Some s'"
    using step by (auto simp: sq_fitting_step_def split: if_splits)
  note D = sq_relD [OF rel]
  show ?thesis
  proof (cases l)
    case (SqDoEnqueue t op ps)
    then have pc: "sq_pc s t = SqIdle" and s': "s' = sq_goto t (SqEnqueue op ps) s"
      using st by (auto split: if_splits)
    define q' where "q' = q\<lparr>tq_calls := (tq_calls q)(t := TqCalled (op, ps))\<rparr>"
    have "sq_rel C s' q'"
      by (rule sq_rel_move [OF rel, where t = t and c = "TqCalled (op, ps)" and p = "SqEnqueue op ps"])
        (use D D(2) [of t] pc fits SqDoEnqueue in
          \<open>auto simp: s' q'_def sq_goto_def sq_pending_def split: option.splits sq_pc.splits\<close>)
    moreover have "tq_step (TqCall t (op, ps)) q = Some q'" using D(2) [of t] pc by (simp add: q'_def)
    ultimately show ?thesis using SqDoEnqueue by simp
  next
    case (SqDoFlush t one)
    then have pc: "sq_pc s t = SqIdle" and s': "s' = sq_goto t (SqFlush one) s"
      using st by (auto split: if_splits)
    have "sq_rel C s' q"
      by (rule sq_rel_move [OF rel, where t = t and c = "tq_calls q t" and p = "SqFlush one"])
        (use D D(2) [of t] pc in \<open>auto simp: s' sq_goto_def sq_pending_def split: option.splits sq_pc.splits\<close>)
    then show ?thesis using SqDoFlush by simp
  next
    case (SqGo t)
    then show ?thesis
      using st sq_enqueue_sim [OF rel] sq_flush_sim [OF rel] sq_leave_sim [OF rel]
      by (auto split: option.splits)
  qed
qed

section \<open>Properties\<close>

text \<open>The abstract queue, open from the start.\<close>

definition tq_opened :: "'e tqueue" where
  "tq_opened = tq_init\<lparr>tq_open := True\<rparr>"

interpretation sq: forward_simulation "sq_fitting_step C" sq_init tq_step tq_opened "sq_rel C" "sq_events C"
proof (rule forward_simulation.intro)
  show "sq_rel C sq_init tq_opened"
    by (simp add: sq_rel_def sq_init_def sq_pending_def tq_opened_def tq_init_def)
qed (rule sq_sim_step)

definition sq_history :: "sq_config \<Rightarrow> sq_label list \<Rightarrow> (64 word \<times> byte list list) tq_event list" where
  "sq_history C ls = trace (sq_fitting_step C) (sq_events C) ls sq_init"

text \<open>
  C37. The simple locked queue is a first-in-first-out queue that accepts every operation: every run in
  which the operations fit into an entry is, step for step, a run of the abstract queue, which is
  never closed; the operations called by \<open>flush\<close> and \<open>flush_one\<close>, with the parameters found in their
  entries, are those accepted, in the order of acceptance, and the rest is in the entries. No
  thread fails, and one thread at most is under the mutex.
\<close>
theorem simple_queue_correct:
  assumes r: "run (sq_fitting_step C) ls sq_init = Some s"
  shows "\<exists>q. run tq_step (sq_history C ls) tq_opened = Some q \<and>
    accepted (sq_history C ls) = executed (sq_history C ls) @ tq_pend q \<and>
    map (sq_entry C) (sq_pending s) = map Some (tq_pend q) \<and>
    (\<forall>t. sq_pc s t \<notin> {SqDead, SqLeave (Some Thrown)}) \<and>
    (\<forall>t u. sq_inside (sq_pc s t) \<and> sq_inside (sq_pc s u) \<longrightarrow> t = u)"
proof -
  obtain q where q: "run tq_step (sq_history C ls) tq_opened = Some q" "sq_rel C s q"
    using sq.run_simulated [OF r] unfolding sq_history_def by blast
  note D = sq_relD [OF q(2)]
  have "accepted (sq_history C ls) = executed (sq_history C ls) @ tq_pend q"
    using tq_fifo_from [OF q(1)] by (simp add: tq_opened_def tq_init_def accepted_def)
  moreover have "sq_pc s t \<notin> {SqDead, SqLeave (Some Thrown)}" for t using D(4) [of t] by auto
  moreover have "t = u" if "sq_inside (sq_pc s t)" "sq_inside (sq_pc s u)" for t u
    using D(3) [of t] D(3) [of u] that by simp
  ultimately show ?thesis using q(1) D(5) by blast
qed

text \<open>A queue of operations that have one parameter of four bytes.\<close>

definition sq_demo :: "nat \<Rightarrow> sq_config" where
  "sq_demo n = \<lparr>sq_sizes = (\<lambda>_. [n]), sq_array = (\<lambda>_. 0), sq_ndebug = True\<rparr>"

lemmas sq_eval = sq_fitting_step_def sq_fits_def sq_ops sq_init_def sq_demo_def sq_entry_def
  write_bytes_def read_bytes_def numeral_eq_Suc

theorem simple_queue_correct_witness:
  "\<exists>s. run (sq_fitting_step (sq_demo 4)) [SqDoEnqueue 1 5 [[1, 2, 3, 4]], SqGo 1, SqDoFlush 2 False, SqGo 1] sq_init = Some s \<and>
     map (sq_entry (sq_demo 4)) (sq_pending s) = [Some (5, [[1, 2, 3, 4]])]"
proof -
  let ?ls = "[SqDoEnqueue 1 5 [[1, 2, 3, 4]], SqGo 1, SqDoFlush 2 False, SqGo 1]"
  have fits: "sq_fits (sq_demo 4) 5 [[1, 2, 3, 4]]" by (simp add: sq_fits_def sq_demo_def)
  obtain val where val: "sq_forwardall (sq_ndebug (sq_demo 4)) 0 (ptr_bytes 5 # [[1, 2, 3, 4]]) (sq_val (sq_demo 4)) = (val, Stored)"
    by (rule sq_stored [OF fits])
  obtain s where s: "run (sq_fitting_step (sq_demo 4)) ?ls sq_init = Some s"
    using fits val by (simp add: sq_fitting_step_def sq_ops sq_init_def)
  have es: "sq_history (sq_demo 4) ?ls = [TqCall 1 (5, [[1, 2, 3, 4]]), TqAccept 1]"
    using fits val by (simp add: sq_history_def sq_fitting_step_def sq_ops sq_init_def)
  obtain q :: "(64 word \<times> byte list list) tqueue"
    where q: "accepted (sq_history (sq_demo 4) ?ls) = executed (sq_history (sq_demo 4) ?ls) @ tq_pend q"
      "map (sq_entry (sq_demo 4)) (sq_pending s) = map Some (tq_pend q)"
    using simple_queue_correct [OF s] by (elim exE conjE) (rule that; assumption)
  have "tq_pend q = [(5, [[1, 2, 3, 4]])]" using q(1) unfolding es by (simp add: accepted_def)
  then have e: "map (sq_entry (sq_demo 4)) (sq_pending s) = [Some (5, [[1, 2, 3, 4]])]" using q(2) by simp
  show ?thesis by (rule exI [of _ s], rule conjI [OF s e])
qed

lemma map_eq_Some: "map f xs = map Some ys \<Longrightarrow> \<forall>x \<in> set xs. f x \<noteq> None"
  by (induction xs arbitrary: ys) (auto simp: Cons_eq_map_conv)

lemma sq_flush_loop:
  assumes "sq_pc s t = SqTest False" and "\<forall>val \<in> set (sq_queue s). sq_entry C val \<noteq> None"
  shows "run (sq_fitting_step C) (replicate (3 * length (sq_queue s) + 1) (SqGo t)) s =
      Some (sq_goto t (SqLeave None) (s\<lparr>sq_queue := []\<rparr>)) \<and>
    map Some (executed (trace (sq_fitting_step C) (sq_events C) (replicate (3 * length (sq_queue s) + 1) (SqGo t)) s)) =
      map (sq_entry C) (sq_queue s)"
  using assms
proof (induction "sq_queue s" arbitrary: s)
  case Nil
  then show ?case by (simp add: sq_fitting_step_def sq_ops)
next
  case (Cons val vals)
  obtain e where e: "sq_entry C val = Some e" using Cons.hyps(2) [symmetric] Cons.prems(2) by auto
  define s1 where "s1 = s\<lparr>sq_queue := vals\<rparr>"
  have "replicate (3 * length (sq_queue s) + 1) (SqGo t) =
      SqGo t # SqGo t # SqGo t # replicate (3 * length vals + 1) (SqGo t)"
    using Cons.hyps(2) [symmetric] by (simp add: numeral_3_eq_3)
  moreover have "sq_fitting_step C (SqGo t) s = Some (sq_goto t (SqCall False val) s)"
    using Cons.prems(1) Cons.hyps(2) [symmetric] by (simp add: sq_fitting_step_def sq_ops)
  moreover have "sq_fitting_step C (SqGo t) (sq_goto t (SqCall False val) s) = Some (sq_goto t (SqPop False) s)"
    using e by (simp add: sq_fitting_step_def sq_ops)
  moreover have "sq_fitting_step C (SqGo t) (sq_goto t (SqPop False) s) = Some s1"
    using Cons.prems(1) Cons.hyps(2) [symmetric]
    by (simp add: sq_fitting_step_def sq_ops s1_def fun_upd_idem)
  moreover note Cons.hyps(1) [of s1]
  ultimately show ?case
    using Cons.prems Cons.hyps(2) [symmetric] e by (simp add: s1_def sq_goto_def)
qed

text \<open>
  \<open>flush\<close> returns: when the mutex is free, three steps for each entry, two for taking and
  releasing the mutex and one last test are all that a call needs, and it executes all entries in
  their order and leaves the queue empty.
\<close>
theorem simple_queue_flush_returns:
  assumes r: "run (sq_fitting_step C) ls sq_init = Some s" and idle: "sq_pc s t = SqIdle" "sq_lock s = None"
  shows "\<exists>s'. run (sq_fitting_step C) (SqDoFlush t False # replicate (3 * length (sq_queue s) + 3) (SqGo t)) s = Some s' \<and>
    sq_queue s' = [] \<and> sq_pc s' = sq_pc s \<and> sq_lock s' = None \<and>
    map Some (executed (trace (sq_fitting_step C) (sq_events C)
      (SqDoFlush t False # replicate (3 * length (sq_queue s) + 3) (SqGo t)) s)) = map (sq_entry C) (sq_queue s)"
proof -
  obtain q where q: "sq_rel C s q" using sq.run_simulated [OF r] by blast
  have "map (sq_entry C) (sq_queue s) = map Some (tq_pend q)"
    using sq_relD(5) [OF q] idle(2) by (simp add: sq_pending_def)
  then have entries: "\<forall>val \<in> set (sq_queue s). sq_entry C val \<noteq> None"
    by (rule map_eq_Some)
  define s1 where "s1 = sq_goto t (SqFlush False) s"
  define s2 where "s2 = sq_goto t (SqTest False) (s\<lparr>sq_lock := Some t\<rparr>)"
  let ?n = "3 * length (sq_queue s) + 1"
  define ms where "ms = replicate ?n (SqGo t)"
  have ls: "replicate (3 * length (sq_queue s) + 3) (SqGo t) = SqGo t # ms @ [SqGo t]"
  proof -
    have "3 * length (sq_queue s) + 3 = Suc (Suc ?n)" by simp
    then show ?thesis by (simp only: ms_def replicate.simps replicate_append_same)
  qed
  have s1: "sq_fitting_step C (SqDoFlush t False) s = Some s1"
    using idle by (simp add: sq_fitting_step_def s1_def)
  have s2: "sq_fitting_step C (SqGo t) s1 = Some s2"
    using idle by (simp add: sq_fitting_step_def s1_def s2_def sq_ops)
  have loop: "run (sq_fitting_step C) ms s2 = Some (sq_goto t (SqLeave None) (s2\<lparr>sq_queue := []\<rparr>))"
    "map Some (executed (trace (sq_fitting_step C) (sq_events C) ms s2)) = map (sq_entry C) (sq_queue s)"
    using sq_flush_loop [of s2 t C] entries by (simp_all add: s2_def sq_goto_def ms_def)
  let ?s3 = "sq_goto t (SqLeave None) (s2\<lparr>sq_queue := []\<rparr>)" and ?s4 = "s\<lparr>sq_queue := []\<rparr>"
  have s4: "sq_fitting_step C (SqGo t) ?s3 = Some ?s4"
    using idle by (simp add: sq_fitting_step_def s2_def sq_ops fun_upd_idem)
  have "run (sq_fitting_step C) (SqDoFlush t False # SqGo t # ms @ [SqGo t]) s = Some ?s4"
    using s1 s2 loop(1) s4 by (simp only: run.simps run_snoc option.simps)
  moreover have "sq_events C ?s3 (SqGo t) = []" by (simp add: sq_goto_def)
  then have "executed (trace (sq_fitting_step C) (sq_events C)
      (SqDoFlush t False # SqGo t # ms @ [SqGo t]) s) =
    executed (trace (sq_fitting_step C) (sq_events C) ms s2)"
    using s1 s2 s4 trace_append [OF loop(1), where ev = "sq_events C" and ms = "[SqGo t]"] by (simp add: s1_def sq_goto_def)
  ultimately show ?thesis unfolding ls using loop(2) idle by simp
qed

theorem simple_queue_flush_returns_witness:
  "\<exists>s s'. run (sq_fitting_step (sq_demo 4)) (SqDoEnqueue 1 5 [[1, 2, 3, 4]] # replicate 3 (SqGo 1)) sq_init = Some s \<and>
     run (sq_fitting_step (sq_demo 4)) (SqDoFlush 2 False # replicate 6 (SqGo 2)) s = Some s' \<and> sq_queue s' = []"
proof -
  let ?ls = "SqDoEnqueue 1 5 [[1, 2, 3, 4]] # replicate 3 (SqGo 1)"
  have fits: "sq_fits (sq_demo 4) 5 [[1, 2, 3, 4]]" by (simp add: sq_fits_def sq_demo_def)
  obtain val where val: "sq_forwardall (sq_ndebug (sq_demo 4)) 0 (ptr_bytes 5 # [[1, 2, 3, 4]]) (sq_val (sq_demo 4)) = (val, Stored)"
    by (rule sq_stored [OF fits])
  obtain s where s: "run (sq_fitting_step (sq_demo 4)) ?ls sq_init = Some s"
      "sq_pc s 2 = SqIdle" "sq_lock s = None" "length (sq_queue s) = 1"
    using fits val by (simp add: sq_fitting_step_def sq_ops sq_init_def numeral_3_eq_3)
  have "(3 :: nat) * 1 + 3 = 6" by simp
  then obtain s' where "run (sq_fitting_step (sq_demo 4)) (SqDoFlush 2 False # replicate 6 (SqGo 2)) s = Some s'" "sq_queue s' = []"
    using simple_queue_flush_returns [OF s(1-3)] s(4) by auto
  with s(1) show ?thesis by blast
qed

lemma sq_enqueue_run:
  assumes "sq_forwardall (sq_ndebug C) 0 (ptr_bytes op # ps) (sq_val C) = (val, outcome)"
  shows "run (sq_step C) [SqDoEnqueue t op ps, SqGo t, SqGo t] sq_init =
    Some \<lparr>sq_lock = Some t, sq_queue = [val],
          sq_pc = (\<lambda>_. SqIdle)(t := if outcome \<in> {Stored, Thrown} then SqLeave (Some outcome) else SqDead)\<rparr>"
  using assms by (simp add: sq_ops sq_init_def)

text \<open>
  C38. An operation that does not fit into an entry: with assertions, or when it is larger than the
  array, the call of \<open>enqueue\<close> fails an assertion or writes outside of the array. Without assertions,
  when it ends in the last eight bytes of the array, the call throws an exception, as if the operation had not been accepted,
  but the entry is in the queue by then, complete, and the next \<open>flush\<close> executes it.
\<close>
theorem simple_queue_throws_and_executes:
  assumes sizes: "map length ps = sq_sizes C op" and big: "120 < 8 + sumsizes (sq_sizes C op)"
  shows "\<exists>s. run (sq_step C) [SqDoEnqueue t op ps, SqGo t, SqGo t] sq_init = Some s \<and>
    (if sq_ndebug C \<and> 8 + sumsizes (sq_sizes C op) \<le> 128
     then sq_pc s t = SqLeave (Some Thrown) \<and>
       executed (trace (sq_step C) (sq_events C) (SqGo t # SqDoFlush u False # SqGo u # SqGo u # [SqGo u]) s) = [(op, ps)]
     else sq_pc s t = SqDead)"
proof -
  obtain val outcome where out: "sq_forwardall (sq_ndebug C) 0 (ptr_bytes op # ps) (sq_val C) = (val, outcome)"
    by fastforce
  have n: "sumsizes (map length (ptr_bytes op # ps)) = 8 + sumsizes (sq_sizes C op)" using sizes by simp
  show ?thesis
  proof (cases "sq_ndebug C \<and> 8 + sumsizes (sq_sizes C op) \<le> 128")
    case True
    then obtain b where b: "forwardall 0 (ptr_bytes op # ps) (sq_val C) = Some b"
      using forwardall_fits [of 0 "ptr_bytes op # ps" "sq_val C"] n by auto
    have "val = b" "outcome = Thrown"
      using sq_forwardall_stored [OF b, of True] True out n big by simp_all
    then show ?thesis
      using True sq_enqueue_run [OF out, of t] sq_entry_stored [OF b sizes] by (simp add: sq_ops)
  next
    case False
    have "outcome \<in> {Aborted, OutOfBounds}"
    proof (cases "sq_ndebug C")
      case True
      then have "forwardall 0 (ptr_bytes op # ps) (sq_val C) = None"
        using forwardall_outside [of "sq_val C" 0 "ptr_bytes op # ps"] False n by simp
      from sq_forwardall_outside [OF this] show ?thesis using out True by simp
    next
      case nodebug: False
      then show ?thesis using sq_forwardall_asserts [of 0 "ptr_bytes op # ps" "sq_val C"] n big out by simp
    qed
    then show ?thesis using False sq_enqueue_run [OF out, of t] by auto
  qed
qed

theorem simple_queue_throws_and_executes_witness:
  "\<exists>s. run (sq_step (sq_demo 120)) [SqDoEnqueue 1 5 [replicate 120 7], SqGo 1, SqGo 1] sq_init = Some s \<and>
     sq_pc s 1 = SqLeave (Some Thrown)"
proof -
  have "map length [replicate 120 (7 :: byte)] = sq_sizes (sq_demo 120) 5" "120 < 8 + sumsizes (sq_sizes (sq_demo 120) 5)"
    and fits: "sq_ndebug (sq_demo 120) \<and> 8 + sumsizes (sq_sizes (sq_demo 120) 5) \<le> 128"
    by (simp_all add: sq_demo_def)
  from simple_queue_throws_and_executes [OF this(1,2), of 1 2, unfolded if_P [OF fits]]
  show ?thesis by blast
qed

end
