(* ===== verification/Delegated.thy ===== *)
theory Delegated
  imports Marshal
begin

text \<open>
  Operations, and the two ways in which \<open>qdlock_base.hpp\<close> runs one: directly, by the overloads of
  \<open>execute\<close>, in the thread that holds the lock; or from the raw bytes of a queue entry, by the
  \<open>delegated\<close> wrappers whose instances the overloads of \<open>enqueue\<close> store as function pointers.

  The user's operations, and the size of a promise, are the parameters of the model (\<open>program\<close>);
  operations return, they do not throw.
\<close>

section \<open>Operations, promises and the data a lock protects\<close>

text \<open>
  What is called: a function known at compile time (the cases A of the source), or a function
  pointer or functor object passed as the first parameter (the cases B).
\<close>

datatype 'fn target = FnTemplate 'fn | FnObject "byte list"

text \<open>
  \<open>pr_call\<close> is \<open>f(ps...)\<close> (the cases 1) and \<open>pr_mem_call\<close> is \<open>(o.*f)(ps...)\<close> (the cases 2); a call
  maps the protected data to a result, \<open>None\<close> for \<open>void\<close>, and the new data.
\<close>

record ('fn, 'd, 'v) program =
  pr_call :: "'fn target \<Rightarrow> byte list list \<Rightarrow> 'd \<Rightarrow> 'v option \<times> 'd"
  pr_mem_call :: "'fn target \<Rightarrow> byte list \<Rightarrow> byte list list \<Rightarrow> 'd \<Rightarrow> 'v option \<times> 'd"
  pr_promise_size :: nat

text \<open>
  The shared states of the promises are part of the world: a promise is its object representation,
  \<open>w_results\<close> gives the value it was set to.
\<close>

record ('d, 'v) world =
  w_data :: 'd
  w_results :: "byte list \<Rightarrow> 'v option option"

text \<open>
  Errors: no overload of a template fits, an access outside the buffer, a promise that already has a
  value (\<open>std::future_error\<close>), a result of the wrong type.
\<close>

datatype dl_error = NotViable | OutOfBounds | AlreadySatisfied | WrongResult

definition set_value :: "byte list \<Rightarrow> 'v option \<Rightarrow> ('d, 'v) world \<Rightarrow> dl_error + ('d, 'v) world" where
  "set_value r v W =
     (if w_results W r \<noteq> None then Inl AlreadySatisfied
      else Inr (W\<lparr>w_results := (w_results W)(r := Some v)\<rparr>))"

text \<open>\<open>unpack_promise\<close> moves the promise out of the buffer.\<close>

definition unpack_promise :: "('fn, 'd, 'v) program \<Rightarrow> byte list \<Rightarrow> nat \<Rightarrow> byte list option" where
  "unpack_promise P buf off = read_bytes off (pr_promise_size P) buf"

section \<open>Calling an operation\<close>

fun op_target :: "'fn option \<Rightarrow> byte list list \<Rightarrow> dl_error + ('fn target \<times> byte list list)" where
  "op_target (Some f) ps = Inr (FnTemplate f, ps)"
| "op_target None (f # ps) = Inr (FnObject f, ps)"
| "op_target None [] = Inl NotViable"

fun op_call ::
  "('fn, 'd, 'v) program \<Rightarrow> bool \<Rightarrow> 'fn target \<Rightarrow> byte list list \<Rightarrow> 'd \<Rightarrow> dl_error + ('v option \<times> 'd)"
where
  "op_call P False f ps d = Inr (pr_call P f ps d)"
| "op_call P True f (ob # ps) d = Inr (pr_mem_call P f ob ps d)"
| "op_call P True f [] d = Inl NotViable"

definition call_operation ::
  "('fn, 'd, 'v) program \<Rightarrow> 'fn option \<Rightarrow> bool \<Rightarrow> byte list list \<Rightarrow> ('d, 'v) world \<Rightarrow>
   dl_error + ('v option \<times> ('d, 'v) world)"
where
  "call_operation P tmpl member ps W =
     (case op_target tmpl ps of
        Inl e \<Rightarrow> Inl e
      | Inr (f, qs) \<Rightarrow>
          (case op_call P member f qs (w_data W) of
             Inl e \<Rightarrow> Inl e | Inr (v, d) \<Rightarrow> Inr (v, W\<lparr>w_data := d\<rparr>)))"

text \<open>Setting a promise of a value type and one of \<open>void\<close> to the result of a call.\<close>

fun set_result ::
  "byte list \<Rightarrow> dl_error + ('v option \<times> ('d, 'v) world) \<Rightarrow> dl_error + ('d, 'v) world" where
  "set_result r (Inl e) = Inl e"
| "set_result r (Inr (Some v, W)) = set_value r (Some v) W"
| "set_result r (Inr (None, W)) = Inl WrongResult"

fun set_void ::
  "byte list \<Rightarrow> dl_error + ('v option \<times> ('d, 'v) world) \<Rightarrow> dl_error + ('d, 'v) world" where
  "set_void r (Inl e) = Inl e"
| "set_void r (Inr (None, W)) = set_value r None W"
| "set_void r (Inr (Some v, W)) = Inl WrongResult"

fun drop_result :: "dl_error + ('v option \<times> ('d, 'v) world) \<Rightarrow> dl_error + ('d, 'v) world" where
  "drop_result (Inl e) = Inl e"
| "drop_result (Inr (v, W)) = Inr W"

section \<open>The \<open>execute\<close> overloads\<close>

definition execute_future where
  "execute_future P tmpl member r ps W = set_result r (call_operation P tmpl member ps W)"

definition execute_void where
  "execute_void P tmpl member r ps W = set_void r (call_operation P tmpl member ps W)"

definition execute_nofuture where
  "execute_nofuture P tmpl member ps W = drop_result (call_operation P tmpl member ps W)"

section \<open>The \<open>delegated\<close> wrappers\<close>

text \<open>
  The first equation of each is the unrolling case, the second the cases 1 and 2. For an operation
  that returns void and is passed as a parameter (case Bb), the unrolling overload exists for one
  remaining type only.
\<close>

fun delegated_function_future where
  "delegated_function_future P tmpl member (n # ns) buf off ps W =
     (case read_bytes off n buf of
        None \<Rightarrow> Inl OutOfBounds
      | Some p \<Rightarrow> delegated_function_future P tmpl member ns buf (off + n) (ps @ [p]) W)"
| "delegated_function_future P tmpl member [] buf off ps W =
     (case unpack_promise P buf off of
        None \<Rightarrow> Inl OutOfBounds
      | Some r \<Rightarrow> set_result r (call_operation P tmpl member ps W))"

fun delegated_void_function_future where
  "delegated_void_function_future P tmpl member (n # ns) buf off ps W =
     (if tmpl = None \<and> ns \<noteq> [] then Inl NotViable
      else case read_bytes off n buf of
             None \<Rightarrow> Inl OutOfBounds
           | Some p \<Rightarrow> delegated_void_function_future P tmpl member ns buf (off + n) (ps @ [p]) W)"
| "delegated_void_function_future P tmpl member [] buf off ps W =
     (case unpack_promise P buf off of
        None \<Rightarrow> Inl OutOfBounds
      | Some r \<Rightarrow> set_void r (call_operation P tmpl member ps W))"

fun delegated_function_nofuture where
  "delegated_function_nofuture P tmpl member (n # ns) buf off ps W =
     (case read_bytes off n buf of
        None \<Rightarrow> Inl OutOfBounds
      | Some p \<Rightarrow> delegated_function_nofuture P tmpl member ns buf (off + n) (ps @ [p]) W)"
| "delegated_function_nofuture P tmpl member [] buf off ps W =
     drop_result (call_operation P tmpl member ps W)"

section \<open>The \<open>enqueue\<close> overloads\<close>

text \<open>
  A function pointer \<open>void(*)(char*)\<close> of a queue is an instance of a wrapper: which one (with a future
  for a value, for \<open>void\<close>, without), and its template arguments \<open>f\<close> (\<open>None\<close> is \<open>nullptr\<close>) and \<open>Types\<close>,
  with \<open>w_member\<close> the type trait \<open>is_member_function_pointer\<close>.
\<close>

datatype w_kind = ValueFuture | VoidFuture | NoFuture

record 'fn wrapper =
  w_kind :: w_kind
  w_template :: "'fn option"
  w_member :: bool
  w_types :: "nat list"

text \<open>Calling a function pointer with the address of the parameters in a buffer.\<close>

definition run_wrapper ::
  "('fn, 'd, 'v) program \<Rightarrow> 'fn wrapper \<Rightarrow> byte list \<Rightarrow> nat \<Rightarrow> ('d, 'v) world \<Rightarrow> dl_error + ('d, 'v) world"
where
  "run_wrapper P w buf off W =
     (case w_kind w of
        ValueFuture \<Rightarrow> delegated_function_future P (w_template w) (w_member w) (w_types w) buf off [] W
      | VoidFuture \<Rightarrow> delegated_void_function_future P (w_template w) (w_member w) (w_types w) buf off [] W
      | NoFuture \<Rightarrow> delegated_function_nofuture P (w_template w) (w_member w) (w_types w) buf off [] W)"

text \<open>
  What \<open>enqueue\<close> passes to the queue: the function pointer and the parameters, the functor first if
  there is one, and the promise last if there is one.
\<close>

definition enqueue_future :: "'fn option \<Rightarrow> bool \<Rightarrow> byte list \<Rightarrow> byte list list \<Rightarrow> 'fn wrapper \<times> byte list list" where
  "enqueue_future tmpl member r ps =
     (\<lparr>w_kind = ValueFuture, w_template = tmpl, w_member = member, w_types = map length ps\<rparr>, ps @ [r])"

definition enqueue_void :: "'fn option \<Rightarrow> bool \<Rightarrow> byte list \<Rightarrow> byte list list \<Rightarrow> 'fn wrapper \<times> byte list list" where
  "enqueue_void tmpl member r ps =
     (\<lparr>w_kind = VoidFuture, w_template = tmpl, w_member = member, w_types = map length ps\<rparr>, ps @ [r])"

definition enqueue_nofuture :: "'fn option \<Rightarrow> bool \<Rightarrow> byte list list \<Rightarrow> 'fn wrapper \<times> byte list list" where
  "enqueue_nofuture tmpl member ps =
     (\<lparr>w_kind = NoFuture, w_template = tmpl, w_member = member, w_types = map length ps\<rparr>, ps)"

text \<open>The parameter types \<open>Ps\<close> with which \<open>enqueue\<close> of the queue is instantiated.\<close>

definition wrapper_sizes :: "('fn, 'd, 'v) program \<Rightarrow> 'fn wrapper \<Rightarrow> nat list" where
  "wrapper_sizes P w = w_types w @ (if w_kind w = NoFuture then [] else [pr_promise_size P])"

section \<open>An operation and its entry\<close>

text \<open>
  An operation as \<open>delegate\<close> gets it, and the meaning of running it in the thread that holds the lock
  (\<open>execute\<close>) and of putting it into a queue (\<open>enqueue\<close>).
\<close>

record 'fn operation =
  o_kind :: w_kind
  o_template :: "'fn option"
  o_member :: bool
  o_promise :: "byte list"
  o_params :: "byte list list"

definition execute ::
  "('fn, 'd, 'v) program \<Rightarrow> 'fn operation \<Rightarrow> ('d, 'v) world \<Rightarrow> dl_error + ('d, 'v) world" where
  "execute P x W =
     (case o_kind x of
        ValueFuture \<Rightarrow> execute_future P (o_template x) (o_member x) (o_promise x) (o_params x) W
      | VoidFuture \<Rightarrow> execute_void P (o_template x) (o_member x) (o_promise x) (o_params x) W
      | NoFuture \<Rightarrow> execute_nofuture P (o_template x) (o_member x) (o_params x) W)"

definition enqueued :: "'fn operation \<Rightarrow> 'fn wrapper \<times> byte list list" where
  "enqueued x =
     (case o_kind x of
        ValueFuture \<Rightarrow> enqueue_future (o_template x) (o_member x) (o_promise x) (o_params x)
      | VoidFuture \<Rightarrow> enqueue_void (o_template x) (o_member x) (o_promise x) (o_params x)
      | NoFuture \<Rightarrow> enqueue_nofuture (o_template x) (o_member x) (o_params x))"

text \<open>
  The operations for which the templates have an instance: those with a promise have one of the
  right size, and a \<open>void\<close> operation with a future that is passed as a parameter has no others.
\<close>

definition op_wf :: "('fn, 'd, 'v) program \<Rightarrow> 'fn operation \<Rightarrow> bool" where
  "op_wf P x \<longleftrightarrow> (o_kind x \<noteq> NoFuture \<longrightarrow> length (o_promise x) = pr_promise_size P) \<and>
     (o_kind x = VoidFuture \<and> o_template x = None \<longrightarrow> length (o_params x) = 1)"

lemma enqueued_sizes: "op_wf P x \<Longrightarrow> map length (snd (enqueued x)) = wrapper_sizes P (fst (enqueued x))"
  by (cases "o_kind x")
    (auto simp: op_wf_def enqueued_def wrapper_sizes_def enqueue_future_def enqueue_void_def enqueue_nofuture_def)

text \<open>The wrappers read their parameters as \<open>unroll\<close> does, and then do what \<open>execute\<close> does.\<close>

lemma future_unroll:
  "unroll ns buf off acc = Some (qs, o') \<Longrightarrow> unpack_promise P buf o' = Some r \<Longrightarrow>
   delegated_function_future P tmpl member ns buf off acc W = execute_future P tmpl member r qs W"
  by (induction ns buf off acc rule: unroll.induct) (auto split: option.splits simp: execute_future_def)

lemma void_unroll:
  "unroll ns buf off acc = Some (qs, o') \<Longrightarrow> unpack_promise P buf o' = Some r \<Longrightarrow>
   tmpl = None \<longrightarrow> length ns \<le> 1 \<Longrightarrow>
   delegated_void_function_future P tmpl member ns buf off acc W = execute_void P tmpl member r qs W"
  by (induction ns buf off acc rule: unroll.induct) (auto split: option.splits simp: execute_void_def)

lemma nofuture_unroll:
  "unroll ns buf off acc = Some (qs, o') \<Longrightarrow>
   delegated_function_nofuture P tmpl member ns buf off acc W = execute_nofuture P tmpl member qs W"
  by (induction ns buf off acc rule: unroll.induct) (auto split: option.splits simp: execute_nofuture_def)

text \<open>Running an entry that a queue hands out is executing the operation that was put into it.\<close>

lemma run_entry:
  assumes wf: "op_wf P x" and x: "enqueued x = (w, qs)"
    and entry: "unroll (wrapper_sizes P w) buf off [] = Some (qs, o')"
  shows "run_wrapper P w buf off W = execute P x W"
proof (cases "o_kind x")
  case ValueFuture
  then have w: "w_kind w = ValueFuture" "w_template w = o_template x" "w_member w = o_member x"
      "w_types w = map length (o_params x)" "qs = o_params x @ [o_promise x]"
    using x by (auto simp: enqueued_def enqueue_future_def)
  then show ?thesis using entry ValueFuture
    by (auto simp: wrapper_sizes_def unroll_snoc run_wrapper_def execute_def unpack_promise_def
        split: option.splits intro!: future_unroll)
next
  case VoidFuture
  then have w: "w_kind w = VoidFuture" "w_template w = o_template x" "w_member w = o_member x"
      "w_types w = map length (o_params x)" "qs = o_params x @ [o_promise x]"
    using x by (auto simp: enqueued_def enqueue_void_def)
  moreover have "o_template x = None \<longrightarrow> length (o_params x) \<le> 1"
    using wf VoidFuture by (auto simp: op_wf_def)
  ultimately show ?thesis using entry VoidFuture
    by (auto simp: wrapper_sizes_def unroll_snoc run_wrapper_def execute_def unpack_promise_def
        split: option.splits intro!: void_unroll)
next
  case NoFuture
  then have w: "w_kind w = NoFuture" "w_template w = o_template x" "w_member w = o_member x"
      "w_types w = map length (o_params x)" "qs = o_params x"
    using x by (auto simp: enqueued_def enqueue_nofuture_def)
  then show ?thesis using entry NoFuture
    by (auto simp: wrapper_sizes_def run_wrapper_def execute_def intro!: nofuture_unroll)
qed

section \<open>Properties\<close>

text \<open>
  C12. Delegating an operation is executing it: when an operation (with or without a future, given
  as a template argument or as a functor, a member function or not) is packed by \<open>enqueue\<close> and
  \<open>forwardall\<close> into a buffer, the wrapper that \<open>enqueue\<close> stored with it, called on that buffer, has
  the effect of \<open>execute\<close> on the same operation, on the protected data and on the promise.
\<close>
theorem delegated_is_executed:
  assumes wf: "op_wf P x" and x: "enqueued x = (w, qs)" and packed: "forwardall off qs buf = Some buf'"
  shows "run_wrapper P w buf' off W = execute P x W"
proof (rule run_entry [OF wf x])
  show "unroll (wrapper_sizes P w) buf' off [] = Some (qs, off + sumsizes (map length qs))"
    using unroll_forwardall [OF packed, of "[]"] enqueued_sizes [OF wf] x by simp
qed

text \<open>A counter: the operation adds its parameter to the data and returns the old value.\<close>

definition counter_program :: "(unit, nat, nat) program" where
  "counter_program =
     \<lparr>pr_call = (\<lambda>f ps d. (Some d, d + sum_list (map (\<lambda>p. length p) ps))),
      pr_mem_call = (\<lambda>f ob ps d. (None, d)), pr_promise_size = 1\<rparr>"

definition counter_op :: "unit operation" where
  "counter_op =
     \<lparr>o_kind = ValueFuture, o_template = Some (), o_member = False, o_promise = [9], o_params = [[1, 2]]\<rparr>"

theorem delegated_is_executed_witness:
  "\<exists>w qs buf. enqueued counter_op = (w, qs) \<and> forwardall 4 qs (replicate 8 0) = Some buf \<and>
     run_wrapper counter_program w buf 4 \<lparr>w_data = 5, w_results = (\<lambda>_. None)\<rparr> =
       Inr \<lparr>w_data = 7, w_results = (\<lambda>_. None)([9] := Some (Some 5))\<rparr>"
proof -
  let ?W = "\<lparr>w_data = 5, w_results = (\<lambda>_. None)\<rparr> :: (nat, nat) world"
  obtain w qs where x: "enqueued counter_op = (w, qs)" "qs = [[1, 2], [9]]"
    by (simp add: enqueued_def counter_op_def enqueue_future_def)
  obtain buf where b: "forwardall 4 qs (replicate 8 0) = Some buf"
    by (simp add: x(2) write_bytes_def)
  have wf: "op_wf counter_program counter_op"
    by (simp add: op_wf_def counter_program_def counter_op_def)
  have "execute counter_program counter_op ?W = Inr \<lparr>w_data = 7, w_results = (\<lambda>_. None)([9] := Some (Some 5))\<rparr>"
    by (simp add: execute_def counter_op_def counter_program_def execute_future_def call_operation_def set_value_def)
  then show ?thesis using delegated_is_executed [OF wf x(1) b, of ?W] x(1) b by auto
qed

text \<open>
  The templates cover one case less than the list of cases in the comment says: an operation
  that returns \<open>void\<close>, has a future, and is a functor with at least one argument (or a member
  function, whose object is its argument) can be run by \<open>execute\<close>, but no instance of its wrapper
  exists, whatever the buffer.
\<close>
theorem void_functor_not_delegable:
  assumes "o_kind x = VoidFuture" and "o_template x = None" and "1 < length (o_params x)"
    and "enqueued x = (w, qs)"
  shows "run_wrapper P w buf off W = Inl NotViable"
proof -
  obtain p p' ps where "o_params x = p # p' # ps"
    using assms(3) by (cases "o_params x" rule: remdups_adj.cases) auto
  then show ?thesis using assms
    by (auto simp: enqueued_def enqueue_void_def run_wrapper_def)
qed

definition void_program :: "(unit, nat, nat) program" where
  "void_program =
     \<lparr>pr_call = (\<lambda>f ps d. (None, d + 1)), pr_mem_call = (\<lambda>f ob ps d. (None, d)), pr_promise_size = 1\<rparr>"

definition void_functor :: "unit operation" where
  "void_functor =
     \<lparr>o_kind = VoidFuture, o_template = None, o_member = False, o_promise = [9], o_params = [[1], [2]]\<rparr>"

theorem void_functor_not_delegable_witness:
  "execute void_program void_functor \<lparr>w_data = 5, w_results = (\<lambda>_. None)\<rparr> =
     Inr \<lparr>w_data = 6, w_results = (\<lambda>_. None)([9] := Some None)\<rparr> \<and>
   run_wrapper void_program (fst (enqueued void_functor)) [1, 2, 9] 0 \<lparr>w_data = 5, w_results = (\<lambda>_. None)\<rparr> =
     Inl NotViable"
proof
  show "execute void_program void_functor \<lparr>w_data = 5, w_results = (\<lambda>_. None)\<rparr> =
     Inr \<lparr>w_data = 6, w_results = (\<lambda>_. None)([9] := Some None)\<rparr>"
    by (simp add: execute_def void_functor_def void_program_def execute_void_def call_operation_def set_value_def)
  show "run_wrapper void_program (fst (enqueued void_functor)) [1, 2, 9] 0 \<lparr>w_data = 5, w_results = (\<lambda>_. None)\<rparr> =
     Inl NotViable"
    by (rule void_functor_not_delegable [of void_functor _ "snd (enqueued void_functor)"])
      (simp_all add: void_functor_def)
qed

end
