(* ===== verification/Waiting_Future.thy ===== *)
theory Waiting_Future
  imports Delegated
begin

text \<open>
  The futures that \<open>delegate_f\<close> and \<open>delegate_fp\<close> return: \<open>waiting_future\<close> of \<open>waiting_future.hpp\<close>, a
  \<open>std::future\<close> whose destructor waits, and \<open>create_future\<close> of \<open>qdlock_base.hpp\<close>.

  Futures are objects of one thread. The shared state of a promise is named by the promise, as in
  Delegated; it is ready when the promise has a value, which the thread that executes the
  operation gives it at any time.
\<close>

section \<open>Objects\<close>

type_synonym promise = "byte list"

text \<open>
  \<open>wf_objects v\<close> is the object of the variable \<open>v\<close>, if its lifetime has begun: it refers to the shared state of a promise or is not
  \<open>valid()\<close>. \<open>wf_taken\<close> are the promises whose future was taken.
\<close>

record 'v futures =
  wf_results :: "promise \<Rightarrow> 'v option option"
  wf_taken :: "promise set"
  wf_objects :: "nat \<Rightarrow> promise option option"

definition wf_init :: "(promise \<Rightarrow> 'v option option) \<Rightarrow> 'v futures" where
  "wf_init rs = \<lparr>wf_results = rs, wf_taken = {}, wf_objects = (\<lambda>_. None)\<rparr>"

text \<open>
  The calls: the constructor without arguments, \<open>create_future\<close> and the construction of the object from the
  \<open>std::future\<close> that it returns, move construction and move assignment, the inherited \<open>get\<close>, the destructor. \<open>Fulfil\<close> is
  the thread that executes the operation.
\<close>

datatype 'v wf_action =
    New nat
  | Create nat promise
  | MoveConstruct nat nat
  | MoveAssign nat nat
  | Get nat
  | Destroy nat
  | Fulfil promise "'v option"

text \<open>
  A call returns, throws, waits until the promise has a value, or has no defined behaviour: on an object
  whose lifetime has not begun or begins twice, \<open>get\<close> on an object that is not valid, and the assignment of
  an object to itself.
\<close>

datatype 's outcome = Returns 's | AlreadyRetrieved | Waits | Undefined

section \<open>Operations\<close>

definition wf_new :: "nat \<Rightarrow> promise option \<Rightarrow> 'v futures \<Rightarrow> 'v futures outcome" where
  "wf_new v p s =
     (if wf_objects s v = None then Returns (s\<lparr>wf_objects := (wf_objects s)(v \<mapsto> p)\<rparr>) else Undefined)"

definition create_future :: "nat \<Rightarrow> promise \<Rightarrow> 'v futures \<Rightarrow> 'v futures outcome" where
  "create_future v p s =
     (if p \<in> wf_taken s then AlreadyRetrieved else wf_new v (Some p) (s\<lparr>wf_taken := insert p (wf_taken s)\<rparr>))"

text \<open>Move construction and move assignment leave the source without a shared state.\<close>

definition wf_move_construct :: "nat \<Rightarrow> nat \<Rightarrow> 'v futures \<Rightarrow> 'v futures outcome" where
  "wf_move_construct v u s =
     (case wf_objects s u of
        None \<Rightarrow> Undefined
      | Some p \<Rightarrow> wf_new v p (s\<lparr>wf_objects := (wf_objects s)(u \<mapsto> None)\<rparr>))"

definition wf_move_assign :: "nat \<Rightarrow> nat \<Rightarrow> 'v futures \<Rightarrow> 'v futures outcome" where
  "wf_move_assign v u s =
     (case (wf_objects s v, wf_objects s u) of
        (Some _, Some p) \<Rightarrow>
          if v = u then Undefined else Returns (s\<lparr>wf_objects := (wf_objects s)(u \<mapsto> None, v \<mapsto> p)\<rparr>)
      | _ \<Rightarrow> Undefined)"

definition wf_get :: "nat \<Rightarrow> 'v futures \<Rightarrow> 'v futures outcome" where
  "wf_get v s =
     (case wf_objects s v of
        Some (Some p) \<Rightarrow>
          if wf_results s p = None then Waits else Returns (s\<lparr>wf_objects := (wf_objects s)(v \<mapsto> None)\<rparr>)
      | _ \<Rightarrow> Undefined)"

definition wf_destroy :: "nat \<Rightarrow> 'v futures \<Rightarrow> 'v futures outcome" where
  "wf_destroy v s =
     (case wf_objects s v of
        None \<Rightarrow> Undefined
      | Some None \<Rightarrow> Returns (s\<lparr>wf_objects := (wf_objects s)(v := None)\<rparr>)
      | Some (Some p) \<Rightarrow>
          if wf_results s p = None then Waits else Returns (s\<lparr>wf_objects := (wf_objects s)(v := None)\<rparr>))"

fun wf_call :: "'v wf_action \<Rightarrow> 'v futures \<Rightarrow> 'v futures outcome" where
  "wf_call (New v) s = wf_new v None s"
| "wf_call (Create v p) s = create_future v p s"
| "wf_call (MoveConstruct v u) s = wf_move_construct v u s"
| "wf_call (MoveAssign v u) s = wf_move_assign v u s"
| "wf_call (Get v) s = wf_get v s"
| "wf_call (Destroy v) s = wf_destroy v s"
| "wf_call (Fulfil p x) s =
     (if wf_results s p = None then Returns (s\<lparr>wf_results := (wf_results s)(p \<mapsto> x)\<rparr>) else Undefined)"

text \<open>A call that throws has no effect; a call that waits does not move yet.\<close>

fun wf_step :: "'v wf_action \<Rightarrow> 'v futures \<Rightarrow> 'v futures option" where
  "wf_step c s =
     (case wf_call c s of Returns s' \<Rightarrow> Some s' | AlreadyRetrieved \<Rightarrow> Some s | _ \<Rightarrow> None)"

text \<open>Runs in which no assignment drops the shared state of its target.\<close>

fun wf_drops :: "'v wf_action \<Rightarrow> 'v futures \<Rightarrow> bool" where
  "wf_drops (MoveAssign v u) s = (case wf_objects s v of Some (Some p) \<Rightarrow> wf_results s p = None | _ \<Rightarrow> False)"
| "wf_drops _ s = False"

definition wf_careful_step :: "'v wf_action \<Rightarrow> 'v futures \<Rightarrow> 'v futures option" where
  "wf_careful_step c s = (if wf_drops c s then None else wf_step c s)"

lemmas wf_ops = wf_new_def create_future_def wf_move_construct_def wf_move_assign_def wf_get_def wf_destroy_def

section \<open>Invariants\<close>

text \<open>A shared state has at most one future, of a promise whose future was taken.\<close>

definition wf_unique :: "'v futures \<Rightarrow> bool" where
  "wf_unique s \<longleftrightarrow>
     (\<forall>v p. wf_objects s v = Some (Some p) \<longrightarrow> p \<in> wf_taken s) \<and>
     (\<forall>v u p. wf_objects s v = Some (Some p) \<longrightarrow> wf_objects s u = Some (Some p) \<longrightarrow> v = u)"

definition wf_held :: "'v futures \<Rightarrow> bool" where
  "wf_held s \<longleftrightarrow> (\<forall>p \<in> wf_taken s. wf_results s p \<noteq> None \<or> (\<exists>v. wf_objects s v = Some (Some p)))"

lemma wf_unique_step:
  assumes "wf_unique s" and "wf_step c s = Some s'"
  shows "wf_unique s'"
  using assms
  by (cases c) (auto simp: wf_ops wf_unique_def split: if_splits option.splits)

lemma wf_held_step:
  assumes "wf_held s" and "wf_careful_step c s = Some s'"
  shows "wf_held s'"
proof -
  have st: "wf_step c s = Some s'" and nd: "\<not> wf_drops c s"
    using assms(2) by (auto simp: wf_careful_step_def split: if_splits)
  have "wf_results s' p \<noteq> None \<or> (\<exists>v. wf_objects s' v = Some (Some p))" if p: "p \<in> wf_taken s'" for p
  proof (cases "p \<in> wf_taken s \<and> wf_results s p = None")
    case True
    then obtain v where v: "wf_objects s v = Some (Some p)" using assms(1) by (auto simp: wf_held_def)
    show ?thesis
    proof (cases c)
      case (MoveConstruct x y)
      have "wf_objects s' (if y = v then x else v) = Some (Some p)"
        using st v MoveConstruct by (auto simp: wf_ops split: if_splits option.splits)
      then show ?thesis by blast
    next
      case (MoveAssign x y)
      have "wf_objects s' (if y = v then x else v) = Some (Some p)"
        using st v nd True MoveAssign by (auto simp: wf_ops split: if_splits option.splits)
      then show ?thesis by blast
    qed (use st v True in \<open>auto simp: wf_ops split: if_splits option.splits intro!: exI [of _ v]\<close>)
  next
    case False
    then show ?thesis using st p by (cases c) (auto simp: wf_ops split: if_splits option.splits)
  qed
  then show ?thesis by (auto simp: wf_held_def)
qed

lemma wf_careful_is_step: "wf_careful_step c s = Some s' \<Longrightarrow> wf_step c s = Some s'"
  by (simp add: wf_careful_step_def del: wf_step.simps split: if_splits)

interpretation futures: invariant_system wf_step "wf_init rs" wf_unique
proof unfold_locales
  show "wf_unique (wf_init rs)" by (simp add: wf_init_def wf_unique_def)
  show "\<And>s c s'. wf_unique s \<Longrightarrow> wf_step c s = Some s' \<Longrightarrow> wf_unique s'" by (rule wf_unique_step)
qed

interpretation careful_futures: invariant_system wf_careful_step "wf_init rs" wf_held
proof unfold_locales
  show "wf_held (wf_init rs)" by (simp add: wf_init_def wf_held_def)
  show "\<And>s c s'. wf_held s \<Longrightarrow> wf_careful_step c s = Some s' \<Longrightarrow> wf_held s'" by (rule wf_held_step)
qed

section \<open>Properties\<close>

text \<open>
  C27. A thread cannot leave the scope of its futures before its operations are executed: when no assignment has dropped a
  shared state, then in every reachable state in which no object is left, every promise whose future was taken has a
  value; and a promise is never referred to by two objects.
\<close>
theorem futures_wait_for_operations:
  assumes r: "run wf_careful_step cs (wf_init rs) = Some s"
  shows "((\<forall>v. wf_objects s v = None) \<longrightarrow> (\<forall>p \<in> wf_taken s. wf_results s p \<noteq> None)) \<and>
    (\<forall>v u p. wf_objects s v = Some (Some p) \<and> wf_objects s u = Some (Some p) \<longrightarrow> v = u)"
proof -
  have "run wf_step cs (wf_init rs) = Some s"
    using run_restricted [where step = wf_step, OF wf_careful_is_step r] by blast
  then have "wf_unique s" using futures.inv_run futures.inv_init by blast
  moreover have "wf_held s" using careful_futures.inv_run [OF careful_futures.inv_init r] .
  ultimately show ?thesis by (auto simp: wf_unique_def wf_held_def)
qed

theorem futures_wait_for_operations_witness:
  "\<exists>s. run wf_careful_step [Create 0 [1], MoveConstruct 1 0, Destroy 0, New 2, MoveAssign 2 1, Fulfil [1] (Some (7 :: nat)), Destroy 1, Destroy 2]
     (wf_init (\<lambda>_. None)) = Some s \<and> wf_taken s = {[1]} \<and> wf_results s [1] \<noteq> None"
proof -
  obtain s where s: "run wf_careful_step [Create 0 [1], MoveConstruct 1 0, Destroy 0, New 2, MoveAssign 2 1, Fulfil [1] (Some (7 :: nat)), Destroy 1, Destroy 2]
     (wf_init (\<lambda>_. None)) = Some s" "wf_taken s = {[1]}" "\<forall>v. wf_objects s v = None"
    by (simp add: wf_careful_step_def wf_ops wf_init_def)
  show ?thesis using futures_wait_for_operations [OF s(1)] s by blast
qed

text \<open>
  The move assignment of \<open>waiting_future\<close> does not wait: the future that it overwrites is dropped, and the thread
  leaves the scope of all its futures although an operation was not executed.
\<close>
theorem assignment_drops_future:
  assumes "p \<noteq> q" and "v \<noteq> u" and "rs p = None" and "rs q = None"
  shows "\<exists>s. run wf_step [Create v p, Create u q, MoveAssign v u, Fulfil q x, Destroy v, Destroy u] (wf_init rs) = Some s \<and>
    (\<forall>w. wf_objects s w = None) \<and> p \<in> wf_taken s \<and> wf_results s p = None"
  using assms by (simp add: wf_ops wf_init_def)

theorem assignment_drops_future_witness:
  "\<exists>s :: nat futures. (\<forall>w. wf_objects s w = None) \<and> [1] \<in> wf_taken s \<and> wf_results s [1] = None"
proof -
  have "[1] \<noteq> ([2] :: promise)" "(0 :: nat) \<noteq> 1" by simp_all
  from assignment_drops_future [OF this, of "\<lambda>_. None" None] show ?thesis by blast
qed

end
