(* ===== verification/Reader_Groups.thy ===== *)
theory Reader_Groups
  imports QD_Prelude
begin

text \<open>
  The reader indicator of \<open>readindicator/reader_groups.hpp\<close>: an array of counters, one of which each
  thread uses, chosen by its thread id. \<open>query\<close> is not atomic: it loads one counter after the other,
  and is modelled by its single loads where it is used.
\<close>

section \<open>Operations\<close>

type_synonym reader_groups = "nat \<Rightarrow> int"

definition rg_init :: reader_groups where
  "rg_init = (\<lambda>_. 0)"

definition rg_group :: "nat \<Rightarrow> tid \<Rightarrow> nat" where
  "rg_group groups t = t mod groups"

definition rg_arrive :: "nat \<Rightarrow> tid \<Rightarrow> reader_groups \<Rightarrow> reader_groups" where
  "rg_arrive groups t c = c(rg_group groups t := c (rg_group groups t) + 1)"

definition rg_depart :: "nat \<Rightarrow> tid \<Rightarrow> reader_groups \<Rightarrow> reader_groups" where
  "rg_depart groups t c = c(rg_group groups t := c (rg_group groups t) - 1)"

text \<open>
  One step of \<open>query\<close> at the counter \<open>k\<close>: \<open>Inr b\<close> is its result, \<open>Inl k\<close> goes on with the counter \<open>k\<close>.
\<close>

definition rg_query_step :: "nat \<Rightarrow> nat \<Rightarrow> reader_groups \<Rightarrow> nat + bool" where
  "rg_query_step groups k c =
     (if groups \<le> k then Inr False else if 0 < c k then Inr True else Inl (k + 1))"

section \<open>What the counters count\<close>

text \<open>The counters of a set \<open>A\<close> of threads that have arrived and not departed.\<close>

definition rg_counts :: "nat \<Rightarrow> tid set \<Rightarrow> reader_groups \<Rightarrow> bool" where
  "rg_counts groups A c \<longleftrightarrow> finite A \<and> (\<forall>g. c g = int (card {t \<in> A. rg_group groups t = g}))"

lemma rg_counts_init: "rg_counts groups {} rg_init"
  by (simp add: rg_counts_def rg_init_def)

lemma rg_counts_arrive:
  assumes "rg_counts groups A c" and "t \<notin> A"
  shows "rg_counts groups (insert t A) (rg_arrive groups t c)"
proof -
  have "{u \<in> insert t A. rg_group groups u = g} =
      (if rg_group groups t = g then insert t {u \<in> A. rg_group groups u = g} else {u \<in> A. rg_group groups u = g})" for g
    by auto
  then show ?thesis using assms by (auto simp: rg_counts_def rg_arrive_def)
qed

lemma rg_counts_depart:
  assumes "rg_counts groups A c" and "t \<in> A"
  shows "rg_counts groups (A - {t}) (rg_depart groups t c)"
proof -
  have "{u \<in> A - {t}. rg_group groups u = g} =
      (if rg_group groups t = g then {u \<in> A. rg_group groups u = g} - {t} else {u \<in> A. rg_group groups u = g})" for g
    by auto
  moreover have "0 < card {u \<in> A. rg_group groups u = rg_group groups t}"
    using assms by (auto simp: rg_counts_def card_gt_0_iff)
  ultimately show ?thesis using assms by (auto simp: rg_counts_def rg_depart_def of_nat_diff)
qed

lemma rg_counts_empty_group:
  assumes "rg_counts groups A c" and "\<not> 0 < c g" and "t \<in> A"
  shows "rg_group groups t \<noteq> g"
proof
  assume "rg_group groups t = g"
  then have "0 < card {u \<in> A. rg_group groups u = g}"
    using assms(1,3) by (auto simp: rg_counts_def card_gt_0_iff)
  then show False using assms(1,2) by (simp add: rg_counts_def)
qed

text \<open>The steps of a call of \<open>query\<close> while nobody arrives or departs: at most \<open>n\<close> of them.\<close>

fun rg_scan :: "nat \<Rightarrow> nat \<Rightarrow> nat \<Rightarrow> reader_groups \<Rightarrow> bool option" where
  "rg_scan 0 groups k c = None"
| "rg_scan (Suc n) groups k c =
     (case rg_query_step groups k c of Inr b \<Rightarrow> Some b | Inl k' \<Rightarrow> rg_scan n groups k' c)"

lemma rg_scan_from:
  "groups < k + n \<Longrightarrow> k \<le> groups \<Longrightarrow> rg_scan n groups k c = Some (\<exists>g. k \<le> g \<and> g < groups \<and> 0 < c g)"
proof (induction n arbitrary: k)
  case (Suc n)
  show ?case
  proof (cases "groups \<le> k \<or> 0 < c k")
    case True
    then show ?thesis by (auto simp: rg_query_step_def)
  next
    case False
    have "(\<exists>g\<ge>k + 1. g < groups \<and> 0 < c g) = (\<exists>g\<ge>k. g < groups \<and> 0 < c g)"
      using False by (metis Suc_eq_plus1 Suc_leD not_less_eq_eq order_antisym_conv)
    then show ?thesis using Suc False by (simp add: rg_query_step_def)
  qed
qed simp

text \<open>
  C29. The reader indicator indicates readers: with the counters of the arrived threads, \<open>query\<close>
  (alone, and with one step more than there are groups) returns true exactly when some thread has
  arrived and not departed.
\<close>
theorem query_indicates_readers:
  assumes "rg_counts groups A c" and "0 < groups"
  shows "rg_scan (groups + 1) groups 0 c = Some (A \<noteq> {})"
proof -
  have g: "rg_group groups t < groups" for t using assms(2) by (simp add: rg_group_def)
  have "(\<exists>g. g < groups \<and> 0 < c g) = (A \<noteq> {})"
  proof
    assume "A \<noteq> {}"
    then obtain t where "t \<in> A" by blast
    then have "0 < c (rg_group groups t)" using rg_counts_empty_group [OF assms(1)] by blast
    then show "\<exists>g. g < groups \<and> 0 < c g" using g by blast
  next
    assume "\<exists>g. g < groups \<and> 0 < c g"
    then show "A \<noteq> {}" using assms(1) by (auto simp: rg_counts_def)
  qed
  then show ?thesis using rg_scan_from [of groups 0 "groups + 1" c] by simp
qed

theorem query_indicates_readers_witness:
  "rg_scan 5 4 0 (rg_depart 4 1 (rg_arrive 4 7 (rg_arrive 4 1 rg_init))) = Some True"
proof -
  have "rg_counts 4 (insert 7 (insert 1 {}) - {1}) (rg_depart 4 1 (rg_arrive 4 7 (rg_arrive 4 1 rg_init)))"
    by (intro rg_counts_depart rg_counts_arrive rg_counts_init) auto
  from query_indicates_readers [OF this] show ?thesis by simp
qed

end
