(* ===== verification/QD_Lock.thy ===== *)
theory QD_Lock
  imports Lock_Spec Queue_Spec Reader_Groups
begin

text \<open>
  Queue delegation: \<open>delegate\<close> of \<open>qdlock_base.hpp\<close> with its helper functions, over a mutual exclusion
  lock and a queue that keep their contracts (Lock_Spec, Queue_Spec), and the reader synchronisation
  of \<open>mrqdlock.hpp\<close>. \<open>qdlock\<close> is the instance without readers (\<open>cf_readers\<close> false), \<open>mrqdlock\<close> the one
  with them.

  The lock is the identity of its owner. A locking call acquires it in one step and returns in a
  later one, a call of \<open>unlock\<close> releases it in a step after the one in which it is called: in between,
  \<open>is_locked\<close> may answer either way (see \<open>mutex_lock\<close>), so its result is chosen by the scheduler,
  except that it is true while a thread is between the return of its locking call and its call of
  \<open>unlock\<close>. \<open>try_lock\<close> may fail at any time. Hierarchy synchronisation is the empty \<open>no_hierarchy_sync\<close>.
\<close>

section \<open>State\<close>

text \<open>
  The template parameters: \<open>cf_exec\<close> is the effect of executing an operation on the protected data
  and the promises, \<open>cf_may_starve\<close> the starvation policy, \<open>cf_readers\<close> says whether \<open>RSync\<close> is
  \<open>reader_indicator_sync\<close> or \<open>no_reader_sync\<close>, \<open>cf_groups\<close> and \<open>cf_patience\<close> are those of \<open>mrqdlock_impl\<close>.
\<close>

record ('e, 'w) qd_config =
  cf_exec :: "'e \<Rightarrow> 'w \<Rightarrow> 'w"
  cf_may_starve :: bool
  cf_readers :: bool
  cf_groups :: nat
  cf_patience :: nat

text \<open>
  Why a thread holds the lock: to execute its own operation only (\<open>executor\<close>), to execute it and then
  the delegated ones (\<open>helper\<close>), or because the user called \<open>lock\<close>.
\<close>

datatype 'e hold = Executor 'e | Helper 'e | UserLock

text \<open>
  A thread in \<open>delegate\<close>: in \<open>wait_writers\<close>, before the first \<open>try_lock\<close>, in the \<open>retries\<close>-th iteration
  before, in (not accepted or accepted) or after \<open>enqueue\<close>, before the final \<open>lock\<close>. A thread that holds
  the lock: in its locking call, before \<open>open\<close>, in \<open>wait_readers\<close> at counter \<open>k\<close>, before it executes its
  operation (or in the critical section of the user), in \<open>flush\<close>, before and in \<open>unlock\<close>. A thread in
  \<open>lock\<close>: waiting for the barrier, before the lock of the mutex. A reader, with its variables \<open>bRaised\<close>
  and \<open>readPatience\<close>: before \<open>arrive\<close>, before the test, before \<open>depart\<close>, in the loop, before the
  update of the barrier; after the loop, before the barrier is lowered; in its critical section.
\<close>

datatype 'e qd_pc =
    QdIdle
  | DlBarrier 'e | DlTry 'e | DlEnqueue 'e nat | DlEnqueuing 'e nat | DlEnqueued 'e nat | DlRetry 'e nat
  | DlLast 'e
  | HdGot "'e hold" | HdOpen 'e | HdWait "'e hold" nat | HdRun "'e hold" | HdFlush | HdUnlock | HdRelease
  | UlBarrier | UlLock
  | RdArrive bool nat | RdTest bool nat | RdDepart bool nat | RdSpin bool nat | RdRaise nat | RdLower | RdCrit

record ('e, 'w) qd_lock =
  qd_owner :: "tid option"
  qd_queue :: "(tid \<times> 'e) tqueue"
  qd_world :: 'w
  qd_barrier :: int
  qd_readers :: reader_groups
  qd_pc :: "tid \<Rightarrow> 'e qd_pc"

definition qd_init :: "'w \<Rightarrow> ('e, 'w) qd_lock" where
  "qd_init w =
     \<lparr>qd_owner = None, qd_queue = tq_init, qd_world = w, qd_barrier = 0, qd_readers = rg_init,
      qd_pc = (\<lambda>_. QdIdle)\<rparr>"

definition qd_goto :: "tid \<Rightarrow> 'e qd_pc \<Rightarrow> ('e, 'w) qd_lock \<Rightarrow> ('e, 'w) qd_lock" where
  "qd_goto t p s = s\<lparr>qd_pc := (qd_pc s)(t := p)\<rparr>"

section \<open>Locking\<close>

text \<open>Taking the lock for a purpose, or going on without it.\<close>

definition qd_acquire :: "tid \<Rightarrow> 'e hold \<Rightarrow> ('e, 'w) qd_lock \<Rightarrow> ('e, 'w) qd_lock option" where
  "qd_acquire t h s = (if qd_owner s = None then Some (qd_goto t (HdGot h) (s\<lparr>qd_owner := Some t\<rparr>)) else None)"

definition qd_try :: "tid \<Rightarrow> 'e hold \<Rightarrow> 'e qd_pc \<Rightarrow> ('e, 'w) qd_lock \<Rightarrow> ('e, 'w) qd_lock option" where
  "qd_try t h p s = (case qd_acquire t h s of Some s' \<Rightarrow> Some s' | None \<Rightarrow> Some (qd_goto t p s))"

text \<open>The program counters between the return of a locking call and the call of \<open>unlock\<close>.\<close>

fun pc_crit :: "'e qd_pc \<Rightarrow> bool" where
  "pc_crit (HdOpen x) = True"
| "pc_crit (HdWait h k) = True"
| "pc_crit (HdRun h) = True"
| "pc_crit HdFlush = True"
| "pc_crit HdUnlock = True"
| "pc_crit _ = False"

definition qd_may_see :: "bool \<Rightarrow> ('e, 'w) qd_lock \<Rightarrow> bool" where
  "qd_may_see b s = (case qd_owner s of None \<Rightarrow> True | Some h \<Rightarrow> pc_crit (qd_pc s h) \<longrightarrow> b)"

section \<open>\<open>delegate\<close>\<close>

text \<open>The head of the loop over \<open>retries\<close>.\<close>

definition qd_loop :: "('e, 'w) qd_config \<Rightarrow> 'e \<Rightarrow> nat \<Rightarrow> 'e qd_pc" where
  "qd_loop C x retries = (if cf_may_starve C \<or> retries < 512 then DlEnqueue x retries else DlLast x)"

text \<open>A step of the queue, with the thread's next program counter.\<close>

definition qd_queue_step ::
  "tid \<Rightarrow> (tid \<times> 'e) tq_event \<Rightarrow> 'e qd_pc \<Rightarrow> ('e, 'w) qd_lock \<Rightarrow> ('e, 'w) qd_lock option" where
  "qd_queue_step t ev p s = map_option (\<lambda>q. qd_goto t p (s\<lparr>qd_queue := q\<rparr>)) (tq_step ev (qd_queue s))"

text \<open>
  The steps of \<open>delegate\<close> and \<open>lock\<close> that do not depend on a choice. In \<open>try_lock_or_wait\<close>, called in
  every 128th iteration, a thread that finds the lock taken waits.
\<close>

definition qd_delegate :: "('e, 'w) qd_config \<Rightarrow> tid \<Rightarrow> ('e, 'w) qd_lock \<Rightarrow> ('e, 'w) qd_lock option" where
  "qd_delegate C t s =
     (case qd_pc s t of
        DlBarrier x \<Rightarrow> Some (if cf_readers C \<and> 0 < qd_barrier s then s else qd_goto t (DlTry x) s)
      | DlTry x \<Rightarrow> qd_try t (Executor x) (qd_loop C x 1) s
      | DlEnqueue x r \<Rightarrow> qd_queue_step t (TqCall t (t, x)) (DlEnqueuing x r) s
      | DlRetry x r \<Rightarrow>
          if r mod 128 = 0 then qd_acquire t (Helper x) s
          else qd_try t (Helper x) (qd_loop C x (r + 1)) s
      | DlLast x \<Rightarrow> qd_acquire t (Executor x) s
      | UlBarrier \<Rightarrow> Some (if cf_readers C \<and> 0 < qd_barrier s then s else qd_goto t UlLock s)
      | UlLock \<Rightarrow> qd_acquire t UserLock s
      | _ \<Rightarrow> None)"

text \<open>A locking call that fails although the lock is free, or after waiting.\<close>

definition qd_fail :: "('e, 'w) qd_config \<Rightarrow> tid \<Rightarrow> ('e, 'w) qd_lock \<Rightarrow> ('e, 'w) qd_lock option" where
  "qd_fail C t s =
     (case qd_pc s t of
        DlTry x \<Rightarrow> Some (qd_goto t (qd_loop C x 1) s)
      | DlRetry x r \<Rightarrow> Some (qd_goto t (qd_loop C x (r + 1)) s)
      | _ \<Rightarrow> None)"

text \<open>\<open>try_enqueue\<close> with one attempt: what follows the return of \<open>enqueue\<close>.\<close>

definition qd_try_enqueue :: "tid \<Rightarrow> status \<Rightarrow> ('e, 'w) qd_lock \<Rightarrow> ('e, 'w) qd_lock option" where
  "qd_try_enqueue t st s =
     (case qd_pc s t of
        DlEnqueuing x r \<Rightarrow> qd_queue_step t (TqReturn t st) (if st = SUCCESS then QdIdle else DlRetry x r) s
      | DlEnqueued x r \<Rightarrow> qd_queue_step t (TqReturn t st) (if st = SUCCESS then QdIdle else DlRetry x r) s
      | _ \<Rightarrow> None)"

definition qd_accept :: "tid \<Rightarrow> ('e, 'w) qd_lock \<Rightarrow> ('e, 'w) qd_lock option" where
  "qd_accept t s =
     (case qd_pc s t of
        DlEnqueuing x r \<Rightarrow> qd_queue_step t (TqAccept t) (DlEnqueued x r) s
      | _ \<Rightarrow> None)"

section \<open>\<open>helper\<close> and \<open>executor\<close>\<close>

text \<open>One step of \<open>wait_readers\<close>: \<open>query\<close> is repeated until it returns false.\<close>

definition qd_wait_readers :: "('e, 'w) qd_config \<Rightarrow> 'e hold \<Rightarrow> nat \<Rightarrow> ('e, 'w) qd_lock \<Rightarrow> 'e qd_pc" where
  "qd_wait_readers C h k s =
     (if \<not> cf_readers C then HdRun h
      else case rg_query_step (cf_groups C) k (qd_readers s) of
             Inl k' \<Rightarrow> HdWait h k'
           | Inr readers \<Rightarrow> if readers then HdWait h 0 else HdRun h)"

definition qd_execute :: "('e, 'w) qd_config \<Rightarrow> 'e \<Rightarrow> ('e, 'w) qd_lock \<Rightarrow> ('e, 'w) qd_lock" where
  "qd_execute C x s = s\<lparr>qd_world := cf_exec C x (qd_world s)\<rparr>"

text \<open>What the holder of the lock does, \<open>flush\<close> excepted.\<close>

definition qd_holder :: "('e, 'w) qd_config \<Rightarrow> tid \<Rightarrow> ('e, 'w) qd_lock \<Rightarrow> ('e, 'w) qd_lock option" where
  "qd_holder C t s =
     (case qd_pc s t of
        HdGot (Helper x) \<Rightarrow> Some (qd_goto t (HdOpen x) s)
      | HdGot h \<Rightarrow> Some (qd_goto t (HdWait h 0) s)
      | HdOpen x \<Rightarrow> qd_queue_step t TqOpen (HdWait (Helper x) 0) s
      | HdWait h k \<Rightarrow> Some (qd_goto t (qd_wait_readers C h k s) s)
      | HdRun (Executor x) \<Rightarrow> Some (qd_goto t HdUnlock (qd_execute C x s))
      | HdRun (Helper x) \<Rightarrow> Some (qd_goto t HdFlush (qd_execute C x s))
      | HdUnlock \<Rightarrow> Some (qd_goto t HdRelease s)
      | HdRelease \<Rightarrow> Some (qd_goto t QdIdle (s\<lparr>qd_owner := None\<rparr>))
      | _ \<Rightarrow> None)"

text \<open>
  The events of \<open>flush\<close>: the queue is closed, the next operation is executed, \<open>flush\<close> returns.
\<close>

datatype flush_act = FlushClose | FlushNext | FlushReturn

definition qd_flush :: "('e, 'w) qd_config \<Rightarrow> tid \<Rightarrow> flush_act \<Rightarrow> ('e, 'w) qd_lock \<Rightarrow> ('e, 'w) qd_lock option" where
  "qd_flush C t a s =
     (if qd_pc s t \<noteq> HdFlush then None
      else case a of
        FlushClose \<Rightarrow> qd_queue_step t TqClose HdFlush s
      | FlushNext \<Rightarrow>
          (case tq_pend (qd_queue s) of
             [] \<Rightarrow> None
           | e # _ \<Rightarrow> map_option (qd_execute C (snd e)) (qd_queue_step t (TqExec e) HdFlush s))
      | FlushReturn \<Rightarrow> qd_queue_step t TqDrained HdUnlock s)"

section \<open>Readers\<close>

text \<open>The steps of \<open>rlock\<close> other than the tests of \<open>is_locked\<close>.\<close>

definition qd_rlock :: "('e, 'w) qd_config \<Rightarrow> tid \<Rightarrow> ('e, 'w) qd_lock \<Rightarrow> ('e, 'w) qd_lock option" where
  "qd_rlock C t s =
     (case qd_pc s t of
        RdArrive b p \<Rightarrow> Some (qd_goto t (RdTest b p) (s\<lparr>qd_readers := rg_arrive (cf_groups C) t (qd_readers s)\<rparr>))
      | RdDepart b p \<Rightarrow> Some (qd_goto t (RdSpin b p) (s\<lparr>qd_readers := rg_depart (cf_groups C) t (qd_readers s)\<rparr>))
      | RdRaise p \<Rightarrow> Some (qd_goto t (RdSpin True (p + 1)) (s\<lparr>qd_barrier := qd_barrier s + 1\<rparr>))
      | RdLower \<Rightarrow> Some (qd_goto t RdCrit (s\<lparr>qd_barrier := qd_barrier s - 1\<rparr>))
      | _ \<Rightarrow> None)"

text \<open>The tests of \<open>is_locked\<close> in \<open>rlock\<close>, with the result \<open>b\<close>.\<close>

definition qd_see :: "('e, 'w) qd_config \<Rightarrow> tid \<Rightarrow> bool \<Rightarrow> ('e, 'w) qd_lock \<Rightarrow> ('e, 'w) qd_lock option" where
  "qd_see C t locked s =
     (if \<not> qd_may_see locked s then None
      else case qd_pc s t of
        RdTest b p \<Rightarrow>
          Some (qd_goto t (if locked then RdDepart b p else if b then RdLower else RdCrit) s)
      | RdSpin b p \<Rightarrow>
          Some (qd_goto t (if \<not> locked then RdArrive b p
                           else if p = cf_patience C \<and> \<not> b then RdRaise p
                           else RdSpin b (p + 1)) s)
      | _ \<Rightarrow> None)"

definition qd_runlock :: "('e, 'w) qd_config \<Rightarrow> tid \<Rightarrow> ('e, 'w) qd_lock \<Rightarrow> ('e, 'w) qd_lock" where
  "qd_runlock C t s = qd_goto t QdIdle (s\<lparr>qd_readers := rg_depart (cf_groups C) t (qd_readers s)\<rparr>)"

section \<open>The lock as a transition system\<close>

datatype 'e qd_label =
    QdDelegate tid 'e | QdLock tid | QdUnlock tid | QdRLock tid | QdRUnlock tid
  | QdDo tid | QdFail tid | QdSee tid bool | QdAccept tid | QdReturn tid status | QdFlush tid flush_act

text \<open>The calls of a thread, then its steps. Readers exist only in \<open>mrqdlock\<close>.\<close>

fun qd_step :: "('e, 'w) qd_config \<Rightarrow> 'e qd_label \<Rightarrow> ('e, 'w) qd_lock \<Rightarrow> ('e, 'w) qd_lock option" where
  "qd_step C (QdDelegate t x) s = (if qd_pc s t = QdIdle then Some (qd_goto t (DlBarrier x) s) else None)"
| "qd_step C (QdLock t) s = (if qd_pc s t = QdIdle then Some (qd_goto t UlBarrier s) else None)"
| "qd_step C (QdUnlock t) s = (if qd_pc s t = HdRun UserLock then Some (qd_goto t HdRelease s) else None)"
| "qd_step C (QdRLock t) s =
     (if cf_readers C \<and> qd_pc s t = QdIdle then Some (qd_goto t (RdArrive False 0) s) else None)"
| "qd_step C (QdRUnlock t) s = (if qd_pc s t = RdCrit then Some (qd_runlock C t s) else None)"
| "qd_step C (QdDo t) s =
     (case qd_delegate C t s of Some s' \<Rightarrow> Some s' | None \<Rightarrow>
     (case qd_holder C t s of Some s' \<Rightarrow> Some s' | None \<Rightarrow> qd_rlock C t s))"
| "qd_step C (QdFail t) s = qd_fail C t s"
| "qd_step C (QdSee t b) s = qd_see C t b s"
| "qd_step C (QdAccept t) s = qd_accept t s"
| "qd_step C (QdReturn t st) s = qd_try_enqueue t st s"
| "qd_step C (QdFlush t a) s = qd_flush C t a s"

text \<open>The thread that takes a step.\<close>

fun qd_thread :: "'e qd_label \<Rightarrow> tid" where
  "qd_thread (QdDelegate t x) = t"
| "qd_thread (QdLock t) = t"
| "qd_thread (QdUnlock t) = t"
| "qd_thread (QdRLock t) = t"
| "qd_thread (QdRUnlock t) = t"
| "qd_thread (QdDo t) = t"
| "qd_thread (QdFail t) = t"
| "qd_thread (QdSee t b) = t"
| "qd_thread (QdAccept t) = t"
| "qd_thread (QdReturn t st) = t"
| "qd_thread (QdFlush t a) = t"

lemmas qd_moves = qd_goto_def qd_queue_step_def qd_acquire_def qd_try_def qd_execute_def

section \<open>What delegation promises\<close>

text \<open>
  The abstract object: the data, and for each thread the operations it has delegated and that are
  still to be executed, in the order of its calls. Each operation is executed once, at some point
  after its call, and the operations of one thread in the order of their calls.
\<close>

record ('e, 'w) delegation =
  ds_todo :: "tid \<Rightarrow> 'e list"
  ds_world :: 'w

datatype 'e ds_event = DsCall tid 'e | DsExec tid 'e

definition ds_init :: "'w \<Rightarrow> ('e, 'w) delegation" where
  "ds_init w = \<lparr>ds_todo = (\<lambda>_. []), ds_world = w\<rparr>"

fun ds_step :: "('e \<Rightarrow> 'w \<Rightarrow> 'w) \<Rightarrow> 'e ds_event \<Rightarrow> ('e, 'w) delegation \<Rightarrow> ('e, 'w) delegation option" where
  "ds_step exec (DsCall t x) d = Some (d\<lparr>ds_todo := (ds_todo d)(t := ds_todo d t @ [x])\<rparr>)"
| "ds_step exec (DsExec t x) d =
     (case ds_todo d t of
        [] \<Rightarrow> None
      | y # ys \<Rightarrow>
          if y = x then Some (d\<lparr>ds_todo := (ds_todo d)(t := ys), ds_world := exec x (ds_world d)\<rparr>) else None)"

text \<open>The operations a thread has delegated, and those of it that were executed, in a history.\<close>

fun ds_calls :: "tid \<Rightarrow> 'e ds_event list \<Rightarrow> 'e list" where
  "ds_calls t [] = []"
| "ds_calls t (DsCall u x # es) = (if u = t then x # ds_calls t es else ds_calls t es)"
| "ds_calls t (DsExec u x # es) = ds_calls t es"

fun ds_execs :: "tid \<Rightarrow> 'e ds_event list \<Rightarrow> 'e list" where
  "ds_execs t [] = []"
| "ds_execs t (DsExec u x # es) = (if u = t then x # ds_execs t es else ds_execs t es)"
| "ds_execs t (DsCall u x # es) = ds_execs t es"

fun ds_order :: "'e ds_event list \<Rightarrow> 'e list" where
  "ds_order [] = []"
| "ds_order (DsExec u x # es) = x # ds_order es"
| "ds_order (DsCall u x # es) = ds_order es"

lemma ds_run:
  "run (ds_step exec) es d = Some d' \<Longrightarrow>
   ds_todo d t @ ds_calls t es = ds_execs t es @ ds_todo d' t \<and>
   ds_world d' = fold exec (ds_order es) (ds_world d)"
proof (induction es arbitrary: d)
  case (Cons ev es)
  from Cons.prems obtain d1 where d1: "ds_step exec ev d = Some d1" "run (ds_step exec) es d1 = Some d'"
    by (auto split: option.splits)
  from d1(1) Cons.IH [OF d1(2)] show ?case
    by (cases "(exec, ev, d)" rule: ds_step.cases) (auto split: list.splits if_splits)
qed simp

section \<open>The relation to the abstract object\<close>

fun hold_op :: "'e hold \<Rightarrow> 'e list" where
  "hold_op (Executor x) = [x]"
| "hold_op (Helper x) = [x]"
| "hold_op UserLock = []"

text \<open>The operation a thread carries, that is neither in the queue nor executed.\<close>

fun pc_op :: "'e qd_pc \<Rightarrow> 'e list" where
  "pc_op (DlBarrier x) = [x]"
| "pc_op (DlTry x) = [x]"
| "pc_op (DlEnqueue x r) = [x]"
| "pc_op (DlEnqueuing x r) = [x]"
| "pc_op (DlRetry x r) = [x]"
| "pc_op (DlLast x) = [x]"
| "pc_op (HdGot h) = hold_op h"
| "pc_op (HdOpen x) = [x]"
| "pc_op (HdWait h k) = hold_op h"
| "pc_op (HdRun h) = hold_op h"
| "pc_op _ = []"

text \<open>The call of \<open>enqueue\<close> a thread is in.\<close>

fun pc_call :: "tid \<Rightarrow> 'e qd_pc \<Rightarrow> (tid \<times> 'e) tq_call" where
  "pc_call t (DlEnqueuing x r) = TqCalled (t, x)"
| "pc_call t (DlEnqueued x r) = TqAccepted (t, x)"
| "pc_call t _ = TqNone"

text \<open>The program counters of the owner of the lock.\<close>

fun pc_owns :: "'e qd_pc \<Rightarrow> bool" where
  "pc_owns (HdGot h) = True"
| "pc_owns (HdOpen x) = True"
| "pc_owns (HdWait h k) = True"
| "pc_owns (HdRun h) = True"
| "pc_owns HdFlush = True"
| "pc_owns HdUnlock = True"
| "pc_owns HdRelease = True"
| "pc_owns _ = False"

text \<open>
  The queue is in use only between \<open>open\<close> and the end of \<open>flush\<close> of a helper; in the part before
  \<open>flush\<close> the helper has no operation in it.
\<close>

fun pc_queue_open :: "'e qd_pc \<Rightarrow> bool" where
  "pc_queue_open (HdWait (Helper x) k) = True"
| "pc_queue_open (HdRun (Helper x)) = True"
| "pc_queue_open _ = False"

fun pc_queue_used :: "'e qd_pc \<Rightarrow> bool" where
  "pc_queue_used HdFlush = True"
| "pc_queue_used p = pc_queue_open p"

definition ops_of :: "tid \<Rightarrow> (tid \<times> 'e) list \<Rightarrow> 'e list" where
  "ops_of t es = map snd (filter (\<lambda>e. fst e = t) es)"

definition qd_holds :: "tid \<Rightarrow> ('e, 'w) qd_lock \<Rightarrow> bool" where
  "qd_holds t s \<longleftrightarrow> pc_owns (qd_pc s t)"

text \<open>What ties the queue and the threads to the abstract object; then the relation, with the owner of the lock.\<close>

definition qd_tracks :: "('e, 'w) qd_lock \<Rightarrow> ('e, 'w) delegation \<Rightarrow> bool" where
  "qd_tracks s d \<longleftrightarrow>
     ds_world d = qd_world s \<and>
     (\<forall>t. ds_todo d t = ops_of t (tq_pend (qd_queue s)) @ pc_op (qd_pc s t)) \<and>
     (\<forall>t. tq_calls (qd_queue s) t = pc_call t (qd_pc s t)) \<and>
     (tq_open (qd_queue s) \<or> tq_pend (qd_queue s) \<noteq> [] \<longrightarrow> (\<exists>t. pc_queue_used (qd_pc s t))) \<and>
     (\<forall>t. pc_queue_open (qd_pc s t) \<longrightarrow> ops_of t (tq_pend (qd_queue s)) = [])"

definition qd_rel :: "('e, 'w) qd_lock \<Rightarrow> ('e, 'w) delegation \<Rightarrow> bool" where
  "qd_rel s d \<longleftrightarrow> owner_rel qd_holds s (qd_owner s) \<and> qd_tracks s d"

text \<open>The events: calls of \<open>delegate\<close>, and executions, by the caller or by a helper in \<open>flush\<close>.\<close>

fun qd_events :: "('e, 'w) qd_lock \<Rightarrow> 'e qd_label \<Rightarrow> 'e ds_event list" where
  "qd_events s (QdDelegate t x) = [DsCall t x]"
| "qd_events s (QdDo t) =
     (case qd_pc s t of
        HdRun (Executor x) \<Rightarrow> [DsExec t x] | HdRun (Helper x) \<Rightarrow> [DsExec t x] | _ \<Rightarrow> [])"
| "qd_events s (QdFlush t FlushNext) = (case tq_pend (qd_queue s) of [] \<Rightarrow> [] | e # _ \<Rightarrow> [DsExec (fst e) (snd e)])"
| "qd_events s _ = []"

section \<open>The simulation\<close>

lemma ops_of_simps [simp]:
  "ops_of t [] = []" "ops_of t (e # es) = (if fst e = t then snd e # ops_of t es else ops_of t es)"
  "ops_of t (es @ fs) = ops_of t es @ ops_of t fs"
  by (auto simp: ops_of_def)

lemma pc_queue_used_owns: "pc_queue_used p \<Longrightarrow> pc_owns p"
  by (cases p rule: pc_queue_used.cases; auto elim: pc_queue_open.elims)

lemma qd_tracksD:
  assumes "qd_tracks s d"
  shows "ds_world d = qd_world s"
    and "ds_todo d t = ops_of t (tq_pend (qd_queue s)) @ pc_op (qd_pc s t)"
    and "tq_calls (qd_queue s) t = pc_call t (qd_pc s t)"
    and "tq_open (qd_queue s) \<or> tq_pend (qd_queue s) \<noteq> [] \<Longrightarrow> \<exists>t. pc_queue_used (qd_pc s t)"
    and "pc_queue_open (qd_pc s t) \<Longrightarrow> ops_of t (tq_pend (qd_queue s)) = []"
  using assms by (auto simp: qd_tracks_def)

lemma qd_relD:
  assumes "qd_rel s d"
  shows "owner_rel qd_holds s (qd_owner s)" "ds_world d = qd_world s"
    and "ds_todo d t = ops_of t (tq_pend (qd_queue s)) @ pc_op (qd_pc s t)"
    and "tq_calls (qd_queue s) t = pc_call t (qd_pc s t)"
    and "tq_open (qd_queue s) \<or> tq_pend (qd_queue s) \<noteq> [] \<Longrightarrow> \<exists>t. pc_queue_used (qd_pc s t)"
    and "pc_queue_open (qd_pc s t) \<Longrightarrow> ops_of t (tq_pend (qd_queue s)) = []"
    and "qd_tracks s d"
proof -
  have T: "owner_rel qd_holds s (qd_owner s)" "qd_tracks s d" using assms by (simp_all add: qd_rel_def)
  note D = qd_tracksD [OF T(2)]
  show "owner_rel qd_holds s (qd_owner s)" "qd_tracks s d" "ds_world d = qd_world s" by (fact T D)+
  show "ds_todo d t = ops_of t (tq_pend (qd_queue s)) @ pc_op (qd_pc s t)" "tq_calls (qd_queue s) t = pc_call t (qd_pc s t)"
    by (fact D)+
  show "tq_open (qd_queue s) \<or> tq_pend (qd_queue s) \<noteq> [] \<Longrightarrow> \<exists>t. pc_queue_used (qd_pc s t)"
    "pc_queue_open (qd_pc s t) \<Longrightarrow> ops_of t (tq_pend (qd_queue s)) = []"
    by (fact D)+
qed

lemma qd_owner_is: "qd_rel s d \<Longrightarrow> pc_owns (qd_pc s t) \<Longrightarrow> qd_owner s = Some t"
  using owner_rel_SomeD [OF qd_relD(1), of s d t] by (simp add: qd_holds_def)

lemma qd_only_owner: "qd_rel s d \<Longrightarrow> pc_owns (qd_pc s t) \<Longrightarrow> pc_owns (qd_pc s u) \<Longrightarrow> u = t"
  using qd_owner_is [of s d t] qd_owner_is [of s d u] by auto

lemma qd_owner_owns: "qd_rel s d \<Longrightarrow> qd_owner s = Some t \<Longrightarrow> pc_owns (qd_pc s t)"
  using qd_relD(1) [of s d] by (auto simp: owner_rel_def qd_holds_def)

text \<open>A step that moves a thread from \<open>qd_pc s t\<close> to \<open>p\<close>, and leaves queue and data alone.\<close>

lemma qd_tracks_move:
  assumes rel: "qd_tracks s d"
    and s': "qd_queue s' = qd_queue s" "qd_world s' = qd_world s" "qd_pc s' = (qd_pc s)(t := p)"
    and op: "pc_op p = pc_op (qd_pc s t)" and call: "pc_call t p = pc_call t (qd_pc s t)"
    and used: "pc_queue_used (qd_pc s t) \<Longrightarrow> pc_queue_used p"
    and opn: "pc_queue_open p \<Longrightarrow> pc_queue_open (qd_pc s t)"
  shows "qd_tracks s' d"
proof -
  note D = qd_tracksD [OF rel]
  have 2: "\<exists>u. pc_queue_used (qd_pc s' u)" if "\<exists>u. pc_queue_used (qd_pc s u)"
    using that used s'(3) by (metis fun_upd_apply)
  show ?thesis
    unfolding qd_tracks_def
    using D 2 op call opn s' by (auto simp: fun_upd_def)
qed

lemma qd_tracks_goto:
  assumes "qd_tracks s d"
    and "pc_op p = pc_op (qd_pc s t)" and "pc_call t p = pc_call t (qd_pc s t)"
    and "pc_queue_used (qd_pc s t) \<Longrightarrow> pc_queue_used p" and "pc_queue_open p \<Longrightarrow> pc_queue_open (qd_pc s t)"
  shows "qd_tracks (qd_goto t p s) d"
  by (rule qd_tracks_move [OF assms(1), of _ t p]) (use assms in \<open>auto simp: qd_goto_def\<close>)

lemma qd_loop_facts [simp]:
  "pc_owns (qd_loop C x r) = False" "pc_op (qd_loop C x r) = [x]" "pc_call t (qd_loop C x r) = TqNone"
  "pc_queue_used (qd_loop C x r) = False" "pc_queue_open (qd_loop C x r) = False"
  by (auto simp: qd_loop_def)

lemma qd_tracks_acquire:
  assumes rel: "qd_tracks s d" and st: "qd_acquire t h s = Some s'"
    and pc: "pc_op (qd_pc s t) = hold_op h" "pc_call t (qd_pc s t) = TqNone" "\<not> pc_queue_used (qd_pc s t)"
  shows "qd_tracks s' d"
  by (rule qd_tracks_move [OF rel, of _ t "HdGot h"])
    (use st pc in \<open>auto simp: qd_acquire_def qd_goto_def split: if_splits\<close>)

lemma qd_tracks_try:
  assumes rel: "qd_tracks s d" and st: "qd_try t h p s = Some s'"
    and pc: "pc_op (qd_pc s t) = hold_op h" "pc_call t (qd_pc s t) = TqNone" "\<not> pc_queue_used (qd_pc s t)"
    and p: "pc_op p = hold_op h" "pc_call t p = TqNone" "\<not> pc_queue_open p"
  shows "qd_tracks s' d"
proof (cases "qd_acquire t h s")
  case None
  then have "s' = qd_goto t p s" using st by (simp add: qd_try_def)
  then show ?thesis using pc p by (auto intro!: qd_tracks_goto [OF rel])
next
  case (Some s1)
  then show ?thesis using st qd_tracks_acquire [OF rel Some] pc by (simp add: qd_try_def)
qed

text \<open>
  The steps before which no other thread may be using the queue. The owner of the lock is alone with it;
  the threads of a node that has a global lock above it are alone by that lock.
\<close>

fun pc_excludes :: "'e qd_pc \<Rightarrow> bool" where
  "pc_excludes (HdOpen x) = True"
| "pc_excludes (HdRun (Executor x)) = True"
| "pc_excludes HdFlush = True"
| "pc_excludes _ = False"

definition qd_alone :: "tid \<Rightarrow> ('e, 'w) qd_lock \<Rightarrow> bool" where
  "qd_alone t s \<longleftrightarrow> (pc_excludes (qd_pc s t) \<longrightarrow> (\<forall>u. pc_queue_used (qd_pc s u) \<longrightarrow> u = t))"

lemma pc_excludes_owns: "pc_excludes p \<Longrightarrow> pc_owns p"
  by (cases p) auto

lemma qd_owner_alone: "qd_rel s d \<Longrightarrow> qd_alone t s"
  unfolding qd_alone_def using qd_only_owner pc_queue_used_owns pc_excludes_owns by metis

text \<open>While the thread that is alone does not use the queue, it is closed and empty.\<close>

lemma qd_queue_idle:
  assumes rel: "qd_tracks s d" and "qd_alone t s" and "pc_excludes (qd_pc s t)" and "\<not> pc_queue_used (qd_pc s t)"
  shows "\<not> tq_open (qd_queue s)" "tq_pend (qd_queue s) = []"
proof -
  have "\<not> pc_queue_used (qd_pc s u)" for u using assms(2-4) unfolding qd_alone_def by blast
  then show "\<not> tq_open (qd_queue s)" "tq_pend (qd_queue s) = []" using qd_tracksD(4) [OF rel] by blast+
qed

lemma qd_sim_call:
  assumes rel: "qd_tracks s d" and pc: "qd_pc s t = DlEnqueue x r"
    and st: "qd_queue_step t (TqCall t (t, x)) (DlEnqueuing x r) s = Some s'"
  shows "qd_tracks s' d"
proof -
  note D = qd_tracksD [OF rel]
  have s': "s' = qd_goto t (DlEnqueuing x r)
      (s\<lparr>qd_queue := (qd_queue s)\<lparr>tq_calls := (tq_calls (qd_queue s))(t := TqCalled (t, x))\<rparr>\<rparr>)"
    using st by (auto simp: qd_queue_step_def split: tq_call.splits)
  have u: "pc_queue_used (qd_pc s' u) = pc_queue_used (qd_pc s u)" "pc_queue_open (qd_pc s' u) = pc_queue_open (qd_pc s u)" for u
    by (simp_all add: s' qd_goto_def pc)
  show ?thesis
    unfolding qd_tracks_def u using D D(2) [of t] by (simp add: s' qd_goto_def pc)
qed

lemma qd_sim_accept:
  assumes rel: "qd_tracks s d" and st: "qd_accept t s = Some s'"
  shows "qd_tracks s' d"
proof -
  note D = qd_tracksD [OF rel]
  obtain x r where pc: "qd_pc s t = DlEnqueuing x r"
    and st': "qd_queue_step t (TqAccept t) (DlEnqueued x r) s = Some s'"
    using st by (auto simp: qd_accept_def split: qd_pc.splits)
  have c: "tq_calls (qd_queue s) t = TqCalled (t, x)" using D(3) [of t] pc by simp
  then have opn: "tq_open (qd_queue s)" and s': "s' = qd_goto t (DlEnqueued x r)
      (s\<lparr>qd_queue := (qd_queue s)\<lparr>tq_pend := tq_pend (qd_queue s) @ [(t, x)],
           tq_calls := (tq_calls (qd_queue s))(t := TqAccepted (t, x))\<rparr>\<rparr>)"
    using st' by (auto simp: qd_queue_step_def split: if_splits)
  have u: "pc_queue_used (qd_pc s' u) = pc_queue_used (qd_pc s u)" "pc_queue_open (qd_pc s' u) = pc_queue_open (qd_pc s u)" for u
    by (simp_all add: s' qd_goto_def pc)
  have "ops_of v (tq_pend (qd_queue s')) = []" if "pc_queue_open (qd_pc s v)" for v
    using that D(5) [OF that] pc by (cases "v = t") (auto simp: s' qd_goto_def)
  then show ?thesis
    unfolding qd_tracks_def u using D(1-4) D(2) [of t] opn by (auto simp: s' qd_goto_def pc)
qed

lemma qd_sim_return:
  assumes rel: "qd_tracks s d" and st: "qd_try_enqueue t st s = Some s'"
  shows "qd_tracks s' d"
proof -
  note D = qd_tracksD [OF rel]
  obtain p where s': "s' = qd_goto t p (s\<lparr>qd_queue := (qd_queue s)\<lparr>tq_calls := (tq_calls (qd_queue s))(t := TqNone)\<rparr>\<rparr>)"
    and p: "\<not> pc_owns p" "pc_op p = pc_op (qd_pc s t)" "pc_call t p = TqNone" "\<not> pc_queue_used p" "\<not> pc_queue_open p"
      "\<not> pc_owns (qd_pc s t)" "\<not> pc_queue_used (qd_pc s t)" "\<not> pc_queue_open (qd_pc s t)"
    using st D(3) [of t] by (cases "qd_pc s t")
      (auto simp: qd_try_enqueue_def qd_queue_step_def split: if_splits)
  have u: "pc_queue_used (qd_pc s' u) = pc_queue_used (qd_pc s u)" "pc_queue_open (qd_pc s' u) = pc_queue_open (qd_pc s u)" for u
    using p by (simp_all add: s' qd_goto_def)
  show ?thesis
    unfolding qd_tracks_def u using D p by (simp add: s' qd_goto_def)
qed

lemma qd_sim_open:
  assumes rel: "qd_tracks s d" and al: "qd_alone t s" and pc: "qd_pc s t = HdOpen x"
    and st: "qd_queue_step t TqOpen (HdWait (Helper x) 0) s = Some s'"
  shows "qd_tracks s' d"
proof -
  note D = qd_tracksD [OF rel]
  have idle: "tq_pend (qd_queue s) = []" using qd_queue_idle [OF rel al] pc by simp
  have s': "s' = qd_goto t (HdWait (Helper x) 0) (s\<lparr>qd_queue := (qd_queue s)\<lparr>tq_open := True\<rparr>\<rparr>)"
    using st by (auto simp: qd_queue_step_def split: if_splits)
  have "pc_queue_used (qd_pc s' t)" by (simp add: s' qd_goto_def)
  then show ?thesis
    unfolding qd_tracks_def using D(1-3) D(2) [of t] D(3) [of t] idle by (auto simp: s' qd_goto_def pc)
qed

lemma qd_sim_flush:
  assumes rel: "qd_tracks s d" and al: "qd_alone t s" and st: "qd_flush C t a s = Some s'"
  shows "\<exists>d'. run (ds_step (cf_exec C)) (qd_events s (QdFlush t a)) d = Some d' \<and> qd_tracks s' d'"
proof -
  note D = qd_tracksD [OF rel]
  have pc: "qd_pc s t = HdFlush" using st by (auto simp: qd_flush_def split: if_splits)
  have alone: "\<not> pc_queue_open (qd_pc s u)" "u \<noteq> t \<Longrightarrow> \<not> pc_queue_used (qd_pc s u)" for u
  proof -
    show "u \<noteq> t \<Longrightarrow> \<not> pc_queue_used (qd_pc s u)" using al pc by (auto simp: qd_alone_def)
    then show "\<not> pc_queue_open (qd_pc s u)" using pc by (cases "u = t"; cases "qd_pc s u") auto
  qed
  show ?thesis
  proof (cases a)
    case FlushClose
    have s': "s' = qd_goto t HdFlush (s\<lparr>qd_queue := (qd_queue s)\<lparr>tq_open := False\<rparr>\<rparr>)"
      using st by (auto simp: qd_flush_def FlushClose qd_queue_step_def split: if_splits)
    have "qd_pc s' = qd_pc s" by (auto simp: s' qd_goto_def pc)
    then have "qd_tracks s' d" using D pc unfolding qd_tracks_def
      by (auto simp: s' qd_goto_def intro!: exI [of _ t])
    then show ?thesis by (simp add: FlushClose)
  next
    case FlushNext
    obtain e es where q: "tq_pend (qd_queue s) = e # es"
      and s': "s' = qd_execute C (snd e) (qd_goto t HdFlush (s\<lparr>qd_queue := (qd_queue s)\<lparr>tq_pend := es\<rparr>\<rparr>))"
      using st by (auto simp: qd_flush_def FlushNext qd_queue_step_def split: if_splits list.splits)
    have same: "qd_pc s' = qd_pc s" by (auto simp: s' qd_goto_def qd_execute_def pc)
    let ?d = "d\<lparr>ds_todo := (ds_todo d)(fst e := ops_of (fst e) es @ pc_op (qd_pc s (fst e))),
                ds_world := cf_exec C (snd e) (ds_world d)\<rparr>"
    have "run (ds_step (cf_exec C)) [DsExec (fst e) (snd e)] d = Some ?d"
      using D(2) [of "fst e"] q by simp
    moreover have "qd_tracks s' ?d"
      using D(1-3) q pc alone unfolding qd_tracks_def same
      by (auto simp: s' qd_goto_def qd_execute_def intro!: exI [of _ t])
    ultimately show ?thesis using q by (simp only: FlushNext qd_events.simps list.case) blast
  next
    case FlushReturn
    have idle: "\<not> tq_open (qd_queue s)" "tq_pend (qd_queue s) = []"
      and s': "s' = qd_goto t HdUnlock s"
      using st by (auto simp: qd_flush_def FlushReturn qd_queue_step_def qd_goto_def split: if_splits)
    have "qd_tracks s' d" unfolding qd_tracks_def
      using D(1-3) D(2) [of t] D(3) [of t] idle by (auto simp: s' qd_goto_def pc)
    then show ?thesis by (simp add: FlushReturn)
  qed
qed

lemma qd_sim_execute:
  assumes rel: "qd_tracks s d" and al: "qd_alone t s" and pc: "qd_pc s t = HdRun h" and h: "h = Executor x \<and> p = HdUnlock \<or> h = Helper x \<and> p = HdFlush"
    and s': "s' = qd_goto t p (qd_execute C x s)"
  shows "\<exists>d'. run (ds_step (cf_exec C)) [DsExec t x] d = Some d' \<and> qd_tracks s' d'"
proof -
  note D = qd_tracksD [OF rel]
  have none: "ops_of t (tq_pend (qd_queue s)) = []"
    using h D(5) [of t] qd_queue_idle(2) [OF rel al] pc by auto
  let ?d = "d\<lparr>ds_todo := (ds_todo d)(t := []), ds_world := cf_exec C x (ds_world d)\<rparr>"
  have "run (ds_step (cf_exec C)) [DsExec t x] d = Some ?d"
    using D(2) [of t] none pc h by auto
  moreover have "qd_tracks s' ?d"
  proof -
    have used: "\<exists>u. pc_queue_used (qd_pc s' u)" if ex: "\<exists>u. pc_queue_used (qd_pc s u)"
    proof -
      obtain u where u: "pc_queue_used (qd_pc s u)" using ex by blast
      then show ?thesis using pc h by (cases "u = t") (auto simp: s' qd_goto_def qd_execute_def intro!: exI [of _ u])
    qed
    show ?thesis unfolding qd_tracks_def
      using used D none h pc by (auto simp: s' qd_goto_def qd_execute_def)
  qed
  ultimately show ?thesis by blast
qed

lemma qd_sim_do:
  assumes rel: "qd_tracks s d" and al: "qd_alone t s" and st: "qd_step C (QdDo t) s = Some s'"
  shows "\<exists>d'. run (ds_step (cf_exec C)) (qd_events s (QdDo t)) d = Some d' \<and> qd_tracks s' d'"
proof (cases "qd_pc s t")
  case (DlEnqueue x r)
  then have "qd_queue_step t (TqCall t (t, x)) (DlEnqueuing x r) s = Some s'"
    using st by (auto simp: qd_delegate_def qd_holder_def qd_rlock_def split: option.splits)
  from qd_sim_call [OF rel DlEnqueue this] show ?thesis by (simp add: DlEnqueue)
next
  case (DlBarrier x)
  then have "s' = s \<or> s' = qd_goto t (DlTry x) s" using st by (auto simp: qd_delegate_def)
  then have "qd_tracks s' d" using rel qd_tracks_goto [OF rel, of "DlTry x" t] DlBarrier by auto
  then show ?thesis by (simp add: DlBarrier)
next
  case (DlTry x)
  then have "qd_try t (Executor x) (qd_loop C x 1) s = Some s'"
    using st by (auto simp: qd_delegate_def qd_holder_def qd_rlock_def split: option.splits)
  then have "qd_tracks s' d" by (rule qd_tracks_try [OF rel]) (simp_all add: DlTry)
  then show ?thesis by (simp add: DlTry)
next
  case (DlRetry x r)
  then have "qd_acquire t (Helper x) s = Some s' \<or> qd_try t (Helper x) (qd_loop C x (r + 1)) s = Some s'"
    using st by (auto simp: qd_delegate_def qd_holder_def qd_rlock_def split: option.splits if_splits)
  then have "qd_tracks s' d"
    using qd_tracks_acquire [OF rel, of t "Helper x" s'] qd_tracks_try [OF rel, of t "Helper x" "qd_loop C x (r + 1)" s']
    by (auto simp: DlRetry)
  then show ?thesis by (simp add: DlRetry)
next
  case (DlLast x)
  then have "qd_acquire t (Executor x) s = Some s'"
    using st by (auto simp: qd_delegate_def qd_holder_def qd_rlock_def split: option.splits)
  then have "qd_tracks s' d" by (rule qd_tracks_acquire [OF rel]) (simp_all add: DlLast)
  then show ?thesis by (simp add: DlLast)
next
  case UlLock
  then have "qd_acquire t UserLock s = Some s'"
    using st by (auto simp: qd_delegate_def qd_holder_def qd_rlock_def split: option.splits)
  then have "qd_tracks s' d" by (rule qd_tracks_acquire [OF rel]) (simp_all add: UlLock)
  then show ?thesis by (simp add: UlLock)
next
  case UlBarrier
  then have "s' = s \<or> s' = qd_goto t UlLock s" using st by (auto simp: qd_delegate_def)
  then have "qd_tracks s' d" using rel qd_tracks_goto [OF rel, of UlLock t] UlBarrier by auto
  then show ?thesis by (simp add: UlBarrier)
next
  case (HdGot h)
  obtain p where s': "s' = qd_goto t p s" and p: "p = HdWait h 0 \<and> (\<forall>x. h \<noteq> Helper x) \<or> (\<exists>x. h = Helper x \<and> p = HdOpen x)"
    using st HdGot by (cases h) (auto simp: qd_delegate_def qd_holder_def)
  have "qd_tracks s' d" unfolding s'
    by (rule qd_tracks_goto [OF rel]) (use p HdGot in \<open>auto; cases h; auto\<close>)+
  then show ?thesis by (simp add: HdGot)
next
  case (HdOpen x)
  then have "qd_queue_step t TqOpen (HdWait (Helper x) 0) s = Some s'"
    using st by (auto simp: qd_delegate_def qd_holder_def qd_rlock_def split: option.splits)
  from qd_sim_open [OF rel al HdOpen this] show ?thesis by (simp add: HdOpen)
next
  case (HdWait h k)
  then obtain p where s': "s' = qd_goto t p s" and p: "p = HdRun h \<or> (\<exists>k. p = HdWait h k)"
    using st by (auto simp: qd_delegate_def qd_holder_def qd_wait_readers_def split: sum.splits if_splits)
  have "qd_tracks s' d" unfolding s'
    by (rule qd_tracks_goto [OF rel]) (use p HdWait in \<open>auto; cases h; auto\<close>)+
  then show ?thesis by (simp add: HdWait)
next
  case (HdRun h)
  show ?thesis
  proof (cases h)
    case (Executor x)
    then have "s' = qd_goto t HdUnlock (qd_execute C x s)"
      using st HdRun by (simp add: qd_delegate_def qd_holder_def)
    from qd_sim_execute [OF rel al HdRun _ this] show ?thesis by (simp add: HdRun Executor)
  next
    case (Helper x)
    then have "s' = qd_goto t HdFlush (qd_execute C x s)"
      using st HdRun by (simp add: qd_delegate_def qd_holder_def)
    from qd_sim_execute [OF rel al HdRun _ this] show ?thesis by (simp add: HdRun Helper)
  next
    case UserLock
    then show ?thesis using st HdRun by (simp add: qd_delegate_def qd_holder_def qd_rlock_def)
  qed
next
  case HdUnlock
  then have "s' = qd_goto t HdRelease s" using st by (simp add: qd_delegate_def qd_holder_def)
  then have "qd_tracks s' d" using qd_tracks_goto [OF rel, of HdRelease t] HdUnlock by simp
  then show ?thesis by (simp add: HdUnlock)
next
  case HdRelease
  then have s': "s' = qd_goto t QdIdle (s\<lparr>qd_owner := None\<rparr>)"
    using st by (simp add: qd_delegate_def qd_holder_def)
  have "qd_tracks s' d"
    by (rule qd_tracks_move [OF rel, of _ t QdIdle])
      (use HdRelease in \<open>auto simp: s' qd_goto_def\<close>)
  then show ?thesis by (simp add: HdRelease)
next
  case (RdArrive b k)
  then have "qd_tracks s' d" using st by (intro qd_tracks_move [OF rel, of _ t "RdTest b k"])
      (auto simp: qd_delegate_def qd_holder_def qd_rlock_def qd_goto_def)
  then show ?thesis by (simp add: RdArrive)
next
  case (RdDepart b k)
  then have "qd_tracks s' d" using st by (intro qd_tracks_move [OF rel, of _ t "RdSpin b k"])
      (auto simp: qd_delegate_def qd_holder_def qd_rlock_def qd_goto_def)
  then show ?thesis by (simp add: RdDepart)
next
  case (RdRaise k)
  then have "qd_tracks s' d" using st by (intro qd_tracks_move [OF rel, of _ t "RdSpin True (k + 1)"])
      (auto simp: qd_delegate_def qd_holder_def qd_rlock_def qd_goto_def)
  then show ?thesis by (simp add: RdRaise)
next
  case RdLower
  then have "qd_tracks s' d" using st by (intro qd_tracks_move [OF rel, of _ t RdCrit])
      (auto simp: qd_delegate_def qd_holder_def qd_rlock_def qd_goto_def)
  then show ?thesis by (simp add: RdLower)
qed (use st in \<open>simp_all add: qd_delegate_def qd_holder_def qd_rlock_def\<close>)

lemma qd_tracks_step:
  assumes rel: "qd_tracks s d" and al: "qd_alone (qd_thread l) s" and st: "qd_step C l s = Some s'"
  shows "\<exists>d'. run (ds_step (cf_exec C)) (qd_events s l) d = Some d' \<and> qd_tracks s' d'"
proof (cases l)
  note D = qd_tracksD [OF rel]
  case (QdDelegate t x)
  then have pc: "qd_pc s t = QdIdle" and s': "s' = qd_goto t (DlBarrier x) s"
    using st by (auto split: if_splits)
  let ?d = "d\<lparr>ds_todo := (ds_todo d)(t := ds_todo d t @ [x])\<rparr>"
  have u: "pc_queue_used (qd_pc s' u) = pc_queue_used (qd_pc s u)" "pc_queue_open (qd_pc s' u) = pc_queue_open (qd_pc s u)" for u
    by (simp_all add: s' qd_goto_def pc)
  have "qd_tracks s' ?d"
    unfolding qd_tracks_def u using D D(2) [of t] D(3) [of t] by (simp add: s' qd_goto_def pc)
  then show ?thesis by (simp add: QdDelegate)
next
  case (QdLock t)
  then have "qd_tracks s' d" using st by (auto intro!: qd_tracks_goto [OF rel] split: if_splits)
  then show ?thesis by (simp add: QdLock)
next
  case (QdUnlock t)
  then have "qd_tracks s' d" using st by (auto intro!: qd_tracks_goto [OF rel] split: if_splits)
  then show ?thesis by (simp add: QdUnlock)
next
  case (QdRLock t)
  then have "qd_tracks s' d" using st by (auto intro!: qd_tracks_goto [OF rel] split: if_splits)
  then show ?thesis by (simp add: QdRLock)
next
  case (QdRUnlock t)
  then have "qd_pc s t = RdCrit" "s' = qd_runlock C t s" using st by (auto split: if_splits)
  then have "qd_tracks s' d" by (intro qd_tracks_move [OF rel, of _ t QdIdle])
      (auto simp: qd_runlock_def qd_goto_def)
  then show ?thesis by (simp add: QdRUnlock)
next
  case (QdDo t)
  then show ?thesis using qd_sim_do [OF rel] al st by simp
next
  case (QdFail t)
  then have "qd_tracks s' d" using st
    by (auto simp: qd_fail_def intro!: qd_tracks_goto [OF rel] split: qd_pc.splits)
  then show ?thesis by (simp add: QdFail)
next
  case (QdSee t b)
  then obtain p where "s' = qd_goto t p s" "\<exists>c k. qd_pc s t = RdTest c k \<or> qd_pc s t = RdSpin c k"
      "p \<in> {RdLower, RdCrit} \<or> (\<exists>c k. p = RdDepart c k \<or> p = RdArrive c k \<or> p = RdRaise k \<or> p = RdSpin c k)"
    using st by (auto simp: qd_see_def split: if_splits qd_pc.splits)
  then have "qd_tracks s' d" by (auto intro!: qd_tracks_goto [OF rel])
  then show ?thesis by (simp add: QdSee)
next
  case (QdAccept t)
  then show ?thesis using qd_sim_accept [OF rel] st by simp
next
  case (QdReturn t v)
  then show ?thesis using qd_sim_return [OF rel] st by simp
next
  case (QdFlush t a)
  then show ?thesis using qd_sim_flush [OF rel] al st by simp
qed

text \<open>The owner of the lock: a step takes the free lock, releases it, or leaves it.\<close>

lemma qd_owner_moves:
  assumes st: "qd_step C l s = Some s'"
  shows "\<exists>p. qd_pc s' = (qd_pc s)(qd_thread l := p) \<and>
     (qd_owner s' = qd_owner s \<and> pc_owns p = pc_owns (qd_pc s (qd_thread l)) \<or>
      qd_owner s = None \<and> qd_owner s' = Some (qd_thread l) \<and> pc_owns p \<or>
      pc_owns (qd_pc s (qd_thread l)) \<and> qd_owner s' = None \<and> \<not> pc_owns p)"
proof (cases l)
  case (QdDo t)
  show ?thesis
  proof (cases "qd_pc s t")
    case (HdGot h)
    then show ?thesis using st QdDo by (cases h) (auto simp: qd_delegate_def qd_holder_def qd_moves)
  next
    case (HdRun h)
    then show ?thesis using st QdDo by (cases h) (auto simp: qd_delegate_def qd_holder_def qd_rlock_def qd_moves)
  next
    case (HdWait h k)
    then obtain p where "s' = qd_goto t p s" "pc_owns p"
      using st QdDo by (auto simp: qd_delegate_def qd_holder_def qd_wait_readers_def split: sum.splits if_splits)
    then show ?thesis using QdDo HdWait by (auto simp: qd_goto_def)
  next
    case (DlBarrier x)
    then have "s' = s \<or> s' = qd_goto t (DlTry x) s" using st QdDo by (auto simp: qd_delegate_def)
    then show ?thesis using QdDo DlBarrier by (intro exI [of _ "qd_pc s' t"]) (auto simp: qd_goto_def)
  next
    case UlBarrier
    then have "s' = s \<or> s' = qd_goto t UlLock s" using st QdDo by (auto simp: qd_delegate_def)
    then show ?thesis using QdDo UlBarrier by (intro exI [of _ "qd_pc s' t"]) (auto simp: qd_goto_def)
  qed (use st QdDo in \<open>auto simp: qd_delegate_def qd_holder_def qd_rlock_def qd_moves
      split: if_splits option.splits\<close>)
next
  case (QdFlush t a)
  then show ?thesis using st
    by (cases a) (auto simp: qd_flush_def qd_moves split: if_splits list.splits)
qed (use st in \<open>auto simp: qd_fail_def qd_see_def qd_accept_def qd_try_enqueue_def qd_runlock_def qd_moves
    split: if_splits qd_pc.splits\<close>)

lemma qd_owner_step:
  assumes rel: "owner_rel qd_holds s (qd_owner s)" and st: "qd_step C l s = Some s'"
  shows "owner_rel qd_holds s' (qd_owner s')"
proof -
  let ?t = "qd_thread l"
  obtain p where p: "qd_pc s' = (qd_pc s)(?t := p)"
    "qd_owner s' = qd_owner s \<and> pc_owns p = pc_owns (qd_pc s ?t) \<or>
     qd_owner s = None \<and> qd_owner s' = Some ?t \<and> pc_owns p \<or>
     pc_owns (qd_pc s ?t) \<and> qd_owner s' = None \<and> \<not> pc_owns p"
    using qd_owner_moves [OF st] by blast
  have o: "qd_owner s = Some u \<longleftrightarrow> pc_owns (qd_pc s u)" for u using rel by (simp add: owner_rel_def qd_holds_def)
  have "qd_owner s' = Some u \<longleftrightarrow> pc_owns (qd_pc s' u)" for u
    using p(2) o [of u] o [of ?t] unfolding p(1) by (cases "u = ?t") auto
  then show ?thesis by (simp add: owner_rel_def qd_holds_def)
qed

lemma qd_sim_step:
  assumes rel: "qd_rel s d" and st: "qd_step C l s = Some s'"
  shows "\<exists>d'. run (ds_step (cf_exec C)) (qd_events s l) d = Some d' \<and> qd_rel s' d'"
proof -
  obtain d' where "run (ds_step (cf_exec C)) (qd_events s l) d = Some d'" "qd_tracks s' d'"
    using qd_tracks_step [OF qd_relD(7) [OF rel] qd_owner_alone [OF rel] st] by blast
  with qd_owner_step [OF qd_relD(1) [OF rel] st] show ?thesis unfolding qd_rel_def by blast
qed

lemma qd_sim_init: "qd_rel (qd_init w) (ds_init w)"
  by (simp add: qd_rel_def qd_tracks_def qd_init_def ds_init_def owner_rel_def qd_holds_def tq_init_def)

interpretation delegation: forward_simulation "qd_step C" "qd_init w" "ds_step (cf_exec C)" "ds_init w"
  qd_rel qd_events
  for C :: "('e, 'w) qd_config" and w :: 'w
  by unfold_locales (auto intro: qd_sim_init qd_sim_step)

section \<open>Readers and writers\<close>

fun pc_arrived :: "'e qd_pc \<Rightarrow> bool" where
  "pc_arrived (RdTest b p) = True"
| "pc_arrived (RdDepart b p) = True"
| "pc_arrived RdLower = True"
| "pc_arrived RdCrit = True"
| "pc_arrived _ = False"

fun pc_raised :: "'e qd_pc \<Rightarrow> bool" where
  "pc_raised (RdArrive b p) = b"
| "pc_raised (RdTest b p) = b"
| "pc_raised (RdDepart b p) = b"
| "pc_raised (RdSpin b p) = b"
| "pc_raised RdLower = True"
| "pc_raised _ = False"

text \<open>A reader that has passed the test of \<open>is_locked\<close>.\<close>

fun pc_reading :: "'e qd_pc \<Rightarrow> bool" where
  "pc_reading RdLower = True"
| "pc_reading RdCrit = True"
| "pc_reading _ = False"

text \<open>A thread in \<open>rlock\<close>, or between its \<open>rlock\<close> and its \<open>runlock\<close>.\<close>

fun pc_reader :: "'e qd_pc \<Rightarrow> bool" where
  "pc_reader (RdArrive b p) = True"
| "pc_reader (RdTest b p) = True"
| "pc_reader (RdDepart b p) = True"
| "pc_reader (RdSpin b p) = True"
| "pc_reader (RdRaise p) = True"
| "pc_reader RdLower = True"
| "pc_reader RdCrit = True"
| "pc_reader _ = False"

text \<open>
  Which readers the holder of the lock has to expect: in \<open>wait_readers\<close>, those of the groups it has
  not looked at yet, afterwards none.
\<close>

fun pc_allows :: "nat \<Rightarrow> 'e qd_pc \<Rightarrow> bool" where
  "pc_allows g (HdWait h k) = (k \<le> g)"
| "pc_allows g (HdRun h) = False"
| "pc_allows g HdFlush = False"
| "pc_allows g HdUnlock = False"
| "pc_allows g _ = True"

definition rd_inv :: "('e, 'w) qd_config \<Rightarrow> ('e, 'w) qd_lock \<Rightarrow> bool" where
  "rd_inv C s \<longleftrightarrow>
     rg_counts (cf_groups C) {t. pc_arrived (qd_pc s t)} (qd_readers s) \<and>
     finite {t. pc_raised (qd_pc s t)} \<and> qd_barrier s = int (card {t. pc_raised (qd_pc s t)}) \<and>
     (\<forall>t u. pc_reading (qd_pc s u) \<longrightarrow> pc_allows (rg_group (cf_groups C) u) (qd_pc s t)) \<and>
     (\<forall>t. pc_reader (qd_pc s t) \<longrightarrow> cf_readers C)"

lemma rd_invD:
  assumes "rd_inv C s"
  shows "rg_counts (cf_groups C) {t. pc_arrived (qd_pc s t)} (qd_readers s)"
    and "finite {t. pc_raised (qd_pc s t)}" "qd_barrier s = int (card {t. pc_raised (qd_pc s t)})"
    and "pc_reading (qd_pc s u) \<Longrightarrow> pc_allows (rg_group (cf_groups C) u) (qd_pc s t)"
    and "pc_reader (qd_pc s t) \<Longrightarrow> cf_readers C"
  using assms by (auto simp: rd_inv_def)

lemma not_reader_pc: "\<not> pc_reader p \<Longrightarrow> \<not> pc_arrived p \<and> \<not> pc_raised p \<and> \<not> pc_reading p"
  by (cases p) auto

text \<open>The steps of threads that are no readers.\<close>

lemma qd_loop_not_reader [simp]: "\<not> pc_reader (qd_loop C x r)" "pc_allows g (qd_loop C x r)"
  by (auto simp: qd_loop_def)

lemma qd_wait_readers_pc: "qd_wait_readers C h k s = HdRun h \<or> (\<exists>k'. qd_wait_readers C h k s = HdWait h k')"
  by (simp add: qd_wait_readers_def split: sum.splits)

lemma qd_wait_not_reader [simp]: "\<not> pc_reader (qd_wait_readers C h k s)"
  using qd_wait_readers_pc [of C h k s] by auto

definition qd_quiet :: "('e, 'w) qd_config \<Rightarrow> tid \<Rightarrow> ('e, 'w) qd_lock \<Rightarrow> ('e, 'w) qd_lock \<Rightarrow> bool" where
  "qd_quiet C t s s' \<longleftrightarrow> qd_readers s' = qd_readers s \<and> qd_barrier s' = qd_barrier s \<and>
     (\<exists>p. qd_pc s' = (qd_pc s)(t := p) \<and> \<not> pc_reader p \<and>
        ((\<forall>g. pc_allows g (qd_pc s t) \<longrightarrow> pc_allows g p) \<or>
         (\<exists>h k. qd_pc s t = HdWait h k \<and> p = qd_wait_readers C h k s)))"

lemma qd_quietI:
  assumes "qd_pc s' = (qd_pc s)(t := p)" and "qd_readers s' = qd_readers s" "qd_barrier s' = qd_barrier s"
    and "\<not> pc_reader p" and "\<And>g. pc_allows g (qd_pc s t) \<Longrightarrow> pc_allows g p"
  shows "qd_quiet C t s s'"
  using assms unfolding qd_quiet_def by blast

lemma qd_quiet_do:
  assumes "qd_step C (QdDo t) s = Some s'" and "\<not> pc_reader (qd_pc s t)"
  shows "qd_quiet C t s s'"
proof (cases "qd_pc s t")
  case (HdWait h k)
  then have "s' = qd_goto t (qd_wait_readers C h k s) s"
    using assms by (simp add: qd_delegate_def qd_holder_def)
  then show ?thesis using HdWait unfolding qd_quiet_def
    by (intro conjI exI [of _ "qd_wait_readers C h k s"]) (auto simp: qd_goto_def)
next
  case (HdGot h)
  then show ?thesis using assms
    by (cases h) (auto simp: qd_delegate_def qd_holder_def qd_goto_def intro!: qd_quietI)
next
  case (HdRun h)
  then show ?thesis using assms
    by (cases h) (auto simp: qd_delegate_def qd_holder_def qd_rlock_def qd_moves intro!: qd_quietI)
qed (use assms in \<open>auto simp: qd_delegate_def qd_holder_def qd_rlock_def qd_moves fun_upd_idem
      intro!: qd_quietI split: if_splits option.splits\<close>)

lemma qd_quiet_step:
  assumes st: "qd_step C l s = Some s'" and nr: "\<not> pc_reader (qd_pc s (qd_thread l))"
    and "\<And>t. l \<noteq> QdRLock t"
  shows "qd_quiet C (qd_thread l) s s'"
proof (cases l)
  case (QdDo t)
  then show ?thesis using st nr qd_quiet_do by simp
next
  case (QdSee t b)
  then show ?thesis using st nr by (auto simp: qd_see_def split: if_splits qd_pc.splits)
next
  case (QdFail t)
  then show ?thesis using st
    by (auto simp: qd_fail_def qd_goto_def intro!: qd_quietI split: qd_pc.splits)
next
  case (QdReturn t v)
  then show ?thesis using st
    by (auto simp: qd_try_enqueue_def qd_moves intro!: qd_quietI split: qd_pc.splits if_splits)
next
  case (QdAccept t)
  then show ?thesis using st
    by (auto simp: qd_accept_def qd_moves intro!: qd_quietI split: qd_pc.splits if_splits)
next
  case (QdFlush t a)
  then show ?thesis using st
    by (auto simp: qd_flush_def qd_moves intro!: qd_quietI split: flush_act.splits if_splits list.splits)
qed (use assms in \<open>auto simp: qd_goto_def intro!: qd_quietI split: if_splits\<close>)

text \<open>The invariant of readers is kept: by the steps of other threads \<dots>\<close>

lemma rd_inv_init: "rd_inv C (qd_init w)"
  by (simp add: rd_inv_def qd_init_def rg_counts_init)

lemma rd_inv_quiet:
  assumes inv: "rd_inv C s" and g: "cf_readers C \<Longrightarrow> 0 < cf_groups C"
    and nr: "\<not> pc_reader (qd_pc s t)" and q: "qd_quiet C t s s'"
  shows "rd_inv C s'"
proof -
  note D = rd_invD [OF inv]
  obtain p where p: "qd_readers s' = qd_readers s" "qd_barrier s' = qd_barrier s" "qd_pc s' = (qd_pc s)(t := p)"
      "\<not> pc_reader p"
      "(\<forall>g. pc_allows g (qd_pc s t) \<longrightarrow> pc_allows g p) \<or> (\<exists>h k. qd_pc s t = HdWait h k \<and> p = qd_wait_readers C h k s)"
    using q by (auto simp: qd_quiet_def)
  note n = not_reader_pc [OF nr] not_reader_pc [OF p(4)]
  have same: "pc_arrived (qd_pc s' u) = pc_arrived (qd_pc s u)" "pc_raised (qd_pc s' u) = pc_raised (qd_pc s u)"
    "pc_reading (qd_pc s' u) = pc_reading (qd_pc s u)" for u
    using n p(3) by auto
  have allow: "pc_allows (rg_group (cf_groups C) u) p" if u: "pc_reading (qd_pc s u)" for u
    using p(5)
  proof
    assume "\<forall>g. pc_allows g (qd_pc s t) \<longrightarrow> pc_allows g p"
    then show ?thesis using D(4) [OF u, of t] by blast
  next
    assume "\<exists>h k. qd_pc s t = HdWait h k \<and> p = qd_wait_readers C h k s"
    then obtain h k where hk: "qd_pc s t = HdWait h k" "p = qd_wait_readers C h k s" by blast
    have r: "cf_readers C" using D(5) [of u] u by (cases "qd_pc s u") auto
    have k: "k \<le> rg_group (cf_groups C) u" using D(4) [OF u, of t] hk by simp
    have lt: "rg_group (cf_groups C) u < cf_groups C" using g [OF r] by (simp add: rg_group_def)
    have arr: "pc_arrived (qd_pc s u)" using u by (cases "qd_pc s u") auto
    show ?thesis
    proof (cases "0 < qd_readers s k")
      case True
      then show ?thesis using hk r k lt by (simp add: qd_wait_readers_def rg_query_step_def)
    next
      case False
      then have "rg_group (cf_groups C) u \<noteq> k" using rg_counts_empty_group [OF D(1)] arr by blast
      then show ?thesis using False hk r k lt by (simp add: qd_wait_readers_def rg_query_step_def)
    qed
  qed
  have "pc_allows (rg_group (cf_groups C) u) (qd_pc s' v)" if "pc_reading (qd_pc s u)" for u v
    using allow [OF that] D(4) [OF that, of v] p(3) by simp
  then show ?thesis
    unfolding rd_inv_def same using D(1-3,5) p(1-4) by auto
qed

text \<open>\<dots> and by those of readers.\<close>

definition rd_move ::
  "('e, 'w) qd_config \<Rightarrow> tid \<Rightarrow> 'e qd_pc \<Rightarrow> ('e, 'w) qd_lock \<Rightarrow> ('e, 'w) qd_lock \<Rightarrow> bool" where
  "rd_move C t p s s' \<longleftrightarrow> qd_pc s' = (qd_pc s)(t := p) \<and>
     qd_readers s' = (if pc_arrived p \<and> \<not> pc_arrived (qd_pc s t) then rg_arrive (cf_groups C) t (qd_readers s)
                      else if pc_arrived (qd_pc s t) \<and> \<not> pc_arrived p then rg_depart (cf_groups C) t (qd_readers s)
                      else qd_readers s) \<and>
     qd_barrier s' = qd_barrier s + (if pc_raised p then 1 else 0) - (if pc_raised (qd_pc s t) then 1 else 0)"

lemma rd_inv_move:
  assumes inv: "rd_inv C s" and mv: "rd_move C t p s s'"
    and p: "pc_reader p \<Longrightarrow> cf_readers C" "\<And>g. pc_allows g p"
    and reading: "pc_reading p \<Longrightarrow> pc_reading (qd_pc s t) \<or> (\<forall>u g. pc_allows g (qd_pc s u))"
  shows "rd_inv C s'"
proof -
  note D = rd_invD [OF inv]
  have pc: "qd_pc s' = (qd_pc s)(t := p)" using mv by (simp add: rd_move_def)
  let ?A = "{u. pc_arrived (qd_pc s u)}" and ?R = "{u. pc_raised (qd_pc s u)}"
  have A: "{u. pc_arrived (qd_pc s' u)} = (if pc_arrived p then insert t ?A else ?A - {t})"
    and R: "{u. pc_raised (qd_pc s' u)} = (if pc_raised p then insert t ?R else ?R - {t})"
    using pc by auto
  have 1: "rg_counts (cf_groups C) {u. pc_arrived (qd_pc s' u)} (qd_readers s')"
    unfolding A using mv D(1) rg_counts_arrive [OF D(1), of t] rg_counts_depart [OF D(1), of t]
    by (auto simp: rd_move_def insert_absorb)
  have 2: "finite {u. pc_raised (qd_pc s' u)}" unfolding R using D(2) by simp
  have 3: "qd_barrier s' = int (card {u. pc_raised (qd_pc s' u)})"
  proof (cases "pc_raised (qd_pc s t)")
    case True
    then have "0 < card ?R" using D(2) by (auto simp: card_gt_0_iff)
    then show ?thesis unfolding R using mv D(2,3) True
      by (auto simp: rd_move_def insert_absorb of_nat_diff)
  next
    case False
    then show ?thesis unfolding R using mv D(2,3) by (auto simp: rd_move_def)
  qed
  have 4: "pc_allows (rg_group (cf_groups C) u) (qd_pc s' v)" if u: "pc_reading (qd_pc s' u)" for u v
  proof (cases "v = t")
    case True
    then show ?thesis using pc p(2) by simp
  next
    case False
    then show ?thesis using u pc reading D(4) [of u v] D(4) [of t v] by (cases "u = t") auto
  qed
  have 5: "pc_reader (qd_pc s' u) \<Longrightarrow> cf_readers C" for u
    using pc p(1) D(5) [of u] by (cases "u = t") auto
  show ?thesis unfolding rd_inv_def using 1 2 3 4 5 by blast
qed

text \<open>The result \<open>false\<close> of \<open>is_locked\<close> shows that nobody is past \<open>wait_readers\<close>, or in it.\<close>

lemma qd_unlocked_allows:
  assumes rel: "qd_rel s d" and see: "qd_may_see False s"
  shows "pc_allows g (qd_pc s u)"
proof (rule ccontr)
  assume no: "\<not> pc_allows g (qd_pc s u)"
  then have c: "pc_crit (qd_pc s u)" "pc_owns (qd_pc s u)" by (cases "qd_pc s u"; simp)+
  then have "qd_owner s = Some u" using qd_owner_is [OF rel] by blast
  then show False using see c(1) by (simp add: qd_may_see_def)
qed

lemma rd_inv_reader:
  assumes inv: "rd_inv C s" and rel: "qd_rel s d" and st: "qd_step C l s = Some s'"
    and r: "pc_reader (qd_pc s (qd_thread l))"
  shows "rd_inv C s'"
proof -
  have cf: "cf_readers C" by (rule rd_invD(5) [OF inv r])
  show ?thesis
  proof (cases l)
    case (QdDo t)
    have "\<exists>p. rd_move C t p s s' \<and> pc_reader p \<and> (pc_reading p \<longrightarrow> pc_reading (qd_pc s t))"
      using st r QdDo
      by (cases "qd_pc s t") (auto simp: qd_delegate_def qd_holder_def qd_rlock_def qd_goto_def rd_move_def)
    moreover have "pc_allows g p" if "pc_reader p" for g p using that by (cases p) auto
    ultimately show ?thesis using cf by (auto intro: rd_inv_move [OF inv])
  next
    case (QdSee t b)
    have "\<exists>p. rd_move C t p s s' \<and> pc_reader p \<and> (pc_reading p \<longrightarrow> \<not> b) \<and> qd_may_see b s"
      using st r QdSee
      by (cases "qd_pc s t") (auto simp: qd_see_def qd_goto_def rd_move_def split: if_splits)
    moreover have "pc_allows g p" if "pc_reader p" for g p using that by (cases p) auto
    ultimately show ?thesis using cf qd_unlocked_allows [OF rel] by (auto intro: rd_inv_move [OF inv])
  next
    case (QdRUnlock t)
    then have "rd_move C t QdIdle s s'"
      using st r by (auto simp: qd_runlock_def qd_goto_def rd_move_def split: if_splits)
    then show ?thesis by (rule rd_inv_move [OF inv]) auto
  qed (use st r in \<open>auto simp: qd_fail_def qd_accept_def qd_try_enqueue_def qd_flush_def
        split: qd_pc.splits if_splits\<close>)
qed

lemma rd_inv_step:
  assumes inv: "rd_inv C s" and rel: "qd_rel s d" and g: "cf_readers C \<Longrightarrow> 0 < cf_groups C"
    and st: "qd_step C l s = Some s'"
  shows "rd_inv C s'"
proof (cases "pc_reader (qd_pc s (qd_thread l))")
  case True
  then show ?thesis by (rule rd_inv_reader [OF inv rel st])
next
  case False
  show ?thesis
  proof (cases "\<exists>t. l = QdRLock t")
    case True
    then obtain t where l: "l = QdRLock t" by blast
    then have "rd_move C t (RdArrive False 0) s s'" "cf_readers C"
      using st by (auto simp: qd_goto_def rd_move_def split: if_splits)
    then show ?thesis using rd_inv_move [OF inv, of t "RdArrive False 0" s'] by simp
  next
    case no: False
    then show ?thesis using rd_inv_quiet [OF inv g False qd_quiet_step [OF st False]] by blast
  qed
qed

text \<open>A configuration is sound when \<open>mrqdlock\<close> has at least one group of readers.\<close>

definition cf_ok :: "('e, 'w) qd_config \<Rightarrow> bool" where
  "cf_ok C \<longleftrightarrow> (cf_readers C \<longrightarrow> 0 < cf_groups C)"

lemma qd_invariants:
  assumes "cf_ok C"
  shows "invariant_system (qd_step C) (qd_init w) (\<lambda>s. (\<exists>d. qd_rel s d) \<and> rd_inv C s)"
proof unfold_locales
  show "(\<exists>d. qd_rel (qd_init w) d) \<and> rd_inv C (qd_init w)"
    by (intro conjI exI) (rule qd_sim_init, rule rd_inv_init)
next
  fix s l s'
  assume inv: "(\<exists>d. qd_rel s d) \<and> rd_inv C s" and st: "qd_step C l s = Some s'"
  then obtain d where rel: "qd_rel s d" by blast
  have "\<exists>d. qd_rel s' d" using qd_sim_step [OF rel st] by blast
  moreover have "rd_inv C s'" using rd_inv_step [OF _ rel _ st] inv assms by (simp add: cf_ok_def)
  ultimately show "(\<exists>d. qd_rel s' d) \<and> rd_inv C s'" by blast
qed

lemma qd_reachable_inv:
  assumes "cf_ok C" and "reachable (qd_step C) (qd_init w) s"
  shows "\<exists>d. qd_rel s d" "rd_inv C s"
  using invariant_system.inv_reachable [OF qd_invariants [OF assms(1)] assms(2)] by auto

text \<open>Only the executions change the data.\<close>

lemma qd_change_pc:
  assumes st: "qd_step C l s = Some s'" and changed: "qd_world s' \<noteq> qd_world s"
  shows "qd_pc s (qd_thread l) = HdFlush \<or> (\<exists>h. qd_pc s (qd_thread l) = HdRun h)"
proof (cases l)
  case (QdDo t)
  then show ?thesis using st changed by (cases "qd_pc s t")
    (auto simp: qd_delegate_def qd_holder_def qd_rlock_def qd_moves split: if_splits option.splits hold.splits)
qed (use st changed in \<open>auto simp: qd_moves qd_fail_def qd_see_def qd_accept_def qd_try_enqueue_def qd_flush_def
    qd_runlock_def split: if_splits qd_pc.splits\<close>)

section \<open>Properties\<close>

text \<open>
  C1. Delegation executes every operation exactly once, in program order. In every interleaving of
  threads that call \<open>delegate\<close>, \<open>lock\<close> and \<open>rlock\<close> the data at the end is the result of executing the
  operations one after the other in one order (\<open>ds_order\<close>); for each thread, the operations it has
  delegated are those of it that were executed, followed by those in the queue, followed by the one it
  still carries, in the order of its calls, none of them twice; and while nobody holds the lock nothing
  is left in the queue: every operation whose \<open>delegate\<close> has returned has been executed.
\<close>
theorem delegation_correct:
  assumes r: "run (qd_step C) ls (qd_init w) = Some s"
  shows "\<exists>es. es = trace (qd_step C) qd_events ls (qd_init w) \<and>
    qd_world s = fold (cf_exec C) (ds_order es) w \<and>
    (\<forall>t. ds_calls t es = ds_execs t es @ ops_of t (tq_pend (qd_queue s)) @ pc_op (qd_pc s t)) \<and>
    (qd_owner s = None \<longrightarrow> tq_pend (qd_queue s) = [])"
proof -
  obtain d where d: "run (ds_step (cf_exec C)) (trace (qd_step C) qd_events ls (qd_init w)) (ds_init w) = Some d"
    "qd_rel s d"
    using delegation.run_simulated [OF r] by blast
  note D = qd_relD [OF d(2)]
  have "tq_pend (qd_queue s) = []" if "qd_owner s = None"
    using D(5) that qd_owner_is [OF d(2)] pc_queue_used_owns by fastforce
  then show ?thesis using ds_run [OF d(1)] D(2,3) by (auto simp: ds_init_def)
qed

text \<open>An operation appends a number to a list.\<close>

definition qd_demo :: "bool \<Rightarrow> (nat, nat list) qd_config" where
  "qd_demo readers = \<lparr>cf_exec = (\<lambda>x w. w @ [x]), cf_may_starve = False, cf_readers = readers,
     cf_groups = 2, cf_patience = 1\<rparr>"

text \<open>
  Thread 0 takes the lock as an executor; thread 1 fails to enqueue, becomes the helper once the lock
  is free, and executes its operation, then that of thread 2, which was accepted meanwhile.
\<close>

definition qd_demo_run :: "nat qd_label list" where
  "qd_demo_run = [QdDelegate 0 10, QdDo 0, QdDo 0, QdDelegate 1 11, QdDo 1, QdDo 1, QdDo 1, QdReturn 1 CLOSED,
     QdDo 0, QdDo 0, QdDo 0, QdDo 0, QdDo 0, QdDo 1, QdDo 1, QdDo 1,
     QdDelegate 2 12, QdDo 2, QdDo 2, QdDo 2, QdAccept 2, QdReturn 2 SUCCESS,
     QdDo 1, QdDo 1, QdFlush 1 FlushNext, QdFlush 1 FlushClose, QdFlush 1 FlushReturn, QdDo 1, QdDo 1]"

lemmas qd_eval = qd_demo_def qd_demo_run_def qd_init_def tq_init_def rg_init_def qd_delegate_def qd_holder_def
  qd_rlock_def qd_fail_def qd_see_def qd_accept_def qd_try_enqueue_def qd_flush_def qd_moves qd_loop_def
  qd_wait_readers_def rg_query_step_def qd_may_see_def qd_runlock_def rg_arrive_def rg_depart_def rg_group_def

theorem delegation_correct_witness:
  "\<exists>s. run (qd_step (qd_demo False)) qd_demo_run (qd_init []) = Some s \<and>
     qd_owner s = None \<and> tq_pend (qd_queue s) = [] \<and> qd_world s = [10, 11, 12]"
proof -
  obtain s where s: "run (qd_step (qd_demo False)) qd_demo_run (qd_init []) = Some s" "qd_owner s = None"
    "qd_world s = [10, 11, 12]"
    by (simp add: qd_eval)
  from delegation_correct [OF s(1)] s show ?thesis by blast
qed

text \<open>
  C4. Mutual exclusion of writers and readers: when the protected data changes, it is a step of the
  thread that owns the lock, no other thread is between the return of its locking call and its
  \<open>unlock\<close>, and no reader is in its critical section, although \<open>query\<close> looks at one counter after the
  other while readers come and go.
\<close>
theorem writers_exclude_readers:
  assumes ok: "cf_ok C" and r: "reachable (qd_step C) (qd_init w) s"
    and st: "qd_step C l s = Some s'" and changed: "qd_world s' \<noteq> qd_world s"
  shows "qd_owner s = Some (qd_thread l) \<and>
         (\<forall>u. u \<noteq> qd_thread l \<longrightarrow> \<not> pc_crit (qd_pc s u)) \<and> (\<forall>u. qd_pc s u \<noteq> RdCrit)"
proof -
  obtain d where rel: "qd_rel s d" and inv: "rd_inv C s" using qd_reachable_inv [OF ok r] by blast
  note pc = qd_change_pc [OF st changed]
  then have o: "pc_owns (qd_pc s (qd_thread l))" by auto
  have "\<not> pc_crit (qd_pc s u)" if "u \<noteq> qd_thread l" for u
    using qd_only_owner [OF rel o, of u] that by (cases "qd_pc s u") auto
  moreover have "qd_pc s u \<noteq> RdCrit" for u
    using rd_invD(4) [OF inv, of u "qd_thread l"] pc by auto
  ultimately show ?thesis using qd_owner_is [OF rel o] by blast
qed

text \<open>
  A reader is in its critical section when a helper takes the lock, opens the queue and waits; only
  when the reader has left the helper goes on.
\<close>

definition rd_demo_run :: "nat qd_label list" where
  "rd_demo_run = [QdRLock 3, QdDo 3, QdSee 3 False, QdDelegate 0 10, QdDo 0, QdFail 0, QdDo 0, QdReturn 0 CLOSED,
     QdDo 0, QdDo 0, QdDo 0, QdDo 0, QdDo 0, QdRUnlock 3, QdDo 0, QdDo 0, QdDo 0]"

theorem writers_exclude_readers_witness:
  "\<exists>s s'. run (qd_step (qd_demo True)) rd_demo_run (qd_init []) = Some s \<and>
     qd_step (qd_demo True) (QdDo 0) s = Some s' \<and> qd_world s' = [10] \<and> (\<forall>u. qd_pc s u \<noteq> RdCrit)"
proof -
  obtain s s' where s: "run (qd_step (qd_demo True)) rd_demo_run (qd_init []) = Some s"
    "qd_step (qd_demo True) (QdDo 0) s = Some s'" "qd_world s = []" "qd_world s' = [10]"
    by (simp add: qd_eval rd_demo_run_def)
  have "cf_ok (qd_demo True)" by (simp add: cf_ok_def qd_demo_def)
  from writers_exclude_readers [OF this run_reachable [OF s(1)] s(2)] s show ?thesis by auto
qed

text \<open>
  C28. The write barrier of \<open>mrqdlock\<close> counts the readers that have run out of patience and are still
  in \<open>rlock\<close>: it is never negative, and zero when there are none, so that it holds back writers only
  as long as such a reader waits.
\<close>
theorem barrier_counts_waiting_readers:
  assumes "cf_ok C" and "reachable (qd_step C) (qd_init w) s"
  shows "finite {t. pc_raised (qd_pc s t)} \<and> qd_barrier s = int (card {t. pc_raised (qd_pc s t)})"
  using rd_invD(2,3) [OF qd_reachable_inv(2) [OF assms]] by blast

theorem barrier_counts_waiting_readers_witness:
  "\<exists>s. run (qd_step (qd_demo True)) [QdLock 0, QdDo 0, QdDo 0, QdDo 0, QdRLock 3, QdDo 3, QdSee 3 True, QdDo 3,
        QdSee 3 True, QdSee 3 True, QdDo 3] (qd_init []) = Some s \<and>
     qd_barrier s = 1 \<and> card {t. pc_raised (qd_pc s t)} = 1"
proof -
  obtain s where s: "run (qd_step (qd_demo True)) [QdLock 0, QdDo 0, QdDo 0, QdDo 0, QdRLock 3, QdDo 3, QdSee 3 True, QdDo 3,
        QdSee 3 True, QdSee 3 True, QdDo 3] (qd_init []) = Some s" "qd_barrier s = 1"
    by (simp add: qd_eval)
  have "cf_ok (qd_demo True)" by (simp add: cf_ok_def qd_demo_def)
  from barrier_counts_waiting_readers [OF this run_reachable [OF s(1)]] s show ?thesis by auto
qed

section \<open>Progress\<close>

text \<open>
  The steps a thread may still take in the loop of \<open>delegate\<close> when it cannot starve: five for each of
  the 511 iterations that are left.
\<close>

fun pc_retries :: "'e qd_pc \<Rightarrow> nat" where
  "pc_retries (DlTry x) = 2565"
| "pc_retries (DlEnqueue x r) = 5 * (512 - r) + 4"
| "pc_retries (DlEnqueuing x r) = 5 * (512 - r) + 3"
| "pc_retries (DlEnqueued x r) = 5 * (512 - r) + 2"
| "pc_retries (DlRetry x r) = 5 * (512 - r) + 1"
| "pc_retries _ = 0"

lemma qd_step_other:
  assumes "qd_step C l s = Some s'" and "u \<noteq> qd_thread l"
  shows "qd_pc s' u = qd_pc s u"
proof (cases l)
  case (QdDo t)
  then show ?thesis using assms
    by (cases "qd_pc s t")
      (auto simp: qd_delegate_def qd_holder_def qd_rlock_def qd_moves split: if_splits option.splits hold.splits)
qed (use assms in \<open>auto simp: qd_moves qd_fail_def qd_see_def qd_accept_def qd_try_enqueue_def qd_flush_def
      qd_runlock_def split: if_splits qd_pc.splits flush_act.splits list.splits\<close>)

lemma qd_loop_retries: "\<not> cf_may_starve C \<Longrightarrow> pc_retries (qd_loop C x (r + 1)) < 5 * (512 - r) + 1"
  by (auto simp: qd_loop_def)

text \<open>
  C18. A delegating thread does not starve: under \<open>starvation_free\<close>, every step a thread takes in the loop
  of \<open>delegate\<close> (a failed or successful attempt to lock, a step of \<open>enqueue\<close>) brings it closer to the
  end of the loop, steps of others do not set it back, and no more than 2565 of its own steps remain:
  then its operation is in the queue, or it has the lock, or it calls \<open>lock\<close>.
\<close>
theorem delegate_does_not_starve:
  assumes "\<not> cf_may_starve C" and st: "qd_step C l s = Some s'" and loop: "0 < pc_retries (qd_pc s t)"
  shows "(if qd_thread l = t then pc_retries (qd_pc s' t) < pc_retries (qd_pc s t) else qd_pc s' t = qd_pc s t) \<and>
         pc_retries (qd_pc s t) \<le> 2565"
proof -
  have "pc_retries (qd_pc s t) \<le> 2565" by (cases "qd_pc s t") auto
  moreover have "pc_retries (qd_pc s' t) < pc_retries (qd_pc s t)" if l: "qd_thread l = t"
  proof (cases l)
    case (QdDo u)
    then show ?thesis using st l loop qd_loop_retries [OF assms(1)] assms(1)
      by (cases "qd_pc s t")
        (auto simp: qd_delegate_def qd_holder_def qd_rlock_def qd_moves qd_loop_def split: if_splits option.splits)
  next
    case (QdFail u)
    then show ?thesis using st l loop assms(1)
      by (cases "qd_pc s t") (auto simp: qd_fail_def qd_moves qd_loop_def split: if_splits)
  next
    case (QdReturn u v)
    then show ?thesis using st l loop
      by (cases "qd_pc s t") (auto simp: qd_try_enqueue_def qd_moves split: if_splits)
  next
    case (QdAccept u)
    then show ?thesis using st l loop
      by (cases "qd_pc s t") (auto simp: qd_accept_def qd_moves split: if_splits)
  qed (use st l loop in \<open>auto simp: qd_see_def qd_flush_def split: if_splits qd_pc.splits\<close>)
  moreover have "qd_pc s' t = qd_pc s t" if "qd_thread l \<noteq> t"
    using qd_step_other [OF st, of t] that by auto
  ultimately show ?thesis by simp
qed

theorem delegate_does_not_starve_witness:
  "\<exists>s s'. run (qd_step (qd_demo False)) [QdDelegate 0 10, QdDo 0, QdFail 0, QdDo 0, QdReturn 0 CLOSED] (qd_init []) = Some s \<and>
     qd_step (qd_demo False) (QdFail 0) s = Some s' \<and> qd_pc s' 0 = DlEnqueue 10 2 \<and>
     pc_retries (qd_pc s' 0) < pc_retries (qd_pc s 0)"
proof -
  obtain s s' where s: "run (qd_step (qd_demo False)) [QdDelegate 0 10, QdDo 0, QdFail 0, QdDo 0, QdReturn 0 CLOSED] (qd_init []) = Some s"
    "qd_step (qd_demo False) (QdFail 0) s = Some s'" "qd_pc s' 0 = DlEnqueue 10 2" "qd_pc s 0 = DlRetry 10 1"
    by (simp add: qd_eval)
  have "\<not> cf_may_starve (qd_demo False)" "0 < pc_retries (qd_pc s 0)" using s(4) by (simp_all add: qd_demo_def)
  from delegate_does_not_starve [OF this(1) s(2) this(2)] s show ?thesis by auto
qed

text \<open>The steps the holder of the lock still has to take when nobody else moves.\<close>

definition qd_hold_rest :: "('e, 'w) qd_config \<Rightarrow> tid \<Rightarrow> ('e, 'w) qd_lock \<Rightarrow> nat" where
  "qd_hold_rest C t s =
     (let n = length (tq_pend (qd_queue s)); G = cf_groups C in
      case qd_pc s t of
        HdGot h \<Rightarrow> G + n + 9
      | HdOpen x \<Rightarrow> G + n + 8
      | HdWait h k \<Rightarrow> (G - k) + n + 7
      | HdRun h \<Rightarrow> n + 6
      | HdFlush \<Rightarrow> n + (if tq_open (qd_queue s) then 1 else 0) + 3
      | HdUnlock \<Rightarrow> 2
      | HdRelease \<Rightarrow> 1
      | _ \<Rightarrow> 0)"

fun pc_user :: "'e qd_pc \<Rightarrow> bool" where
  "pc_user (HdGot h) = (h = UserLock)"
| "pc_user (HdWait h k) = (h = UserLock)"
| "pc_user (HdRun h) = (h = UserLock)"
| "pc_user _ = False"

lemma no_readers_no_counts:
  assumes "rd_inv C s" and "\<And>u. \<not> pc_arrived (qd_pc s u)"
  shows "qd_readers s g = 0"
  using rd_invD(1) [OF assms(1)] assms(2) by (simp add: rg_counts_def)

lemma qd_holder_progress:
  assumes rel: "qd_tracks s d" and al: "qd_alone t s" and own: "pc_owns (qd_pc s t)" "\<not> pc_user (qd_pc s t)"
    and none: "\<And>g. qd_readers s g = 0"
  shows "\<exists>l s'. (l = QdDo t \<or> (\<exists>a. l = QdFlush t a)) \<and> qd_step C l s = Some s' \<and> qd_hold_rest C t s' < qd_hold_rest C t s \<and>
     (pc_owns (qd_pc s' t) \<or> qd_owner s' = None) \<and> \<not> pc_user (qd_pc s' t) \<and> \<not> pc_arrived (qd_pc s' t)"
proof (cases "qd_pc s t")
  case (HdGot h)
  then show ?thesis using own(2)
    by (intro exI [of _ "QdDo t"]; cases h)
      (auto simp: qd_delegate_def qd_holder_def qd_goto_def qd_hold_rest_def Let_def)
next
  case (HdOpen x)
  have "\<not> tq_open (qd_queue s)" "tq_pend (qd_queue s) = []"
    using qd_queue_idle [OF rel al] HdOpen by simp_all
  then show ?thesis using HdOpen
    by (intro exI [of _ "QdDo t"])
      (auto simp: qd_delegate_def qd_holder_def qd_moves qd_hold_rest_def Let_def)
next
  case (HdWait h k)
  have "\<not> 0 < qd_readers s k" using none by simp
  then show ?thesis using HdWait own(2)
    by (intro exI [of _ "QdDo t"])
      (auto simp: qd_delegate_def qd_holder_def qd_goto_def qd_hold_rest_def Let_def qd_wait_readers_def
        rg_query_step_def)
next
  case (HdRun h)
  then show ?thesis using own(2)
    by (intro exI [of _ "QdDo t"]; cases h)
      (auto simp: qd_delegate_def qd_holder_def qd_moves qd_hold_rest_def Let_def)
next
  case HdFlush
  show ?thesis
  proof (cases "tq_pend (qd_queue s)")
    case (Cons e es)
    then show ?thesis using HdFlush
      by (intro exI [of _ "QdFlush t FlushNext"])
        (auto simp: qd_flush_def qd_moves qd_hold_rest_def Let_def)
  next
    case Nil
    then show ?thesis using HdFlush
      by (intro exI [of _ "QdFlush t (if tq_open (qd_queue s) then FlushClose else FlushReturn)"])
        (auto simp: qd_flush_def qd_moves qd_hold_rest_def Let_def)
  qed
next
  case HdUnlock
  then show ?thesis
    by (intro exI [of _ "QdDo t"]) (auto simp: qd_delegate_def qd_holder_def qd_moves qd_hold_rest_def)
next
  case HdRelease
  then show ?thesis
    by (intro exI [of _ "QdDo t"]) (auto simp: qd_delegate_def qd_holder_def qd_moves qd_hold_rest_def)
qed (use own in auto)

lemma qd_holder_run:
  assumes ok: "cf_ok C"
  shows "qd_rel s d \<Longrightarrow> rd_inv C s \<Longrightarrow> pc_owns (qd_pc s t) \<Longrightarrow> \<not> pc_user (qd_pc s t) \<Longrightarrow>
    (\<And>u. \<not> pc_arrived (qd_pc s u)) \<Longrightarrow>
    \<exists>ls s'. length ls \<le> qd_hold_rest C t s \<and> (\<forall>l \<in> set ls. qd_thread l = t) \<and>
      run (qd_step C) ls s = Some s' \<and> qd_owner s' = None"
proof (induction "qd_hold_rest C t s" arbitrary: s d rule: less_induct)
  case less
  obtain l s1 where lab: "l = QdDo t \<or> (\<exists>a. l = QdFlush t a)" and step: "qd_step C l s = Some s1"
    "qd_hold_rest C t s1 < qd_hold_rest C t s" "pc_owns (qd_pc s1 t) \<or> qd_owner s1 = None"
    "\<not> pc_user (qd_pc s1 t)" "\<not> pc_arrived (qd_pc s1 t)"
    using qd_holder_progress [OF qd_relD(7) [OF less.prems(1)] qd_owner_alone [OF less.prems(1)] less.prems(3,4) no_readers_no_counts [OF less.prems(2,5)], of C] by blast
  have l: "qd_thread l = t" "qd_step C l s = Some s1" "qd_hold_rest C t s1 < qd_hold_rest C t s"
    "pc_owns (qd_pc s1 t) \<or> qd_owner s1 = None" "\<not> pc_user (qd_pc s1 t)" "\<not> pc_arrived (qd_pc s1 t)"
    using lab step by auto
  show ?case
  proof (cases "qd_owner s1 = None")
    case True
    then show ?thesis using l by (intro exI [of _ "[l]"] exI [of _ s1]) auto
  next
    case False
    obtain d1 where rel: "qd_rel s1 d1" using qd_sim_step [OF less.prems(1) l(2)] by blast
    have inv: "rd_inv C s1" using rd_inv_step [OF less.prems(2,1) _ l(2)] ok by (simp add: cf_ok_def)
    have quiet: "\<not> pc_arrived (qd_pc s1 u)" for u
      using qd_step_other [OF l(2), of u] less.prems(5) [of u] l(1,6) by (cases "u = t") auto
    obtain ls s' where "length ls \<le> qd_hold_rest C t s1" "\<forall>l \<in> set ls. qd_thread l = t"
      "run (qd_step C) ls s1 = Some s'" "qd_owner s' = None"
      using less.hyps [OF l(3) rel inv _ l(5) quiet] l(4) False by blast
    then show ?thesis using l by (intro exI [of _ "l # ls"] exI [of _ s']) auto
  qed
qed

text \<open>
  C5. The holder of the lock gets through: from every reachable state in which a thread holds the lock in
  \<open>delegate\<close> and no reader is there, that thread alone releases the lock, after at most one step for
  each reader group and each operation in the queue, and nine more; all delegated operations have
  then been executed.
\<close>
theorem holder_releases_lock:
  assumes ok: "cf_ok C" and r: "reachable (qd_step C) (qd_init w) s"
    and own: "qd_owner s = Some t" "\<not> pc_user (qd_pc s t)" and quiet: "\<forall>u. \<not> pc_arrived (qd_pc s u)"
  shows "\<exists>ls s'. length ls \<le> cf_groups C + length (tq_pend (qd_queue s)) + 9 \<and>
      (\<forall>l \<in> set ls. qd_thread l = t) \<and> run (qd_step C) ls s = Some s' \<and> qd_owner s' = None \<and>
      tq_pend (qd_queue s') = []"
proof -
  obtain d where rel: "qd_rel s d" and inv: "rd_inv C s" using qd_reachable_inv [OF ok r] by blast
  have "qd_hold_rest C t s \<le> cf_groups C + length (tq_pend (qd_queue s)) + 9"
    by (cases "qd_pc s t") (auto simp: qd_hold_rest_def Let_def)
  moreover obtain ls s' where s': "length ls \<le> qd_hold_rest C t s" "\<forall>l \<in> set ls. qd_thread l = t"
      "run (qd_step C) ls s = Some s'" "qd_owner s' = None"
    using qd_holder_run [OF ok rel inv qd_owner_owns [OF rel own(1)] own(2)] quiet by blast
  moreover obtain d' where rel': "qd_rel s' d'"
    using qd_reachable_inv(1) [OF ok reachable_run [OF r s'(3)]] by blast
  have "tq_pend (qd_queue s') = []"
  proof (rule ccontr)
    assume "tq_pend (qd_queue s') \<noteq> []"
    then obtain u where "pc_queue_used (qd_pc s' u)" using qd_relD(5) [OF rel'] by blast
    then show False using qd_owner_is [OF rel' pc_queue_used_owns] s'(4) by fastforce
  qed
  ultimately show ?thesis by (intro exI [of _ ls] exI [of _ s'] conjI) auto
qed

theorem holder_releases_lock_witness:
  "\<exists>s ls s'. run (qd_step (qd_demo False)) [QdDelegate 0 10, QdDo 0, QdFail 0, QdDo 0, QdReturn 0 CLOSED, QdDo 0] (qd_init []) = Some s \<and>
     qd_pc s 0 = HdGot (Helper 10) \<and> run (qd_step (qd_demo False)) ls s = Some s' \<and> length ls \<le> 11 \<and> qd_owner s' = None"
proof -
  let ?C = "qd_demo False"
  let ?ls = "[QdDelegate 0 10, QdDo 0, QdFail 0, QdDo 0, QdReturn 0 CLOSED, QdDo 0]"
  obtain s where s: "run (qd_step ?C) ?ls (qd_init []) = Some s" "qd_pc s 0 = HdGot (Helper 10)"
    "qd_owner s = Some 0" "tq_pend (qd_queue s) = []" "\<forall>u. \<not> pc_arrived (qd_pc s u)"
    by (simp add: qd_eval)
  have ok: "cf_ok ?C" and G: "cf_groups ?C = 2" by (simp_all add: cf_ok_def qd_demo_def)
  have "\<not> pc_user (qd_pc s 0)" using s(2) by simp
  from holder_releases_lock [OF ok run_reachable [OF s(1)] s(3) this s(5), unfolded s(4) G]
  obtain ls s' where "length ls \<le> 11" "run (qd_step ?C) ls s = Some s'" "qd_owner s' = None" by auto
  with s(1,2) show ?thesis by (intro exI conjI)
qed

section \<open>The operations that a thread delegates\<close>

fun qd_delegated :: "tid \<Rightarrow> 'e qd_label list \<Rightarrow> 'e list" where
  "qd_delegated t [] = []"
| "qd_delegated t (QdDelegate u x # ls) = (if u = t then x # qd_delegated t ls else qd_delegated t ls)"
| "qd_delegated t (l # ls) = qd_delegated t ls"

lemma qd_delegated_append [simp]: "qd_delegated t (ls @ ms) = qd_delegated t ls @ qd_delegated t ms"
  by (induction t ls rule: qd_delegated.induct) auto

lemma ds_calls_append [simp]: "ds_calls t (es @ fs) = ds_calls t es @ ds_calls t fs"
  by (induction t es rule: ds_calls.induct) auto

lemma ds_calls_trace:
  "run (qd_step Q) ms a = Some a' \<Longrightarrow> ds_calls t (trace (qd_step Q) qd_events ms a) = qd_delegated t ms"
proof (induction ms arbitrary: a)
  case (Cons l ms)
  then obtain a1 where a1: "qd_step Q l a = Some a1" "run (qd_step Q) ms a1 = Some a'" by (auto split: option.splits)
  have "ds_calls t (qd_events a l) = qd_delegated t [l]"
    by (cases "(a, l)" rule: qd_events.cases) (auto split: qd_pc.splits hold.splits list.splits)
  then show ?case using Cons.IH [OF a1(2)] a1(1) by (cases l) (auto simp del: qd_step.simps)
qed simp

lemma qd_delegated_mem: "QdDelegate t x \<in> set ls \<Longrightarrow> x \<in> set (qd_delegated t ls)"
  by (induction t ls rule: qd_delegated.induct) auto

end
