(* ===== verification/Linked_Lock.thy ===== *)
theory Linked_Lock
  imports QD_Lock Dual_Buffer_Queue
begin

text \<open>
  A delegation lock linked with its lock and its queue, as \<open>qd.hpp\<close> does it for \<open>qdlock\<close> and \<open>mrqdlock\<close>: where
  QD_Lock has a lock and a queue that keep their contracts, the threads here take the steps of a
  mutual exclusion lock of \<open>locks/\<close> and of \<open>queues/dual_buffer_queue.hpp\<close>, one access to shared memory after the
  other, so that the calls of all threads interleave inside of \<open>try_lock\<close>, \<open>enqueue\<close> and \<open>flush\<close>.

  The theory defines the linked lock for any class of locks, states what the client relies on as a
  locale, and proves in it that every run of the linked lock is a run of the lock of QD_Lock.
\<close>

section \<open>A class of locks\<close>

text \<open>
  Where a thread is with respect to the lock: outside, in a locking call, between the return of a
  locking call and the call of \<open>unlock\<close>, in \<open>unlock\<close>, or in a member function that delegation does not use.
\<close>

datatype lock_phase = LpIdle | LpLocking lock_act | LpCrit | LpUnlocking | LpOther

text \<open>\<open>lc_holds\<close> is not part of the code: it says which thread owns the lock.\<close>

record 'l lock_class =
  lc_init :: 'l
  lc_step :: "tid \<times> lock_act \<Rightarrow> 'l \<Rightarrow> 'l option"
  lc_phase :: "tid \<Rightarrow> 'l \<Rightarrow> lock_phase"
  lc_is_locked :: "'l \<Rightarrow> bool"
  lc_holds :: "tid \<Rightarrow> 'l \<Rightarrow> bool"

section \<open>State\<close>

text \<open>
  An operation is the wrapper that is stored in the queue and the bytes of its parameters. The places of the threads are those of QD_Lock, without
  \<open>HdGot\<close>: a thread is in its locking call until it returns, and in \<open>HdRelease\<close> until \<open>unlock\<close> returns.
\<close>

type_synonym 'f op = "'f \<times> byte list list"

record ('f, 'w, 'l) linked_config =
  lx_qd :: "('f op, 'w) qd_config"
  lx_lock :: "'l lock_class"
  lx_queue :: "'f db_config"

record ('f, 'w, 'l) linked_lock =
  lk_mutex :: 'l
  lk_queue :: "'f dual_buffer_queue"
  lk_world :: 'w
  lk_barrier :: int
  lk_readers :: reader_groups
  lk_pc :: "tid \<Rightarrow> 'f op qd_pc"

text \<open>\<open>M\<close> is the memory in which the queue is constructed, see Dual_Buffer_Queue.\<close>

definition lk_init :: "('f, 'w, 'l) linked_config \<Rightarrow> db_memory \<Rightarrow> 'w \<Rightarrow> ('f, 'w, 'l) linked_lock" where
  "lk_init C M w =
     \<lparr>lk_mutex = lc_init (lx_lock C), lk_queue = db_init (lx_queue C) M, lk_world = w, lk_barrier = 0,
      lk_readers = rg_init, lk_pc = (\<lambda>_. QdIdle)\<rparr>"

definition lk_goto :: "tid \<Rightarrow> 'f op qd_pc \<Rightarrow> ('f, 'w, 'l) linked_lock \<Rightarrow> ('f, 'w, 'l) linked_lock" where
  "lk_goto t p s = s\<lparr>lk_pc := (lk_pc s)(t := p)\<rparr>"

section \<open>Calls of the lock\<close>

text \<open>The locking call of a place, and what the lock is taken for.\<close>

fun pc_locks :: "'e qd_pc \<Rightarrow> (lock_act \<times> 'e hold) option" where
  "pc_locks (DlTry x) = Some (TryLock, Executor x)"
| "pc_locks (DlRetry x r) = Some (if r mod 128 = 0 then TryLockOrWait else TryLock, Helper x)"
| "pc_locks (DlLast x) = Some (Lock, Executor x)"
| "pc_locks UlLock = Some (Lock, UserLock)"
| "pc_locks _ = None"

text \<open>Where the call goes on when it has succeeded, and when it has failed.\<close>

fun pc_locked :: "'e hold \<Rightarrow> 'e qd_pc" where
  "pc_locked (Helper x) = HdOpen x"
| "pc_locked h = HdWait h 0"

fun pc_failed :: "('e, 'w) qd_config \<Rightarrow> 'e qd_pc \<Rightarrow> 'e qd_pc" where
  "pc_failed C (DlTry x) = qd_loop C x 1"
| "pc_failed C (DlRetry x r) = qd_loop C x (r + 1)"
| "pc_failed C p = p"

definition lk_locking ::
  "('f, 'w, 'l) linked_config \<Rightarrow> tid \<Rightarrow> lock_act \<Rightarrow> 'f op hold \<Rightarrow> ('f, 'w, 'l) linked_lock \<Rightarrow> ('f, 'w, 'l) linked_lock option"
where
  "lk_locking C t a h s =
     (let L = lx_lock C in
      case lc_step L (t, if lc_phase L t (lk_mutex s) = LpIdle then a else Go) (lk_mutex s) of
        None \<Rightarrow> None
      | Some m \<Rightarrow>
          Some (lk_goto t
                 (case lc_phase L t m of
                    LpCrit \<Rightarrow> pc_locked h
                  | LpIdle \<Rightarrow> pc_failed (lx_qd C) (lk_pc s t)
                  | _ \<Rightarrow> lk_pc s t)
                 (s\<lparr>lk_mutex := m\<rparr>)))"

text \<open>\<open>unlock\<close>: its call (\<open>Unlock\<close>) and its further steps (\<open>Go\<close>).\<close>

definition lk_unlocking ::
  "('f, 'w, 'l) linked_config \<Rightarrow> tid \<Rightarrow> lock_act \<Rightarrow> ('f, 'w, 'l) linked_lock \<Rightarrow> ('f, 'w, 'l) linked_lock option" where
  "lk_unlocking C t a s =
     (case lc_step (lx_lock C) (t, a) (lk_mutex s) of
        None \<Rightarrow> None
      | Some m \<Rightarrow>
          Some (lk_goto t (if lc_phase (lx_lock C) t m = LpIdle then QdIdle else HdRelease) (s\<lparr>lk_mutex := m\<rparr>)))"

section \<open>Calls of the queue\<close>

text \<open>What the caller of \<open>enqueue\<close> sees of its steps; \<open>TqAccept\<close> it does not see.\<close>

fun pc_enqueue :: "'f op tq_event list \<Rightarrow> 'f op qd_pc \<Rightarrow> 'f op qd_pc" where
  "pc_enqueue [TqAccept u] (DlEnqueuing x r) = DlEnqueued x r"
| "pc_enqueue [TqReturn u st] (DlEnqueuing x r) = (if st = SUCCESS then QdIdle else DlRetry x r)"
| "pc_enqueue [TqReturn u st] (DlEnqueued x r) = (if st = SUCCESS then QdIdle else DlRetry x r)"
| "pc_enqueue es p = p"

definition lk_queue_step ::
  "('f, 'w, 'l) linked_config \<Rightarrow> tid \<Rightarrow> 'f q_label \<Rightarrow> ('f op tq_event list \<Rightarrow> 'f op qd_pc) \<Rightarrow>
   ('f, 'w, 'l) linked_lock \<Rightarrow> ('f, 'w, 'l) linked_lock option"
where
  "lk_queue_step C t l p s =
     (case db_step (lx_queue C) l (lk_queue s) of
        None \<Rightarrow> None
      | Some q \<Rightarrow> Some (lk_goto t (p (db_events (lx_queue C) (lk_queue s) l)) (s\<lparr>lk_queue := q\<rparr>)))"

definition lk_enqueue :: "('f, 'w, 'l) linked_config \<Rightarrow> tid \<Rightarrow> ('f, 'w, 'l) linked_lock \<Rightarrow> ('f, 'w, 'l) linked_lock option" where
  "lk_enqueue C t s =
     (case lk_pc s t of
        DlEnqueue x r \<Rightarrow> lk_queue_step C t (QCall t (fst x) (snd x)) (\<lambda>_. DlEnqueuing x r) s
      | _ \<Rightarrow> lk_queue_step C t (QGo t) (\<lambda>es. pc_enqueue es (lk_pc s t)) s)"

text \<open>\<open>flush\<close>: its call, and then its steps, in some of which it executes an operation.\<close>

fun flush_exec :: "('f op, 'w) qd_config \<Rightarrow> 'f op tq_event list \<Rightarrow> 'w \<Rightarrow> 'w" where
  "flush_exec C [TqExec x] w = cf_exec C x w"
| "flush_exec C es w = w"

definition lk_flush :: "('f, 'w, 'l) linked_config \<Rightarrow> tid \<Rightarrow> ('f, 'w, 'l) linked_lock \<Rightarrow> ('f, 'w, 'l) linked_lock option" where
  "lk_flush C t s =
     (case lk_queue_step C t QFlush (\<lambda>_. HdFlush) s of
        Some s' \<Rightarrow> Some s'
      | None \<Rightarrow>
          map_option (lk_world_update (flush_exec (lx_qd C) (db_events (lx_queue C) (lk_queue s) QOwner)))
            (lk_queue_step C t QOwner (\<lambda>es. if es = [TqDrained] then HdUnlock else HdFlush) s))"

section \<open>The other steps\<close>

definition pc_wait_readers :: "('e, 'w) qd_config \<Rightarrow> 'e hold \<Rightarrow> nat \<Rightarrow> reader_groups \<Rightarrow> 'e qd_pc" where
  "pc_wait_readers C h k c =
     (if \<not> cf_readers C then HdRun h
      else case rg_query_step (cf_groups C) k c of
             Inl k' \<Rightarrow> HdWait h k'
           | Inr readers \<Rightarrow> if readers then HdWait h 0 else HdRun h)"

definition lk_local :: "('f, 'w, 'l) linked_config \<Rightarrow> tid \<Rightarrow> ('f, 'w, 'l) linked_lock \<Rightarrow> ('f, 'w, 'l) linked_lock option" where
  "lk_local C t s =
     (let Q = lx_qd C; locked = lc_is_locked (lx_lock C) (lk_mutex s) in
      case lk_pc s t of
        DlBarrier x \<Rightarrow> Some (if cf_readers Q \<and> 0 < lk_barrier s then s else lk_goto t (DlTry x) s)
      | UlBarrier \<Rightarrow> Some (if cf_readers Q \<and> 0 < lk_barrier s then s else lk_goto t UlLock s)
      | HdWait h k \<Rightarrow> Some (lk_goto t (pc_wait_readers Q h k (lk_readers s)) s)
      | HdRun (Executor x) \<Rightarrow> Some (lk_goto t HdUnlock (s\<lparr>lk_world := cf_exec Q x (lk_world s)\<rparr>))
      | HdRun (Helper x) \<Rightarrow> Some (lk_goto t HdFlush (s\<lparr>lk_world := cf_exec Q x (lk_world s)\<rparr>))
      | RdArrive b p \<Rightarrow> Some (lk_goto t (RdTest b p) (s\<lparr>lk_readers := rg_arrive (cf_groups Q) t (lk_readers s)\<rparr>))
      | RdTest b p \<Rightarrow> Some (lk_goto t (if locked then RdDepart b p else if b then RdLower else RdCrit) s)
      | RdDepart b p \<Rightarrow> Some (lk_goto t (RdSpin b p) (s\<lparr>lk_readers := rg_depart (cf_groups Q) t (lk_readers s)\<rparr>))
      | RdSpin b p \<Rightarrow>
          Some (lk_goto t (if \<not> locked then RdArrive b p
                           else if p = cf_patience Q \<and> \<not> b then RdRaise p
                           else RdSpin b (p + 1)) s)
      | RdRaise p \<Rightarrow> Some (lk_goto t (RdSpin True (p + 1)) (s\<lparr>lk_barrier := lk_barrier s + 1\<rparr>))
      | RdLower \<Rightarrow> Some (lk_goto t RdCrit (s\<lparr>lk_barrier := lk_barrier s - 1\<rparr>))
      | _ \<Rightarrow> None)"

section \<open>The linked lock as a transition system\<close>

definition lk_go :: "('f, 'w, 'l) linked_config \<Rightarrow> tid \<Rightarrow> ('f, 'w, 'l) linked_lock \<Rightarrow> ('f, 'w, 'l) linked_lock option" where
  "lk_go C t s =
     (case pc_locks (lk_pc s t) of
        Some (a, h) \<Rightarrow> lk_locking C t a h s
      | None \<Rightarrow>
          (case lk_pc s t of
             DlEnqueue x r \<Rightarrow> lk_enqueue C t s
           | DlEnqueuing x r \<Rightarrow> lk_enqueue C t s
           | DlEnqueued x r \<Rightarrow> lk_enqueue C t s
           | HdOpen x \<Rightarrow> lk_queue_step C t QOpen (\<lambda>_. HdWait (Helper x) 0) s
           | HdFlush \<Rightarrow> lk_flush C t s
           | HdUnlock \<Rightarrow> lk_unlocking C t Unlock s
           | HdRelease \<Rightarrow> lk_unlocking C t Go s
           | _ \<Rightarrow> lk_local C t s))"

text \<open>The calls of a thread, its steps, and a spurious return from a system call in which it sleeps.\<close>

datatype 'f lk_label =
    LkDelegate tid "'f op" | LkLock tid | LkUnlock tid | LkRLock tid | LkRUnlock tid | LkGo tid | LkIntr tid

fun linked_step ::
  "('f, 'w, 'l) linked_config \<Rightarrow> 'f lk_label \<Rightarrow> ('f, 'w, 'l) linked_lock \<Rightarrow> ('f, 'w, 'l) linked_lock option" where
  "linked_step C (LkDelegate t x) s =
     (if lk_pc s t = QdIdle \<and> map length (snd x) = db_sizes (lx_queue C) (fst x)
      then Some (lk_goto t (DlBarrier x) s) else None)"
| "linked_step C (LkLock t) s = (if lk_pc s t = QdIdle then Some (lk_goto t UlBarrier s) else None)"
| "linked_step C (LkUnlock t) s = (if lk_pc s t = HdRun UserLock then lk_unlocking C t Unlock s else None)"
| "linked_step C (LkRLock t) s =
     (if cf_readers (lx_qd C) \<and> lk_pc s t = QdIdle then Some (lk_goto t (RdArrive False 0) s) else None)"
| "linked_step C (LkRUnlock t) s =
     (if lk_pc s t = RdCrit
      then Some (lk_goto t QdIdle (s\<lparr>lk_readers := rg_depart (cf_groups (lx_qd C)) t (lk_readers s)\<rparr>)) else None)"
| "linked_step C (LkGo t) s = lk_go C t s"
| "linked_step C (LkIntr t) s =
     map_option (\<lambda>m. s\<lparr>lk_mutex := m\<rparr>) (lc_step (lx_lock C) (t, Intr) (lk_mutex s))"

section \<open>What the steps stand for\<close>

text \<open>
  A step of the lock stands for the step of QD_Lock in which the thread acquires or releases the lock, and for that in which its
  call returns; most steps stand for none.
\<close>

definition lock_labels :: "'l lock_class \<Rightarrow> tid \<Rightarrow> 'l \<Rightarrow> 'l \<Rightarrow> 'e qd_label list" where
  "lock_labels L t m m' =
     (if \<not> lc_holds L t m \<and> lc_holds L t m' then [QdDo t] else []) @
     (case lc_phase L t m' of LpCrit \<Rightarrow> [QdDo t] | LpIdle \<Rightarrow> [QdFail t] | _ \<Rightarrow> [])"

definition unlock_labels :: "'l lock_class \<Rightarrow> tid \<Rightarrow> 'l \<Rightarrow> 'l \<Rightarrow> 'e qd_label list" where
  "unlock_labels L t m m' = (if lc_holds L t m \<and> \<not> lc_holds L t m' then [QdDo t] else [])"

fun queue_label :: "tid \<Rightarrow> 'f op tq_event \<Rightarrow> 'f op qd_label" where
  "queue_label t (TqAccept u) = QdAccept t"
| "queue_label t (TqReturn u st) = QdReturn t st"
| "queue_label t TqClose = QdFlush t FlushClose"
| "queue_label t (TqExec x) = QdFlush t FlushNext"
| "queue_label t TqDrained = QdFlush t FlushReturn"
| "queue_label t _ = QdDo t"

definition lk_go_labels ::
  "('f, 'w, 'l) linked_config \<Rightarrow> tid \<Rightarrow> ('f, 'w, 'l) linked_lock \<Rightarrow> ('f, 'w, 'l) linked_lock \<Rightarrow> 'f op qd_label list"
where
  "lk_go_labels C t s s' =
     (let L = lx_lock C; D = lx_queue C in
      if pc_locks (lk_pc s t) \<noteq> None then lock_labels L t (lk_mutex s) (lk_mutex s')
      else case lk_pc s t of
        DlEnqueuing x r \<Rightarrow> map (queue_label t) (db_events D (lk_queue s) (QGo t))
      | DlEnqueued x r \<Rightarrow> map (queue_label t) (db_events D (lk_queue s) (QGo t))
      | HdFlush \<Rightarrow>
          if db_step D QFlush (lk_queue s) \<noteq> None then []
          else map (queue_label t) (db_events D (lk_queue s) QOwner)
      | HdUnlock \<Rightarrow> QdDo t # unlock_labels L t (lk_mutex s) (lk_mutex s')
      | HdRelease \<Rightarrow> unlock_labels L t (lk_mutex s) (lk_mutex s')
      | RdTest b p \<Rightarrow> [QdSee t (lc_is_locked L (lk_mutex s))]
      | RdSpin b p \<Rightarrow> [QdSee t (lc_is_locked L (lk_mutex s))]
      | _ \<Rightarrow> [QdDo t])"

definition linked_labels :: "('f, 'w, 'l) linked_config \<Rightarrow> ('f, 'w, 'l) linked_lock \<Rightarrow> 'f lk_label \<Rightarrow> 'f op qd_label list" where
  "linked_labels C s l =
     (case linked_step C l s of
        None \<Rightarrow> []
      | Some s' \<Rightarrow>
          (case l of
             LkDelegate t x \<Rightarrow> [QdDelegate t x]
           | LkLock t \<Rightarrow> [QdLock t]
           | LkUnlock t \<Rightarrow> QdUnlock t # unlock_labels (lx_lock C) t (lk_mutex s) (lk_mutex s')
           | LkRLock t \<Rightarrow> [QdRLock t]
           | LkRUnlock t \<Rightarrow> [QdRUnlock t]
           | LkGo t \<Rightarrow> lk_go_labels C t s s'
           | LkIntr t \<Rightarrow> []))"

section \<open>The contract of the lock\<close>

text \<open>
  What the client relies on beside the contract of Lock_Spec: calls begin and end as a caller expects. A call of
  \<open>lock\<close> returns only with the lock, a failed call has not acquired it, and an acquired lock is kept until \<open>unlock\<close>.
  A thread waits only in a locking call.
\<close>

locale callable_lock = lock_impl step init inv holds crit locked
  for step :: "tid \<times> lock_act \<Rightarrow> 's \<Rightarrow> 's option" and init :: 's and inv :: "'s \<Rightarrow> bool"
    and holds :: "tid \<Rightarrow> 's \<Rightarrow> bool" and crit :: "tid \<Rightarrow> 's \<Rightarrow> bool" and locked :: "'s \<Rightarrow> bool" +
  fixes phase :: "tid \<Rightarrow> 's \<Rightarrow> lock_phase"
  assumes phase_init: "phase t init = LpIdle"
    and phase_frame: "step (t, a) s = Some s' \<Longrightarrow> u \<noteq> t \<Longrightarrow> phase u s' = phase u s"
    and phase_idle: "phase t s = LpIdle \<Longrightarrow> \<not> holds t s"
    and phase_crit: "phase t s = LpCrit \<longleftrightarrow> crit t s"
    and step_call: "step (t, a) s = Some s' \<Longrightarrow> a \<in> {Lock, TryLock, TryLockOrWait} \<Longrightarrow>
          phase t s' = LpLocking a \<and> \<not> holds t s'"
    and step_unlock: "step (t, Unlock) s = Some s' \<Longrightarrow> phase t s' \<in> {LpUnlocking, LpIdle}"
    and step_locking: "step (t, Go) s = Some s' \<Longrightarrow> phase t s = LpLocking a \<Longrightarrow>
          phase t s' = LpCrit \<or> phase t s' = LpLocking a \<and> (holds t s \<longrightarrow> holds t s') \<or>
          phase t s' = LpIdle \<and> a \<noteq> Lock \<and> \<not> holds t s"
    and step_unlocking: "step (t, Go) s = Some s' \<Longrightarrow> phase t s = LpUnlocking \<Longrightarrow>
          phase t s' \<in> {LpUnlocking, LpIdle} \<and> (holds t s' \<longrightarrow> holds t s)"
    and step_intr: "step (t, Intr) s = Some s' \<Longrightarrow> phase t s' = phase t s \<and> holds t s' = holds t s"
    and call_enabled: "phase t s = LpIdle \<Longrightarrow> a \<in> {Lock, TryLock, TryLockOrWait} \<Longrightarrow> step (t, a) s \<noteq> None"
    and unlock_enabled: "phase t s = LpCrit \<Longrightarrow> step (t, Unlock) s \<noteq> None"
    and unlock_runs: "inv s \<Longrightarrow> phase t s = LpUnlocking \<Longrightarrow> step (t, Go) s \<noteq> None"
    and waits: "inv s \<Longrightarrow> phase t s = LpLocking c \<Longrightarrow> step (t, Go) s = None \<Longrightarrow>
          \<exists>u. phase u s = LpCrit \<or> phase u s \<noteq> LpIdle \<and> step (u, Go) s \<noteq> None"

section \<open>The relation to QD_Lock\<close>

text \<open>
  The place of a thread in QD_Lock: in a locking call that has acquired the lock it is in \<open>HdGot\<close>, and in a call of
  \<open>unlock\<close> that has released it, it is done.
\<close>

definition abs_pc :: "'l lock_class \<Rightarrow> 'l \<Rightarrow> tid \<Rightarrow> 'e qd_pc \<Rightarrow> 'e qd_pc" where
  "abs_pc L m t p =
     (if lc_holds L t m then (case pc_locks p of Some (a, h) \<Rightarrow> HdGot h | None \<Rightarrow> p)
      else (case p of HdRelease \<Rightarrow> QdIdle | _ \<Rightarrow> p))"

definition pc_phase :: "'e qd_pc \<Rightarrow> lock_phase \<Rightarrow> bool" where
  "pc_phase p ph \<longleftrightarrow>
     (case pc_locks p of
        Some (a, h) \<Rightarrow> ph = LpIdle \<or> ph = LpLocking a
      | None \<Rightarrow>
          (case p of
             HdGot h \<Rightarrow> False
           | HdRelease \<Rightarrow> ph = LpUnlocking
           | _ \<Rightarrow> ph = (if pc_crit p then LpCrit else LpIdle)))"

text \<open>The queue of QD_Lock knows which thread delegated an operation, the real one does not.\<close>

definition tq_untag :: "('t \<times> 'e) tqueue \<Rightarrow> 'e tqueue" where
  "tq_untag q =
     \<lparr>tq_open = tq_open q, tq_pend = map snd (tq_pend q), tq_calls = map_tq_call snd \<circ> tq_calls q\<rparr>"

definition lk_rel ::
  "('f, 'w, 'l) linked_config \<Rightarrow> ('l \<Rightarrow> bool) \<Rightarrow> ('f, 'w, 'l) linked_lock \<Rightarrow> ('f op, 'w) qd_lock \<Rightarrow> bool"
where
  "lk_rel C I s a \<longleftrightarrow>
     I (lk_mutex s) \<and> owner_rel (lc_holds (lx_lock C)) (lk_mutex s) (qd_owner a) \<and>
     db_rel (lx_queue C) (lk_queue s) (tq_untag (qd_queue a)) \<and>
     qd_world a = lk_world s \<and> qd_barrier a = lk_barrier s \<and> qd_readers a = lk_readers s \<and>
     (\<forall>t. qd_pc a t = abs_pc (lx_lock C) (lk_mutex s) t (lk_pc s t)) \<and>
     (\<forall>t. pc_phase (lk_pc s t) (lc_phase (lx_lock C) t (lk_mutex s))) \<and>
     (\<exists>d. qd_rel a d)"

lemma lk_relD:
  assumes "lk_rel C I s a"
  shows "I (lk_mutex s)" "owner_rel (lc_holds (lx_lock C)) (lk_mutex s) (qd_owner a)"
    "db_rel (lx_queue C) (lk_queue s) (tq_untag (qd_queue a))"
    "qd_world a = lk_world s" "qd_barrier a = lk_barrier s" "qd_readers a = lk_readers s"
    "qd_pc a t = abs_pc (lx_lock C) (lk_mutex s) t (lk_pc s t)"
    "pc_phase (lk_pc s t) (lc_phase (lx_lock C) t (lk_mutex s))" "\<exists>d. qd_rel a d"
  using assms by (auto simp: lk_rel_def)

lemma qd_rel_run:
  assumes "qd_rel a d" and "run (qd_step C) ls a = Some a'"
  shows "\<exists>d'. qd_rel a' d'"
  using assms
proof (induction ls arbitrary: a d)
  case (Cons l ls)
  then obtain a1 where a1: "qd_step C l a = Some a1" "run (qd_step C) ls a1 = Some a'" by (auto split: option.splits)
  obtain d1 where "qd_rel a1 d1" using qd_sim_step [OF Cons.prems(1) a1(1)] by blast
  from Cons.IH [OF this a1(2)] show ?case .
qed auto

text \<open>A step of thread \<open>t\<close>, seen from both sides.\<close>

lemma lk_relI:
  assumes rel: "lk_rel C I s a" and r: "run (qd_step Q) ls a = Some a'"
    and m: "I (lk_mutex s')" "owner_rel (lc_holds (lx_lock C)) (lk_mutex s') (qd_owner a')"
    and q: "db_rel (lx_queue C) (lk_queue s') (tq_untag (qd_queue a'))"
    and w: "qd_world a' = lk_world s'" "qd_barrier a' = lk_barrier s'" "qd_readers a' = lk_readers s'"
    and others: "\<And>u. u \<noteq> t \<Longrightarrow> lk_pc s' u = lk_pc s u"
      "\<And>u. u \<noteq> t \<Longrightarrow> lc_phase (lx_lock C) u (lk_mutex s') = lc_phase (lx_lock C) u (lk_mutex s)"
      "\<And>u. u \<noteq> t \<Longrightarrow> lc_holds (lx_lock C) u (lk_mutex s') = lc_holds (lx_lock C) u (lk_mutex s)"
    and pc: "qd_pc a' = (qd_pc a)(t := abs_pc (lx_lock C) (lk_mutex s') t (lk_pc s' t))"
    and ph: "pc_phase (lk_pc s' t) (lc_phase (lx_lock C) t (lk_mutex s'))"
  shows "lk_rel C I s' a'"
proof -
  have "qd_pc a' u = abs_pc (lx_lock C) (lk_mutex s') u (lk_pc s' u)" for u
    using pc lk_relD(7) [OF rel, of u] others [of u] by (cases "u = t") (auto simp: abs_pc_def)
  moreover have "pc_phase (lk_pc s' u) (lc_phase (lx_lock C) u (lk_mutex s'))" for u
    using ph lk_relD(8) [OF rel, of u] others [of u] by (cases "u = t") auto
  moreover have "\<exists>d. qd_rel a' d" using lk_relD(9) [OF rel] qd_rel_run [OF _ r] by blast
  ultimately show ?thesis using m q w by (simp add: lk_rel_def)
qed

section \<open>Steps of QD_Lock\<close>

lemma qd_acquires:
  "pc_locks (qd_pc a t) = Some (c, h) \<Longrightarrow> qd_owner a = None \<Longrightarrow>
   qd_step Q (QdDo t) a = Some (qd_goto t (HdGot h) (a\<lparr>qd_owner := Some t\<rparr>))"
  by (cases "qd_pc a t") (auto simp: qd_delegate_def qd_try_def qd_acquire_def)

lemma qd_returns: "qd_pc a t = HdGot h \<Longrightarrow> qd_step Q (QdDo t) a = Some (qd_goto t (pc_locked h) a)"
  by (cases h) (auto simp: qd_delegate_def qd_holder_def)

lemma qd_fails:
  "pc_locks (qd_pc a t) = Some (c, h) \<Longrightarrow> c \<noteq> Lock \<Longrightarrow>
   qd_step Q (QdFail t) a = Some (qd_goto t (pc_failed Q (qd_pc a t)) a)"
  by (cases "qd_pc a t") (auto simp: qd_fail_def)

lemma qd_releases:
  "qd_pc a t = HdRelease \<Longrightarrow> qd_step Q (QdDo t) a = Some (qd_goto t QdIdle (a\<lparr>qd_owner := None\<rparr>))"
  by (simp add: qd_delegate_def qd_holder_def)

lemma pc_phase_simps:
  "pc_phase (pc_locked h) ph \<longleftrightarrow> ph = LpCrit" "pc_locks (pc_locked h) = None" "pc_locked h \<noteq> HdRelease"
  by (cases h; simp add: pc_phase_def)+

lemma qd_loop_simps:
  "pc_phase (qd_loop Q x r) ph \<longleftrightarrow> ph = LpIdle \<or> \<not> (cf_may_starve Q \<or> r < 512) \<and> ph = LpLocking Lock"
  "qd_loop Q x r \<noteq> HdRelease"
  by (auto simp: qd_loop_def pc_phase_def)

lemma pc_failed_simps:
  assumes "pc_locks p = Some (c, h)" "c \<noteq> Lock"
  shows "pc_phase (pc_failed Q p) LpIdle" "pc_failed Q p \<noteq> HdRelease"
  using assms by (cases p; auto simp: qd_loop_simps)+

section \<open>The queue without the threads\<close>

lemma tq_untag_simps [simp]:
  "tq_open (tq_untag q) = tq_open q" "tq_pend (tq_untag q) = map snd (tq_pend q)"
  "tq_calls (tq_untag q) t = map_tq_call snd (tq_calls q t)"
  by (simp_all add: tq_untag_def)

lemma map_tq_call_iff:
  "map_tq_call f c = TqNone \<longleftrightarrow> c = TqNone"
  "map_tq_call f c = TqCalled y \<longleftrightarrow> (\<exists>x. c = TqCalled x \<and> f x = y)"
  "map_tq_call f c = TqAccepted y \<longleftrightarrow> (\<exists>x. c = TqAccepted x \<and> f x = y)"
  by (cases c; auto)+

lemma tq_untag_eqI:
  "tq_open q' = tq_open (q :: ('t \<times> 'e) tqueue) \<Longrightarrow> map snd (tq_pend q') = map snd (tq_pend q) \<Longrightarrow>
   (\<And>t. map_tq_call snd (tq_calls q' t) = map_tq_call snd (tq_calls q t)) \<Longrightarrow> tq_untag q' = tq_untag q"
  by (auto simp: tq_untag_def)

text \<open>A step of the queue without the threads is one of the queue with them.\<close>

fun tag_event :: "(tid \<times> 'e) tqueue \<Rightarrow> tid \<Rightarrow> 'e tq_event \<Rightarrow> (tid \<times> 'e) tq_event" where
  "tag_event q t (TqCall u e) = TqCall u (t, e)"
| "tag_event q t (TqAccept u) = TqAccept u"
| "tag_event q t (TqReturn u st) = TqReturn u st"
| "tag_event q t TqOpen = TqOpen"
| "tag_event q t TqClose = TqClose"
| "tag_event q t (TqExec e) = TqExec (hd (tq_pend q))"
| "tag_event q t TqDrained = TqDrained"

lemma tq_step_tagged:
  assumes "tq_step ev (tq_untag q) = Some q1"
  shows "\<exists>q'. tq_step (tag_event q t ev) q = Some q' \<and> tq_untag q' = q1"
  using assms
  by (cases ev; cases "tq_calls q t"; cases "tq_pend q")
    (auto simp: map_tq_call_iff tq_untag_def fun_eq_iff split: tq_call.splits if_splits option.splits)

lemma tq_exec_tagged:
  "tq_step (TqExec e) (tq_untag q) = Some q1 \<Longrightarrow> \<exists>x xs. tq_pend q = x # xs \<and> snd x = e"
  by (cases "tq_pend q") (auto split: if_splits)

section \<open>Events of the queue\<close>

lemma db_go_events:
  "db_events D s (QGo t) = [] \<or> db_events D s (QGo t) = [TqAccept t] \<or> (\<exists>st. db_events D s (QGo t) = [TqReturn t st])"
  by (cases "db_pc s t") auto

lemma db_owner_events:
  "db_events D s QOwner = [] \<or> db_events D s QOwner = [TqClose] \<or> (\<exists>e. db_events D s QOwner = [TqExec e]) \<or>
   db_events D s QOwner = [TqDrained]"
  by (cases "db_owner s") (auto split: option.splits prod.splits)

lemma db_rel_step:
  assumes ok: "db_ok D" and rel: "db_rel D s (tq_untag q)" and st: "db_step D l s = Some s'"
  shows "db_events D s l = [] \<Longrightarrow> db_rel D s' (tq_untag q)"
    and "db_events D s l = [ev] \<Longrightarrow>
      \<exists>q'. tq_step (tag_event q t ev) q = Some q' \<and> db_rel D s' (tq_untag q') \<and> tq_step ev (tq_untag q) \<noteq> None"
proof -
  obtain q1 where q1: "run tq_step (db_events D s l) (tq_untag q) = Some q1" "db_rel D s' q1"
    using db_sim_step [OF ok rel st] by blast
  show "db_rel D s' (tq_untag q)" if "db_events D s l = []" using q1 that by simp
  show "\<exists>q'. tq_step (tag_event q t ev) q = Some q' \<and> db_rel D s' (tq_untag q') \<and> tq_step ev (tq_untag q) \<noteq> None"
    if "db_events D s l = [ev]"
  proof -
    have "tq_step ev (tq_untag q) = Some q1" using q1(1) that by (auto split: option.splits)
    then show ?thesis using tq_step_tagged [of ev q q1 t] q1(2) by auto
  qed
qed

section \<open>The simulation\<close>

lemma abs_pc_locked: "abs_pc L m t (pc_locked h) = pc_locked h"
  by (cases h) (simp_all add: abs_pc_def)

lemma abs_pc_locks:
  "pc_locks p = Some (c, h) \<Longrightarrow> abs_pc L m t p = (if lc_holds L t m then HdGot h else p)"
  by (cases p) (auto simp: abs_pc_def)

lemma abs_pc_free: "\<not> lc_holds L t m \<Longrightarrow> p \<noteq> HdRelease \<Longrightarrow> abs_pc L m t p = p"
  by (simp add: abs_pc_def split: qd_pc.splits)

locale lock_linking = callable_lock "lc_step (lx_lock C)" "lc_init (lx_lock C)" I "lc_holds (lx_lock C)" crit
    "lc_is_locked (lx_lock C)" "lc_phase (lx_lock C)"
  for C :: "('f, 'w, 'l) linked_config" and I :: "'l \<Rightarrow> bool" and crit :: "tid \<Rightarrow> 'l \<Rightarrow> bool"
begin

text \<open>A step of a locking call: the lock is acquired or not, and the call goes on, returns or fails.\<close>

lemma locking_cases:
  assumes ph: "pc_phase (lk_pc s t) (lc_phase (lx_lock C) t (lk_mutex s))" and lk: "pc_locks (lk_pc s t) = Some (c, h)"
    and st: "lk_locking C t c h s = Some s'"
  obtains x m' p where "lc_step (lx_lock C) (t, x) (lk_mutex s) = Some m'" "s' = lk_goto t p (s\<lparr>lk_mutex := m'\<rparr>)"
    "p = (case lc_phase (lx_lock C) t m' of LpCrit \<Rightarrow> pc_locked h | LpIdle \<Rightarrow> pc_failed (lx_qd C) (lk_pc s t) | _ \<Rightarrow> lk_pc s t)"
    "c \<in> {Lock, TryLock, TryLockOrWait}"
    "lc_phase (lx_lock C) t m' = LpCrit \<or>
     lc_phase (lx_lock C) t m' = LpLocking c \<and> (lc_holds (lx_lock C) t (lk_mutex s) \<longrightarrow> lc_holds (lx_lock C) t m') \<or>
     lc_phase (lx_lock C) t m' = LpIdle \<and> c \<noteq> Lock \<and> \<not> lc_holds (lx_lock C) t (lk_mutex s)"
proof -
  let ?L = "lx_lock C" and ?m = "lk_mutex s"
  define x where "x = (if lc_phase ?L t ?m = LpIdle then c else Go)"
  obtain m' where m': "lc_step ?L (t, x) ?m = Some m'"
    using st by (auto simp: lk_locking_def Let_def x_def split: option.splits)
  define p where "p = (case lc_phase ?L t m' of LpCrit \<Rightarrow> pc_locked h | LpIdle \<Rightarrow> pc_failed (lx_qd C) (lk_pc s t) | _ \<Rightarrow> lk_pc s t)"
  have s': "s' = lk_goto t p (s\<lparr>lk_mutex := m'\<rparr>)"
    using st m' by (auto simp: lk_locking_def Let_def x_def p_def split: lock_phase.splits)
  have c: "c \<in> {Lock, TryLock, TryLockOrWait}" using lk by (cases "lk_pc s t") (auto split: if_splits)
  have "lc_phase ?L t m' = LpCrit \<or> lc_phase ?L t m' = LpLocking c \<and> (lc_holds ?L t ?m \<longrightarrow> lc_holds ?L t m') \<or>
      lc_phase ?L t m' = LpIdle \<and> c \<noteq> Lock \<and> \<not> lc_holds ?L t ?m"
  proof (cases "lc_phase ?L t ?m = LpIdle")
    case True
    then show ?thesis using step_call [of t c ?m m'] m' c phase_idle [OF True] by (simp add: x_def)
  next
    case False
    then show ?thesis using step_locking [of t ?m m' c] m' ph lk by (simp add: x_def pc_phase_def)
  qed
  then show thesis using that [OF m' s' _ c] by (simp add: p_def)
qed

end

locale linking = lock_linking C I crit
  for C :: "('f, 'w, 'l) linked_config" and I :: "'l \<Rightarrow> bool" and crit :: "tid \<Rightarrow> 'l \<Rightarrow> bool" +
  fixes M :: db_memory
  assumes queue_ok: "db_ok (lx_queue C)" and memory_ok: "db_zeroed (lx_queue C) M"
begin

lemma mutex_step:
  assumes rel: "I m" "owner_rel (lc_holds (lx_lock C)) m own" and st: "lc_step (lx_lock C) (t, x) m = Some m'"
  shows "I m'" "u \<noteq> t \<Longrightarrow> lc_holds (lx_lock C) u m' = lc_holds (lx_lock C) u m"
    "u \<noteq> t \<Longrightarrow> lc_phase (lx_lock C) u m' = lc_phase (lx_lock C) u m"
    "lc_holds (lx_lock C) t m' = lc_holds (lx_lock C) t m \<Longrightarrow> owner_rel (lc_holds (lx_lock C)) m' own"
    "\<not> lc_holds (lx_lock C) t m \<Longrightarrow> lc_holds (lx_lock C) t m' \<Longrightarrow>
       own = None \<and> owner_rel (lc_holds (lx_lock C)) m' (Some t)"
    "lc_holds (lx_lock C) t m \<Longrightarrow> \<not> lc_holds (lx_lock C) t m' \<Longrightarrow> owner_rel (lc_holds (lx_lock C)) m' None"
proof -
  show "I m'" by (rule inv_step [OF rel(1) st])
  show fr: "u \<noteq> t \<Longrightarrow> lc_holds (lx_lock C) u m' = lc_holds (lx_lock C) u m" for u by (rule frame [OF rel(1) st])
  show "u \<noteq> t \<Longrightarrow> lc_phase (lx_lock C) u m' = lc_phase (lx_lock C) u m" by (rule phase_frame [OF st])
  obtain h' where h': "run alock_step (lock_events (lc_step (lx_lock C)) (lc_holds (lx_lock C)) m (t, x)) own = Some h'"
      "owner_rel (lc_holds (lx_lock C)) m' h'"
    using owner_step [OF rel st] by blast
  show "lc_holds (lx_lock C) t m' = lc_holds (lx_lock C) t m \<Longrightarrow> owner_rel (lc_holds (lx_lock C)) m' own"
    using h' st by (simp add: lock_events_def)
  show "own = None \<and> owner_rel (lc_holds (lx_lock C)) m' (Some t)"
    if "\<not> lc_holds (lx_lock C) t m" "lc_holds (lx_lock C) t m'"
    using h' st that by (cases own) (auto simp: lock_events_def)
  show "owner_rel (lc_holds (lx_lock C)) m' None" if "lc_holds (lx_lock C) t m" "\<not> lc_holds (lx_lock C) t m'"
    using h' st that by (cases own) (auto simp: lock_events_def split: if_splits)
qed

text \<open>The place of a thread that is not in a call of the lock is the same on both sides.\<close>

lemma abs_pc_same:
  assumes "pc_phase p (lc_phase (lx_lock C) t m)" and "p \<noteq> HdRelease" and "pc_locks p = None \<or> \<not> lc_holds (lx_lock C) t m"
  shows "abs_pc (lx_lock C) m t p = p"
  using assms by (auto simp: abs_pc_def split: qd_pc.splits)

lemma outside_locking:
  assumes rel: "lk_rel C I s a" and p: "pc_locks (lk_pc s t) = None" "lk_pc s t \<noteq> HdRelease"
  shows "qd_pc a t = lk_pc s t"
    and "pc_phase p (lc_phase (lx_lock C) t (lk_mutex s)) \<Longrightarrow> pc_locks p = None \<or> \<not> lc_holds (lx_lock C) t (lk_mutex s)"
proof -
  have ph: "pc_phase (lk_pc s t) (lc_phase (lx_lock C) t (lk_mutex s))" by (rule lk_relD(8) [OF rel])
  show "qd_pc a t = lk_pc s t" using lk_relD(7) [OF rel, of t] abs_pc_same [OF ph p(2)] p(1) by simp
  have "lc_phase (lx_lock C) t (lk_mutex s) = LpCrit \<or> lc_phase (lx_lock C) t (lk_mutex s) = LpIdle"
    using ph p by (auto simp: pc_phase_def split: qd_pc.splits if_splits)
  then show "pc_phase p (lc_phase (lx_lock C) t (lk_mutex s)) \<Longrightarrow> pc_locks p = None \<or> \<not> lc_holds (lx_lock C) t (lk_mutex s)"
    using phase_idle by (auto simp: pc_phase_def split: option.splits)
qed

text \<open>A step that leaves the lock alone, and moves the thread to \<open>p\<close> on both sides.\<close>

lemma sim_move:
  assumes rel: "lk_rel C I s a" and r: "run (qd_step Q) ls a = Some a'"
    and from_pc: "pc_locks (lk_pc s t) = None" "lk_pc s t \<noteq> HdRelease"
    and p: "lk_pc s' = (lk_pc s)(t := p)" "qd_pc a' = (qd_pc a)(t := p)" "p \<noteq> HdRelease"
      "pc_phase p (lc_phase (lx_lock C) t (lk_mutex s))"
    and m: "lk_mutex s' = lk_mutex s" "qd_owner a' = qd_owner a"
    and q: "db_rel (lx_queue C) (lk_queue s') (tq_untag (qd_queue a'))"
    and w: "qd_world a' = lk_world s'" "qd_barrier a' = lk_barrier s'" "qd_readers a' = lk_readers s'"
  shows "lk_rel C I s' a'"
proof (rule lk_relI [OF rel r _ _ q w, where t = t])
  show "I (lk_mutex s')" "owner_rel (lc_holds (lx_lock C)) (lk_mutex s') (qd_owner a')"
    using m lk_relD(1,2) [OF rel] by simp_all
  show "qd_pc a' = (qd_pc a)(t := abs_pc (lx_lock C) (lk_mutex s') t (lk_pc s' t))"
    using p abs_pc_same [OF p(4,3) outside_locking(2) [OF rel from_pc p(4)]] m by simp
qed (use p m in simp_all)

section \<open>Steps of the lock\<close>

lemma sim_locking:
  assumes rel: "lk_rel C I s a" and lk: "pc_locks (lk_pc s t) = Some (c, h)" and st: "lk_locking C t c h s = Some s'"
  shows "\<exists>a'. run (qd_step (lx_qd C)) (lock_labels (lx_lock C) t (lk_mutex s) (lk_mutex s')) a = Some a' \<and> lk_rel C I s' a'"
proof -
  let ?L = "lx_lock C" and ?Q = "lx_qd C" and ?m = "lk_mutex s"
  obtain x m' p where m': "lc_step ?L (t, x) ?m = Some m'" and s': "s' = lk_goto t p (s\<lparr>lk_mutex := m'\<rparr>)"
    and p_def: "p = (case lc_phase ?L t m' of LpCrit \<Rightarrow> pc_locked h | LpIdle \<Rightarrow> pc_failed ?Q (lk_pc s t) | _ \<Rightarrow> lk_pc s t)"
    and c: "c \<in> {Lock, TryLock, TryLockOrWait}"
    and after: "lc_phase ?L t m' = LpCrit \<or> lc_phase ?L t m' = LpLocking c \<and> (lc_holds ?L t ?m \<longrightarrow> lc_holds ?L t m') \<or>
      lc_phase ?L t m' = LpIdle \<and> c \<noteq> Lock \<and> \<not> lc_holds ?L t ?m"
    by (rule locking_cases [OF lk_relD(8) [OF rel] lk st])
  have crit_holds': "lc_phase ?L t m' = LpCrit \<Longrightarrow> lc_holds ?L t m'" using phase_crit crit_holds by blast
  have idle': "lc_phase ?L t m' = LpIdle \<Longrightarrow> \<not> lc_holds ?L t m'" by (rule phase_idle)
  note M = mutex_step [OF lk_relD(1,2) [OF rel] m']
  have pc: "qd_pc a t = (if lc_holds ?L t ?m then HdGot h else lk_pc s t)"
    using lk_relD(7) [OF rel, of t] lk by (auto simp: abs_pc_def split: qd_pc.splits)
  define a1 where "a1 = (if \<not> lc_holds ?L t ?m \<and> lc_holds ?L t m' then qd_goto t (HdGot h) (a\<lparr>qd_owner := Some t\<rparr>) else a)"
  have r1: "run (qd_step ?Q) (if \<not> lc_holds ?L t ?m \<and> lc_holds ?L t m' then [QdDo t] else []) a = Some a1"
    using qd_acquires [of a t c h ?Q] pc lk M(5) by (auto simp: a1_def)
  have pc1: "qd_pc a1 t = (if lc_holds ?L t m' \<or> lc_holds ?L t ?m then HdGot h else lk_pc s t)"
    using pc by (auto simp: a1_def qd_goto_def)
  define a' where "a' = (case lc_phase ?L t m' of LpCrit \<Rightarrow> qd_goto t (pc_locked h) a1
      | LpIdle \<Rightarrow> qd_goto t (pc_failed ?Q (lk_pc s t)) a1 | _ \<Rightarrow> a1)"
  have r2: "run (qd_step ?Q) (case lc_phase ?L t m' of LpCrit \<Rightarrow> [QdDo t] | LpIdle \<Rightarrow> [QdFail t] | _ \<Rightarrow> []) a1 = Some a'"
    using after pc1 lk crit_holds' idle' qd_returns [of a1 t h ?Q] qd_fails [of a1 t c h ?Q]
    by (auto simp: a'_def simp del: qd_step.simps)
  have r: "run (qd_step ?Q) (lock_labels ?L t ?m m') a = Some a'"
    unfolding lock_labels_def using r1 r2 by (simp add: run_append)
  have own: "qd_owner a' = qd_owner a1" "qd_queue a' = qd_queue a" "qd_world a' = qd_world a"
      "qd_barrier a' = qd_barrier a" "qd_readers a' = qd_readers a"
    by (auto simp: a'_def a1_def qd_goto_def split: lock_phase.splits)
  have "lk_rel C I s' a'"
  proof (rule lk_relI [OF rel r, where t = t])
    show "I (lk_mutex s')" using M(1) by (simp add: s' lk_goto_def)
    have "lc_holds ?L t ?m \<Longrightarrow> lc_holds ?L t m'" using after crit_holds' by auto
    then show "owner_rel (lc_holds ?L) (lk_mutex s') (qd_owner a')"
      using M(4,5) own(1) by (cases "lc_holds ?L t ?m") (auto simp: s' lk_goto_def a1_def qd_goto_def)
    show "qd_pc a' = (qd_pc a)(t := abs_pc ?L (lk_mutex s') t (lk_pc s' t))"
      using after lk pc crit_holds' idle' pc_failed_simps(2) [OF lk, of ?Q]
      by (elim disjE) (auto simp: s' lk_goto_def a'_def a1_def p_def qd_goto_def abs_pc_locked abs_pc_locks [OF lk] abs_pc_free fun_eq_iff)
    show "pc_phase (lk_pc s' t) (lc_phase ?L t (lk_mutex s'))"
      using after lk pc_failed_simps(1) [OF lk, of ?Q]
      by (auto simp: s' lk_goto_def p_def pc_phase_simps) (auto simp: pc_phase_def)
  qed (use M(2,3) own lk_relD(3-6) [OF rel] in \<open>simp_all add: s' lk_goto_def\<close>)
  then show ?thesis using r by (auto simp: s' lk_goto_def)
qed

end

context linking begin

lemma sim_unlocking:
  assumes rel: "lk_rel C I s a" and r: "run (qd_step (lx_qd C)) ls a = Some a1"
    and a1: "a1 = a \<or> a1 = qd_goto t HdRelease a"
      "qd_pc a1 t = (if lc_holds (lx_lock C) t (lk_mutex s) then HdRelease else QdIdle)"
    and st: "lk_unlocking C t x s = Some s'" and m': "lc_step (lx_lock C) (t, x) (lk_mutex s) = Some m'"
    and after: "lc_phase (lx_lock C) t m' \<in> {LpUnlocking, LpIdle}"
      "lc_holds (lx_lock C) t m' \<longrightarrow> lc_holds (lx_lock C) t (lk_mutex s)"
  shows "\<exists>a'. run (qd_step (lx_qd C)) (ls @ unlock_labels (lx_lock C) t (lk_mutex s) (lk_mutex s')) a = Some a' \<and>
    lk_rel C I s' a'"
proof -
  let ?L = "lx_lock C" and ?m = "lk_mutex s"
  define p :: "'f op qd_pc" where "p = (if lc_phase ?L t m' = LpIdle then QdIdle else HdRelease)"
  have s': "s' = lk_goto t p (s\<lparr>lk_mutex := m'\<rparr>)" using st m' by (simp add: lk_unlocking_def p_def)
  have idle': "lc_phase ?L t m' = LpIdle \<Longrightarrow> \<not> lc_holds ?L t m'" by (rule phase_idle)
  note M = mutex_step [OF lk_relD(1,2) [OF rel] m']
  define a' where "a' = (if lc_holds ?L t ?m \<and> \<not> lc_holds ?L t m' then qd_goto t QdIdle (a1\<lparr>qd_owner := None\<rparr>) else a1)"
  have r': "run (qd_step (lx_qd C)) (ls @ unlock_labels ?L t ?m (lk_mutex s')) a = Some a'"
    using r qd_releases [of a1 t "lx_qd C"] a1(2)
    by (simp add: run_append s' lk_goto_def unlock_labels_def a'_def del: qd_step.simps)
  have same: "qd_queue a' = qd_queue a" "qd_world a' = qd_world a" "qd_barrier a' = qd_barrier a" "qd_readers a' = qd_readers a"
      "qd_owner a1 = qd_owner a" "\<And>u. u \<noteq> t \<Longrightarrow> qd_pc a1 u = qd_pc a u"
    using a1(1) by (auto simp: a'_def qd_goto_def)
  have "lk_rel C I s' a'"
  proof (rule lk_relI [OF rel r', where t = t])
    show "I (lk_mutex s')" using M(1) by (simp add: s' lk_goto_def)
    show "owner_rel (lc_holds ?L) (lk_mutex s') (qd_owner a')"
      using M(4,6) after(2) same(5) by (cases "lc_holds ?L t ?m") (auto simp: s' lk_goto_def a'_def qd_goto_def)
    have "qd_pc a' t = abs_pc ?L m' t p"
      using a1(2) after idle' by (auto simp: a'_def qd_goto_def abs_pc_def p_def)
    moreover have "qd_pc a' u = qd_pc a u" if "u \<noteq> t" for u using same(6) [OF that] that by (simp add: a'_def qd_goto_def)
    ultimately show "qd_pc a' = (qd_pc a)(t := abs_pc ?L (lk_mutex s') t (lk_pc s' t))"
      by (auto simp: s' lk_goto_def)
    show "pc_phase (lk_pc s' t) (lc_phase ?L t (lk_mutex s'))"
      using after(1) by (auto simp: s' lk_goto_def p_def pc_phase_def)
  qed (use M(2,3) same lk_relD(3-6) [OF rel] in \<open>simp_all add: s' lk_goto_def\<close>)
  with r' show ?thesis by blast
qed

lemma sim_unlock:
  assumes rel: "lk_rel C I s a" and pc: "lk_pc s t = HdUnlock \<and> l = QdDo t \<or> lk_pc s t = HdRun UserLock \<and> l = QdUnlock t"
    and st: "lk_unlocking C t Unlock s = Some s'"
  shows "\<exists>a'. run (qd_step (lx_qd C)) (l # unlock_labels (lx_lock C) t (lk_mutex s) (lk_mutex s')) a = Some a' \<and> lk_rel C I s' a'"
proof -
  obtain m' where m': "lc_step (lx_lock C) (t, Unlock) (lk_mutex s) = Some m'"
    using st by (auto simp: lk_unlocking_def split: option.splits)
  have "lc_phase (lx_lock C) t (lk_mutex s) = LpCrit" using lk_relD(8) [OF rel, of t] pc by (auto simp: pc_phase_def)
  then have h: "lc_holds (lx_lock C) t (lk_mutex s)" using phase_crit crit_holds by blast
  have "qd_pc a t = lk_pc s t" using outside_locking(1) [OF rel, of t] pc by auto
  then have r: "run (qd_step (lx_qd C)) [l] a = Some (qd_goto t HdRelease a)"
    using pc by (auto simp: qd_delegate_def qd_holder_def)
  have "qd_pc (qd_goto t HdRelease a) t = (if lc_holds (lx_lock C) t (lk_mutex s) then HdRelease else QdIdle)"
    using h by (simp add: qd_goto_def)
  from sim_unlocking [OF rel r _ this st m' step_unlock [OF m']] h show ?thesis by simp
qed

lemma sim_release:
  assumes rel: "lk_rel C I s a" and pc: "lk_pc s t = HdRelease" and st: "lk_unlocking C t Go s = Some s'"
  shows "\<exists>a'. run (qd_step (lx_qd C)) (unlock_labels (lx_lock C) t (lk_mutex s) (lk_mutex s')) a = Some a' \<and> lk_rel C I s' a'"
proof -
  obtain m' where m': "lc_step (lx_lock C) (t, Go) (lk_mutex s) = Some m'"
    using st by (auto simp: lk_unlocking_def split: option.splits)
  have ph: "lc_phase (lx_lock C) t (lk_mutex s) = LpUnlocking" using lk_relD(8) [OF rel, of t] pc by (simp add: pc_phase_def)
  have "qd_pc a t = (if lc_holds (lx_lock C) t (lk_mutex s) then HdRelease else QdIdle)"
    using lk_relD(7) [OF rel, of t] pc by (simp add: abs_pc_def)
  from sim_unlocking [OF rel _ _ this st m', of "[]"] step_unlocking [OF m' ph] show ?thesis by simp
qed

lemma sim_intr:
  assumes rel: "lk_rel C I s a" and m': "lc_step (lx_lock C) (t, Intr) (lk_mutex s) = Some m'"
  shows "lk_rel C I (s\<lparr>lk_mutex := m'\<rparr>) a"
proof (rule lk_relI [OF rel, where ls = "[]" and t = t])
  note M = mutex_step [OF lk_relD(1,2) [OF rel] m']
  note n = step_intr [OF m']
  show "I (lk_mutex (s\<lparr>lk_mutex := m'\<rparr>))" using M(1) by simp
  show "owner_rel (lc_holds (lx_lock C)) (lk_mutex (s\<lparr>lk_mutex := m'\<rparr>)) (qd_owner a)" using M(4) n by simp
  show "qd_pc a = (qd_pc a)(t := abs_pc (lx_lock C) (lk_mutex (s\<lparr>lk_mutex := m'\<rparr>)) t (lk_pc (s\<lparr>lk_mutex := m'\<rparr>) t))"
    using lk_relD(7) [OF rel, of t] n by (simp add: abs_pc_def fun_upd_idem)
  show "pc_phase (lk_pc (s\<lparr>lk_mutex := m'\<rparr>) t) (lc_phase (lx_lock C) t (lk_mutex (s\<lparr>lk_mutex := m'\<rparr>)))"
    using lk_relD(8) [OF rel, of t] n by simp
qed (use mutex_step(2,3) [OF lk_relD(1,2) [OF rel] m'] lk_relD(3-6) [OF rel] in simp_all)

end

section \<open>Steps of the queue\<close>

context linking begin

lemma sim_queue_move:
  assumes rel: "lk_rel C I s a" and pc: "pc_locks (lk_pc s t) = None" "lk_pc s t \<noteq> HdRelease"
    and p: "p \<noteq> HdRelease" "pc_phase p (lc_phase (lx_lock C) t (lk_mutex s))"
    and q: "db_rel (lx_queue C) q (tq_untag q')"
    and r: "run (qd_step (lx_qd C)) ls a = Some (qd_goto t p (a\<lparr>qd_queue := q', qd_world := w\<rparr>))"
  shows "lk_rel C I (lk_goto t p (s\<lparr>lk_queue := q, lk_world := w\<rparr>)) (qd_goto t p (a\<lparr>qd_queue := q', qd_world := w\<rparr>))"
  by (rule sim_move [OF rel r pc _ _ p])
    (use q lk_relD(4-6) [OF rel] in \<open>simp_all add: lk_goto_def qd_goto_def\<close>)

lemma sim_enqueue_call:
  assumes rel: "lk_rel C I s a" and pc: "lk_pc s t = DlEnqueue x r" and st: "lk_enqueue C t s = Some s'"
  shows "\<exists>a'. run (qd_step (lx_qd C)) [QdDo t] a = Some a' \<and> lk_rel C I s' a'"
proof -
  let ?D = "lx_queue C" and ?l = "QCall t (fst x) (snd x)"
  obtain q where q: "db_step ?D ?l (lk_queue s) = Some q"
    and s': "s' = lk_goto t (DlEnqueuing x r) (s\<lparr>lk_queue := q\<rparr>)"
    using st pc by (auto simp: lk_enqueue_def lk_queue_step_def simp del: db_step.simps split: option.splits)
  obtain q' where q': "tq_step (TqCall t (t, x)) (qd_queue a) = Some q'" "db_rel ?D q (tq_untag q')"
    using db_rel_step(2) [OF queue_ok lk_relD(3) [OF rel] q, of "TqCall t x" t] by auto
  have l: "pc_locks (lk_pc s t) = None" "lk_pc s t \<noteq> HdRelease" using pc by simp_all
  have ph: "pc_phase (DlEnqueuing x r) (lc_phase (lx_lock C) t (lk_mutex s))"
    using lk_relD(8) [OF rel, of t] pc by (simp add: pc_phase_def)
  have apc: "qd_pc a t = DlEnqueue x r" using outside_locking(1) [OF rel l] pc by simp
  have r: "run (qd_step (lx_qd C)) [QdDo t] a =
      Some (qd_goto t (DlEnqueuing x r) (a\<lparr>qd_queue := q', qd_world := qd_world a\<rparr>))"
    using apc q'(1) by (simp add: qd_delegate_def qd_queue_step_def del: tq_step.simps)
  show ?thesis using sim_queue_move [OF rel l _ ph q'(2) r] r lk_relD(4) [OF rel]
    by (auto simp: s' lk_goto_def)
qed

lemma sim_enqueue_go:
  assumes rel: "lk_rel C I s a" and pc: "lk_pc s t = DlEnqueuing x r \<or> lk_pc s t = DlEnqueued x r"
    and st: "lk_enqueue C t s = Some s'"
  shows "\<exists>a'. run (qd_step (lx_qd C)) (map (queue_label t) (db_events (lx_queue C) (lk_queue s) (QGo t))) a = Some a' \<and>
    lk_rel C I s' a'"
proof -
  let ?D = "lx_queue C" and ?es = "db_events (lx_queue C) (lk_queue s) (QGo t)"
  obtain q where q: "db_step ?D (QGo t) (lk_queue s) = Some q"
    and s': "s' = lk_goto t (pc_enqueue ?es (lk_pc s t)) (s\<lparr>lk_queue := q\<rparr>)"
    using st pc by (auto simp: lk_enqueue_def lk_queue_step_def simp del: db_step.simps db_events.simps split: option.splits)
  have l: "pc_locks (lk_pc s t) = None" "lk_pc s t \<noteq> HdRelease" using pc by auto
  have idle: "lc_phase (lx_lock C) t (lk_mutex s) = LpIdle" using lk_relD(8) [OF rel, of t] pc by (auto simp: pc_phase_def)
  have apc: "qd_pc a t = lk_pc s t" by (rule outside_locking(1) [OF rel l])
  have calls: "tq_calls (qd_queue a) t = pc_call t (qd_pc a t)" using lk_relD(9) [OF rel] qd_relD(4) by blast
  have fin: ?thesis
    if es: "?es = [ev]" and q': "tq_step (tag_event (qd_queue a) t ev) (qd_queue a) = Some q'" "db_rel ?D q (tq_untag q')"
      and go: "qd_step (lx_qd C) (queue_label t ev) a = qd_queue_step t (tag_event (qd_queue a) t ev) p a"
      and p: "pc_enqueue [ev] (lk_pc s t) = p" "p \<noteq> HdRelease" "pc_phase p LpIdle" for ev q' p
  proof -
    have r: "run (qd_step (lx_qd C)) (map (queue_label t) ?es) a = Some (qd_goto t p (a\<lparr>qd_queue := q', qd_world := qd_world a\<rparr>))"
      using es go q'(1) by (simp add: qd_queue_step_def del: tq_step.simps qd_step.simps db_events.simps)
    show ?thesis using sim_queue_move [OF rel l p(2) p(3)[folded idle] q'(2) r] r lk_relD(4) [OF rel] p(1)
      by (auto simp: s' es lk_goto_def simp del: db_events.simps)
  qed
  note Q = db_rel_step [OF queue_ok lk_relD(3) [OF rel] q]
  consider "?es = []" | "?es = [TqAccept t]" | st where "?es = [TqReturn t st]" using db_go_events by blast
  then show ?thesis
  proof cases
    case 1
    have r: "run (qd_step (lx_qd C)) [] a = Some a" by simp
    have same: "pc_enqueue [] (lk_pc s t) = lk_pc s t" using pc by auto
    have "lk_rel C I s' a"
      by (rule sim_move [OF rel r l, where p = "lk_pc s t"])
        (use 1 apc l(2) Q(1) lk_relD(4-6,8) [OF rel] same in \<open>simp_all add: s' lk_goto_def fun_upd_idem del: db_events.simps\<close>)
    then show ?thesis using 1 by simp
  next
    case 2
    obtain q' where q': "tq_step (tag_event (qd_queue a) t (TqAccept t)) (qd_queue a) = Some q'" "db_rel ?D q (tq_untag q')"
      using Q(2) [OF 2, of t] by blast
    have "lk_pc s t = DlEnqueuing x r" using q'(1) calls apc pc by (auto split: if_splits)
    then show ?thesis using fin [OF 2 q'] apc by (simp add: qd_accept_def pc_phase_def)
  next
    case (3 st)
    obtain q' where q': "tq_step (tag_event (qd_queue a) t (TqReturn t st)) (qd_queue a) = Some q'" "db_rel ?D q (tq_untag q')"
      using Q(2) [OF 3, of t] by blast
    let ?p = "if st = SUCCESS then QdIdle else DlRetry x r"
    have go: "qd_step (lx_qd C) (queue_label t (TqReturn t st)) a =
        qd_queue_step t (tag_event (qd_queue a) t (TqReturn t st)) ?p a"
      using apc pc by (auto simp: qd_try_enqueue_def)
    have "pc_enqueue [TqReturn t st] (lk_pc s t) = ?p" "?p \<noteq> HdRelease" "pc_phase ?p LpIdle"
      using pc by (auto simp: pc_phase_def)
    from fin [OF 3 q' go this] show ?thesis .
  qed
qed

end

context linking begin

lemma sim_open:
  assumes rel: "lk_rel C I s a" and pc: "lk_pc s t = HdOpen x"
    and st: "lk_queue_step C t QOpen (\<lambda>_. HdWait (Helper x) 0) s = Some s'"
  shows "\<exists>a'. run (qd_step (lx_qd C)) [QdDo t] a = Some a' \<and> lk_rel C I s' a'"
proof -
  let ?D = "lx_queue C" and ?p = "HdWait (Helper x) 0"
  obtain q where q: "db_step ?D QOpen (lk_queue s) = Some q" and s': "s' = lk_goto t ?p (s\<lparr>lk_queue := q\<rparr>)"
    using st by (auto simp: lk_queue_step_def simp del: db_step.simps split: option.splits)
  obtain q' where q': "tq_step TqOpen (qd_queue a) = Some q'" "db_rel ?D q (tq_untag q')"
    using db_rel_step(2) [OF queue_ok lk_relD(3) [OF rel] q, of TqOpen t] by auto
  have l: "pc_locks (lk_pc s t) = None" "lk_pc s t \<noteq> HdRelease" using pc by simp_all
  have ph: "pc_phase ?p (lc_phase (lx_lock C) t (lk_mutex s))"
    using lk_relD(8) [OF rel, of t] pc by (simp add: pc_phase_def)
  have apc: "qd_pc a t = HdOpen x" using outside_locking(1) [OF rel l] pc by simp
  have r: "run (qd_step (lx_qd C)) [QdDo t] a = Some (qd_goto t ?p (a\<lparr>qd_queue := q', qd_world := qd_world a\<rparr>))"
    using apc q'(1) by (simp add: qd_delegate_def qd_holder_def qd_queue_step_def del: tq_step.simps)
  show ?thesis using sim_queue_move [OF rel l _ ph q'(2) r] r lk_relD(4) [OF rel]
    by (auto simp: s' lk_goto_def)
qed

lemma sim_flush:
  assumes rel: "lk_rel C I s a" and pc: "lk_pc s t = HdFlush" and st: "lk_flush C t s = Some s'"
  shows "\<exists>a'. run (qd_step (lx_qd C))
      (if db_step (lx_queue C) QFlush (lk_queue s) \<noteq> None then []
       else map (queue_label t) (db_events (lx_queue C) (lk_queue s) QOwner)) a = Some a' \<and> lk_rel C I s' a'"
proof -
  let ?D = "lx_queue C" and ?Q = "lx_qd C"
  let ?es = "db_events ?D (lk_queue s) QOwner"
  have l: "pc_locks (lk_pc s t) = None" "lk_pc s t \<noteq> HdRelease" using pc by simp_all
  have crit: "lc_phase (lx_lock C) t (lk_mutex s) = LpCrit" using lk_relD(8) [OF rel, of t] pc by (simp add: pc_phase_def)
  have apc: "qd_pc a t = HdFlush" using outside_locking(1) [OF rel l] pc by simp
  have stay: "lk_rel C I (lk_goto t HdFlush (s\<lparr>lk_queue := q\<rparr>)) a" if "db_rel ?D q (tq_untag (qd_queue a))" for q
    by (rule sim_move [where Q = ?Q and ls = "[]" and p = HdFlush, OF rel _ l])
      (use that apc crit lk_relD(4-6) [OF rel] in \<open>simp_all add: lk_goto_def fun_upd_idem pc_phase_def\<close>)
  show ?thesis
  proof (cases "db_step ?D QFlush (lk_queue s)")
    case (Some q)
    have "db_rel ?D q (tq_untag (qd_queue a))"
      using db_rel_step(1) [OF queue_ok lk_relD(3) [OF rel] Some] by simp
    moreover have "s' = lk_goto t HdFlush (s\<lparr>lk_queue := q\<rparr>)"
      using st Some by (simp add: lk_flush_def lk_queue_step_def del: db_step.simps)
    ultimately show ?thesis using stay Some by auto
  next
    case None
    then obtain q where q: "db_step ?D QOwner (lk_queue s) = Some q"
      and s': "s' = lk_goto t (if ?es = [TqDrained] then HdUnlock else HdFlush)
        (s\<lparr>lk_queue := q, lk_world := flush_exec ?Q ?es (lk_world s)\<rparr>)"
      using st by (auto simp: lk_flush_def lk_queue_step_def lk_goto_def simp del: db_step.simps db_events.simps split: option.splits)
    note R = db_rel_step [OF queue_ok lk_relD(3) [OF rel] q]
    have fin: ?thesis
      if es: "?es = [ev]" and q': "db_rel ?D q (tq_untag q')"
        and go: "qd_step ?Q (queue_label t ev) a = Some (qd_goto t p (a\<lparr>qd_queue := q', qd_world := w\<rparr>))"
        and p: "p = (if ev = TqDrained then HdUnlock else HdFlush)" "w = flush_exec ?Q [ev] (lk_world s)" for ev q' p w
    proof -
      have r: "run (qd_step ?Q) (map (queue_label t) ?es) a = Some (qd_goto t p (a\<lparr>qd_queue := q', qd_world := w\<rparr>))"
        using es go by (simp del: qd_step.simps db_events.simps)
      have "p \<noteq> HdRelease" "pc_phase p (lc_phase (lx_lock C) t (lk_mutex s))" using p(1) crit by (simp_all add: pc_phase_def)
      from sim_queue_move [OF rel l this q' r] r show ?thesis
        using None p by (auto simp: s' es simp del: db_events.simps db_step.simps)
    qed
    consider "?es = []" | "?es = [TqClose]" | e where "?es = [TqExec e]" | "?es = [TqDrained]" using db_owner_events by blast
    then show ?thesis
    proof cases
      case 1
      have "s' = lk_goto t HdFlush (s\<lparr>lk_queue := q\<rparr>)" using s' 1 by (simp add: lk_goto_def del: db_events.simps)
      then show ?thesis using stay [OF R(1) [OF 1]] 1 None by (simp del: db_events.simps db_step.simps)
    next
      case 2
      obtain q' where q': "tq_step TqClose (qd_queue a) = Some q'" "db_rel ?D q (tq_untag q')" using R(2) [OF 2, of t] by auto
      have "qd_step ?Q (queue_label t TqClose) a = Some (qd_goto t HdFlush (a\<lparr>qd_queue := q', qd_world := qd_world a\<rparr>))"
        using apc q'(1) by (simp add: qd_flush_def qd_queue_step_def del: tq_step.simps)
      from fin [OF 2 q'(2) this] show ?thesis using lk_relD(4) [OF rel] by simp
    next
      case (3 e)
      obtain q' where q': "tq_step (TqExec (hd (tq_pend (qd_queue a)))) (qd_queue a) = Some q'" "db_rel ?D q (tq_untag q')"
          "tq_step (TqExec e) (tq_untag (qd_queue a)) \<noteq> None" using R(2) [OF 3, of t] by auto
      obtain x xs where x: "tq_pend (qd_queue a) = x # xs" "snd x = e" using q'(3) tq_exec_tagged by fastforce
      have "qd_step ?Q (queue_label t (TqExec e)) a =
          Some (qd_goto t HdFlush (a\<lparr>qd_queue := q', qd_world := cf_exec ?Q e (qd_world a)\<rparr>))"
        using apc q'(1) x by (simp add: qd_flush_def qd_queue_step_def qd_execute_def qd_goto_def del: tq_step.simps)
      from fin [OF 3 q'(2) this] show ?thesis using lk_relD(4) [OF rel] by simp
    next
      case 4
      obtain q' where q': "tq_step TqDrained (qd_queue a) = Some q'" "db_rel ?D q (tq_untag q')" using R(2) [OF 4, of t] by auto
      have "qd_step ?Q (queue_label t TqDrained) a = Some (qd_goto t HdUnlock (a\<lparr>qd_queue := q', qd_world := qd_world a\<rparr>))"
        using apc q'(1) by (simp add: qd_flush_def qd_queue_step_def del: tq_step.simps)
      from fin [OF 4 q'(2) this] show ?thesis using lk_relD(4) [OF rel] by simp
    qed
  qed
qed

end

section \<open>All steps\<close>

context linking begin

text \<open>\<open>is_locked\<close> answers true while a thread is between the return of its locking call and its call of \<open>unlock\<close>.\<close>

lemma may_see:
  assumes rel: "lk_rel C I s a"
  shows "qd_may_see (lc_is_locked (lx_lock C) (lk_mutex s)) a"
proof (cases "qd_owner a")
  case (Some u)
  have "lc_is_locked (lx_lock C) (lk_mutex s)" if c: "pc_crit (qd_pc a u)"
  proof -
    have "qd_pc a u = lk_pc s u"
      using lk_relD(7) [OF rel, of u] c by (auto simp: abs_pc_def split: if_splits option.splits qd_pc.splits)
    then have "lc_phase (lx_lock C) u (lk_mutex s) = LpCrit"
      using lk_relD(8) [OF rel, of u] c by (cases "lk_pc s u") (auto simp: pc_phase_def)
    then show ?thesis using crit_locked [OF lk_relD(1) [OF rel]] phase_crit by blast
  qed
  then show ?thesis using Some by (simp add: qd_may_see_def)
qed (simp add: qd_may_see_def)

lemma sim_local:
  assumes rel: "lk_rel C I s a" and l: "pc_locks (lk_pc s t) = None" and st: "lk_local C t s = Some s'"
  shows "\<exists>a'. run (qd_step (lx_qd C))
      [if lk_pc s t \<in> range (case_prod RdTest) \<union> range (case_prod RdSpin)
       then QdSee t (lc_is_locked (lx_lock C) (lk_mutex s)) else QdDo t] a = Some a' \<and> lk_rel C I s' a'"
proof -
  let ?Q = "lx_qd C" and ?b = "lc_is_locked (lx_lock C) (lk_mutex s)"
  let ?l = "if lk_pc s t \<in> range (case_prod RdTest) \<union> range (case_prod RdSpin) then QdSee t ?b else QdDo t"
  have n: "lk_pc s t \<noteq> HdRelease" using st by (auto simp: lk_local_def)
  note apc = outside_locking(1) [OF rel l n]
  have "qd_pc a t = lk_pc s t \<and> pc_phase (lk_pc s t) (lc_phase (lx_lock C) t (lk_mutex s)) \<and>
      qd_world a = lk_world s \<and> qd_barrier a = lk_barrier s \<and> qd_readers a = lk_readers s \<and> qd_may_see ?b a"
    using apc lk_relD(4-6,8) [OF rel] may_see [OF rel] by simp
  then have step: "\<exists>a'. qd_step ?Q ?l a = Some a' \<and> qd_owner a' = qd_owner a \<and> qd_queue a' = qd_queue a \<and>
      qd_world a' = lk_world s' \<and> qd_barrier a' = lk_barrier s' \<and> qd_readers a' = lk_readers s' \<and>
      qd_pc a' = (qd_pc a)(t := lk_pc s' t) \<and> lk_mutex s' = lk_mutex s \<and> lk_queue s' = lk_queue s \<and>
      lk_pc s' = (lk_pc s)(t := lk_pc s' t) \<and> lk_pc s' t \<noteq> HdRelease \<and>
      pc_phase (lk_pc s' t) (lc_phase (lx_lock C) t (lk_mutex s))"
    using st
    by (cases "lk_pc s t")
      (auto simp: lk_local_def Let_def lk_goto_def qd_delegate_def qd_holder_def qd_rlock_def qd_see_def qd_goto_def
        qd_execute_def qd_wait_readers_def pc_wait_readers_def pc_phase_def fun_upd_idem image_iff
        split: hold.splits if_splits sum.splits)
  then obtain a' where a': "qd_step ?Q ?l a = Some a'" "qd_owner a' = qd_owner a" "qd_queue a' = qd_queue a"
      "qd_world a' = lk_world s'" "qd_barrier a' = lk_barrier s'" "qd_readers a' = lk_readers s'"
      "qd_pc a' = (qd_pc a)(t := lk_pc s' t)" "lk_mutex s' = lk_mutex s" "lk_queue s' = lk_queue s"
      "lk_pc s' = (lk_pc s)(t := lk_pc s' t)" "lk_pc s' t \<noteq> HdRelease"
      "pc_phase (lk_pc s' t) (lc_phase (lx_lock C) t (lk_mutex s))" by blast
  have r: "run (qd_step ?Q) [?l] a = Some a'" using a'(1) by (simp del: qd_step.simps)
  have q: "db_rel (lx_queue C) (lk_queue s') (tq_untag (qd_queue a'))" using lk_relD(3) [OF rel] a'(3,9) by simp
  have "lk_rel C I s' a'" by (rule sim_move [OF rel r l n a'(10,7,11,12,8,2) q a'(4,5,6)])
  with r show ?thesis by blast
qed

end

context linking begin

lemma sim_go:
  assumes rel: "lk_rel C I s a" and st: "lk_go C t s = Some s'"
  shows "\<exists>a'. run (qd_step (lx_qd C)) (lk_go_labels C t s s') a = Some a' \<and> lk_rel C I s' a'"
proof (cases "pc_locks (lk_pc s t)")
  case (Some x)
  then obtain c h where x: "pc_locks (lk_pc s t) = Some (c, h)" by (cases x) auto
  then show ?thesis using sim_locking [OF rel x] st by (simp add: lk_go_def lk_go_labels_def Let_def)
next
  case None
  have local: ?thesis if "lk_local C t s = Some s'"
    "lk_go_labels C t s s' = [if lk_pc s t \<in> range (case_prod RdTest) \<union> range (case_prod RdSpin)
       then QdSee t (lc_is_locked (lx_lock C) (lk_mutex s)) else QdDo t]"
    using sim_local [OF rel None that(1)] that(2) by simp
  note D = lk_go_def lk_go_labels_def Let_def
  show ?thesis
  proof (cases "lk_pc s t")
    case (DlEnqueue x r)
    then show ?thesis using sim_enqueue_call [OF rel DlEnqueue] st by (simp add: D)
  next
    case (DlEnqueuing x r)
    then show ?thesis using sim_enqueue_go [OF rel, of t x r] st by (simp add: D del: db_events.simps)
  next
    case (DlEnqueued x r)
    then show ?thesis using sim_enqueue_go [OF rel, of t x r] st by (simp add: D del: db_events.simps)
  next
    case (HdOpen x)
    then show ?thesis using sim_open [OF rel HdOpen] st by (simp add: D)
  next
    case HdFlush
    then show ?thesis using sim_flush [OF rel HdFlush] st by (simp add: D del: db_events.simps db_step.simps)
  next
    case HdUnlock
    then show ?thesis using sim_unlock [OF rel, of t "QdDo t"] st by (simp add: D)
  next
    case HdRelease
    then show ?thesis using sim_release [OF rel HdRelease] st by (simp add: D)
  qed (use None st local in \<open>auto simp: D image_iff lk_local_def\<close>)
qed

lemma sim_call:
  assumes rel: "lk_rel C I s a" and l: "pc_locks (lk_pc s t) = None" "lk_pc s t \<noteq> HdRelease"
    and r: "qd_step (lx_qd C) ql a = Some (qd_goto t p (a\<lparr>qd_readers := rg\<rparr>))"
    and p: "p \<noteq> HdRelease" "pc_phase p (lc_phase (lx_lock C) t (lk_mutex s))"
  shows "\<exists>a'. run (qd_step (lx_qd C)) [ql] a = Some a' \<and> lk_rel C I (lk_goto t p (s\<lparr>lk_readers := rg\<rparr>)) a'"
proof -
  have r': "run (qd_step (lx_qd C)) [ql] a = Some (qd_goto t p (a\<lparr>qd_readers := rg\<rparr>))" using r by (simp del: qd_step.simps)
  have "lk_rel C I (lk_goto t p (s\<lparr>lk_readers := rg\<rparr>)) (qd_goto t p (a\<lparr>qd_readers := rg\<rparr>))"
    by (rule sim_move [OF rel r' l _ _ p])
      (use lk_relD(3-5) [OF rel] in \<open>simp_all add: lk_goto_def qd_goto_def\<close>)
  with r' show ?thesis by blast
qed

lemma linked_sim_step:
  assumes rel: "lk_rel C I s a" and st: "linked_step C l s = Some s'"
  shows "\<exists>a'. run (qd_step (lx_qd C)) (linked_labels C s l) a = Some a' \<and> lk_rel C I s' a'"
proof -
  have idle: ?thesis
    if pc: "lk_pc s t = QdIdle \<or> lk_pc s t = RdCrit" and s': "s' = lk_goto t p (s\<lparr>lk_readers := rg\<rparr>)" and ls: "linked_labels C s l = [ql]"
      and r: "qd_pc a t = lk_pc s t \<Longrightarrow> qd_readers a = lk_readers s \<Longrightarrow>
        qd_step (lx_qd C) ql a = Some (qd_goto t p (a\<lparr>qd_readers := rg\<rparr>))"
      and p: "p \<noteq> HdRelease" "pc_phase p LpIdle" for t p ql rg
  proof -
    have l: "pc_locks (lk_pc s t) = None" "lk_pc s t \<noteq> HdRelease" using pc by auto
    have ph: "lc_phase (lx_lock C) t (lk_mutex s) = LpIdle" using lk_relD(8) [OF rel, of t] pc by (auto simp: pc_phase_def)
    from sim_call [OF rel l r [OF outside_locking(1) [OF rel l] lk_relD(6) [OF rel]] p(1) p(2) [folded ph]]
    show ?thesis by (simp only: s' ls)
  qed
  have ph: "pc_phase (DlBarrier x) LpIdle" "pc_phase (UlBarrier :: 'f op qd_pc) LpIdle"
    "pc_phase (RdArrive b n :: 'f op qd_pc) LpIdle" "pc_phase (QdIdle :: 'f op qd_pc) LpIdle" for x :: "'f op" and b n
    by (simp_all add: pc_phase_def)
  have readers: "a\<lparr>qd_readers := lk_readers s\<rparr> = a" "s\<lparr>lk_readers := lk_readers s\<rparr> = s"
    using lk_relD(6) [OF rel] by (cases a, simp) (cases s, simp)
  show ?thesis
  proof (cases l)
    case (LkDelegate t x)
    then show ?thesis using st idle [of t "DlBarrier x" "lk_readers s" "QdDelegate t x"] ph readers
      by (auto simp: linked_labels_def split: if_splits)
  next
    case (LkLock t)
    then show ?thesis using st idle [of t UlBarrier "lk_readers s" "QdLock t"] ph readers
      by (auto simp: linked_labels_def split: if_splits)
  next
    case (LkUnlock t)
    then show ?thesis using st sim_unlock [OF rel, of t "QdUnlock t" s'] by (simp add: linked_labels_def split: if_splits)
  next
    case (LkRLock t)
    then show ?thesis using st idle [of t "RdArrive False 0" "lk_readers s" "QdRLock t"] ph readers
      by (auto simp: linked_labels_def split: if_splits)
  next
    case (LkRUnlock t)
    then show ?thesis
      using st idle [of t QdIdle "rg_depart (cf_groups (lx_qd C)) t (lk_readers s)" "QdRUnlock t"] ph
      by (auto simp: linked_labels_def qd_runlock_def split: if_splits)
  next
    case (LkGo t)
    then show ?thesis using st sim_go [OF rel, of t s'] by (simp add: linked_labels_def)
  next
    case (LkIntr t)
    then show ?thesis using st sim_intr [OF rel, of t] by (auto simp: linked_labels_def)
  qed
qed

lemma linked_sim_init: "lk_rel C I (lk_init C M w) (qd_init w)"
proof -
  have "db_rel (lx_queue C) (db_init (lx_queue C) M) tq_init" by (rule db_sim_init [OF memory_ok])
  moreover have "tq_untag (tq_init :: (tid \<times> 'f op) tqueue) = tq_init" by (simp add: tq_untag_def tq_init_def fun_eq_iff)
  ultimately show ?thesis
    using inv_init init_free phase_init qd_sim_init [of w]
    by (auto simp: lk_rel_def lk_init_def qd_init_def owner_rel_def abs_pc_def pc_phase_def)
qed

lemma linked_simulation:
  "forward_simulation (linked_step C) (lk_init C M w) (qd_step (lx_qd C)) (qd_init w) (lk_rel C I) (linked_labels C)"
  by unfold_locales (auto intro: linked_sim_init linked_sim_step)

end

section \<open>Delegation by the linked lock\<close>

text \<open>The operations that thread \<open>t\<close> delegates in a run.\<close>

fun lk_delegated :: "tid \<Rightarrow> 'f lk_label list \<Rightarrow> 'f op list" where
  "lk_delegated t [] = []"
| "lk_delegated t (LkDelegate u x # ls) = (if u = t then x # lk_delegated t ls else lk_delegated t ls)"
| "lk_delegated t (l # ls) = lk_delegated t ls"

lemma qd_delegated_queue [simp]: "qd_delegated t (map (queue_label u) es) = []"
proof (induction es)
  case (Cons ev es)
  then show ?case by (cases ev) auto
qed simp

lemma qd_delegated_lock [simp]:
  "qd_delegated t (lock_labels L u m m') = []" "qd_delegated t (unlock_labels L u m m') = []"
  by (auto simp: lock_labels_def unlock_labels_def split: lock_phase.splits)

lemma qd_delegated_labels:
  assumes "linked_step C l s = Some s'"
  shows "qd_delegated t (linked_labels C s l) = lk_delegated t [l]"
proof (cases l)
  case (LkGo u)
  have "qd_delegated t (lk_go_labels C u s s') = []"
    by (auto simp: lk_go_labels_def Let_def simp del: db_events.simps db_step.simps split: qd_pc.splits)
  then show ?thesis using LkGo assms by (simp add: linked_labels_def)
qed (use assms in \<open>simp_all add: linked_labels_def del: linked_step.simps\<close>)

lemma qd_delegated_trace:
  "run (linked_step C) ls s = Some s' \<Longrightarrow>
   qd_delegated t (trace (linked_step C) (linked_labels C) ls s) = lk_delegated t ls"
proof (induction ls arbitrary: s)
  case (Cons l ls)
  then obtain s1 where s1: "linked_step C l s = Some s1" "run (linked_step C) ls s1 = Some s'" by (auto split: option.splits)
  then show ?case using Cons.IH [OF s1(2)] qd_delegated_labels [OF s1(1), of t]
    by (cases l) (auto simp del: linked_step.simps)
qed simp

text \<open>The history of a run: the calls of \<open>delegate\<close> and the executions of operations.\<close>

definition linked_history :: "('f, 'w, 'l) linked_config \<Rightarrow> db_memory \<Rightarrow> 'w \<Rightarrow> 'f lk_label list \<Rightarrow> 'f op ds_event list"
where
  "linked_history C M w ls =
     trace (qd_step (lx_qd C)) qd_events (trace (linked_step C) (linked_labels C) ls (lk_init C M w)) (qd_init w)"

sublocale linking \<subseteq> linked: forward_simulation "linked_step C" "lk_init C M w" "qd_step (lx_qd C)" "qd_init w"
  "lk_rel C I" "linked_labels C" for w
  by (rule linked_simulation)

context linking begin

lemma linked_run:
  assumes "run (linked_step C) ls (lk_init C M w) = Some s"
  shows "\<exists>a. run (qd_step (lx_qd C)) (trace (linked_step C) (linked_labels C) ls (lk_init C M w)) (qd_init w) = Some a \<and>
    lk_rel C I s a"
  by (rule linked.run_simulated [OF assms])

lemma linked_executes:
  assumes r: "run (linked_step C) ls (lk_init C M w) = Some s"
  shows "lk_world s = fold (cf_exec (lx_qd C)) (ds_order (linked_history C M w ls)) w"
    and "\<exists>todo. lk_delegated t ls = ds_execs t (linked_history C M w ls) @ todo \<and>
      ((\<forall>u. \<not> lc_holds (lx_lock C) u (lk_mutex s)) \<and> lk_pc s t = QdIdle \<longrightarrow> todo = [])"
proof -
  let ?ms = "trace (linked_step C) (linked_labels C) ls (lk_init C M w)" and ?Q = "lx_qd C"
  obtain a where a: "run (qd_step ?Q) ?ms (qd_init w) = Some a" "lk_rel C I s a" using linked_run [OF r] by blast
  obtain d where d: "run (ds_step (cf_exec ?Q)) (linked_history C M w ls) (ds_init w) = Some d" "qd_rel a d"
    using delegation.run_simulated [OF a(1)] unfolding linked_history_def by blast
  note D = ds_run [OF d(1), of t] and A = qd_relD [OF d(2)] and R = lk_relD [OF a(2)]
  show "lk_world s = fold (cf_exec ?Q) (ds_order (linked_history C M w ls)) w"
    using D A(2) R(4) by (simp add: ds_init_def)
  have calls: "ds_calls t (linked_history C M w ls) = lk_delegated t ls"
    unfolding linked_history_def using ds_calls_trace [OF a(1)] qd_delegated_trace [OF r] by simp
  have "ds_todo d t = []" if free: "\<forall>u. \<not> lc_holds (lx_lock C) u (lk_mutex s)" and pc: "lk_pc s t = QdIdle"
  proof -
    have "qd_owner a = None" using R(2) free by (cases "qd_owner a") (auto simp: owner_rel_def)
    then have "\<not> pc_queue_used (qd_pc a u)" for u using qd_owner_is [OF d(2), of u] pc_queue_used_owns by fastforce
    then have "tq_pend (qd_queue a) = []" using A(5) by blast
    moreover have "qd_pc a t = QdIdle" using R(7) [of t] pc by (simp add: abs_pc_def)
    ultimately show ?thesis using A(3) [of t] by simp
  qed
  then show "\<exists>todo. lk_delegated t ls = ds_execs t (linked_history C M w ls) @ todo \<and>
      ((\<forall>u. \<not> lc_holds (lx_lock C) u (lk_mutex s)) \<and> lk_pc s t = QdIdle \<longrightarrow> todo = [])"
    using D calls by (auto simp: ds_init_def)
qed

end

section \<open>Exclusion\<close>

text \<open>
  Mutual exclusion needs nothing of the queue. For the readers, the linked lock looks like that of QD_Lock:
\<close>

definition lk_top :: "('f, 'w, 'l) linked_lock \<Rightarrow> ('f op, 'w) qd_lock" where
  "lk_top s =
     \<lparr>qd_owner = None, qd_queue = tq_init, qd_world = lk_world s, qd_barrier = lk_barrier s,
      qd_readers = lk_readers s, qd_pc = lk_pc s\<rparr>"

lemma lk_top_simps [simp]:
  "qd_pc (lk_top s) = lk_pc s" "qd_readers (lk_top s) = lk_readers s" "qd_barrier (lk_top s) = lk_barrier s"
  by (simp_all add: lk_top_def)

definition lk_excl :: "('f, 'w, 'l) linked_config \<Rightarrow> ('l \<Rightarrow> bool) \<Rightarrow> ('f, 'w, 'l) linked_lock \<Rightarrow> bool" where
  "lk_excl C I s \<longleftrightarrow>
     I (lk_mutex s) \<and> (\<forall>t. pc_phase (lk_pc s t) (lc_phase (lx_lock C) t (lk_mutex s))) \<and> rd_inv (lx_qd C) (lk_top s)"

lemma pc_not_allows: "\<not> pc_allows g p \<Longrightarrow> pc_crit p"
  by (cases p) auto

lemma pc_wait_top: "pc_wait_readers Q h k (lk_readers s) = qd_wait_readers Q h k (lk_top s)"
  by (simp add: pc_wait_readers_def qd_wait_readers_def)

lemma pc_phase_crit: "pc_phase p ph \<Longrightarrow> pc_crit p \<Longrightarrow> ph = LpCrit"
  by (cases p) (auto simp: pc_phase_def)

lemma pc_locks_allows:
  assumes "pc_locks p = Some (c, h)"
  shows "\<not> pc_reader p" "\<not> pc_reader (pc_locked h)" "\<not> pc_reader (pc_failed Q p)"
    "pc_allows g (pc_locked h)" "pc_allows g (pc_failed Q p)" "pc_allows g p"
  using assms by (cases p; cases h; auto)+

context lock_linking begin

text \<open>The step of a thread that is no reader: what it does to the lock, and where it goes.\<close>

lemma excl_quiet:
  assumes ok: "cf_ok (lx_qd C)" and inv: "lk_excl C I s" and nr: "\<not> pc_reader (lk_pc s t)"
    and m: "lk_mutex s' = lk_mutex s \<or> lc_step (lx_lock C) (t, x) (lk_mutex s) = Some (lk_mutex s')"
    and q: "qd_quiet (lx_qd C) t (lk_top s) (lk_top s')"
    and ph: "pc_phase (lk_pc s' t) (lc_phase (lx_lock C) t (lk_mutex s'))"
  shows "lk_excl C I s'"
proof -
  have others: "lk_pc s' u = lk_pc s u" if "u \<noteq> t" for u using q that by (auto simp: qd_quiet_def)
  have "I (lk_mutex s')" using m inv inv_step by (auto simp: lk_excl_def)
  moreover have "pc_phase (lk_pc s' u) (lc_phase (lx_lock C) u (lk_mutex s'))" for u
    using ph others [of u] m inv phase_frame [of t x "lk_mutex s" "lk_mutex s'" u]
    by (cases "u = t") (auto simp: lk_excl_def)
  moreover have "rd_inv (lx_qd C) (lk_top s')"
    by (rule rd_inv_quiet [OF _ _ _ q]) (use inv ok nr in \<open>auto simp: lk_excl_def cf_ok_def\<close>)
  ultimately show ?thesis by (simp add: lk_excl_def)
qed

lemma excl_goto:
  assumes ok: "cf_ok (lx_qd C)" and inv: "lk_excl C I s" and nr: "\<not> pc_reader (lk_pc s t)"
    and s': "lk_pc s' = (lk_pc s)(t := p)" "lk_readers s' = lk_readers s" "lk_barrier s' = lk_barrier s"
    and m: "lk_mutex s' = lk_mutex s \<or> lc_step (lx_lock C) (t, x) (lk_mutex s) = Some (lk_mutex s')"
    and p: "\<not> pc_reader p" "\<And>g. pc_allows g (lk_pc s t) \<Longrightarrow> pc_allows g p"
      "pc_phase p (lc_phase (lx_lock C) t (lk_mutex s'))"
  shows "lk_excl C I s'"
  by (rule excl_quiet [OF ok inv nr m], rule qd_quietI [where p = p]) (use s' p in simp_all)

lemma excl_reader:
  assumes inv: "lk_excl C I s" and m: "lk_mutex s' = lk_mutex s"
    and mv: "rd_move (lx_qd C) t p (lk_top s) (lk_top s')"
    and p: "pc_reader p \<Longrightarrow> cf_readers (lx_qd C)" "\<And>g. pc_allows g p" "pc_phase p LpIdle"
    and ph: "lc_phase (lx_lock C) t (lk_mutex s) = LpIdle"
    and reading: "pc_reading p \<Longrightarrow> pc_reading (lk_pc s t) \<or> \<not> lc_is_locked (lx_lock C) (lk_mutex s)"
  shows "lk_excl C I s'"
proof -
  have allows: "pc_allows g (lk_pc s u)" if "\<not> lc_is_locked (lx_lock C) (lk_mutex s)" for u g
  proof (rule ccontr)
    assume "\<not> pc_allows g (lk_pc s u)"
    then have "pc_crit (lk_pc s u)" by (rule pc_not_allows)
    then have "lc_phase (lx_lock C) u (lk_mutex s) = LpCrit"
      using inv pc_phase_crit unfolding lk_excl_def by blast
    then show False using that inv phase_crit crit_locked by (auto simp: lk_excl_def)
  qed
  have "rd_inv (lx_qd C) (lk_top s')"
    by (rule rd_inv_move [OF _ mv]) (use inv p reading allows in \<open>auto simp: lk_excl_def\<close>)
  moreover have "lk_pc s' = (lk_pc s)(t := p)" using mv by (simp add: rd_move_def)
  ultimately show ?thesis using inv m p(3) ph by (auto simp: lk_excl_def)
qed

lemma excl_locking:
  assumes ok: "cf_ok (lx_qd C)" and inv: "lk_excl C I s" and lk: "pc_locks (lk_pc s t) = Some (c, h)"
    and st: "lk_locking C t c h s = Some s'"
  shows "lk_excl C I s'"
proof -
  let ?L = "lx_lock C"
  have ph: "pc_phase (lk_pc s t) (lc_phase ?L t (lk_mutex s))" using inv by (simp add: lk_excl_def)
  obtain x m' p where m': "lc_step ?L (t, x) (lk_mutex s) = Some m'" and s': "s' = lk_goto t p (s\<lparr>lk_mutex := m'\<rparr>)"
    and p: "p = (case lc_phase ?L t m' of LpCrit \<Rightarrow> pc_locked h | LpIdle \<Rightarrow> pc_failed (lx_qd C) (lk_pc s t) | _ \<Rightarrow> lk_pc s t)"
    and after: "lc_phase ?L t m' = LpCrit \<or> lc_phase ?L t m' = LpLocking c \<and> (lc_holds ?L t (lk_mutex s) \<longrightarrow> lc_holds ?L t m') \<or>
      lc_phase ?L t m' = LpIdle \<and> c \<noteq> Lock \<and> \<not> lc_holds ?L t (lk_mutex s)"
    by (rule locking_cases [OF ph lk st])
  note A = pc_locks_allows [OF lk]
  have to: "\<not> pc_reader p" "pc_allows g p" for g using A by (auto simp: p split: lock_phase.splits)
  have ph': "pc_phase p (lc_phase ?L t m')"
    using after pc_failed_simps(1) [OF lk, of "lx_qd C"] lk by (auto simp: p pc_phase_simps) (auto simp: pc_phase_def)
  show ?thesis
    by (rule excl_goto [OF ok inv A(1), where p = p and x = x]) (use m' to ph' in \<open>simp_all add: s' lk_goto_def\<close>)
qed

lemma excl_unlocking:
  assumes ok: "cf_ok (lx_qd C)" and inv: "lk_excl C I s" and st: "lk_unlocking C t x s = Some s'"
    and x: "x = Unlock \<or> x = Go \<and> lk_pc s t = HdRelease" and nr: "\<not> pc_reader (lk_pc s t)"
  shows "lk_excl C I s'"
proof -
  let ?L = "lx_lock C"
  obtain m' where m': "lc_step ?L (t, x) (lk_mutex s) = Some m'" using st by (auto simp: lk_unlocking_def split: option.splits)
  define p :: "'f op qd_pc" where "p = (if lc_phase ?L t m' = LpIdle then QdIdle else HdRelease)"
  have s': "s' = lk_goto t p (s\<lparr>lk_mutex := m'\<rparr>)" using st m' by (simp add: lk_unlocking_def p_def)
  have "lc_phase ?L t m' \<in> {LpUnlocking, LpIdle}"
    using x
  proof
    assume "x = Unlock"
    then show ?thesis using step_unlock m' by blast
  next
    assume go: "x = Go \<and> lk_pc s t = HdRelease"
    have "pc_phase (lk_pc s t) (lc_phase ?L t (lk_mutex s))" using inv by (simp add: lk_excl_def)
    then have "lc_phase ?L t (lk_mutex s) = LpUnlocking" using go by (simp add: pc_phase_def)
    then show ?thesis using step_unlocking m' go by blast
  qed
  then have "pc_phase p (lc_phase ?L t m')" "\<not> pc_reader p" "pc_allows g p" for g by (auto simp: p_def pc_phase_def)
  then show ?thesis
    by (intro excl_goto [OF ok inv nr, where p = p and x = x]) (use m' in \<open>simp_all add: s' lk_goto_def\<close>)
qed

text \<open>The steps of the queue.\<close>

lemma excl_queue:
  assumes ok: "cf_ok (lx_qd C)" and inv: "lk_excl C I s" and st: "lk_queue_step C t l p s = Some s'"
    and nr: "\<not> pc_reader (lk_pc s t)" "\<And>es. \<not> pc_reader (p es)"
    and p: "\<And>es g. pc_allows g (lk_pc s t) \<Longrightarrow> pc_allows g (p es)"
      "\<And>es ph. pc_phase (lk_pc s t) ph \<Longrightarrow> pc_phase (p es) ph"
  shows "lk_excl C I s'"
proof -
  obtain q es where s': "s' = lk_goto t (p es) (s\<lparr>lk_queue := q\<rparr>)"
    using st by (auto simp: lk_queue_step_def simp del: db_step.simps db_events.simps split: option.splits)
  have "pc_phase (p es) (lc_phase (lx_lock C) t (lk_mutex s))" using inv p(2) by (simp add: lk_excl_def)
  then show ?thesis
    by (intro excl_goto [OF ok inv nr(1), where p = "p es"]) (use nr(2) p(1) in \<open>simp_all add: s' lk_goto_def\<close>)
qed

lemma pc_enqueue_kept:
  assumes "p = DlEnqueuing x r \<or> p = DlEnqueued x r"
  shows "\<not> pc_reader p" "\<not> pc_reader (pc_enqueue es p)" "pc_allows g (pc_enqueue es p)"
    "pc_phase p ph \<Longrightarrow> pc_phase (pc_enqueue es p) ph"
  using assms by (cases "(es, p)" rule: pc_enqueue.cases; auto simp: pc_phase_def)+

lemma excl_enqueue:
  assumes ok: "cf_ok (lx_qd C)" and inv: "lk_excl C I s" and st: "lk_enqueue C t s = Some s'"
    and pc: "lk_pc s t = DlEnqueue x r \<or> lk_pc s t = DlEnqueuing x r \<or> lk_pc s t = DlEnqueued x r"
  shows "lk_excl C I s'"
proof (cases "lk_pc s t = DlEnqueue x r")
  case True
  then have "lk_queue_step C t (QCall t (fst x) (snd x)) (\<lambda>_. DlEnqueuing x r) s = Some s'"
    using st by (simp add: lk_enqueue_def)
  then show ?thesis by (rule excl_queue [OF ok inv]) (use True in \<open>simp_all add: pc_phase_def\<close>)
next
  case False
  then have pc': "lk_pc s t = DlEnqueuing x r \<or> lk_pc s t = DlEnqueued x r" using pc by blast
  have "lk_queue_step C t (QGo t) (\<lambda>es. pc_enqueue es (lk_pc s t)) s = Some s'"
    using st pc' by (auto simp: lk_enqueue_def)
  then show ?thesis by (rule excl_queue [OF ok inv]) (use pc_enqueue_kept [OF pc'] in blast)+
qed

lemma excl_world: "lk_excl C I (s\<lparr>lk_world := w\<rparr>) = lk_excl C I s"
  by (simp add: lk_excl_def rd_inv_def)

lemma excl_flush:
  assumes ok: "cf_ok (lx_qd C)" and inv: "lk_excl C I s" and st: "lk_flush C t s = Some s'" and pc: "lk_pc s t = HdFlush"
  shows "lk_excl C I s'"
proof (cases "lk_queue_step C t QFlush (\<lambda>_. HdFlush) s")
  case (Some s1)
  then have "lk_queue_step C t QFlush (\<lambda>_. HdFlush) s = Some s'" using st by (simp add: lk_flush_def)
  then show ?thesis by (rule excl_queue [OF ok inv]) (use pc in simp_all)
next
  case None
  then obtain s1 where s1: "lk_queue_step C t QOwner (\<lambda>es. if es = [TqDrained] then HdUnlock else HdFlush) s = Some s1"
      "s' = lk_world_update (flush_exec (lx_qd C) (db_events (lx_queue C) (lk_queue s) QOwner)) s1"
    using st by (auto simp: lk_flush_def simp del: db_events.simps)
  have "lk_excl C I s1"
    by (rule excl_queue [OF ok inv s1(1)]) (use pc in \<open>auto simp: pc_phase_def\<close>)
  then show ?thesis using s1(2) by (simp add: lk_excl_def rd_inv_def)
qed

text \<open>The other steps, among them those of the readers.\<close>

lemma excl_local:
  assumes ok: "cf_ok (lx_qd C)" and inv: "lk_excl C I s" and st: "lk_local C t s = Some s'"
  shows "lk_excl C I s'"
proof -
  have ph: "pc_phase (lk_pc s t) (lc_phase (lx_lock C) t (lk_mutex s))" using inv by (simp add: lk_excl_def)
  have goto: ?thesis if "\<not> pc_reader (lk_pc s t)" "\<not> pc_reader p" "\<And>g. pc_allows g (lk_pc s t) \<Longrightarrow> pc_allows g p"
      "pc_phase p (lc_phase (lx_lock C) t (lk_mutex s))" "s' = lk_goto t p (s\<lparr>lk_world := w\<rparr>)" for p w
    by (rule excl_goto [OF ok inv that(1), where p = p]) (use that in \<open>simp_all add: lk_goto_def\<close>)
  have reader: ?thesis
    if r: "pc_reader (lk_pc s t)" "pc_reader p" and mv: "rd_move (lx_qd C) t p (lk_top s) (lk_top s')"
      and m: "lk_mutex s' = lk_mutex s"
      and reading: "pc_reading p \<Longrightarrow> pc_reading (lk_pc s t) \<or> \<not> lc_is_locked (lx_lock C) (lk_mutex s)" for p
  proof (rule excl_reader [OF inv m mv])
    show "cf_readers (lx_qd C)" using inv rd_invD(5) [of "lx_qd C" "lk_top s" t] r(1) by (simp add: lk_excl_def)
    show "pc_allows g p" for g using r(2) by (cases p) auto
    show "pc_phase p LpIdle" using r(2) by (cases p) (auto simp: pc_phase_def)
    show "lc_phase (lx_lock C) t (lk_mutex s) = LpIdle" using ph r(1) by (cases "lk_pc s t") (auto simp: pc_phase_def)
  qed (use reading in blast)
  note D = lk_local_def lk_goto_def Let_def rd_move_def
  show ?thesis
  proof (cases "lk_pc s t")
    case (HdWait h k)
    have w: "pc_wait_readers (lx_qd C) h k (lk_readers s) = qd_wait_readers (lx_qd C) h k (lk_top s)" by (rule pc_wait_top)
    have s': "s' = lk_goto t (qd_wait_readers (lx_qd C) h k (lk_top s)) s" using st HdWait by (simp add: lk_local_def w)
    have q: "qd_quiet (lx_qd C) t (lk_top s) (lk_top s')"
      unfolding qd_quiet_def using HdWait
      by (intro conjI exI [of _ "qd_wait_readers (lx_qd C) h k (lk_top s)"]) (auto simp: s' lk_goto_def)
    have "pc_phase (qd_wait_readers (lx_qd C) h k (lk_top s)) (lc_phase (lx_lock C) t (lk_mutex s))"
      using ph HdWait qd_wait_readers_pc [of "lx_qd C" h k "lk_top s"] by (auto simp: pc_phase_def)
    then show ?thesis by (intro excl_quiet [OF ok inv _ _ q]) (use HdWait in \<open>simp_all add: s' lk_goto_def\<close>)
  next
    case (DlBarrier x)
    then show ?thesis using st inv goto [of "DlTry x" "lk_world s"] ph
      by (auto simp: lk_local_def pc_phase_def split: if_splits)
  next
    case UlBarrier
    then show ?thesis using st inv goto [of UlLock "lk_world s"] ph
      by (auto simp: lk_local_def pc_phase_def split: if_splits)
  next
    case (HdRun h)
    then show ?thesis
      using st ph goto [of HdUnlock "cf_exec (lx_qd C) _ (lk_world s)"] goto [of HdFlush "cf_exec (lx_qd C) _ (lk_world s)"]
      by (cases h) (auto simp: lk_local_def pc_phase_def)
  next
    case (RdArrive b n)
    then show ?thesis using st by (intro reader [of "RdTest b n"]) (auto simp: D)
  next
    case (RdTest b n)
    then show ?thesis using st
      by (intro reader [of "if lc_is_locked (lx_lock C) (lk_mutex s) then RdDepart b n else if b then RdLower else RdCrit"])
        (auto simp: D)
  next
    case (RdDepart b n)
    then show ?thesis using st by (intro reader [of "RdSpin b n"]) (auto simp: D)
  next
    case (RdSpin b n)
    then show ?thesis using st
      by (intro reader [of "if \<not> lc_is_locked (lx_lock C) (lk_mutex s) then RdArrive b n
          else if n = cf_patience (lx_qd C) \<and> \<not> b then RdRaise n else RdSpin b (n + 1)"])
        (auto simp: D split: if_splits)
  next
    case (RdRaise n)
    then show ?thesis using st by (intro reader [of "RdSpin True (n + 1)"]) (auto simp: D)
  next
    case RdLower
    then show ?thesis using st by (intro reader [of RdCrit]) (auto simp: D)
  qed (use st in \<open>simp_all add: lk_local_def Let_def\<close>)
qed

lemma excl_go:
  assumes ok: "cf_ok (lx_qd C)" and inv: "lk_excl C I s" and st: "lk_go C t s = Some s'"
  shows "lk_excl C I s'"
proof (cases "pc_locks (lk_pc s t)")
  case (Some y)
  then obtain c h where y: "pc_locks (lk_pc s t) = Some (c, h)" by (cases y) auto
  then show ?thesis using excl_locking [OF ok inv y] st by (simp add: lk_go_def)
next
  case None
  show ?thesis
  proof (cases "lk_pc s t")
    case (HdOpen x)
    then have "lk_queue_step C t QOpen (\<lambda>_. HdWait (Helper x) 0) s = Some s'" using st by (simp add: lk_go_def)
    then show ?thesis by (rule excl_queue [OF ok inv]) (use HdOpen in \<open>simp_all add: pc_phase_def\<close>)
  qed (use None st excl_enqueue [OF ok inv] excl_flush [OF ok inv] excl_unlocking [OF ok inv] excl_local [OF ok inv]
    in \<open>auto simp: lk_go_def\<close>)
qed

lemma excl_idle:
  assumes inv: "lk_excl C I s" and pc: "lk_pc s t = QdIdle \<or> lk_pc s t = RdCrit"
    and p: "pc_phase p LpIdle" "\<And>g. pc_allows g p" "\<not> pc_reading p" "pc_reader p \<Longrightarrow> cf_readers (lx_qd C)"
    and s': "lk_mutex s' = lk_mutex s" and mv: "rd_move (lx_qd C) t p (lk_top s) (lk_top s')"
  shows "lk_excl C I s'"
proof -
  have "pc_phase (lk_pc s t) (lc_phase (lx_lock C) t (lk_mutex s))" using inv by (simp add: lk_excl_def)
  then have "lc_phase (lx_lock C) t (lk_mutex s) = LpIdle" using pc by (auto simp: pc_phase_def)
  then show ?thesis using excl_reader [OF inv s' mv p(4) p(2,1)] p(3) by blast
qed

lemma excl_step:
  assumes ok: "cf_ok (lx_qd C)" and inv: "lk_excl C I s" and st: "linked_step C l s = Some s'"
  shows "lk_excl C I s'"
proof (cases l)
  case (LkDelegate t x)
  then have "s' = lk_goto t (DlBarrier x) s" "lk_pc s t = QdIdle" using st by (simp_all split: if_splits)
  then show ?thesis by (intro excl_idle [OF inv, where p = "DlBarrier x"]) (auto simp: lk_goto_def rd_move_def pc_phase_def)
next
  case (LkLock t)
  then have "s' = lk_goto t UlBarrier s" "lk_pc s t = QdIdle" using st by (simp_all split: if_splits)
  then show ?thesis by (intro excl_idle [OF inv, where p = UlBarrier]) (auto simp: lk_goto_def rd_move_def pc_phase_def)
next
  case (LkUnlock t)
  then have "lk_unlocking C t Unlock s = Some s'" "lk_pc s t = HdRun UserLock" using st by (simp_all split: if_splits)
  then show ?thesis using excl_unlocking [OF ok inv] by simp
next
  case (LkRLock t)
  then have "s' = lk_goto t (RdArrive False 0) s" "lk_pc s t = QdIdle" "cf_readers (lx_qd C)"
    using st by (simp_all split: if_splits)
  then show ?thesis
    by (intro excl_idle [OF inv, where p = "RdArrive False 0"]) (auto simp: lk_goto_def rd_move_def pc_phase_def)
next
  case (LkRUnlock t)
  then have "s' = lk_goto t QdIdle (s\<lparr>lk_readers := rg_depart (cf_groups (lx_qd C)) t (lk_readers s)\<rparr>)" "lk_pc s t = RdCrit"
    using st by (simp_all split: if_splits)
  then show ?thesis by (intro excl_idle [OF inv, where p = QdIdle]) (auto simp: lk_goto_def rd_move_def pc_phase_def)
next
  case (LkGo t)
  then show ?thesis using st excl_go [OF ok inv] by simp
next
  case (LkIntr t)
  then obtain m' where m': "lc_step (lx_lock C) (t, Intr) (lk_mutex s) = Some m'" "s' = s\<lparr>lk_mutex := m'\<rparr>"
    using st by auto
  have "I m'" using inv inv_step [OF _ m'(1)] by (simp add: lk_excl_def)
  moreover have "lc_phase (lx_lock C) u m' = lc_phase (lx_lock C) u (lk_mutex s)" for u
    using phase_frame [OF m'(1), of u] step_intr [OF m'(1)] by (cases "u = t") auto
  ultimately show ?thesis using inv m'(2) by (simp add: lk_excl_def rd_inv_def)
qed

lemma lk_excl_init: "lk_excl C I (lk_init C M w)"
proof -
  have "rd_inv (lx_qd C) (qd_init w)" by (rule rd_inv_init)
  then show ?thesis using inv_init phase_init by (simp add: lk_excl_def lk_init_def rd_inv_def qd_init_def pc_phase_def)
qed

end

sublocale lock_linking \<subseteq> exclusion: invariant_system "linked_step C" "lk_init C M w" "\<lambda>s. cf_ok (lx_qd C) \<longrightarrow> lk_excl C I s"
  for M w
  by unfold_locales (auto intro: lk_excl_init excl_step simp del: linked_step.simps)

context lock_linking begin

text \<open>The places at which a thread has the data for itself: it executes operations, or is in the critical section of the user.\<close>

lemma linked_excludes:
  assumes ok: "cf_ok (lx_qd C)" and r: "run (linked_step C) ls (lk_init C M w) = Some s"
    and t: "lk_pc s t = HdFlush \<or> (\<exists>h. lk_pc s t = HdRun h)"
  shows "lk_pc s u \<noteq> RdCrit" "u \<noteq> t \<Longrightarrow> \<not> pc_crit (lk_pc s u)"
proof -
  have inv: "lk_excl C I s" using exclusion.inv_reachable [OF run_reachable [OF r]] ok by blast
  then have I: "I (lk_mutex s)" and rd: "rd_inv (lx_qd C) (lk_top s)" by (simp_all add: lk_excl_def)
  show "lk_pc s u \<noteq> RdCrit" using rd_invD(4) [OF rd, of u t] t by auto
  have holds: "lc_holds (lx_lock C) v (lk_mutex s)" if "pc_crit (lk_pc s v)" for v
    using that inv pc_phase_crit phase_crit crit_holds unfolding lk_excl_def by blast
  show "\<not> pc_crit (lk_pc s u)" if "u \<noteq> t" using holds [of u] holds [of t] excl [OF I] t that by auto
qed

end

section \<open>Progress\<close>

text \<open>
  The calls of \<open>open\<close> and \<open>flush\<close> alternate, and the operations that threads carry have parameters of the
  sizes that their wrappers expect.
\<close>

definition pc_carries :: "'e qd_pc \<Rightarrow> 'e list" where
  "pc_carries p = (case p of DlEnqueued x r \<Rightarrow> [x] | _ \<Rightarrow> pc_op p)"

definition lk_calls_ok :: "('f, 'w, 'l) linked_config \<Rightarrow> ('f, 'w, 'l) linked_lock \<Rightarrow> bool" where
  "lk_calls_ok C s \<longleftrightarrow>
     (\<forall>t. pc_queue_open (lk_pc s t) \<longrightarrow> db_owner (lk_queue s) = DwOpened) \<and>
     (\<forall>t. lk_pc s t = HdFlush \<longrightarrow> db_owner (lk_queue s) \<noteq> DwClosed) \<and>
     ((\<forall>t. \<not> pc_queue_used (lk_pc s t)) \<longrightarrow> db_owner (lk_queue s) = DwClosed) \<and>
     (\<forall>t. \<forall>x \<in> set (pc_carries (lk_pc s t)). map length (snd x) = db_sizes (lx_queue C) (fst x))"

lemma db_keeps_owner:
  "db_step D (QCall t f ps) s = Some s' \<Longrightarrow> db_owner s' = db_owner s"
  "db_step D (QGo t) s = Some s' \<Longrightarrow> db_owner s' = db_owner s"
  by (auto simp: db_enqueue_def db_store_def db_goto_def Let_def split: db_pc.splits if_splits option.splits)

lemma db_owner_closes:
  "db_step D QOwner s = Some s' \<Longrightarrow> db_owner s' = DwClosed \<longleftrightarrow> db_events D s QOwner = [TqDrained]"
  by (cases "db_owner s")
    (auto simp: db_flush_def db_for_def Let_def split: if_splits option.splits prod.splits)

text \<open>A step that moves a thread between two places at which it does not use the queue, and leaves the queue alone.\<close>

lemma lk_calls_ok_move:
  assumes ok: "lk_calls_ok C s" and q: "db_owner (lk_queue s') = db_owner (lk_queue s)"
    and pc: "lk_pc s' = (lk_pc s)(t := p)" "set (pc_carries p) \<subseteq> set (pc_carries (lk_pc s t))"
    and used: "pc_queue_open p = pc_queue_open (lk_pc s t) \<or> p = HdFlush \<and> pc_queue_open (lk_pc s t)"
      "pc_queue_used p = pc_queue_used (lk_pc s t)" "p = HdFlush \<longrightarrow> pc_queue_used (lk_pc s t)"
  shows "lk_calls_ok C s'"
proof -
  have "pc_queue_used p \<longleftrightarrow> pc_queue_open p \<or> p = HdFlush" for p :: "'f op qd_pc"
    by (cases p rule: pc_queue_used.cases) auto
  then show ?thesis using assms unfolding lk_calls_ok_def by (auto split: if_splits)
qed

lemma pc_used_iff: "pc_queue_used p \<longleftrightarrow> pc_queue_open p \<or> p = HdFlush"
  by (cases p rule: pc_queue_used.cases) auto

lemma pc_used_crit: "pc_queue_used p \<Longrightarrow> pc_crit p"
  by (cases p rule: pc_queue_used.cases) (auto elim: pc_queue_open.elims)

lemma pc_locks_carries:
  assumes "pc_locks p = Some (c, h)"
  shows "set (pc_carries (pc_locked h)) \<subseteq> set (pc_carries p)" "set (pc_carries (pc_failed Q p)) \<subseteq> set (pc_carries p)"
    "\<not> pc_queue_used (pc_locked h)" "\<not> pc_queue_used (pc_failed Q p)" "\<not> pc_queue_used p"
  using assms by (cases p; cases h; auto simp: pc_carries_def qd_loop_def split: if_splits)+

lemma pc_enqueue_carries:
  assumes "p = DlEnqueuing x r \<or> p = DlEnqueued x r"
  shows "set (pc_carries (pc_enqueue es p)) \<subseteq> set (pc_carries p)" "\<not> pc_queue_used (pc_enqueue es p)" "\<not> pc_queue_used p"
  using assms by (cases "(es, p)" rule: pc_enqueue.cases; auto simp: pc_carries_def)+

context linking begin

lemma calls_locking:
  assumes ok: "lk_calls_ok C s" and lk: "pc_locks (lk_pc s t) = Some (c, h)" and st: "lk_locking C t c h s = Some s'"
  shows "lk_calls_ok C s'"
proof -
  note P = pc_locks_carries(1,3,5) [OF lk] pc_locks_carries(2,4) [OF lk, of "lx_qd C"]
  obtain m' where "s' = lk_goto t (case lc_phase (lx_lock C) t m' of LpCrit \<Rightarrow> pc_locked h
        | LpIdle \<Rightarrow> pc_failed (lx_qd C) (lk_pc s t) | _ \<Rightarrow> lk_pc s t) (s\<lparr>lk_mutex := m'\<rparr>)"
    using st by (auto simp: lk_locking_def Let_def split: option.splits)
  then obtain p where s': "s' = lk_goto t p (s\<lparr>lk_mutex := m'\<rparr>)"
    and p: "p = pc_locked h \<or> p = pc_failed (lx_qd C) (lk_pc s t) \<or> p = lk_pc s t"
    by (auto split: lock_phase.splits)
  show ?thesis
    by (rule lk_calls_ok_move [OF ok, of _ t p]) (use s' p P in \<open>auto simp: lk_goto_def pc_used_iff\<close>)
qed

lemma calls_unlocking:
  assumes ok: "lk_calls_ok C s" and pc: "\<not> pc_queue_used (lk_pc s t)" and st: "lk_unlocking C t x s = Some s'"
  shows "lk_calls_ok C s'"
proof -
  obtain m' p where s': "s' = lk_goto t p (s\<lparr>lk_mutex := m'\<rparr>)" and p: "p = QdIdle \<or> p = HdRelease"
    using st by (fastforce simp: lk_unlocking_def split: option.splits if_splits)
  show ?thesis
    by (rule lk_calls_ok_move [OF ok, of _ t p]) (use s' p pc in \<open>auto simp: lk_goto_def pc_used_iff pc_carries_def\<close>)
qed

lemma calls_enqueue:
  assumes ok: "lk_calls_ok C s" and pc: "lk_pc s t \<in> {DlEnqueue x r, DlEnqueuing x r, DlEnqueued x r}"
    and st: "lk_enqueue C t s = Some s'"
  shows "lk_calls_ok C s'"
proof -
  obtain q p where s': "s' = lk_goto t p (s\<lparr>lk_queue := q\<rparr>)" and q: "db_owner q = db_owner (lk_queue s)"
    and p: "set (pc_carries p) \<subseteq> set (pc_carries (lk_pc s t))" "\<not> pc_queue_used p" "\<not> pc_queue_used (lk_pc s t)"
  proof (cases "lk_pc s t = DlEnqueue x r")
    case True
    then show ?thesis using st that db_keeps_owner(1)
      by (fastforce simp: lk_enqueue_def lk_queue_step_def pc_carries_def simp del: db_step.simps split: option.splits)
  next
    case False
    then have pc': "lk_pc s t = DlEnqueuing x r \<or> lk_pc s t = DlEnqueued x r" using pc by auto
    then obtain q where q: "db_step (lx_queue C) (QGo t) (lk_queue s) = Some q"
      "s' = lk_goto t (pc_enqueue (db_events (lx_queue C) (lk_queue s) (QGo t)) (lk_pc s t)) (s\<lparr>lk_queue := q\<rparr>)"
      using st by (auto simp: lk_enqueue_def lk_queue_step_def simp del: db_step.simps db_events.simps split: option.splits)
    show ?thesis by (rule that [OF q(2) db_keeps_owner(2) [OF q(1)]]) (use pc_enqueue_carries [OF pc'] in blast)+
  qed
  show ?thesis
    by (rule lk_calls_ok_move [OF ok, of _ t p]) (use s' p q in \<open>auto simp: lk_goto_def pc_used_iff\<close>)
qed

text \<open>Only one thread uses the queue as its owner.\<close>

lemma crit_unique:
  assumes rel: "lk_rel C I s a" and "pc_crit (lk_pc s t)" "pc_crit (lk_pc s u)"
  shows "u = t"
proof -
  have "lc_holds (lx_lock C) v (lk_mutex s)" if c: "pc_crit (lk_pc s v)" for v
  proof -
    have "lc_phase (lx_lock C) v (lk_mutex s) = LpCrit"
      using lk_relD(8) [OF rel, of v] c by (cases "lk_pc s v") (auto simp: pc_phase_def)
    then show ?thesis using phase_crit crit_holds by blast
  qed
  then show ?thesis using excl [OF lk_relD(1) [OF rel]] assms(2,3) by blast
qed

lemma calls_owner:
  assumes rel: "lk_rel C I s a" and ok: "lk_calls_ok C s"
    and pc: "pc_crit (lk_pc s t)" and s': "s' = lk_goto t p (s\<lparr>lk_queue := q, lk_world := w\<rparr>)"
    and p: "set (pc_carries p) \<subseteq> set (pc_carries (lk_pc s t))" "pc_queue_open p \<longrightarrow> db_owner q = DwOpened"
      "p = HdFlush \<longleftrightarrow> db_owner q \<noteq> DwClosed \<and> \<not> pc_queue_open p"
      "pc_queue_open p \<or> p = HdFlush \<or> db_owner q = DwClosed"
  shows "lk_calls_ok C s'"
proof -
  have others: "\<not> pc_queue_used (lk_pc s u)" if "u \<noteq> t" for u
    using crit_unique [OF rel pc pc_used_crit] that by blast
  show ?thesis
    using ok others p unfolding lk_calls_ok_def s' by (auto simp: lk_goto_def pc_used_iff)
qed

end

context linking begin

lemma others_unused:
  assumes "lk_rel C I s a" and "pc_crit (lk_pc s t)" and "u \<noteq> t"
  shows "\<not> pc_queue_used (lk_pc s u)"
  using crit_unique [OF assms(1,2)] pc_used_crit assms(3) by blast

lemma calls_open:
  assumes rel: "lk_rel C I s a" and ok: "lk_calls_ok C s" and pc: "lk_pc s t = HdOpen x"
    and st: "lk_queue_step C t QOpen (\<lambda>_. HdWait (Helper x) 0) s = Some s'"
  shows "lk_calls_ok C s'"
proof -
  have q: "s' = lk_goto t (HdWait (Helper x) 0) (s\<lparr>lk_queue := db_open (lk_queue s)\<rparr>)"
    using st by (auto simp: lk_queue_step_def split: if_splits option.splits)
  show ?thesis
    by (rule calls_owner [OF rel ok, of t s' "HdWait (Helper x) 0" "lk_world s" "db_open (lk_queue s)"])
      (use q pc in \<open>simp_all add: pc_carries_def db_open_def\<close>)
qed

lemma calls_flush:
  assumes rel: "lk_rel C I s a" and ok: "lk_calls_ok C s" and pc: "lk_pc s t = HdFlush" and st: "lk_flush C t s = Some s'"
  shows "lk_calls_ok C s'"
proof (cases "lk_queue_step C t QFlush (\<lambda>_. HdFlush) s")
  case (Some s1)
  then have q: "s' = lk_goto t HdFlush (s\<lparr>lk_queue := (lk_queue s)\<lparr>db_owner := DwLoad 0\<rparr>\<rparr>)"
    using st by (auto simp: lk_flush_def lk_queue_step_def split: if_splits option.splits)
  show ?thesis
    by (rule calls_owner [OF rel ok, of t s' HdFlush "lk_world s" "(lk_queue s)\<lparr>db_owner := DwLoad 0\<rparr>"])
      (use q pc in \<open>simp_all add: pc_carries_def\<close>)
next
  case None
  let ?ev = "db_events (lx_queue C) (lk_queue s) QOwner"
  obtain q where q: "db_step (lx_queue C) QOwner (lk_queue s) = Some q"
    and s': "s' = lk_world_update (flush_exec (lx_qd C) ?ev)
      (lk_goto t (if ?ev = [TqDrained] then HdUnlock else HdFlush) (s\<lparr>lk_queue := q\<rparr>))"
    using st None by (auto simp: lk_flush_def lk_queue_step_def simp del: db_step.simps db_events.simps split: option.splits)
  show ?thesis
    by (rule calls_owner [OF rel ok, of t s' "if ?ev = [TqDrained] then HdUnlock else HdFlush" "flush_exec (lx_qd C) ?ev (lk_world s)" q])
      (use s' pc db_owner_closes [OF q] in \<open>simp_all add: pc_carries_def lk_goto_def del: db_events.simps db_step.simps\<close>)
qed

lemma calls_local:
  assumes ok: "lk_calls_ok C s" and st: "lk_local C t s = Some s'"
  shows "lk_calls_ok C s'"
proof -
  have "lk_pc s' = (lk_pc s)(t := lk_pc s' t) \<and> lk_queue s' = lk_queue s \<and>
      set (pc_carries (lk_pc s' t)) \<subseteq> set (pc_carries (lk_pc s t)) \<and>
      (pc_queue_open (lk_pc s' t) = pc_queue_open (lk_pc s t) \<or> lk_pc s' t = HdFlush \<and> pc_queue_open (lk_pc s t)) \<and>
      pc_queue_used (lk_pc s' t) = pc_queue_used (lk_pc s t) \<and> (lk_pc s' t = HdFlush \<longrightarrow> pc_queue_used (lk_pc s t))"
  proof (cases "lk_pc s t")
    case (HdWait h k)
    then show ?thesis using st by (cases h)
      (auto simp: lk_local_def lk_goto_def Let_def pc_wait_readers_def pc_carries_def split: if_splits sum.splits)
  qed (use st in \<open>auto simp: lk_local_def lk_goto_def Let_def pc_carries_def fun_upd_idem split: hold.splits if_splits\<close>)
  then show ?thesis by (intro lk_calls_ok_move [OF ok, of s' t "lk_pc s' t"]) simp_all
qed

lemma calls_go:
  assumes rel: "lk_rel C I s a" and ok: "lk_calls_ok C s" and st: "lk_go C t s = Some s'"
  shows "lk_calls_ok C s'"
proof (cases "pc_locks (lk_pc s t)")
  case (Some x)
  then show ?thesis using st calls_locking [OF ok] by (cases x) (auto simp: lk_go_def)
next
  case None
  show ?thesis
  proof (cases "lk_pc s t")
    case (DlEnqueue x r)
    then show ?thesis using st calls_enqueue [OF ok, of t x r s'] by (simp add: lk_go_def)
  next
    case (DlEnqueuing x r)
    then show ?thesis using st calls_enqueue [OF ok, of t x r s'] by (simp add: lk_go_def)
  next
    case (DlEnqueued x r)
    then show ?thesis using st calls_enqueue [OF ok, of t x r s'] by (simp add: lk_go_def)
  next
    case (HdOpen x)
    then show ?thesis using st calls_open [OF rel ok HdOpen] by (simp add: lk_go_def)
  next
    case HdFlush
    then show ?thesis using st calls_flush [OF rel ok HdFlush] by (simp add: lk_go_def)
  next
    case HdUnlock
    then show ?thesis using st calls_unlocking [OF ok, of t Unlock s'] by (simp add: lk_go_def)
  next
    case HdRelease
    then show ?thesis using st calls_unlocking [OF ok, of t Go s'] by (simp add: lk_go_def)
  qed (use None st calls_local [OF ok] in \<open>auto simp: lk_go_def\<close>)
qed

lemma calls_step:
  assumes rel: "lk_rel C I s a" and ok: "lk_calls_ok C s" and st: "linked_step C l s = Some s'"
  shows "lk_calls_ok C s'"
proof (cases l)
  case (LkDelegate t x)
  then have s': "s' = lk_goto t (DlBarrier x) s" and pc: "lk_pc s t = QdIdle"
    and x: "map length (snd x) = db_sizes (lx_queue C) (fst x)"
    using st by (simp_all split: if_splits)
  have "pc_queue_open (lk_pc s' u) = pc_queue_open (lk_pc s u)" "pc_queue_used (lk_pc s' u) = pc_queue_used (lk_pc s u)"
    "lk_pc s' u = HdFlush \<longleftrightarrow> lk_pc s u = HdFlush" for u
    using s' pc by (auto simp: lk_goto_def)
  moreover have "set (pc_carries (lk_pc s' u)) \<subseteq> insert x (set (pc_carries (lk_pc s u)))" for u
    using s' by (auto simp: lk_goto_def pc_carries_def)
  moreover have "lk_queue s' = lk_queue s" by (simp add: s' lk_goto_def)
  ultimately show ?thesis using ok x unfolding lk_calls_ok_def by (simp, blast)
next
  case (LkLock t)
  then have "s' = lk_goto t UlBarrier s" "lk_pc s t = QdIdle" using st by (simp_all split: if_splits)
  then show ?thesis by (intro lk_calls_ok_move [OF ok, of s' t UlBarrier]) (simp_all add: lk_goto_def pc_carries_def)
next
  case (LkUnlock t)
  then show ?thesis using st calls_unlocking [OF ok, of t Unlock s'] by (simp split: if_splits)
next
  case (LkRLock t)
  then have "s' = lk_goto t (RdArrive False 0) s" "lk_pc s t = QdIdle" using st by (simp_all split: if_splits)
  then show ?thesis by (intro lk_calls_ok_move [OF ok, of s' t "RdArrive False 0"]) (simp_all add: lk_goto_def pc_carries_def)
next
  case (LkRUnlock t)
  then obtain rg where "s' = lk_goto t QdIdle (s\<lparr>lk_readers := rg\<rparr>)" "lk_pc s t = RdCrit"
    using st by (auto split: if_splits)
  then show ?thesis by (intro lk_calls_ok_move [OF ok, of s' t QdIdle]) (simp_all add: lk_goto_def pc_carries_def)
next
  case (LkGo t)
  then show ?thesis using st calls_go [OF rel ok] by simp
next
  case (LkIntr t)
  then obtain m where "s' = s\<lparr>lk_mutex := m\<rparr>" using st by auto
  then show ?thesis using ok by (simp add: lk_calls_ok_def)
qed

lemma calls_run:
  assumes "run (linked_step C) ls (lk_init C M w) = Some s"
  shows "\<exists>a. lk_rel C I s a \<and> lk_calls_ok C s"
proof -
  have init: "lk_calls_ok C (lk_init C M w)"
    by (simp add: lk_calls_ok_def lk_init_def db_init_def pc_carries_def)
  have "run (linked_step C) ls s0 = Some s \<Longrightarrow> lk_rel C I s0 a0 \<Longrightarrow> lk_calls_ok C s0 \<Longrightarrow>
      \<exists>a. lk_rel C I s a \<and> lk_calls_ok C s" for s0 a0
  proof (induction ls arbitrary: s0 a0)
    case (Cons l ls)
    then obtain s1 where s1: "linked_step C l s0 = Some s1" "run (linked_step C) ls s1 = Some s" by (auto split: option.splits)
    obtain a1 where "lk_rel C I s1 a1" using linked_sim_step [OF Cons.prems(2) s1(1)] by blast
    then show ?case using Cons.IH [OF s1(2)] calls_step [OF Cons.prems(2,3) s1(1)] by blast
  qed auto
  then show ?thesis using assms linked_sim_init init by blast
qed

text \<open>
  The only place where a call of the lock or of the queue waits for others in a single step is inside a
  locking call; every other thread that is in a call of its own can take its next step.
\<close>

lemma linked_enabled:
  assumes r: "run (linked_step C) ls (lk_init C M w) = Some s"
    and busy: "lk_pc s t \<notin> {QdIdle, RdCrit, HdRun UserLock}"
  shows "linked_step C (LkGo t) s \<noteq> None \<or>
    (\<exists>c. lc_phase (lx_lock C) t (lk_mutex s) = LpLocking c \<and> lc_step (lx_lock C) (t, Go) (lk_mutex s) = None)"
proof -
  obtain a where rel: "lk_rel C I s a" and ok: "lk_calls_ok C s" using calls_run [OF r] by blast
  obtain d where d: "qd_rel a d" using lk_relD(9) [OF rel] by blast
  note ph = lk_relD(8) [OF rel, of t] and qrel = lk_relD(3) [OF rel]
  have sizes: "map length (snd x) = db_sizes (lx_queue C) (fst x)" if "x \<in> set (pc_carries (lk_pc s t))" for x
    using ok that unfolding lk_calls_ok_def by blast
  have call: "tq_calls (tq_untag (qd_queue a)) t = map_tq_call snd (pc_call t (lk_pc s t))"
    if "pc_locks (lk_pc s t) = None" "lk_pc s t \<noteq> HdRelease"
    using outside_locking(1) [OF rel that] qd_relD(4) [OF d] by simp
  have enq: "linked_step C (LkGo t) s \<noteq> None" if pc: "lk_pc s t = DlEnqueuing x r \<or> lk_pc s t = DlEnqueued x r" for x r
  proof -
    have "db_pc (lk_queue s) t \<noteq> DbIdle" using call db_relD(3) [OF qrel, of t] pc by auto
    then show ?thesis using db_enqueue_progress [OF queue_ok qrel] pc
      by (fastforce simp: lk_go_def lk_enqueue_def lk_queue_step_def)
  qed
  show ?thesis
  proof (cases "pc_locks (lk_pc s t)")
    case (Some y)
    then obtain c h where y: "pc_locks (lk_pc s t) = Some (c, h)" by (cases y) auto
    then have c: "c \<in> {Lock, TryLock, TryLockOrWait}" by (cases "lk_pc s t") (auto split: if_splits)
    have "lc_phase (lx_lock C) t (lk_mutex s) = LpIdle \<or> lc_phase (lx_lock C) t (lk_mutex s) = LpLocking c"
      using ph y by (simp add: pc_phase_def)
    then show ?thesis
    proof
      assume i: "lc_phase (lx_lock C) t (lk_mutex s) = LpIdle"
      from call_enabled [OF i c] show ?thesis using y i by (auto simp: lk_go_def lk_locking_def Let_def)
    next
      assume i: "lc_phase (lx_lock C) t (lk_mutex s) = LpLocking c"
      then show ?thesis using y
        by (cases "lc_step (lx_lock C) (t, Go) (lk_mutex s)") (auto simp: lk_go_def lk_locking_def Let_def)
    qed
  next
    case None
    show ?thesis
    proof (cases "lk_pc s t")
      case (DlEnqueue x r)
      then have "db_pc (lk_queue s) t = DbIdle"
        using call db_relD(3) [OF qrel, of t] by (cases "db_pc (lk_queue s) t") auto
      then show ?thesis using sizes [of x] DlEnqueue
        by (auto simp: lk_go_def lk_enqueue_def lk_queue_step_def pc_carries_def)
    next
      case (DlEnqueuing x r)
      then show ?thesis using enq by blast
    next
      case (DlEnqueued x r)
      then show ?thesis using enq by blast
    next
      case (HdOpen x)
      have "\<not> pc_queue_used (lk_pc s u)" for u
        using others_unused [OF rel, of t u] HdOpen by (cases "u = t") auto
      then have "db_owner (lk_queue s) = DwClosed" using ok unfolding lk_calls_ok_def by blast
      then show ?thesis using HdOpen by (simp add: lk_go_def lk_queue_step_def)
    next
      case HdFlush
      then have o: "db_owner (lk_queue s) \<noteq> DwClosed" using ok unfolding lk_calls_ok_def by blast
      show ?thesis
      proof (cases "db_owner (lk_queue s) = DwOpened")
        case True
        then show ?thesis using HdFlush by (simp add: lk_go_def lk_flush_def lk_queue_step_def)
      next
        case False
        then have "db_flush (lx_queue C) (lk_queue s) \<noteq> None" using db_flush_enabled [OF queue_ok qrel] o by simp
        then show ?thesis using HdFlush o by (auto simp: lk_go_def lk_flush_def lk_queue_step_def split: option.splits)
      qed
    next
      case HdUnlock
      then have "lc_phase (lx_lock C) t (lk_mutex s) = LpCrit" using ph by (simp add: pc_phase_def)
      from unlock_enabled [OF this] show ?thesis using HdUnlock by (auto simp: lk_go_def lk_unlocking_def)
    next
      case HdRelease
      then have "lc_phase (lx_lock C) t (lk_mutex s) = LpUnlocking" using ph by (simp add: pc_phase_def)
      from unlock_runs [OF lk_relD(1) [OF rel] this] show ?thesis using HdRelease by (auto simp: lk_go_def lk_unlocking_def)
    next
      case (HdRun h)
      then show ?thesis using busy by (cases h) (auto simp: lk_go_def lk_local_def Let_def)
    next
      case (HdGot h)
      then show ?thesis using ph by (simp add: pc_phase_def)
    qed (use busy None in \<open>auto simp: lk_go_def lk_local_def Let_def\<close>)
  qed
qed

end

context linking begin

text \<open>So the threads never wait for each other in a circle: while a thread is in a call, some thread can move, or the user has the lock.\<close>

lemma linked_alive:
  assumes r: "run (linked_step C) ls (lk_init C M w) = Some s"
    and busy: "lk_pc s t \<notin> {QdIdle, RdCrit, HdRun UserLock}"
  shows "\<exists>u. lk_pc s u = HdRun UserLock \<or> linked_step C (LkGo u) s \<noteq> None"
proof (cases "linked_step C (LkGo t) s = None")
  case True
  let ?L = "lx_lock C"
  obtain a where rel: "lk_rel C I s a" using linked_run [OF r] by blast
  obtain c where "lc_phase ?L t (lk_mutex s) = LpLocking c" "lc_step ?L (t, Go) (lk_mutex s) = None"
    using linked_enabled [OF r busy] True by blast
  then obtain u where u: "lc_phase ?L u (lk_mutex s) = LpCrit \<or>
      lc_phase ?L u (lk_mutex s) \<noteq> LpIdle \<and> lc_step ?L (u, Go) (lk_mutex s) \<noteq> None"
    using waits [OF lk_relD(1) [OF rel]] by blast
  note ph = lk_relD(8) [OF rel, of u]
  show ?thesis
  proof (cases "lc_phase ?L u (lk_mutex s) = LpCrit")
    case True
    then have "lk_pc s u \<notin> {QdIdle, RdCrit}" using ph by (auto simp: pc_phase_def)
    then show ?thesis using linked_enabled [OF r, of u] True by auto
  next
    case False
    then have go: "lc_phase ?L u (lk_mutex s) \<noteq> LpIdle" "lc_step ?L (u, Go) (lk_mutex s) \<noteq> None" using u by blast+
    show ?thesis
    proof (cases "pc_locks (lk_pc s u)")
      case (Some y)
      then have "linked_step C (LkGo u) s \<noteq> None" using go by (cases y) (auto simp: lk_go_def lk_locking_def Let_def)
      then show ?thesis by blast
    next
      case None
      then have "lk_pc s u = HdRelease" using ph go False by (cases "lk_pc s u") (auto simp: pc_phase_def split: if_splits)
      then have "linked_step C (LkGo u) s \<noteq> None" using go by (auto simp: lk_go_def lk_unlocking_def)
      then show ?thesis by blast
    qed
  qed
qed blast

end

end
