(* ===== verification/Default_Lock.thy ===== *)
theory Default_Lock
  imports Linked_Lock MCS_Futex_Lock
begin

text \<open>
  The locks that \<open>qd.hpp\<close> defines, \<open>qdlock\<close> and \<open>mrqdlock\<close>: delegation by \<open>qdlock_impl\<close> and \<open>mrqdlock_impl\<close> linked with
  \<open>mcs_futex_lock\<close> and \<open>dual_buffer_queue\<close>. The theory gives \<open>mcs_futex_lock\<close> as a class of locks, shows that it
  keeps what Linked_Lock relies on, and states the correctness of the linked locks.
\<close>

section \<open>The MCS lock with futexes as a class of locks\<close>

fun mf_lock_phase :: "mf_pc \<Rightarrow> lock_phase" where
  "mf_lock_phase MfIdle = LpIdle"
| "mf_lock_phase MfLoad = LpLocking Lock"
| "mf_lock_phase (MfCas c) = LpLocking Lock"
| "mf_lock_phase (MfMark f) = LpLocking Lock"
| "mf_lock_phase (MfLink f) = LpLocking Lock"
| "mf_lock_phase (MfSpin i) = LpLocking Lock"
| "mf_lock_phase MfTest = LpLocking Lock"
| "mf_lock_phase MfContend = LpLocking Lock"
| "mf_lock_phase MfLoop = LpLocking Lock"
| "mf_lock_phase MfWait = LpLocking Lock"
| "mf_lock_phase MfSleep = LpLocking Lock"
| "mf_lock_phase MfTryLoad = LpLocking TryLock"
| "mf_lock_phase MfTryCas = LpLocking TryLock"
| "mf_lock_phase MfTlwLoad = LpLocking TryLockOrWait"
| "mf_lock_phase (MfTlwCas c) = LpLocking TryLockOrWait"
| "mf_lock_phase (MfTlwFlag c) = LpLocking TryLockOrWait"
| "mf_lock_phase (MfTlwWait c) = LpLocking TryLockOrWait"
| "mf_lock_phase MfTlwSleep = LpLocking TryLockOrWait"
| "mf_lock_phase MfCrit = LpCrit"
| "mf_lock_phase (MfWake b) = LpOther"
| "mf_lock_phase (MfWakeAll b) = LpOther"
| "mf_lock_phase _ = LpUnlocking"

definition mcs_futex_class ::
  "(tid \<Rightarrow> 64 word) \<Rightarrow> (mf_futex, 'k) futex_kernel \<Rightarrow> (tid \<Rightarrow> mcs_field) \<Rightarrow> 'k mcs_futex_lock lock_class" where
  "mcs_futex_class A K f =
     \<lparr>lc_init = mcs_futex_init K f, lc_step = mcs_futex_step A K, lc_phase = (\<lambda>t s. mf_lock_phase (mf_pc s t)),
      lc_is_locked = mf_is_locked, lc_holds = mf_holds\<rparr>"

lemma mf_phase_holds:
  "mf_lock_phase p = LpIdle \<Longrightarrow> \<not> ph_owns (mf_phase p)" "mf_lock_phase p = LpLocking a \<Longrightarrow> \<not> ph_owns (mf_phase p)"
  by (cases p; simp)+

lemma mf_lock_phase_simps [simp]:
  "mf_lock_phase (mf_tlw c e) = LpLocking TryLockOrWait" "mf_lock_phase (mf_spin i) = LpLocking Lock"
  by (simp_all add: mf_tlw_def mf_spin_def)

lemma mf_go_locking:
  assumes "mf_go A K t s = Some s'" and "mf_lock_phase (mf_pc s t) = LpLocking a"
  shows "mf_lock_phase (mf_pc s' t) = LpCrit \<or> mf_lock_phase (mf_pc s' t) = LpLocking a \<or>
    mf_lock_phase (mf_pc s' t) = LpIdle \<and> a \<noteq> Lock"
  using assms by (cases "mf_pc s t") (auto simp: mf_ops split: if_splits option.splits)

lemma mf_go_unlocking:
  assumes "mf_go A K t s = Some s'" and "mf_lock_phase (mf_pc s t) = LpUnlocking"
  shows "mf_lock_phase (mf_pc s' t) \<in> {LpUnlocking, LpIdle}" "mf_holds t s' \<Longrightarrow> mf_holds t s"
  using assms by (cases "mf_pc s t"; auto simp: mf_ops mf_holds_def split: if_splits option.splits prod.splits)+

lemma mf_call_phase:
  assumes "mf_call a p = Some p'"
  shows "a \<in> {Lock, TryLock, TryLockOrWait} \<Longrightarrow> mf_lock_phase p' = LpLocking a"
    "a = Unlock \<Longrightarrow> mf_lock_phase p' = LpUnlocking"
  using assms by (cases a; simp add: mf_call_def split: if_splits; fail | auto simp: mf_call_def split: if_splits)+

lemma mcs_futex_call:
  "a \<notin> {Go, Intr} \<Longrightarrow> mcs_futex_step A K (t, a) s = map_option (\<lambda>p. mf_goto t p s) (mf_call a (mf_pc s t))"
  by (cases a) simp_all

lemma mf_lock_phase_is:
  "mf_lock_phase p = LpIdle \<longleftrightarrow> p = MfIdle" "mf_lock_phase p = LpCrit \<longleftrightarrow> p = MfCrit"
  by (cases p; simp)+

lemma mf_locking_sleeps:
  "mf_lock_phase (mf_pc s t) = LpLocking c \<Longrightarrow> mcs_futex_step A K (t, Go) s = None \<Longrightarrow> mf_sleeps K s t"
  by (cases "mf_pc s t") (auto simp: mf_ops mf_sleeps_def split: if_splits)

lemma mf_lock_waits:
  assumes rel: "mf_rel K s q" and ph: "mf_lock_phase (mf_pc s t) = LpLocking c" and st: "mcs_futex_step A K (t, Go) s = None"
  shows "\<exists>u. mf_lock_phase (mf_pc s u) = LpCrit \<or>
    mf_lock_phase (mf_pc s u) \<noteq> LpIdle \<and> mcs_futex_step A K (u, Go) s \<noteq> None"
proof -
  obtain u where u: "mf_crit u s \<or> mcs_futex_step A K (u, Go) s \<noteq> None" using mf_alive [OF rel mf_locking_sleeps [OF ph st]] by blast
  have "mf_pc s u \<noteq> MfIdle" if "mcs_futex_step A K (u, Go) s \<noteq> None" using that by (auto simp: mf_ops)
  then show ?thesis using u by (auto simp: mf_crit_def mf_lock_phase_is)
qed

lemma mcs_futex_callable:
  assumes A: "aligned_nodes A" and K: "futex_ok K"
  shows "callable_lock (mcs_futex_step A K) (mcs_futex_init K f) (\<lambda>s. \<exists>q. mf_rel K s q) mf_holds mf_crit mf_is_locked
    (\<lambda>t s. mf_lock_phase (mf_pc s t))"
proof (intro callable_lock.intro callable_lock_axioms.intro)
  show "lock_impl (mcs_futex_step A K) (mcs_futex_init K f) (\<lambda>s. \<exists>q. mf_rel K s q) mf_holds mf_crit mf_is_locked"
    by (rule queue_lock.is_lock [OF mcs_futex_queue_lock [OF A K]])
  fix t u a c and s s' :: "'a mcs_futex_lock"
  show "mf_lock_phase (mf_pc (mcs_futex_init K f) t) = LpIdle" by (simp add: mcs_futex_init_def)
  show "mcs_futex_step A K (t, a) s = Some s' \<Longrightarrow> u \<noteq> t \<Longrightarrow> mf_lock_phase (mf_pc s' u) = mf_lock_phase (mf_pc s u)"
    using mcs_futex_step_frame by metis
  show "mf_lock_phase (mf_pc s t) = LpIdle \<Longrightarrow> \<not> mf_holds t s" by (simp add: mf_holds_def mf_phase_holds)
  show "mf_lock_phase (mf_pc s t) = LpCrit \<longleftrightarrow> mf_crit t s" by (simp add: mf_crit_def mf_lock_phase_is)
  show "mf_lock_phase (mf_pc s' t) = LpLocking a \<and> \<not> mf_holds t s'"
    if st: "mcs_futex_step A K (t, a) s = Some s'" and a: "a \<in> {Lock, TryLock, TryLockOrWait}"
  proof -
    have "a \<notin> {Go, Intr}" using a by auto
    then have "map_option (\<lambda>p. mf_goto t p s) (mf_call a (mf_pc s t)) = Some s'" using st by (simp add: mcs_futex_call)
    then obtain p where p: "mf_call a (mf_pc s t) = Some p" "s' = mf_goto t p s" by (cases "mf_call a (mf_pc s t)") auto
    note ph = mf_call_phase(1) [OF p(1) a]
    then show ?thesis using p(2) mf_phase_holds(2) [OF ph] by (simp add: mf_goto_def mf_holds_def)
  qed
  show "mf_lock_phase (mf_pc s' t) \<in> {LpUnlocking, LpIdle}" if st: "mcs_futex_step A K (t, Unlock) s = Some s'"
  proof -
    obtain p where p: "mf_call Unlock (mf_pc s t) = Some p" "s' = mf_goto t p s" using st by auto
    then show ?thesis using mf_call_phase(2) [OF p(1)] by (simp add: mf_goto_def)
  qed
  show "mf_lock_phase (mf_pc s' t) = LpCrit \<or> mf_lock_phase (mf_pc s' t) = LpLocking a \<and> (mf_holds t s \<longrightarrow> mf_holds t s') \<or>
      mf_lock_phase (mf_pc s' t) = LpIdle \<and> a \<noteq> Lock \<and> \<not> mf_holds t s"
    if "mcs_futex_step A K (t, Go) s = Some s'" and "mf_lock_phase (mf_pc s t) = LpLocking a"
    using mf_go_locking [of A K t s s' a] that mf_phase_holds(2) [OF that(2)] by (simp add: mf_holds_def)
  show "mf_lock_phase (mf_pc s' t) \<in> {LpUnlocking, LpIdle} \<and> (mf_holds t s' \<longrightarrow> mf_holds t s)"
    if "mcs_futex_step A K (t, Go) s = Some s'" and "mf_lock_phase (mf_pc s t) = LpUnlocking"
    using mf_go_unlocking [of A K t s s'] that by simp
  show "mcs_futex_step A K (t, Intr) s = Some s' \<Longrightarrow>
      mf_lock_phase (mf_pc s' t) = mf_lock_phase (mf_pc s t) \<and> mf_holds t s' = mf_holds t s"
    by (auto simp: mf_holds_def)
  show "mf_lock_phase (mf_pc s t) = LpIdle \<Longrightarrow> a \<in> {Lock, TryLock, TryLockOrWait} \<Longrightarrow> mcs_futex_step A K (t, a) s \<noteq> None"
    by (auto simp: mf_lock_phase_is mf_call_def)
  show "mf_lock_phase (mf_pc s t) = LpCrit \<Longrightarrow> mcs_futex_step A K (t, Unlock) s \<noteq> None"
    by (simp add: mf_lock_phase_is mf_call_def)
  show "mcs_futex_step A K (t, Go) s \<noteq> None" if rel: "\<exists>q. mf_rel K s q" and ph: "mf_lock_phase (mf_pc s t) = LpUnlocking"
  proof -
    obtain q where q: "mf_chain s q" "mf_next_ok s" "mf_sleep_ok K s" using rel by (auto simp: mf_rel_def)
    have "\<not> mf_sleeps K s t"
      using mf_sleep_okD(1) [OF q(3), of LockWord t] mf_sleep_okD(1) [OF q(3), of "NodeWord t" t] ph
      by (auto simp: mf_sleeps_def)
    moreover have "mf_pc s t \<noteq> MfIdle" "mf_pc s t \<noteq> MfCrit" using ph by auto
    ultimately show ?thesis using mf_enabled [OF q(2)] by blast
  qed
  show "(\<exists>q. mf_rel K s q) \<Longrightarrow> mf_lock_phase (mf_pc s t) = LpLocking c \<Longrightarrow> mcs_futex_step A K (t, Go) s = None \<Longrightarrow>
      \<exists>u. mf_lock_phase (mf_pc s u) = LpCrit \<or> mf_lock_phase (mf_pc s u) \<noteq> LpIdle \<and> mcs_futex_step A K (u, Go) s \<noteq> None"
    using mf_lock_waits by blast
qed

lemma mcs_futex_linking:
  assumes "aligned_nodes A" and "futex_ok K" and "lx_lock C = mcs_futex_class A K f"
  shows "lock_linking C (\<lambda>s. \<exists>q. mf_rel K s q) mf_crit"
    and "db_ok (lx_queue C) \<Longrightarrow> db_zeroed (lx_queue C) M \<Longrightarrow> linking C (\<lambda>s. \<exists>q. mf_rel K s q) mf_crit M"
  using mcs_futex_callable [OF assms(1,2), of f] assms(3)
  by (simp_all add: lock_linking_def linking_def linking_axioms_def mcs_futex_class_def)

section \<open>The locks of \<open>qd.hpp\<close>\<close>

text \<open>
  \<open>D\<close> has the wrappers of the program: their addresses and the sizes of their parameters. The locks have no use
  for the groups of readers and the patience of the other one.
\<close>

definition qdlock ::
  "'l lock_class \<Rightarrow> ('f op \<Rightarrow> 'w \<Rightarrow> 'w) \<Rightarrow> 'f db_config \<Rightarrow> ('f, 'w, 'l) linked_config" where
  "qdlock L exec D =
     \<lparr>lx_qd = \<lparr>cf_exec = exec, cf_may_starve = False, cf_readers = False, cf_groups = 0, cf_patience = 0\<rparr>,
      lx_lock = L,
      lx_queue = D\<lparr>db_entries := 6144, db_entry_size := 24, db_policy := use_fetch_and_add\<rparr>\<rparr>"

definition mrqdlock ::
  "'l lock_class \<Rightarrow> ('f op \<Rightarrow> 'w \<Rightarrow> 'w) \<Rightarrow> 'f db_config \<Rightarrow> ('f, 'w, 'l) linked_config" where
  "mrqdlock L exec D =
     \<lparr>lx_qd = \<lparr>cf_exec = exec, cf_may_starve = False, cf_readers = True, cf_groups = 64, cf_patience = 65536\<rparr>,
      lx_lock = L,
      lx_queue = D\<lparr>db_entries := 6144, db_entry_size := 24, db_policy := use_fetch_and_add\<rparr>\<rparr>"

lemma default_config_simps:
  "lx_lock (qdlock L exec D) = L" "cf_exec (lx_qd (qdlock L exec D)) = exec" "cf_ok (lx_qd (qdlock L exec D))"
  "lx_lock (mrqdlock L exec D) = L" "cf_exec (lx_qd (mrqdlock L exec D)) = exec" "cf_ok (lx_qd (mrqdlock L exec D))"
  by (simp_all add: qdlock_def mrqdlock_def cf_ok_def)

lemma default_linking:
  assumes "aligned_nodes A" and "futex_ok K"
    and "C \<in> {qdlock (mcs_futex_class A K f) exec D, mrqdlock (mcs_futex_class A K f) exec D}"
  shows "db_ok (lx_queue C) \<Longrightarrow> db_zeroed (lx_queue C) M \<Longrightarrow> linking C (\<lambda>s. \<exists>q. mf_rel K s q) mf_crit M"
    and "lock_linking C (\<lambda>s. \<exists>q. mf_rel K s q) mf_crit"
    and "cf_exec (lx_qd C) = exec" "cf_ok (lx_qd C)" "lx_lock C = mcs_futex_class A K f"
proof -
  show lock: "lx_lock C = mcs_futex_class A K f" and "cf_exec (lx_qd C) = exec" and "cf_ok (lx_qd C)"
    using assms(3) default_config_simps by auto
  show "db_ok (lx_queue C) \<Longrightarrow> db_zeroed (lx_queue C) M \<Longrightarrow> linking C (\<lambda>s. \<exists>q. mf_rel K s q) mf_crit M"
    and "lock_linking C (\<lambda>s. \<exists>q. mf_rel K s q) mf_crit"
    by (rule mcs_futex_linking [OF assms(1,2) lock]; assumption)+
qed

lemma default_queue_ok: "db_ok (lx_queue (qdlock L exec db_default))" "db_ok (lx_queue (mrqdlock L exec db_default))"
proof -
  have "db_default\<lparr>db_entries := 6144, db_entry_size := 24, db_policy := use_fetch_and_add\<rparr> = db_default"
    by (simp add: db_default_def db_config_of_def)
  then show "db_ok (lx_queue (qdlock L exec db_default))" "db_ok (lx_queue (mrqdlock L exec db_default))"
    using db_default_ok by (simp_all add: qdlock_def mrqdlock_def)
qed

interpretation default_mutex: callable_lock "mcs_futex_step node_addr list_kernel" "mcs_futex_init list_kernel f"
  "\<lambda>s. \<exists>q. mf_rel list_kernel s q" mf_holds mf_crit mf_is_locked "\<lambda>t s. mf_lock_phase (mf_pc s t)" for f
  by (rule mcs_futex_callable [OF node_addr_aligned list_kernel_ok])

interpretation excluding_qdlock: lock_linking "qdlock (mcs_futex_class node_addr list_kernel f) exec D"
  "\<lambda>s. \<exists>q. mf_rel list_kernel s q" mf_crit for f exec D
  by (rule mcs_futex_linking(1) [OF node_addr_aligned list_kernel_ok default_config_simps(1)])

interpretation excluding_mrqdlock: lock_linking "mrqdlock (mcs_futex_class node_addr list_kernel f) exec D"
  "\<lambda>s. \<exists>q. mf_rel list_kernel s q" mf_crit for f exec D
  by (rule mcs_futex_linking(1) [OF node_addr_aligned list_kernel_ok default_config_simps(4)])

interpretation default_qdlock: linking "qdlock (mcs_futex_class node_addr list_kernel f) exec db_default"
  "\<lambda>s. \<exists>q. mf_rel list_kernel s q" mf_crit
  "db_static (lx_queue (qdlock (mcs_futex_class node_addr list_kernel f) exec db_default))" for f exec
  by (rule mcs_futex_linking(2) [OF node_addr_aligned list_kernel_ok default_config_simps(1) default_queue_ok(1) db_static_zeroed])

interpretation default_mrqdlock: linking "mrqdlock (mcs_futex_class node_addr list_kernel f) exec db_default"
  "\<lambda>s. \<exists>q. mf_rel list_kernel s q" mf_crit
  "db_static (lx_queue (mrqdlock (mcs_futex_class node_addr list_kernel f) exec db_default))" for f exec
  by (rule mcs_futex_linking(2) [OF node_addr_aligned list_kernel_ok default_config_simps(4) default_queue_ok(2) db_static_zeroed])

section \<open>Properties\<close>

text \<open>
  C6. The locks of \<open>qd.hpp\<close> delegate, with the MCS lock and the dual buffer queue at the granularity of their accesses to shared memory,
  for every kernel, address of the nodes and set of wrappers, when they are constructed in memory in which the function pointers of the
  queue are null (the constructor does not set them): in every run the
  protected data are the result of the operations that were executed, one after the other; a thread's operations are executed in the order in
  which it delegated them, each at most once, and all of them once the thread is out of its call and nobody has the lock.
\<close>
theorem default_lock_correct:
  assumes A: "aligned_nodes A" and K: "futex_ok K" and ok: "db_ok (lx_queue C)" and zero: "db_zeroed (lx_queue C) M"
    and C: "C \<in> {qdlock (mcs_futex_class A K f) exec D, mrqdlock (mcs_futex_class A K f) exec D}"
    and r: "run (linked_step C) ls (lk_init C M w) = Some s"
  shows "lk_world s = fold exec (ds_order (linked_history C M w ls)) w \<and>
    (\<exists>todo. lk_delegated t ls = ds_execs t (linked_history C M w ls) @ todo \<and>
       ((\<forall>u. \<not> mf_holds u (lk_mutex s)) \<and> lk_pc s t = QdIdle \<longrightarrow> todo = []))"
proof -
  note lk = default_linking(1) [OF A K C ok zero] and L = default_linking(2-5) [OF A K C]
  have h: "lc_holds (lx_lock C) = mf_holds" by (simp add: L(4) mcs_futex_class_def)
  show ?thesis using linking.linked_executes(1) [OF lk r] linking.linked_executes(2) [OF lk r, of t] unfolding L(2) h by blast
qed

text \<open>
  C9. A thread that executes operations, or that has locked for itself, has the data for itself: no other thread is between
  the return of its locking call and its call of \<open>unlock\<close>, and in \<open>mrqdlock\<close> no reader is in its critical section. (This holds whatever the memory of the queue contains.)
\<close>
theorem default_lock_excludes:
  assumes A: "aligned_nodes A" and K: "futex_ok K"
    and C: "C \<in> {qdlock (mcs_futex_class A K f) exec D, mrqdlock (mcs_futex_class A K f) exec D}"
    and r: "run (linked_step C) ls (lk_init C M w) = Some s"
    and t: "lk_pc s t = HdFlush \<or> (\<exists>h. lk_pc s t = HdRun h)"
  shows "lk_pc s u \<noteq> RdCrit \<and> (u \<noteq> t \<longrightarrow> \<not> pc_crit (lk_pc s u))"
proof -
  note L = default_linking [OF A K C]
  show ?thesis using lock_linking.linked_excludes(1) [OF L(2,4) r t, of u] lock_linking.linked_excludes(2) [OF L(2,4) r t, of u] by blast
qed

text \<open>
  C10. The locks of \<open>qd.hpp\<close>, constructed in memory in which the function pointers of the queue are null, do not deadlock: a thread in a call of its own can take its next step, whatever the others do, unless it
  sleeps in its locking call; and then, too, some thread can take a step, or the user holds the lock.
\<close>
theorem default_lock_alive:
  assumes A: "aligned_nodes A" and K: "futex_ok K" and ok: "db_ok (lx_queue C)" and zero: "db_zeroed (lx_queue C) M"
    and C: "C \<in> {qdlock (mcs_futex_class A K f) exec D, mrqdlock (mcs_futex_class A K f) exec D}"
    and r: "run (linked_step C) ls (lk_init C M w) = Some s"
    and busy: "lk_pc s t \<notin> {QdIdle, RdCrit, HdRun UserLock}"
  shows "(linked_step C (LkGo t) s \<noteq> None \<or> mf_sleeps K (lk_mutex s) t) \<and>
    (\<exists>u. lk_pc s u = HdRun UserLock \<or> linked_step C (LkGo u) s \<noteq> None)"
proof -
  note lk = default_linking(1) [OF A K C ok zero] and L = default_linking(2-5) [OF A K C]
  have "mf_sleeps K (lk_mutex s) t"
    if "lc_phase (lx_lock C) t (lk_mutex s) = LpLocking c" "lc_step (lx_lock C) (t, Go) (lk_mutex s) = None" for c
    using that mf_locking_sleeps [of "lk_mutex s" t c A K] by (simp add: L(4) mcs_futex_class_def)
  then show ?thesis using linking.linked_enabled [OF lk r busy] linking.linked_alive [OF lk r busy] by blast
qed

section \<open>A run\<close>

text \<open>
  Thread 0 gets the lock and executes its operation; thread 1, which finds the queue closed, gets the lock
  afterwards and opens the queue; thread 2 delegates to it.
\<close>

definition demo_op :: "byte \<Rightarrow> byte op" where
  "demo_op b = (b, [[1, 2, 3, 4, 5, 6, 7, 8], [b, 7, 6, 5, 4, 3, 2, 1]])"

definition demo_lock :: "(byte, byte op list, (mf_futex \<times> tid) list mcs_futex_lock) linked_config" where
  "demo_lock = qdlock (mcs_futex_class node_addr list_kernel (\<lambda>_. Free)) (\<lambda>x w. w @ [x]) db_default"

definition demo_gos :: "tid \<Rightarrow> nat \<Rightarrow> byte lk_label list" where
  "demo_gos t n = replicate n (LkGo t)"

definition demo_first :: "byte lk_label list" where
  "demo_first = [LkDelegate 0 (demo_op 5)] @ demo_gos 0 4 @ [LkDelegate 1 (demo_op 6)] @ demo_gos 1 4 @ demo_gos 0 6"

definition demo_second :: "byte lk_label list" where
  "demo_second = demo_gos 1 6 @ [LkDelegate 2 (demo_op 7)] @ demo_gos 2 10"

definition demo_third :: "byte lk_label list" where
  "demo_third = demo_gos 1 12"

lemmas lk_eval = demo_op_def demo_lock_def qdlock_def mcs_futex_class_def lk_go_def lk_locking_def lk_unlocking_def
  lk_enqueue_def lk_flush_def lk_queue_step_def lk_local_def lk_goto_def pc_wait_readers_def qd_loop_def Let_def


lemma demo_gos_simps [simp]:
  "demo_gos t 0 = []" "demo_gos t (Suc n) = LkGo t # demo_gos t n"
  "demo_gos t (numeral k) = LkGo t # demo_gos t (pred_numeral k)"
  by (simp_all add: demo_gos_def numeral_eq_Suc)

lemma demo_runs:
  "\<exists>s. run (linked_step demo_lock) (demo_first @ demo_second @ demo_third) (lk_init demo_lock (db_static (lx_queue demo_lock)) []) = Some s \<and>
     lk_world s = [demo_op 5, demo_op 6, demo_op 7] \<and> lk_pc s 2 = QdIdle \<and> (\<forall>t. \<not> mf_holds t (lk_mutex s))"
  by (simp add: demo_first_def demo_second_def demo_third_def lk_init_def lk_eval db_eval db_default_def mf_eval mf_holds_def)

lemma demo_lock_ok:
  "demo_lock \<in> {qdlock (mcs_futex_class node_addr list_kernel (\<lambda>_. Free)) (\<lambda>x w. w @ [x]) db_default,
     mrqdlock (mcs_futex_class node_addr list_kernel (\<lambda>_. Free)) (\<lambda>x w. w @ [x]) db_default}"
  "db_ok (lx_queue demo_lock)"
  using default_queue_ok(1) by (simp_all add: demo_lock_def)

theorem default_lock_correct_witness:
  "let ls = demo_first @ demo_second @ demo_third; es = linked_history demo_lock (db_static (lx_queue demo_lock)) [] ls in
   \<exists>s. run (linked_step demo_lock) ls (lk_init demo_lock (db_static (lx_queue demo_lock)) []) = Some s \<and>
     [demo_op 5, demo_op 6, demo_op 7] = fold (\<lambda>x w. w @ [x]) (ds_order es) [] \<and> ds_execs 2 es = [demo_op 7]"
proof -
  let ?ls = "demo_first @ demo_second @ demo_third"
  obtain s where s: "run (linked_step demo_lock) ?ls (lk_init demo_lock (db_static (lx_queue demo_lock)) []) = Some s"
      "lk_world s = [demo_op 5, demo_op 6, demo_op 7]" "lk_pc s 2 = QdIdle" "\<forall>t. \<not> mf_holds t (lk_mutex s)"
    using demo_runs by blast
  have "lk_delegated 2 ?ls = [demo_op 7]"
    by (simp add: demo_first_def demo_second_def demo_third_def)
  then show ?thesis
    using default_lock_correct [OF node_addr_aligned list_kernel_ok demo_lock_ok(2) db_static_zeroed demo_lock_ok(1) s(1), of 2] s by (auto simp: Let_def)
qed

theorem default_lock_alive_witness:
  "\<exists>s. run (linked_step demo_lock) demo_first (lk_init demo_lock (db_static (lx_queue demo_lock)) []) = Some s \<and>
     (linked_step demo_lock (LkGo 1) s \<noteq> None \<or> mf_sleeps list_kernel (lk_mutex s) 1) \<and>
     (\<exists>u. lk_pc s u = HdRun UserLock \<or> linked_step demo_lock (LkGo u) s \<noteq> None)"
proof -
  obtain s where s: "run (linked_step demo_lock) demo_first (lk_init demo_lock (db_static (lx_queue demo_lock)) []) = Some s"
      "lk_pc s 1 = DlEnqueuing (demo_op 6) 1"
    by (simp add: demo_first_def lk_init_def lk_eval db_eval db_default_def mf_eval)
  have "lk_pc s 1 \<notin> {QdIdle, RdCrit, HdRun UserLock}" using s(2) by simp
  from default_lock_alive [OF node_addr_aligned list_kernel_ok demo_lock_ok(2) db_static_zeroed demo_lock_ok(1) s(1) this] s(1) show ?thesis by blast
qed

text \<open>A reader that comes and goes; then thread 0 gets the lock and looks at the groups of readers, and a second reader finds the lock taken.\<close>

definition demo_mrqd :: "(byte, byte op list, (mf_futex \<times> tid) list mcs_futex_lock) linked_config" where
  "demo_mrqd = mrqdlock (mcs_futex_class node_addr list_kernel (\<lambda>_. Free)) (\<lambda>x w. w @ [x]) db_default"

definition demo_reads :: "byte lk_label list" where
  "demo_reads = [LkRLock 1, LkGo 1, LkGo 1, LkRUnlock 1, LkDelegate 0 (demo_op 5)] @ demo_gos 0 69 @ [LkRLock 1, LkGo 1, LkGo 1]"

lemma demo_reads_run:
  "\<exists>s. run (linked_step demo_mrqd) demo_reads (lk_init demo_mrqd (db_static (lx_queue demo_mrqd)) []) = Some s \<and>
     lk_pc s 0 = HdRun (Executor (demo_op 5)) \<and> lk_pc s 1 = RdDepart False 0"
  by (simp add: demo_reads_def demo_mrqd_def mrqdlock_def lk_init_def lk_eval db_eval db_default_def mf_eval
      rg_init_def rg_arrive_def rg_depart_def rg_query_step_def rg_group_def)

theorem default_lock_excludes_witness:
  "\<exists>s. run (linked_step demo_mrqd) demo_reads (lk_init demo_mrqd (db_static (lx_queue demo_mrqd)) []) = Some s \<and>
     lk_pc s 0 = HdRun (Executor (demo_op 5)) \<and> lk_pc s 1 \<noteq> RdCrit \<and> \<not> pc_crit (lk_pc s 1)"
proof -
  obtain s where s: "run (linked_step demo_mrqd) demo_reads (lk_init demo_mrqd (db_static (lx_queue demo_mrqd)) []) = Some s"
      "lk_pc s 0 = HdRun (Executor (demo_op 5))"
    using demo_reads_run by blast
  have ok: "demo_mrqd \<in> {qdlock (mcs_futex_class node_addr list_kernel (\<lambda>_. Free)) (\<lambda>x w. w @ [x]) db_default,
      mrqdlock (mcs_futex_class node_addr list_kernel (\<lambda>_. Free)) (\<lambda>x w. w @ [x]) db_default}"
    by (simp add: demo_mrqd_def)
  have pc: "lk_pc s 0 = HdFlush \<or> (\<exists>h. lk_pc s 0 = HdRun h)" using s(2) by simp
  from default_lock_excludes [OF node_addr_aligned list_kernel_ok ok s(1) pc, of 1] s show ?thesis by auto
qed

end
