(* ===== verification/Composition.thy ===== *)
theory Composition
  imports QD_Lock Delegated Dual_Buffer_Queue "HOL-Library.Multiset"
begin

text \<open>
  How the components fit together: the function pointers stored in a delegation queue are the
  \<open>delegated\<close> wrappers of \<open>qdlock_base.hpp\<close>, and the operations a delegation lock executes are those
  of the overloads of \<open>execute\<close>, which set the promises.
\<close>

section \<open>Entries of a queue and operations\<close>

text \<open>
  \<open>f\<close> names the instances of the wrappers in a program, \<open>tbl\<close> says which instance each is. The
  operation an entry stands for, and the instances that exist.
\<close>

definition entry_op :: "'fn wrapper \<Rightarrow> byte list list \<Rightarrow> 'fn operation" where
  "entry_op w qs =
     \<lparr>o_kind = w_kind w, o_template = w_template w, o_member = w_member w,
      o_promise = (if w_kind w = NoFuture then [] else last qs),
      o_params = (if w_kind w = NoFuture then qs else butlast qs)\<rparr>"

definition wrapper_wf :: "'fn wrapper \<Rightarrow> bool" where
  "wrapper_wf w \<longleftrightarrow> (w_kind w = VoidFuture \<and> w_template w = None \<longrightarrow> length (w_types w) = 1)"

lemma entry_op:
  assumes "wrapper_wf w" and qs: "map length qs = wrapper_sizes P w"
  shows "op_wf P (entry_op w qs)" "enqueued (entry_op w qs) = (w, qs)"
proof -
  have "op_wf P (entry_op w qs) \<and> enqueued (entry_op w qs) = (w, qs)"
  proof (cases "w_kind w = NoFuture")
    case True
    then show ?thesis using qs
      by (simp add: entry_op_def op_wf_def enqueued_def enqueue_nofuture_def wrapper_sizes_def)
  next
    case False
    then have m: "map length qs = w_types w @ [pr_promise_size P]" using qs by (simp add: wrapper_sizes_def)
    then have "qs \<noteq> []" by auto
    then obtain ps r where q: "qs = ps @ [r]" by (metis append_butlast_last_id)
    then have "map length ps = w_types w" "length r = pr_promise_size P" using m by auto
    moreover from this have "length ps = length (w_types w)" by (metis length_map)
    ultimately show ?thesis using False assms(1) q
      by (cases "w_kind w")
        (auto simp: entry_op_def op_wf_def wrapper_wf_def enqueued_def enqueue_future_def enqueue_void_def)
  qed
  then show "op_wf P (entry_op w qs)" "enqueued (entry_op w qs) = (w, qs)" by auto
qed

lemma unroll_sizes: "unroll ns buf off acc = Some (qs, o') \<Longrightarrow> map length qs = map length acc @ ns"
  by (induction ns buf off acc rule: unroll.induct)
    (auto split: option.splits simp: read_bytes_def split: if_splits)

section \<open>The operations a queue runs\<close>

text \<open>Running operations one after the other, until one of them fails.\<close>

fun execute_all ::
  "('fn, 'd, 'v) program \<Rightarrow> 'fn operation list \<Rightarrow> ('d, 'v) world \<Rightarrow> dl_error + ('d, 'v) world" where
  "execute_all P [] W = Inr W"
| "execute_all P (x # xs) W = (case execute P x W of Inl e \<Rightarrow> Inl e | Inr W' \<Rightarrow> execute_all P xs W')"

text \<open>
  The effect of a run of the queue on the world: each call of a function pointer in \<open>flush\<close> is the
  call of a wrapper with the address behind the size field.
\<close>

definition flush_call ::
  "('fn, 'd, 'v) program \<Rightarrow> ('f \<Rightarrow> 'fn wrapper) \<Rightarrow> 'f db_config \<Rightarrow> 'f dual_buffer_queue \<Rightarrow>
   ('d, 'v) world \<Rightarrow> dl_error + ('d, 'v) world" where
  "flush_call P tbl C s W =
     (case db_owner s of
        DwCall opn index todo a \<Rightarrow>
          if a = db_no_op C then Inr W
          else (case db_code C a of
                  None \<Rightarrow> Inr W
                | Some f \<Rightarrow> run_wrapper P (tbl f) (db_buf s) (index * db_entry_size C + 4) W)
      | _ \<Rightarrow> Inr W)"

fun queue_effect ::
  "('fn, 'd, 'v) program \<Rightarrow> ('f \<Rightarrow> 'fn wrapper) \<Rightarrow> 'f db_config \<Rightarrow> 'f q_label list \<Rightarrow> 'f dual_buffer_queue \<Rightarrow>
   ('d, 'v) world \<Rightarrow> dl_error + ('d, 'v) world" where
  "queue_effect P tbl C [] s W = Inr W"
| "queue_effect P tbl C (l # ls) s W =
     (case db_step C l s of
        None \<Rightarrow> Inr W
      | Some s' \<Rightarrow>
          (case (if l = QOwner then flush_call P tbl C s W else Inr W) of
             Inl e \<Rightarrow> Inl e
           | Inr W' \<Rightarrow> queue_effect P tbl C ls s' W'))"

lemma execute_all_append:
  "execute_all P (xs @ ys) W = (case execute_all P xs W of Inl e \<Rightarrow> Inl e | Inr W' \<Rightarrow> execute_all P ys W')"
  by (induction xs arbitrary: W) (auto split: sum.splits)

lemma flush_call_executes:
  assumes sizes: "\<And>f. db_sizes C f = wrapper_sizes P (tbl f)" and wf: "\<And>f. wrapper_wf (tbl f)"
    and st: "db_step C QOwner s = Some s'"
  shows "flush_call P tbl C s W =
         execute_all P (map (\<lambda>(f, ps). entry_op (tbl f) ps) (executed (db_events C s QOwner))) W"
proof (cases "db_owner s")
  case (DwCall opn index todo a)
  show ?thesis
  proof (cases "a = db_no_op C")
    case True
    then show ?thesis using DwCall by (simp add: flush_call_def)
  next
    case False
    let ?off = "index * db_entry_size C + 4"
    obtain f ps o' where f: "db_code C a = Some f" "unroll (db_sizes C f) (db_buf s) ?off [] = Some (ps, o')"
      using st DwCall False by (auto simp: db_flush_def split: option.splits)
    have u: "unroll (wrapper_sizes P (tbl f)) (db_buf s) ?off [] = Some (ps, o')" using f(2) sizes by simp
    have m: "map length ps = wrapper_sizes P (tbl f)" using unroll_sizes [OF u] by simp
    have "run_wrapper P (tbl f) (db_buf s) ?off W = execute P (entry_op (tbl f) ps) W"
      by (rule run_entry [OF entry_op [OF wf m] u])
    then show ?thesis using DwCall False f by (simp add: flush_call_def split: sum.splits)
  qed
qed (auto simp: flush_call_def)

lemma executed_not_owner: "l \<noteq> QOwner \<Longrightarrow> executed (db_events C s l) = []"
  by (cases l) (auto split: db_pc.splits)

lemma queue_effect_executes:
  assumes sizes: "\<And>f. db_sizes C f = wrapper_sizes P (tbl f)" and wf: "\<And>f. wrapper_wf (tbl f)"
  shows "run (db_step C) ls s = Some s' \<Longrightarrow>
    queue_effect P tbl C ls s W =
    execute_all P (map (\<lambda>(f, ps). entry_op (tbl f) ps) (executed (trace (db_step C) (db_events C) ls s))) W"
proof (induction ls arbitrary: s W)
  case (Cons l ls)
  obtain s1 where s1: "db_step C l s = Some s1" "run (db_step C) ls s1 = Some s'"
    using Cons.prems by (auto split: option.splits)
  let ?x = "map (\<lambda>(f, ps). entry_op (tbl f) ps)"
  have "(if l = QOwner then flush_call P tbl C s W else Inr W) = execute_all P (?x (executed (db_events C s l))) W"
    using flush_call_executes [of C P tbl s, OF sizes wf] s1(1) executed_not_owner [of l C s] by auto
  then show ?case using s1 Cons.IH [OF s1(2)]
    by (simp add: execute_all_append split: sum.splits)
qed simp

section \<open>Operations that fulfil their promises\<close>

text \<open>
  The result of an operation has the type its future has.
\<close>

definition op_typed :: "('fn, 'd, 'v) program \<Rightarrow> 'fn operation \<Rightarrow> bool" where
  "op_typed P x \<longleftrightarrow>
     (\<forall>W. \<exists>v W'. call_operation P (o_template x) (o_member x) (o_params x) W = Inr (v, W') \<and>
        (o_kind x = ValueFuture \<longrightarrow> v \<noteq> None) \<and> (o_kind x = VoidFuture \<longrightarrow> v = None))"

text \<open>The effect of \<open>execute\<close> as the effect of a delegated operation; an error is for ever.\<close>

fun execute_on ::
  "('fn, 'd, 'v) program \<Rightarrow> 'fn operation \<Rightarrow> dl_error + ('d, 'v) world \<Rightarrow> dl_error + ('d, 'v) world" where
  "execute_on P x (Inl e) = Inl e"
| "execute_on P x (Inr W) = execute P x W"

text \<open>The promises of a list of operations.\<close>

definition promises :: "'fn operation list \<Rightarrow> byte list list" where
  "promises xs = map o_promise (filter (\<lambda>x. o_kind x \<noteq> NoFuture) xs)"

lemma call_operation_results:
  "call_operation P f member ps W = Inr (v, W') \<Longrightarrow> w_results W' = w_results W"
  by (auto simp: call_operation_def split: sum.splits)

lemma execute_fulfils:
  assumes typed: "op_typed P x" and fresh: "o_kind x \<noteq> NoFuture \<Longrightarrow> w_results W (o_promise x) = None"
  shows "\<exists>W'. execute P x W = Inr W' \<and>
    (\<forall>r. w_results W' r \<noteq> None \<longleftrightarrow> w_results W r \<noteq> None \<or> r \<in> set (promises [x]))"
proof -
  obtain v W1 where c: "call_operation P (o_template x) (o_member x) (o_params x) W = Inr (v, W1)"
    "o_kind x = ValueFuture \<longrightarrow> v \<noteq> None" "o_kind x = VoidFuture \<longrightarrow> v = None"
    using typed unfolding op_typed_def by blast
  note r = call_operation_results [OF c(1)]
  show ?thesis
  proof (cases "o_kind x")
    case ValueFuture
    then show ?thesis using c fresh r
      by (auto simp: execute_def execute_future_def set_value_def promises_def)
  next
    case VoidFuture
    then show ?thesis using c fresh r
      by (auto simp: execute_def execute_void_def set_value_def promises_def)
  next
    case NoFuture
    then show ?thesis using c r by (auto simp: execute_def execute_nofuture_def promises_def)
  qed
qed

lemma promises_Cons: "promises (x # xs) = promises [x] @ promises xs"
  by (simp add: promises_def)

lemma executions_fulfil:
  assumes "\<And>x. x \<in> set xs \<Longrightarrow> op_typed P x" and "distinct (promises xs)"
    and "\<And>r. r \<in> set (promises xs) \<Longrightarrow> w_results W r = None"
  shows "\<exists>W'. fold (execute_on P) xs (Inr W) = Inr W' \<and>
    (\<forall>r. w_results W' r \<noteq> None \<longleftrightarrow> w_results W r \<noteq> None \<or> r \<in> set (promises xs))"
  using assms
proof (induction xs arbitrary: W)
  case (Cons x xs)
  obtain W1 where W1: "execute P x W = Inr W1"
    "\<forall>r. w_results W1 r \<noteq> None \<longleftrightarrow> w_results W r \<noteq> None \<or> r \<in> set (promises [x])"
    using execute_fulfils [of P x W] Cons.prems(1,3) by (auto simp: promises_def)
  have "distinct (promises xs)" "set (promises [x]) \<inter> set (promises xs) = {}"
    using Cons.prems(2) by (auto simp: promises_Cons [of x xs])
  moreover have "w_results W1 r = None" if "r \<in> set (promises xs)" for r
  proof -
    have "w_results W r = None" "r \<notin> set (promises [x])"
      using Cons.prems(3) [of r] calculation(2) that by (auto simp: promises_Cons [of x xs])
    then show ?thesis using W1(2) by blast
  qed
  ultimately obtain W' where W': "fold (execute_on P) xs (Inr W1) = Inr W'"
    "\<forall>r. w_results W' r \<noteq> None \<longleftrightarrow> w_results W1 r \<noteq> None \<or> r \<in> set (promises xs)"
    using Cons.IH [of W1] Cons.prems(1) by auto
  have "fold (execute_on P) (x # xs) (Inr W) = Inr W'" using W1(1) W'(1) by simp
  moreover have "\<forall>r. w_results W' r \<noteq> None \<longleftrightarrow> w_results W r \<noteq> None \<or> r \<in> set (promises (x # xs))"
    using W1(2) W'(2) by (auto simp: promises_Cons [of x xs])
  ultimately show ?case by blast
qed (simp add: promises_def)

section \<open>Operations that were delegated and executed\<close>

text \<open>The operations passed to \<open>delegate\<close> in a run, and those in a history of the abstract object.\<close>

fun delegated_ops :: "'e qd_label list \<Rightarrow> 'e list" where
  "delegated_ops [] = []"
| "delegated_ops (QdDelegate t x # ls) = x # delegated_ops ls"
| "delegated_ops (_ # ls) = delegated_ops ls"

fun ds_called :: "'e ds_event list \<Rightarrow> 'e list" where
  "ds_called [] = []"
| "ds_called (DsCall t x # es) = x # ds_called es"
| "ds_called (DsExec t x # es) = ds_called es"

lemma ds_called_append [simp]: "ds_called (es @ fs) = ds_called es @ ds_called fs"
  by (induction es rule: ds_called.induct) auto

lemma ds_called_events: "ds_called (qd_events s l) = delegated_ops [l]"
  by (cases "(s, l)" rule: qd_events.cases) (auto split: qd_pc.splits hold.splits list.splits)

lemma ds_called_trace:
  "run (qd_step C) ls s = Some s' \<Longrightarrow> ds_called (trace (qd_step C) qd_events ls s) = delegated_ops ls"
proof (induction ls arbitrary: s)
  case (Cons l ls)
  have "delegated_ops (l # ls) = delegated_ops [l] @ delegated_ops ls" by (cases l) auto
  then show ?case using Cons by (auto simp: ds_called_events split: option.splits)
qed simp

text \<open>Each delegated operation is still to be executed or was executed once.\<close>

lemma ops_of_remove1:
  "ops_of t (remove1 (t, x) es) = remove1 x (ops_of t es)" "u \<noteq> t \<Longrightarrow> ops_of u (remove1 (t, x) es) = ops_of u es"
  by (induction es) auto

lemma ops_of_mem: "x \<in> set (ops_of t es) \<longleftrightarrow> (t, x) \<in> set es"
  by (induction es) auto

lemma ds_executed_once_from:
  "run (ds_step exec) es d = Some d' \<Longrightarrow> (\<And>t. ds_todo d t = ops_of t todo) \<Longrightarrow>
   \<exists>todo'. (\<forall>t. ds_todo d' t = ops_of t todo') \<and>
     mset (map snd todo) + mset (ds_called es) = mset (ds_order es) + mset (map snd todo')"
proof (induction es arbitrary: d todo)
  case (Cons ev es)
  obtain d1 where d1: "ds_step exec ev d = Some d1" "run (ds_step exec) es d1 = Some d'"
    using Cons.prems(1) by (auto split: option.splits)
  show ?case
  proof (cases ev)
    case (DsCall t x)
    then have "ds_todo d1 u = ops_of u (todo @ [(t, x)])" for u using d1(1) Cons.prems(2) by auto
    from Cons.IH [OF d1(2) this] show ?thesis using DsCall by auto
  next
    case (DsExec t x)
    obtain ys where ys: "ds_todo d t = x # ys" "ds_todo d1 = (ds_todo d)(t := ys)"
      using d1(1) DsExec by (auto split: list.splits if_splits)
    have o: "ops_of t todo = x # ys" using ys(1) Cons.prems(2) [of t] by simp
    have m: "(t, x) \<in> set todo" using o by (simp flip: ops_of_mem)
    have "ds_todo d1 u = ops_of u (remove1 (t, x) todo)" for u
      using ys(2) o Cons.prems(2) [of u] by (auto simp: ops_of_remove1)
    from Cons.IH [OF d1(2) this] obtain todo' where todo': "\<forall>t. ds_todo d' t = ops_of t todo'"
      "mset (map snd (remove1 (t, x) todo)) + mset (ds_called es) = mset (ds_order es) + mset (map snd todo')"
      by blast
    have "mset todo = add_mset (t, x) (mset (remove1 (t, x) todo))" using m by simp
    then have "mset (map snd todo) = add_mset x (mset (map snd (remove1 (t, x) todo)))" by (metis image_mset_add_mset mset_map snd_conv)
    then show ?thesis using todo' DsExec by auto
  qed
qed auto

lemma ds_executed_once:
  assumes "run (ds_step exec) es (ds_init w) = Some d"
  shows "mset (ds_order es) \<subseteq># mset (ds_called es)"
  using ds_executed_once_from [OF assms, of "[]"] by (auto simp: ds_init_def)

lemma promises_submset:
  assumes "mset xs \<subseteq># mset ys"
  shows "mset (promises xs) \<subseteq># mset (promises ys)"
  using assms unfolding promises_def by (simp add: image_mset_subseteq_mono multiset_filter_mono)

lemma distinct_submset: "mset xs \<subseteq># mset ys \<Longrightarrow> distinct ys \<Longrightarrow> distinct xs"
  by (metis distinct_append mset_subset_eq_exists_conv ex_mset mset_append mset_eq_imp_distinct_iff)

text \<open>Executing some of the operations of a run fulfils their promises and no others.\<close>

lemma executions_fulfil_submset:
  assumes sub: "mset xs \<subseteq># mset ys"
    and typed: "\<And>x. x \<in> set ys \<Longrightarrow> op_typed P x" and "distinct (promises ys)"
    and fresh: "\<And>r. r \<in> set (promises ys) \<Longrightarrow> w_results W r = None"
  shows "\<exists>W'. fold (execute_on P) xs (Inr W) = Inr W' \<and>
    (\<forall>r. w_results W' r \<noteq> None \<longleftrightarrow> w_results W r \<noteq> None \<or> r \<in> set (promises xs))"
proof (rule executions_fulfil)
  show "op_typed P x" if "x \<in> set xs" for x
    using typed set_mset_mono [OF sub] that by auto
  show "distinct (promises xs)"
    by (rule distinct_submset [OF promises_submset [OF sub] assms(3)])
  show "w_results W r = None" if "r \<in> set (promises xs)" for r
    using fresh set_mset_mono [OF promises_submset [OF sub]] that by auto
qed

text \<open>When nobody holds the lock, a thread that carries no operation has had all of them executed.\<close>

lemma ds_execs_order: "set (ds_execs t es) \<subseteq> set (ds_order es)"
  by (induction t es rule: ds_execs.induct) auto

lemma qd_all_executed:
  assumes r: "run (qd_step C) ls (qd_init w) = Some s" and free: "qd_owner s = None"
    and idle: "pc_op (qd_pc s t) = []" and call: "QdDelegate t x \<in> set ls"
  shows "x \<in> set (ds_order (trace (qd_step C) qd_events ls (qd_init w)))"
proof -
  let ?es = "trace (qd_step C) qd_events ls (qd_init w)"
  obtain d where d: "run (ds_step (cf_exec C)) ?es (ds_init w) = Some d" "qd_rel s d"
    using delegation.run_simulated [OF r] by blast
  have "\<not> pc_queue_used (qd_pc s u)" for u
    using qd_owner_is [OF d(2), of u] pc_queue_used_owns [of "qd_pc s u"] free by auto
  then have "tq_pend (qd_queue s) = []" using qd_relD(5) [OF d(2)] by blast
  then have "ds_calls t ?es = ds_execs t ?es"
    using ds_run [OF d(1), of t] qd_relD(3) [OF d(2), of t] idle by (simp add: ds_init_def)
  then show ?thesis using ds_calls_trace [OF r, of t] qd_delegated_mem [OF call] ds_execs_order by fastforce
qed

end
