(* ===== verification/Linked_Futures.thy ===== *)
theory Linked_Futures
  imports Default_Lock Composition
begin

text \<open>
  The linked locks of \<open>qd.hpp\<close> with the \<open>delegated\<close> wrappers of \<open>qdlock_base.hpp\<close>: what a thread stores in the queue is a
  wrapper and the bytes of parameters and promise, and what it executes is the operation that these stand for. The theory
  follows the promises of the operations that threads delegate.
\<close>

section \<open>The operations of a run\<close>

text \<open>\<open>tbl\<close> says which wrapper a function pointer in the queue is.\<close>

definition wrapper_exec ::
  "('fn, 'd, 'v) program \<Rightarrow> ('f \<Rightarrow> 'fn wrapper) \<Rightarrow> 'f op \<Rightarrow> dl_error + ('d, 'v) world \<Rightarrow> dl_error + ('d, 'v) world" where
  "wrapper_exec P tbl x = execute_on P (entry_op (tbl (fst x)) (snd x))"

fun lk_calls :: "'f lk_label list \<Rightarrow> 'f op list" where
  "lk_calls [] = []"
| "lk_calls (LkDelegate u x # ls) = x # lk_calls ls"
| "lk_calls (l # ls) = lk_calls ls"

definition lk_operations :: "('f \<Rightarrow> 'fn wrapper) \<Rightarrow> 'f lk_label list \<Rightarrow> 'fn operation list" where
  "lk_operations tbl ls = map (\<lambda>x. entry_op (tbl (fst x)) (snd x)) (lk_calls ls)"

lemma delegated_ops_append [simp]: "delegated_ops (ls @ ms) = delegated_ops ls @ delegated_ops ms"
  by (induction ls rule: delegated_ops.induct) auto

lemma delegated_ops_queue [simp]: "delegated_ops (map (queue_label u) es) = []"
proof (induction es)
  case (Cons ev es)
  then show ?case by (cases ev) auto
qed simp

lemma delegated_ops_lock [simp]: "delegated_ops (lock_labels L u m m') = []" "delegated_ops (unlock_labels L u m m') = []"
  by (auto simp: lock_labels_def unlock_labels_def split: lock_phase.splits)

lemma delegated_ops_labels:
  assumes "linked_step C l s = Some s'"
  shows "delegated_ops (linked_labels C s l) = lk_calls [l]"
proof (cases l)
  case (LkGo u)
  have "delegated_ops (lk_go_labels C u s s') = []"
    by (auto simp: lk_go_labels_def Let_def simp del: db_events.simps db_step.simps split: qd_pc.splits)
  then show ?thesis using LkGo assms by (simp add: linked_labels_def)
qed (use assms in \<open>simp_all add: linked_labels_def del: linked_step.simps\<close>)

lemma delegated_ops_trace:
  "run (linked_step C) ls s = Some s' \<Longrightarrow> delegated_ops (trace (linked_step C) (linked_labels C) ls s) = lk_calls ls"
proof (induction ls arbitrary: s)
  case (Cons l ls)
  then obtain s1 where s1: "linked_step C l s = Some s1" "run (linked_step C) ls s1 = Some s'" by (auto split: option.splits)
  then show ?case using Cons.IH [OF s1(2)] delegated_ops_labels [OF s1(1)]
    by (cases l) (auto simp del: linked_step.simps)
qed simp

lemma lk_delegated_mem: "LkDelegate t x \<in> set ls \<Longrightarrow> x \<in> set (lk_delegated t ls)"
  by (induction t ls rule: lk_delegated.induct) auto

text \<open>What is executed was delegated, each operation once.\<close>

context linking begin

lemma linked_executed_once:
  assumes "run (linked_step C) ls (lk_init C M w) = Some s"
  shows "mset (ds_order (linked_history C M w ls)) \<subseteq># mset (lk_calls ls)"
proof -
  obtain a where a: "run (qd_step (lx_qd C)) (trace (linked_step C) (linked_labels C) ls (lk_init C M w)) (qd_init w) = Some a"
    using linked_run [OF assms] by blast
  obtain d where "run (ds_step (cf_exec (lx_qd C))) (linked_history C M w ls) (ds_init w) = Some d"
    using delegation.run_simulated [OF a] unfolding linked_history_def by blast
  from ds_executed_once [OF this] show ?thesis
    unfolding linked_history_def ds_called_trace [OF a] delegated_ops_trace [OF assms] .
qed

end

lemma fold_wrapper_exec:
  "fold (wrapper_exec P tbl) xs W = fold (execute_on P) (map (\<lambda>x. entry_op (tbl (fst x)) (snd x)) xs) W"
  by (induction xs arbitrary: W) (simp_all add: wrapper_exec_def)

section \<open>Properties\<close>

text \<open>
  C36. The locks of \<open>qd.hpp\<close> fulfil the futures of \<open>delegate_f\<close> when they are constructed in memory in which the function pointers
  of the queue are null: if every call has a promise of its own and the operations return results
  of the types of their futures, then in every run, at the granularity of the accesses to shared memory of the MCS lock and of the queue, no promise
  is set twice or with a wrong type (the world is not an error), only promises of delegated operations are set, and once
  a thread is out of its calls and nobody has the lock, all its promises have values.
\<close>
theorem default_lock_fulfils_futures:
  assumes A: "aligned_nodes A" and K: "futex_ok K" and ok: "db_ok (lx_queue C)" and zero: "db_zeroed (lx_queue C) M"
    and C: "C \<in> {qdlock (mcs_futex_class A K f) (wrapper_exec P tbl) D, mrqdlock (mcs_futex_class A K f) (wrapper_exec P tbl) D}"
    and r: "run (linked_step C) ls (lk_init C M (Inr W0)) = Some s"
    and typed: "\<And>x. x \<in> set (lk_operations tbl ls) \<Longrightarrow> op_typed P x"
    and distinct: "distinct (promises (lk_operations tbl ls))"
    and fresh: "\<And>p. p \<in> set (promises (lk_operations tbl ls)) \<Longrightarrow> w_results W0 p = None"
  shows "\<exists>W. lk_world s = Inr W \<and>
    (\<forall>p. w_results W p \<noteq> None \<longrightarrow> w_results W0 p \<noteq> None \<or> p \<in> set (promises (lk_operations tbl ls))) \<and>
    (\<forall>t x. LkDelegate t x \<in> set ls \<and> w_kind (tbl (fst x)) \<noteq> NoFuture \<and> (\<forall>u. \<not> mf_holds u (lk_mutex s)) \<and> lk_pc s t = QdIdle \<longrightarrow>
       w_results W (o_promise (entry_op (tbl (fst x)) (snd x))) \<noteq> None)"
proof -
  note lk = default_linking(1) [OF A K C ok zero] and L = default_linking(2-5) [OF A K C]
  let ?op = "\<lambda>x. entry_op (tbl (fst x)) (snd x)" and ?es = "linked_history C M (Inr W0) ls"
  have h: "lc_holds (lx_lock C) = mf_holds" by (simp add: L(4) mcs_futex_class_def)
  have sub: "mset (map ?op (ds_order ?es)) \<subseteq># mset (lk_operations tbl ls)"
    unfolding lk_operations_def mset_map by (rule image_mset_subseteq_mono [OF linking.linked_executed_once [OF lk r]])
  obtain W where W: "fold (execute_on P) (map ?op (ds_order ?es)) (Inr W0) = Inr W"
    "\<forall>p. w_results W p \<noteq> None \<longleftrightarrow> w_results W0 p \<noteq> None \<or> p \<in> set (promises (map ?op (ds_order ?es)))"
    using executions_fulfil_submset [OF sub typed distinct fresh] by blast
  have world: "lk_world s = Inr W"
    using linking.linked_executes(1) [OF lk r] W(1) unfolding L(2) fold_wrapper_exec by simp
  have only: "p \<in> set (promises (lk_operations tbl ls))" if "p \<in> set (promises (map ?op (ds_order ?es)))" for p
    using that set_mset_mono [OF promises_submset [OF sub]] by auto
  have ready: "w_results W (o_promise (?op x)) \<noteq> None"
    if x: "LkDelegate t x \<in> set ls" "w_kind (tbl (fst x)) \<noteq> NoFuture"
      and q: "\<forall>u. \<not> mf_holds u (lk_mutex s)" "lk_pc s t = QdIdle" for t x
  proof -
    have "lk_delegated t ls = ds_execs t ?es"
      using linking.linked_executes(2) [OF lk r, of t] q unfolding h by auto
    then have "x \<in> set (ds_order ?es)" using lk_delegated_mem [OF x(1)] ds_execs_order by fastforce
    then have "o_promise (?op x) \<in> set (promises (map ?op (ds_order ?es)))"
      using x(2) by (force simp: promises_def entry_op_def)
    then show ?thesis using W(2) by blast
  qed
  show ?thesis by (rule exI [of _ W]) (use world W(2) only ready in blast)
qed

text \<open>Three threads add to a counter, each with a promise of its own.\<close>

definition adding :: "(unit, nat, nat) program" where
  "adding = \<lparr>pr_call = (\<lambda>f ps d. (Some d, d + unat (hd (hd ps)))), pr_mem_call = (\<lambda>f ob ps d. (None, d)),
     pr_promise_size = 8\<rparr>"

definition adding_wrapper :: "byte \<Rightarrow> unit wrapper" where
  "adding_wrapper b = \<lparr>w_kind = ValueFuture, w_template = Some (), w_member = False, w_types = [8]\<rparr>"

definition adding_lock :: "(byte, dl_error + (nat, nat) world, (mf_futex \<times> tid) list mcs_futex_lock) linked_config" where
  "adding_lock = qdlock (mcs_futex_class node_addr list_kernel (\<lambda>_. Free)) (wrapper_exec adding adding_wrapper) db_default"

lemmas adding_eval = adding_lock_def wrapper_exec_def adding_wrapper_def entry_op_def adding_def execute_def
  execute_future_def call_operation_def set_value_def

lemma adding_runs:
  "\<exists>s. run (linked_step adding_lock) (demo_first @ demo_second @ demo_third) (lk_init adding_lock (db_static (lx_queue adding_lock)) (Inr \<lparr>w_data = 40, w_results = (\<lambda>_. None)\<rparr>)) = Some s \<and>
     lk_pc s 2 = QdIdle \<and> (\<forall>t. \<not> mf_holds t (lk_mutex s))"
  by (simp add: adding_eval demo_first_def demo_second_def demo_third_def lk_init_def lk_eval db_eval db_default_def mf_eval mf_holds_def)

theorem default_lock_fulfils_futures_witness:
  "\<exists>s W. run (linked_step adding_lock) (demo_first @ demo_second @ demo_third)
       (lk_init adding_lock (db_static (lx_queue adding_lock)) (Inr \<lparr>w_data = 40, w_results = (\<lambda>_. None)\<rparr>)) = Some s \<and>
     lk_world s = Inr W \<and> w_results W [7, 7, 6, 5, 4, 3, 2, 1] \<noteq> None \<and> w_results W [8, 7, 6, 5, 4, 3, 2, 1] = None"
proof -
  let ?ls = "demo_first @ demo_second @ demo_third" and ?W = "\<lparr>w_data = 40, w_results = (\<lambda>_. None)\<rparr> :: (nat, nat) world"
  obtain s where s: "run (linked_step adding_lock) ?ls (lk_init adding_lock (db_static (lx_queue adding_lock)) (Inr ?W)) = Some s"
    "lk_pc s 2 = QdIdle" "\<forall>t. \<not> mf_holds t (lk_mutex s)"
    using adding_runs by blast
  have C: "adding_lock \<in> {qdlock (mcs_futex_class node_addr list_kernel (\<lambda>_. Free)) (wrapper_exec adding adding_wrapper) db_default,
      mrqdlock (mcs_futex_class node_addr list_kernel (\<lambda>_. Free)) (wrapper_exec adding adding_wrapper) db_default}"
    by (simp add: adding_lock_def)
  have ok: "db_ok (lx_queue adding_lock)" using default_queue_ok(1) by (simp add: adding_lock_def)
  have ops: "lk_operations adding_wrapper ?ls = map (\<lambda>b. entry_op (adding_wrapper b) (snd (demo_op b))) [5, 6, 7]"
    by (simp add: lk_operations_def demo_first_def demo_second_def demo_third_def demo_op_def)
  have typed: "op_typed adding x" if "x \<in> set (lk_operations adding_wrapper ?ls)" for x
    using that unfolding ops by (auto simp: op_typed_def demo_op_def adding_eval)
  have ps: "promises (lk_operations adding_wrapper ?ls) =
      [[5, 7, 6, 5, 4, 3, 2, 1], [6, 7, 6, 5, 4, 3, 2, 1], [7, 7, 6, 5, 4, 3, 2, 1]]"
    unfolding ops by (simp add: promises_def demo_op_def entry_op_def adding_wrapper_def)
  have distinct: "distinct (promises (lk_operations adding_wrapper ?ls))" unfolding ps by simp
  have fresh: "w_results ?W p = None" for p by simp
  obtain W where W: "lk_world s = Inr W"
    "\<forall>p. w_results W p \<noteq> None \<longrightarrow> w_results ?W p \<noteq> None \<or> p \<in> set (promises (lk_operations adding_wrapper ?ls))"
    "\<forall>t x. LkDelegate t x \<in> set ?ls \<and> w_kind (adding_wrapper (fst x)) \<noteq> NoFuture \<and> (\<forall>u. \<not> mf_holds u (lk_mutex s)) \<and> lk_pc s t = QdIdle \<longrightarrow>
       w_results W (o_promise (entry_op (adding_wrapper (fst x)) (snd x))) \<noteq> None"
    using default_lock_fulfils_futures [OF node_addr_aligned list_kernel_ok ok db_static_zeroed C s(1) typed distinct fresh] by blast
  have set7: "LkDelegate 2 (demo_op 7) \<in> set ?ls" by (simp add: demo_second_def)
  have "w_results W (o_promise (entry_op (adding_wrapper 7) (snd (demo_op 7)))) \<noteq> None"
    using W(3) [rule_format, of 2 "demo_op 7"] set7 s(2,3) by (simp add: demo_op_def adding_wrapper_def)
  moreover have "o_promise (entry_op (adding_wrapper 7) (snd (demo_op 7))) = [7, 7, 6, 5, 4, 3, 2, 1]"
    by (simp add: demo_op_def entry_op_def adding_wrapper_def)
  moreover have "w_results W [8, 7, 6, 5, 4, 3, 2, 1] = None"
  proof (rule ccontr)
    assume "w_results W [8, 7, 6, 5, 4, 3, 2, 1] \<noteq> None"
    then have "[8, 7, 6, 5, 4, 3, 2, 1] \<in> set (promises (lk_operations adding_wrapper ?ls))" using W(2) by auto
    then show False unfolding ps by simp
  qed
  ultimately show ?thesis using s(1) W(1) by (intro exI [of _ s] exI [of _ W]) simp
qed

end
