(* ===== verification/Waitable_Lock.thy ===== *)
theory Waitable_Lock
  imports Lock_Spec
begin

text \<open>
  \<open>waitable_lock\<close> of \<open>locks/waitable_lock.hpp\<close>: any lock with \<open>wait\<close>, \<open>notify_one\<close> and \<open>notify_all\<close>. It derives from the lock, whose
  operations it leaves as they are, and from \<open>std::condition_variable_any\<close>, which it gives a lock that does nothing.
\<close>

section \<open>State\<close>

text \<open>
  The threads that are blocked in \<open>wait\<close>, and those that are unblocked and about to return. Which of the blocked threads
  \<open>std::condition_variable_any::notify_one\<close> unblocks is not specified: the label names it.
\<close>

record 'l waitable_lock =
  wl_lock :: 'l
  wl_blocked :: "tid list"
  wl_unblocked :: "tid list"

datatype wait_act = WlLock lock_act | WlWait | WlReturn | WlSpurious | WlNotifyOne "tid option" | WlNotifyAll

definition waitable_init :: "'l \<Rightarrow> 'l waitable_lock" where
  "waitable_init m = \<lparr>wl_lock = m, wl_blocked = [], wl_unblocked = []\<rparr>"

definition wl_out :: "tid \<Rightarrow> 'l waitable_lock \<Rightarrow> bool" where
  "wl_out t s \<longleftrightarrow> t \<notin> set (wl_blocked s) \<and> t \<notin> set (wl_unblocked s)"

section \<open>Operations\<close>

text \<open>\<open>null_lock\<close>: \<open>std::condition_variable_any::wait\<close> unlocks it when it blocks, and locks it before it returns.\<close>

definition null_lock :: "'s \<Rightarrow> 's" where
  "null_lock s = s"

definition null_unlock :: "'s \<Rightarrow> 's" where
  "null_unlock s = s"

definition wl_wait :: "tid \<Rightarrow> 'l waitable_lock \<Rightarrow> 'l waitable_lock option" where
  "wl_wait t s = (if wl_out t s then Some (null_unlock (s\<lparr>wl_blocked := wl_blocked s @ [t]\<rparr>)) else None)"

definition wl_return :: "tid \<Rightarrow> 'l waitable_lock \<Rightarrow> 'l waitable_lock option" where
  "wl_return t s =
     (if t \<in> set (wl_unblocked s) then Some (null_lock (s\<lparr>wl_unblocked := removeAll t (wl_unblocked s)\<rparr>)) else None)"

definition wl_unblock :: "tid \<Rightarrow> 'l waitable_lock \<Rightarrow> 'l waitable_lock option" where
  "wl_unblock u s =
     (if u \<in> set (wl_blocked s)
      then Some (s\<lparr>wl_blocked := removeAll u (wl_blocked s), wl_unblocked := wl_unblocked s @ [u]\<rparr>) else None)"

definition wl_notify_one :: "tid option \<Rightarrow> 'l waitable_lock \<Rightarrow> 'l waitable_lock option" where
  "wl_notify_one w s =
     (case w of
        Some u \<Rightarrow> wl_unblock u s
      | None \<Rightarrow> if wl_blocked s = [] then Some s else None)"

definition wl_notify_all :: "'l waitable_lock \<Rightarrow> 'l waitable_lock" where
  "wl_notify_all s = s\<lparr>wl_blocked := [], wl_unblocked := wl_unblocked s @ wl_blocked s\<rparr>"

text \<open>A thread that is not in \<open>wait\<close> can take the steps of the lock and notify others.\<close>

fun waitable_step ::
  "(tid \<times> lock_act \<Rightarrow> 'l \<Rightarrow> 'l option) \<Rightarrow> tid \<times> wait_act \<Rightarrow> 'l waitable_lock \<Rightarrow> 'l waitable_lock option" where
  "waitable_step step (t, WlLock a) s =
     (if wl_out t s then map_option (\<lambda>m. s\<lparr>wl_lock := m\<rparr>) (step (t, a) (wl_lock s)) else None)"
| "waitable_step step (t, WlWait) s = wl_wait t s"
| "waitable_step step (t, WlReturn) s = wl_return t s"
| "waitable_step step (t, WlSpurious) s = wl_unblock t s"
| "waitable_step step (t, WlNotifyOne w) s = (if wl_out t s then wl_notify_one w s else None)"
| "waitable_step step (t, WlNotifyAll) s = (if wl_out t s then Some (wl_notify_all s) else None)"

lemmas waitable_defs = wl_out_def wl_wait_def wl_return_def wl_unblock_def wl_notify_one_def wl_notify_all_def null_lock_def null_unlock_def

section \<open>The lock\<close>

text \<open>The steps of the lock among those of the waitable lock.\<close>

fun lock_acts :: "tid \<times> wait_act \<Rightarrow> (tid \<times> lock_act) list" where
  "lock_acts (t, WlLock a) = [(t, a)]"
| "lock_acts l = []"

lemma waitable_step_lock:
  assumes "waitable_step step l s = Some s'"
  shows "run step (lock_acts l) (wl_lock s) = Some (wl_lock s')"
  using assms by (cases "(step, l, s)" rule: waitable_step.cases) (auto simp: waitable_defs split: if_splits option.splits)

lemma waitable_simulation:
  "forward_simulation (waitable_step step) (waitable_init m) step m (\<lambda>s a. a = wl_lock s) (\<lambda>s. lock_acts)"
  by unfold_locales (auto simp: waitable_init_def waitable_step_lock)

interpretation waitable: forward_simulation "waitable_step step" "waitable_init m" step m "\<lambda>s a. a = wl_lock s" "\<lambda>s. lock_acts"
  for step m
  by (rule waitable_simulation)

text \<open>Whatever a lock guarantees in every reachable state, it still guarantees when threads wait and notify.\<close>

lemma waitable_reachable:
  assumes "reachable (waitable_step step) (waitable_init m) s"
  shows "reachable step m (wl_lock s)"
proof -
  obtain ls where ls: "run (waitable_step step) ls (waitable_init m) = Some s"
    using assms unfolding reachable_iff_run by (elim exE)
  from waitable.run_simulated [OF ls] show ?thesis unfolding reachable_iff_run by (elim exE conjE) (intro exI, simp)
qed

context lock_impl begin

lemma waitable_excludes:
  "reachable (waitable_step step) (waitable_init init) s \<Longrightarrow> crit t (wl_lock s) \<Longrightarrow> crit u (wl_lock s) \<Longrightarrow> t = u"
  by (rule mutual_exclusion [OF waitable_reachable])

end

section \<open>Waiting\<close>

text \<open>A blocked thread stays blocked until it is notified or wakes for no reason.\<close>

lemma blocked_until_notified:
  assumes "waitable_step step l s = Some s'" and "t \<in> set (wl_blocked s)" and "t \<notin> set (wl_blocked s')"
  shows "t \<in> set (wl_unblocked s') \<and> (l = (t, WlSpurious) \<or> (\<exists>u. l = (u, WlNotifyOne (Some t)) \<or> l = (u, WlNotifyAll)))"
  using assms by (cases "(step, l, s)" rule: waitable_step.cases) (auto simp: waitable_defs split: if_splits option.splits)

lemma notify_all_unblocks: "wl_blocked (wl_notify_all s) = [] \<and> set (wl_blocked s) \<subseteq> set (wl_unblocked (wl_notify_all s))"
  by (simp add: wl_notify_all_def)

lemma notify_one_unblocks:
  assumes "wl_notify_one w s = Some s'" and "wl_blocked s \<noteq> []"
  shows "\<exists>u \<in> set (wl_blocked s). u \<in> set (wl_unblocked s')"
  using assms by (auto simp: waitable_defs split: option.splits if_splits)

text \<open>
  Nothing is remembered: a notification that comes before the call of \<open>wait\<close> has no effect, and as \<open>wait\<close> takes no lock that would make
  its caller's test and its call one step, the caller can miss it.
\<close>

lemma notification_not_kept:
  assumes "wl_blocked s = []" and "wl_unblocked s = []"
  shows "waitable_step step (n, WlNotifyAll) s = Some s" "waitable_step step (n, WlNotifyOne None) s = Some s"
    and "\<exists>s'. waitable_step step (t, WlWait) s = Some s' \<and> t \<in> set (wl_blocked s')"
  using assms by (auto simp: waitable_defs)

end
