(* ===== verification/Padded.thy ===== *)
theory Padded
  imports Marshal
begin

text \<open>
  Padding to cache lines, \<open>padded.hpp\<close>: \<open>padded_base\<close> stores a value of a basic type, and \<open>padding\<close> behind it that fills the last block of
  \<open>PADSIZE\<close> bytes; for a class it derives from it instead, with the same layout. The theory has the layout and what the
  operators do to values and padding.
\<close>

section \<open>Layout\<close>

text \<open>\<open>sz\<close> is \<open>sizeof(T)\<close> and \<open>al\<close> is \<open>alignof(T)\<close>; the compiler rounds the size of a class up to its alignment.\<close>

definition pad_length :: "nat \<Rightarrow> nat \<Rightarrow> nat" where
  "pad_length PADSIZE sz = PADSIZE - sz mod PADSIZE"

definition padded_size :: "nat \<Rightarrow> nat \<Rightarrow> nat \<Rightarrow> nat" where
  "padded_size PADSIZE al sz = (let n = sz + pad_length PADSIZE sz in (n + al - 1) div al * al)"

lemma pad_length_bounds: "0 < PADSIZE \<Longrightarrow> 0 < pad_length PADSIZE sz \<and> pad_length PADSIZE sz \<le> PADSIZE"
  by (simp add: pad_length_def)

lemma pad_length_fills: "0 < PADSIZE \<Longrightarrow> sz + pad_length PADSIZE sz = (sz div PADSIZE + 1) * PADSIZE"
proof -
  assume "0 < PADSIZE"
  then have "sz mod PADSIZE < PADSIZE" by simp
  moreover have "sz div PADSIZE * PADSIZE + sz mod PADSIZE = sz" by (rule div_mult_mod_eq)
  ultimately show ?thesis unfolding pad_length_def add_mult_distrib by linarith
qed

lemma round_up_multiple: "0 < al \<Longrightarrow> al dvd n \<Longrightarrow> (n + al - 1) div al * al = (n::nat)"
proof -
  assume al: "0 < al" "al dvd n"
  obtain k where k: "n = al * k" using al(2) by (rule dvdE)
  have "n + al - 1 = (al - 1) + al * k" using al(1) k by simp
  then have "(n + al - 1) div al = k + (al - 1) div al" using al(1) by (simp only: div_mult_self2)
  then show ?thesis using al(1) k by (simp add: mult.commute)
qed

lemma padded_size_is:
  assumes "0 < PADSIZE" and "0 < al" and "al dvd PADSIZE"
  shows "padded_size PADSIZE al sz = (sz div PADSIZE + 1) * PADSIZE"
proof -
  have "al dvd (sz div PADSIZE + 1) * PADSIZE" using assms(3) by (rule dvd_mult)
  then show ?thesis using assms(2) by (simp only: padded_size_def Let_def pad_length_fills [OF assms(1)] round_up_multiple)
qed

section \<open>Values\<close>

record 'v padded =
  pd_value :: 'v
  pd_padding :: "byte list"

text \<open>The constructors: from a value, and from another object. They leave the padding as the memory has it (\<open>junk\<close>).\<close>

definition padded_of :: "byte list \<Rightarrow> 'v \<Rightarrow> 'v padded" where
  "padded_of junk v = \<lparr>pd_value = v, pd_padding = junk\<rparr>"

definition padded_copy :: "byte list \<Rightarrow> 'v padded \<Rightarrow> 'v padded" where
  "padded_copy junk v = \<lparr>pd_value = pd_value v, pd_padding = junk\<rparr>"

definition padded_swap :: "'v padded \<Rightarrow> 'v padded \<Rightarrow> 'v padded \<times> 'v padded" where
  "padded_swap a b = (a\<lparr>pd_value := pd_value b\<rparr>, b\<lparr>pd_value := pd_value a\<rparr>)"

text \<open>The assignments swap with their parameter, which is a copy.\<close>

definition padded_assign :: "byte list \<Rightarrow> 'v padded \<Rightarrow> 'v padded \<Rightarrow> 'v padded" where
  "padded_assign junk this other = fst (padded_swap this (padded_copy junk other))"

definition padded_assign_value :: "'v padded \<Rightarrow> 'v \<Rightarrow> 'v padded" where
  "padded_assign_value this other = this\<lparr>pd_value := other\<rparr>"

definition padded_eq :: "'v padded \<Rightarrow> 'v \<Rightarrow> bool" where
  "padded_eq this other \<longleftrightarrow> pd_value this = other"

definition padded_neq :: "'v padded \<Rightarrow> 'v \<Rightarrow> bool" where
  "padded_neq this other \<longleftrightarrow> \<not> padded_eq this other"

text \<open>The value that the conversion to \<open>T&\<close> and \<open>get\<close> refer to, read and written through the reference.\<close>

definition padded_get :: "'v padded \<Rightarrow> 'v" where
  "padded_get this = pd_value this"

definition padded_store :: "'v padded \<Rightarrow> 'v \<Rightarrow> 'v padded" where
  "padded_store this v = this\<lparr>pd_value := v\<rparr>"

section \<open>Pointers\<close>

text \<open>
  A padded pointer made of the address \<open>p\<close> of a padded object points to the value in it, which is at its start. \<open>h\<close> is the
  store of padded objects.
\<close>

definition padded_pointer :: "byte list \<Rightarrow> nat \<Rightarrow> nat padded" where
  "padded_pointer junk p = padded_of junk p"

definition padded_deref :: "(nat \<Rightarrow> 'v padded option) \<Rightarrow> nat padded \<Rightarrow> 'v option" where
  "padded_deref h this = map_option padded_get (h (padded_get this))"

section \<open>A program that uses padded objects\<close>

datatype 'v pd_op = PdAssign nat nat | PdSet nat 'v | PdSwap nat nat | PdStore nat 'v

text \<open>
  The effect of the operators on an array of padded objects, and on an array of plain ones.
\<close>

fun pd_run :: "byte list \<Rightarrow> 'v pd_op \<Rightarrow> 'v padded list \<Rightarrow> 'v padded list" where
  "pd_run junk (PdAssign i j) ps = ps[i := padded_assign junk (ps ! i) (ps ! j)]"
| "pd_run junk (PdSet i v) ps = ps[i := padded_assign_value (ps ! i) v]"
| "pd_run junk (PdSwap i j) ps = (let (a, b) = padded_swap (ps ! i) (ps ! j) in ps[i := a, j := b])"
| "pd_run junk (PdStore i v) ps = ps[i := padded_store (ps ! i) v]"

fun plain_run :: "'v pd_op \<Rightarrow> 'v list \<Rightarrow> 'v list" where
  "plain_run (PdAssign i j) vs = vs[i := vs ! j]"
| "plain_run (PdSet i v) vs = vs[i := v]"
| "plain_run (PdSwap i j) vs = vs[i := vs ! j, j := vs ! i]"
| "plain_run (PdStore i v) vs = vs[i := v]"

fun pd_indices :: "'v pd_op \<Rightarrow> nat set" where
  "pd_indices (PdAssign i j) = {i, j}"
| "pd_indices (PdSet i v) = {i}"
| "pd_indices (PdSwap i j) = {i, j}"
| "pd_indices (PdStore i v) = {i}"

lemmas padded_defs = padded_of_def padded_copy_def padded_swap_def padded_assign_def padded_assign_value_def
  padded_get_def padded_store_def

lemma pd_run_step:
  assumes "pd_indices op \<subseteq> {..<length ps}"
  shows "map pd_value (pd_run junk op ps) = plain_run op (map pd_value ps)"
    and "map pd_padding (pd_run junk op ps) = map pd_padding ps"
  using assms by (cases op; auto simp: padded_defs map_update nth_list_update intro!: nth_equalityI)+

text \<open>Padded objects behave as plain ones, and no operator touches the padding of an object.\<close>

lemma padded_transparent:
  assumes "\<And>op. op \<in> set ops \<Longrightarrow> pd_indices op \<subseteq> {..<length ps}"
  shows "map pd_value (fold (pd_run junk) ops ps) = fold plain_run ops (map pd_value ps) \<and>
    map pd_padding (fold (pd_run junk) ops ps) = map pd_padding ps"
  using assms
proof (induction ops arbitrary: ps)
  case (Cons op ops)
  have len: "length (pd_run junk op ps) = length ps" by (cases op) (auto simp: padded_swap_def)
  have "pd_indices op \<subseteq> {..<length ps}" using Cons.prems by simp
  then show ?case using Cons.IH [of "pd_run junk op ps"] Cons.prems pd_run_step [of op ps junk] len by simp
qed simp

lemma padded_pointer_deref: "h p = Some v \<Longrightarrow> padded_deref h (padded_pointer junk p) = Some (padded_get v)"
  by (simp add: padded_deref_def padded_pointer_def padded_of_def padded_get_def)

lemma padded_compare: "padded_eq (padded_of junk v) w \<longleftrightarrow> v = w" "padded_neq (padded_of junk v) w \<longleftrightarrow> v \<noteq> w"
  by (simp_all add: padded_eq_def padded_neq_def padded_of_def)

section \<open>Blocks\<close>

text \<open>
  Padding keeps values apart: the bytes of two values in an array of padded objects never lie in the same block
  of \<open>PADSIZE\<close> bytes (a cache line), if the array starts at such a block and the alignment of the type divides \<open>PADSIZE\<close>, whatever the size
  of the type; each object takes at most one block more than its value.
\<close>
lemma padded_no_false_sharing:
  assumes P: "0 < PADSIZE" and al: "0 < al" "al dvd PADSIZE" and base: "PADSIZE dvd base"
    and ij: "i \<noteq> j" and x: "x < sz" and y: "y < sz"
  shows "(base + i * padded_size PADSIZE al sz + x) div PADSIZE \<noteq> (base + j * padded_size PADSIZE al sz + y) div PADSIZE \<and>
    sz < padded_size PADSIZE al sz \<and> padded_size PADSIZE al sz \<le> sz + PADSIZE"
proof -
  define n where "n = sz div PADSIZE + 1"
  have S: "padded_size PADSIZE al sz = n * PADSIZE" unfolding n_def by (rule padded_size_is [OF P al])
  obtain b where "base = PADSIZE * b" using base by (rule dvdE)
  then have b: "base = b * PADSIZE" by simp
  have blk: "(base + k * padded_size PADSIZE al sz + z) div PADSIZE = b + k * n + z div PADSIZE" for k z
  proof -
    have "base + k * padded_size PADSIZE al sz + z = z + (b + k * n) * PADSIZE" by (simp add: S b algebra_simps)
    then show ?thesis using P by simp
  qed
  have lt: "z div PADSIZE < n" if "z < sz" for z using that div_le_mono [of z sz PADSIZE] by (simp add: n_def)
  have "k * n + u \<noteq> l * n + v" if "k < l" "u < n" for k l u v :: nat
  proof -
    have "(k + 1) * n \<le> l * n" using that(1) by (intro mult_le_mono1) simp
    then show ?thesis using that(2) by simp
  qed
  then have "i * n + x div PADSIZE \<noteq> j * n + y div PADSIZE" using ij lt [OF x] lt [OF y] by (metis linorder_neqE_nat)
  then have "(base + i * padded_size PADSIZE al sz + x) div PADSIZE \<noteq> (base + j * padded_size PADSIZE al sz + y) div PADSIZE"
    unfolding blk by simp
  moreover have "padded_size PADSIZE al sz = sz + pad_length PADSIZE sz" using S pad_length_fills [OF P] n_def by simp
  ultimately show ?thesis using pad_length_bounds [OF P, of sz] by simp
qed

text \<open>Objects of 24 bytes, aligned to 8, take a block each; one of 128 bytes takes two.\<close>

lemma padded_sizes: "padded_size 128 8 24 = 128" "padded_size 128 8 128 = 256"
  by (simp_all add: padded_size_def pad_length_def)

end
