(* ===== verification/Thread_Id.thy ===== *)
theory Thread_Id
  imports QD_Prelude
begin

text \<open>
  The thread ids of \<open>threadid.hpp\<close> and \<open>threadid.cpp\<close>: small numbers that are unique among the living
  threads, reused when threads end. \<open>get\<close> and \<open>free\<close> hold a mutex, and are atomic here. The ordered
  set \<open>orphans\<close> is a sorted list; \<open>unsigned long\<close> is a natural number (it counts threads).
\<close>

section \<open>The store\<close>

record thread_id_store =
  max_id :: nat
  orphans :: "nat list"

definition ti_init :: thread_id_store where
  "ti_init = \<lparr>max_id = 0, orphans = []\<rparr>"

fun ti_get :: "thread_id_store \<Rightarrow> nat \<times> thread_id_store" where
  "ti_get s =
     (case orphans s of
        [] \<Rightarrow> (max_id s + 1, s\<lparr>max_id := max_id s + 1\<rparr>)
      | first # rest \<Rightarrow> (first, s\<lparr>orphans := rest\<rparr>))"

text \<open>The loop of \<open>free\<close>: \<open>erase\<close> removes the element if it is there, and says so.\<close>

function ti_shrink :: "thread_id_store \<Rightarrow> thread_id_store" where
  "ti_shrink s =
     (if max_id s \<in> set (orphans s)
      then ti_shrink (s\<lparr>orphans := remove1 (max_id s) (orphans s), max_id := max_id s - 1\<rparr>)
      else s)"
  by auto
termination
  by (relation "measure (\<lambda>s. length (orphans s))")
    (auto simp: length_remove1 dest: length_pos_if_in_set)

declare ti_shrink.simps [simp del]

fun ti_free :: "nat \<Rightarrow> thread_id_store \<Rightarrow> thread_id_store" where
  "ti_free idx s =
     (if idx = max_id s then ti_shrink (s\<lparr>max_id := max_id s - 1\<rparr>)
      else s\<lparr>orphans := insort_insert idx (orphans s)\<rparr>)"

section \<open>What the store represents\<close>

text \<open>
  The store represents a finite set of ids in use: \<open>max_id\<close> is the greatest of them, and the orphans
  are the smaller numbers, from 1, that are not in use.
\<close>

definition ti_live :: "thread_id_store \<Rightarrow> nat set \<Rightarrow> bool" where
  "ti_live s L \<longleftrightarrow>
     finite L \<and> 0 \<notin> L \<and> sorted (orphans s) \<and> distinct (orphans s) \<and>
     set (orphans s) = {1..max_id s} - L \<and> L \<subseteq> {1..max_id s} \<and> (max_id s = 0 \<or> max_id s \<in> L)"

text \<open>The least id that is not in use.\<close>

definition least_unused :: "nat set \<Rightarrow> nat \<Rightarrow> bool" where
  "least_unused L i \<longleftrightarrow> 0 < i \<and> i \<notin> L \<and> (\<forall>j. 0 < j \<and> j < i \<longrightarrow> j \<in> L)"

lemma ti_get_live:
  assumes live: "ti_live s L" and get: "ti_get s = (i, s')"
  shows "least_unused L i" "ti_live s' (insert i L)"
proof -
  show "least_unused L i"
  proof (cases "orphans s")
    case Nil
    then have "i = max_id s + 1" "{1..max_id s} \<subseteq> L" "L \<subseteq> {1..max_id s}" using live get by (auto simp: ti_live_def)
    then show ?thesis by (auto simp: least_unused_def)
  next
    case (Cons a as)
    then have i: "i = a" using get by simp
    have o: "set (orphans s) = {1..max_id s} - L" "\<forall>x \<in> set as. a \<le> x"
      using live Cons by (auto simp: ti_live_def)
    have "j \<in> L" if "0 < j" "j < a" for j
    proof (rule ccontr)
      assume "j \<notin> L"
      moreover have "a \<le> max_id s" using o(1) Cons by auto
      ultimately have "j \<in> set (orphans s)" using o(1) that by auto
      then show False using o(2) Cons that(2) by auto
    qed
    moreover have "a \<in> {1..max_id s} - L" using o(1) Cons by auto
    ultimately show ?thesis using i by (auto simp: least_unused_def)
  qed
  show "ti_live s' (insert i L)"
  proof (cases "orphans s")
    case Nil
    then show ?thesis using live get by (auto simp: ti_live_def)
  next
    case (Cons a as)
    moreover have "a \<in> {1..max_id s} - L" using live Cons by (auto simp: ti_live_def)
    ultimately show ?thesis using live get by (auto simp: ti_live_def)
  qed
qed

text \<open>In the loop of \<open>free\<close>, \<open>max_id\<close> itself may be an orphan.\<close>

lemma ti_shrink_live:
  assumes "finite L" "0 \<notin> L" "sorted (orphans s)" "distinct (orphans s)"
    "set (orphans s) = {1..max_id s} - L" "L \<subseteq> {1..max_id s}"
  shows "ti_live (ti_shrink s) L"
  using assms
proof (induction s rule: ti_shrink.induct)
  case (1 s)
  show ?case
  proof (cases "max_id s \<in> set (orphans s)")
    case True
    let ?s = "s\<lparr>orphans := remove1 (max_id s) (orphans s), max_id := max_id s - 1\<rparr>"
    have m: "max_id s \<notin> L" "0 < max_id s" using True "1.prems"(5) by auto
    have le: "L \<subseteq> {1..max_id s - 1}"
    proof
      fix x assume "x \<in> L"
      then have "x \<in> {1..max_id s}" "x \<noteq> max_id s" using "1.prems"(6) m(1) by auto
      then show "x \<in> {1..max_id s - 1}" by auto
    qed
    have e: "{1..max_id s} - {max_id s} = {1..max_id s - 1}" by auto
    have "set (orphans ?s) = ({1..max_id s} - {max_id s}) - L"
      using "1.prems"(4,5) by auto
    then have "set (orphans ?s) = {1..max_id ?s} - L" unfolding e by simp
    then have "ti_live (ti_shrink ?s) L"
      using "1.IH" [OF True] "1.prems" le by (auto simp: sorted_remove1)
    then show ?thesis using True by (subst ti_shrink.simps) simp
  next
    case False
    then have "max_id s = 0 \<or> max_id s \<in> L" using "1.prems"(5) by auto
    moreover have "ti_shrink s = s" using False by (subst ti_shrink.simps) simp
    ultimately show ?thesis using "1.prems" by (simp add: ti_live_def)
  qed
qed

lemma ti_free_live:
  assumes live: "ti_live s L" and i: "i \<in> L"
  shows "ti_live (ti_free i s) (L - {i})"
proof (cases "i = max_id s")
  case True
  have m: "0 < max_id s" "max_id s \<in> L" using live i True by (auto simp: ti_live_def)
  have "set (orphans s) = {1..max_id s - 1} - (L - {i})" "L - {i} \<subseteq> {1..max_id s - 1}"
  proof -
    have e: "{1..max_id s} = insert (max_id s) {1..max_id s - 1}" using m(1) by auto
    show "set (orphans s) = {1..max_id s - 1} - (L - {i})"
      using live m(2) True unfolding ti_live_def e by auto
    show "L - {i} \<subseteq> {1..max_id s - 1}" using live True unfolding ti_live_def e by auto
  qed
  then have "ti_live (ti_shrink (s\<lparr>max_id := max_id s - 1\<rparr>)) (L - {i})"
    using live by (intro ti_shrink_live) (auto simp: ti_live_def)
  then show ?thesis using True by simp
next
  case False
  then show ?thesis using live i
    by (auto simp: ti_live_def set_insort_insert sorted_insort_insert distinct_insort_insert)
qed

section \<open>Threads\<close>

text \<open>\<open>thread_id_t\<close>, the type of the thread-local object \<open>thread_id\<close>: created and destroyed with its thread.\<close>

record thread_ids =
  id_store :: thread_id_store
  id_of :: "tid \<Rightarrow> nat option"

definition thread_ids_init :: thread_ids where
  "thread_ids_init = \<lparr>id_store = ti_init, id_of = (\<lambda>_. None)\<rparr>"

datatype id_label = ThreadStart tid | ThreadEnd tid

fun id_step :: "id_label \<Rightarrow> thread_ids \<Rightarrow> thread_ids option" where
  "id_step (ThreadStart t) s =
     (if id_of s t = None
      then (case ti_get (id_store s) of (i, st) \<Rightarrow> Some \<lparr>id_store = st, id_of = (id_of s)(t := Some i)\<rparr>)
      else None)"
| "id_step (ThreadEnd t) s =
     (case id_of s t of
        None \<Rightarrow> None
      | Some i \<Rightarrow> Some \<lparr>id_store = ti_free i (id_store s), id_of = (id_of s)(t := None)\<rparr>)"

definition id_inv :: "thread_ids \<Rightarrow> bool" where
  "id_inv s \<longleftrightarrow> ti_live (id_store s) (ran (id_of s)) \<and>
     (\<forall>t u i. id_of s t = Some i \<longrightarrow> id_of s u = Some i \<longrightarrow> t = u)"

lemma id_inv_step:
  assumes inv: "id_inv s" and st: "id_step l s = Some s'"
  shows "id_inv s'"
proof (cases l)
  case (ThreadStart t)
  obtain i st' where g: "ti_get (id_store s) = (i, st')" by (cases "ti_get (id_store s)")
  have s': "id_of s t = None" "s' = \<lparr>id_store = st', id_of = (id_of s)(t := Some i)\<rparr>"
    using st ThreadStart g by (auto simp del: ti_get.simps split: if_splits)
  note L = ti_get_live [OF inv [unfolded id_inv_def, THEN conjunct1] g]
  have new: "id_of s u \<noteq> Some i" for u using L(1) by (auto simp: least_unused_def ran_def)
  have "ran ((id_of s)(t := Some i)) = insert i (ran (id_of s))" using s'(1) by simp
  then show ?thesis using L(2) inv new s' by (auto simp: id_inv_def)
next
  case (ThreadEnd t)
  then obtain i where i: "id_of s t = Some i" "s' = \<lparr>id_store = ti_free i (id_store s), id_of = (id_of s)(t := None)\<rparr>"
    using st by (auto simp del: ti_free.simps split: option.splits)
  have "ran ((id_of s)(t := None)) = ran (id_of s) - {i}"
  proof -
    have "(id_of s u = Some j \<and> u \<noteq> t) = (id_of s u = Some j \<and> j \<noteq> i)" for u j
      using inv i(1) unfolding id_inv_def by (metis option.inject)
    then have "((\<exists>u. u \<noteq> t \<and> id_of s u = Some j)) = ((\<exists>u. id_of s u = Some j) \<and> j \<noteq> i)" for j by blast
    then show ?thesis unfolding ran_def fun_upd_apply by auto
  qed
  moreover have "i \<in> ran (id_of s)" using i(1) by (rule ranI)
  ultimately show ?thesis using inv i ti_free_live [of "id_store s" "ran (id_of s)" i]
    by (auto simp: id_inv_def simp del: ti_free.simps)
qed

interpretation thread_ids: invariant_system id_step thread_ids_init id_inv
proof unfold_locales
  show "id_inv thread_ids_init" by (auto simp: id_inv_def thread_ids_init_def ti_init_def ti_live_def)
  show "\<And>s l s'. id_inv s \<Longrightarrow> id_step l s = Some s' \<Longrightarrow> id_inv s'" by (rule id_inv_step)
qed

section \<open>Properties\<close>

text \<open>
  C30. Thread ids are unique and as small as possible: in every reachable state two living threads have
  different ids, the store represents exactly the ids of the living threads (its \<open>max_id\<close> is the
  greatest of them, so there are no stale orphans after any sequence of starts and ends), and the
  next id handed out is the least positive number not in use.
\<close>
theorem thread_ids_unique_and_least:
  assumes "reachable id_step thread_ids_init s"
  shows "(\<forall>t u i. id_of s t = Some i \<and> id_of s u = Some i \<longrightarrow> t = u) \<and>
         ti_live (id_store s) (ran (id_of s)) \<and>
         least_unused (ran (id_of s)) (fst (ti_get (id_store s)))"
proof -
  have inv: "id_inv s" by (rule thread_ids.inv_reachable [OF assms])
  have "least_unused (ran (id_of s)) (fst (ti_get (id_store s)))"
    using ti_get_live(1) inv by (metis id_inv_def prod.collapse)
  then show ?thesis using inv by (auto simp: id_inv_def)
qed

theorem thread_ids_unique_and_least_witness:
  "\<exists>s. run id_step [ThreadStart 7, ThreadStart 8, ThreadStart 9, ThreadEnd 8, ThreadEnd 9] thread_ids_init = Some s \<and>
     id_store s = \<lparr>max_id = 1, orphans = []\<rparr> \<and> least_unused (ran (id_of s)) 2"
proof -
  obtain s where s: "run id_step [ThreadStart 7, ThreadStart 8, ThreadStart 9, ThreadEnd 8, ThreadEnd 9] thread_ids_init = Some s"
    "id_store s = \<lparr>max_id = 1, orphans = []\<rparr>"
    by (simp add: thread_ids_init_def ti_init_def ti_shrink.simps insort_insert_key_def)
  have "fst (ti_get (id_store s)) = 2" by (simp add: s(2))
  with thread_ids_unique_and_least [OF run_reachable [OF s(1)]] s show ?thesis by metis
qed

end
