(* ===== verification/HQD_Lock.thy ===== *)
theory HQD_Lock
  imports QD_Lock
begin

text \<open>
  The hierarchical locks of \<open>hqdlock.hpp\<close>: one queue delegation lock (\<open>qdlock_base\<close>) for each NUMA node,
  and a global lock that the holder of a node's lock takes before it executes anything. \<open>hqdlock_impl\<close>
  is the instance without readers (\<open>cf_readers\<close> false), \<open>mrhqdlock_impl\<close> the one with them.

  The locks of the nodes are states of the model of \<open>qdlock_base\<close> (QD_Lock), whose code
  \<open>delegate\<close> runs; the functions of \<open>hierarchy_sync\<close> are called where \<open>helper\<close> and \<open>executor\<close> do it.
\<close>

section \<open>State\<close>

datatype pinning_policy_t = free_threads | pinned_threads

text \<open>
  The classes that the template parameter of the nodes' locks stands for, by what their \<open>unlock\<close> does when
  the lock is not the caller's: \<open>tatas_lock\<close> and \<open>futex_lock\<close> are flags and are set to free, whoever
  calls; in \<open>mcs_lock\<close> and \<open>mcs_futex_lock\<close> a thread that is not in the queue of the lock waits for its
  successor, and none comes. (The mutexes of POSIX and the standard library leave it undefined; in
  \<open>ticket_futex_lock\<close> it spoils the counter. They are not instances of the model.)
\<close>

datatype node_mutex_t = flag_mutex | queue_mutex

text \<open>The template parameters, and the fields that the constructor sets and nothing changes afterwards.\<close>

record ('e, 'w) hq_config =
  hq_base_config :: "('e, 'w) qd_config"
  hq_pinning :: pinning_policy_t
  hq_mutex :: node_mutex_t
  hq_numanodes :: int
  hq_numa_mapping :: "int list"

text \<open>
  The constructor, for \<open>num_cpus\<close> processors. The parameter \<open>numa\<close> is the library libnuma: \<open>None\<close> when
  the code is compiled without it or it is not available, otherwise the number of nodes and the node of
  each processor. Without it \<open>numanodes\<close> keeps its indeterminate value \<open>garbage\<close>.
\<close>

definition hq_construct ::
  "('e, 'w) qd_config \<Rightarrow> pinning_policy_t \<Rightarrow> node_mutex_t \<Rightarrow> nat \<Rightarrow>
   (int \<times> (nat \<Rightarrow> int)) option \<Rightarrow> int \<Rightarrow> ('e, 'w) hq_config" where
  "hq_construct C pinning mutex num_cpus numa garbage =
     (case numa of
        None \<Rightarrow> \<lparr>hq_base_config = C, hq_pinning = pinning, hq_mutex = mutex, hq_numanodes = garbage,
                  hq_numa_mapping = replicate num_cpus 0\<rparr>
      | Some (nodes, node_of) \<Rightarrow>
          \<lparr>hq_base_config = C, hq_pinning = pinning, hq_mutex = mutex, hq_numanodes = nodes,
           hq_numa_mapping = map node_of [0..<num_cpus]\<rparr>)"

text \<open>
  Where a thread is: outside; in \<open>lock\<close> before \<open>get_qd\<close>; in a member function of the lock of node \<open>n\<close>,
  with a program counter there; before and in \<open>global_lock.lock()\<close>; in \<open>global_lock.unlock()\<close>, called by
  \<open>hierarchy_sync\<close> or by \<open>unlock\<close>; in \<open>unlock\<close> before \<open>get_qd\<close>; in \<open>rlock\<close> or reading; after an access
  outside the array of nodes, which is undefined behaviour, or for ever in \<open>unlock\<close> of a lock that is not its own.
\<close>

datatype 'e hq_pc =
    HqIdle | HqBarrier | HqBase nat | HqGlobal nat | HqGot nat | HqGlobalUnlock nat
  | HqUserUnlock nat | HqGetQd nat | HqRead "'e qd_pc" | HqUndef

record ('e, 'w) hq_lock =
  hq_global :: "tid option"
  hq_world :: 'w
  hq_barrier :: int
  hq_readers :: reader_groups
  hq_qdlocks :: "nat \<Rightarrow> ('e, 'w) qd_lock"
  hq_node_id :: "tid \<Rightarrow> int option"
  hq_pc :: "tid \<Rightarrow> 'e hq_pc"

definition hq_init :: "'w \<Rightarrow> ('e, 'w) hq_lock" where
  "hq_init w =
     \<lparr>hq_global = None, hq_world = w, hq_barrier = 0, hq_readers = rg_init, hq_qdlocks = (\<lambda>_. qd_init w),
      hq_node_id = (\<lambda>_. None), hq_pc = (\<lambda>_. HqIdle)\<rparr>"

definition hq_goto :: "tid \<Rightarrow> 'e hq_pc \<Rightarrow> ('e, 'w) hq_lock \<Rightarrow> ('e, 'w) hq_lock" where
  "hq_goto t p s = s\<lparr>hq_pc := (hq_pc s)(t := p)\<rparr>"

section \<open>The lock of a node\<close>

text \<open>
  \<open>get_qd\<close>, called by thread \<open>t\<close> on the processor \<open>cpu\<close>: the processor that counts, and the lock of its
  node, \<open>None\<close> if an index is out of range.
\<close>

definition hq_cpu :: "('e, 'w) hq_config \<Rightarrow> tid \<Rightarrow> int \<Rightarrow> ('e, 'w) hq_lock \<Rightarrow> int" where
  "hq_cpu C t cpu s =
     (case hq_pinning C of
        free_threads \<Rightarrow> cpu
      | pinned_threads \<Rightarrow> (case hq_node_id s t of None \<Rightarrow> cpu | Some c \<Rightarrow> c))"

definition hq_index :: "('e, 'w) hq_config \<Rightarrow> int \<Rightarrow> nat option" where
  "hq_index C cpu =
     (if 0 \<le> cpu \<and> cpu < int (length (hq_numa_mapping C)) then
        let idx = hq_numa_mapping C ! nat cpu in
        if 0 \<le> idx \<and> idx < hq_numanodes C then Some (nat idx) else None
      else None)"

definition hq_get_qd ::
  "('e, 'w) hq_config \<Rightarrow> tid \<Rightarrow> int \<Rightarrow> ('e, 'w) hq_lock \<Rightarrow> nat option \<times> ('e, 'w) hq_lock" where
  "hq_get_qd C t cpu s =
     (let c = hq_cpu C t cpu s in
      (hq_index C c,
       case hq_pinning C of
         free_threads \<Rightarrow> s
       | pinned_threads \<Rightarrow> s\<lparr>hq_node_id := (hq_node_id s)(t := Some c)\<rparr>))"

text \<open>
  The lock of node \<open>n\<close> as its code sees it: the data, and what it reaches through \<open>__data\<close>, are those
  of the whole lock. A step of its code, after which the thread is still in it or has returned.
\<close>

definition hq_view :: "nat \<Rightarrow> ('e, 'w) hq_lock \<Rightarrow> ('e, 'w) qd_lock" where
  "hq_view n s =
     (hq_qdlocks s n)\<lparr>qd_world := hq_world s, qd_barrier := hq_barrier s, qd_readers := hq_readers s\<rparr>"

definition hq_base ::
  "('e, 'w) hq_config \<Rightarrow> nat \<Rightarrow> 'e qd_label \<Rightarrow> ('e, 'w) hq_lock \<Rightarrow> ('e, 'w) hq_lock option" where
  "hq_base C n l s =
     map_option (\<lambda>q. hq_goto (qd_thread l) (if qd_pc q (qd_thread l) = QdIdle then HqIdle else HqBase n)
                       (s\<lparr>hq_world := qd_world q, hq_qdlocks := (hq_qdlocks s)(n := q)\<rparr>))
       (qd_step (hq_base_config C) l (hq_view n s))"

section \<open>Operations\<close>

text \<open>The delegate functions: \<open>get_qd\<close>, then \<open>delegate\<close> of the lock of the node.\<close>

definition hq_delegate ::
  "('e, 'w) hq_config \<Rightarrow> tid \<Rightarrow> int \<Rightarrow> 'e \<Rightarrow> ('e, 'w) hq_lock \<Rightarrow> ('e, 'w) hq_lock option" where
  "hq_delegate C t cpu x s =
     (if hq_pc s t \<noteq> HqIdle then None
      else case hq_get_qd C t cpu s of
             (None, s') \<Rightarrow> Some (hq_goto t HqUndef s')
           | (Some n, s') \<Rightarrow> hq_base C n (QdDelegate t x) s')"

text \<open>
  \<open>hierarchy_sync\<close>: a thread whose locking call for the node's lock has returned takes the global lock,
  one that is about to unlock the node's lock releases the global lock.
\<close>

definition hq_hierarchy_sync :: "tid \<Rightarrow> nat \<Rightarrow> ('e, 'w) hq_lock \<Rightarrow> ('e, 'w) hq_lock option" where
  "hq_hierarchy_sync t n s =
     (case qd_pc (hq_qdlocks s n) t of
        HdGot h \<Rightarrow> Some (hq_goto t (HqGlobal n) s)
      | HdUnlock \<Rightarrow> Some (hq_goto t (HqGlobalUnlock n) s)
      | _ \<Rightarrow> None)"

definition hq_global_sync ::
  "('e, 'w) hq_config \<Rightarrow> tid \<Rightarrow> ('e, 'w) hq_lock \<Rightarrow> ('e, 'w) hq_lock option" where
  "hq_global_sync C t s =
     (case hq_pc s t of
        HqGlobal n \<Rightarrow>
          if hq_global s = None then Some (hq_goto t (HqGot n) (s\<lparr>hq_global := Some t\<rparr>)) else None
      | HqGot n \<Rightarrow> hq_base C n (QdDo t) s
      | HqGlobalUnlock n \<Rightarrow> hq_base C n (QdDo t) (s\<lparr>hq_global := None\<rparr>)
      | _ \<Rightarrow> None)"

text \<open>
  \<open>lock\<close> of \<open>mrhqdlock\<close> waits for the barrier first. Then both lock the node of the thread and the
  global lock; the wait for the readers follows in the code of the node.
\<close>

definition hq_lock_call ::
  "('e, 'w) hq_config \<Rightarrow> tid \<Rightarrow> int \<Rightarrow> ('e, 'w) hq_lock \<Rightarrow> ('e, 'w) hq_lock option" where
  "hq_lock_call C t cpu s =
     (case hq_pc s t of
        HqBarrier \<Rightarrow>
          if cf_readers (hq_base_config C) \<and> 0 < hq_barrier s then Some s
          else Some (case hq_get_qd C t cpu s of
                       (None, s') \<Rightarrow> hq_goto t HqUndef s'
                     | (Some n, s') \<Rightarrow>
                         hq_goto t (HqBase n)
                           (s'\<lparr>hq_qdlocks := (hq_qdlocks s')(n := qd_goto t UlLock (hq_qdlocks s' n))\<rparr>))
      | _ \<Rightarrow> None)"

text \<open>
  \<open>unlock\<close> asks for the node again. It unlocks the lock of the node \<open>m\<close> where the thread \<open>t\<close> runs now,
  be it the lock of the node \<open>n\<close> that \<open>t\<close> has locked or another one: then the lock of \<open>n\<close> stays as it is,
  and a flag \<open>m\<close> is free, although another thread may hold it.
\<close>

definition hq_unlock_other :: "tid \<Rightarrow> nat \<Rightarrow> nat \<Rightarrow> ('e, 'w) hq_lock \<Rightarrow> ('e, 'w) hq_lock" where
  "hq_unlock_other t n m s =
     hq_goto t HqIdle
       (s\<lparr>hq_qdlocks := (hq_qdlocks s)(n := qd_goto t QdIdle (hq_qdlocks s n), m := (hq_qdlocks s m)\<lparr>qd_owner := None\<rparr>)\<rparr>)"

definition hq_unlock ::
  "('e, 'w) hq_config \<Rightarrow> tid \<Rightarrow> int \<Rightarrow> ('e, 'w) hq_lock \<Rightarrow> ('e, 'w) hq_lock option" where
  "hq_unlock C t cpu s =
     (case hq_pc s t of
        HqUserUnlock n \<Rightarrow> Some (hq_goto t (HqGetQd n) (s\<lparr>hq_global := None\<rparr>))
      | HqGetQd n \<Rightarrow>
          (case hq_get_qd C t cpu s of
             (None, s') \<Rightarrow> Some (hq_goto t HqUndef s')
           | (Some m, s') \<Rightarrow>
               if m = n then hq_base C n (QdUnlock t) s'
               else case hq_mutex C of
                      flag_mutex \<Rightarrow> Some (hq_unlock_other t n m s')
                    | queue_mutex \<Rightarrow> Some (hq_goto t HqUndef s'))
      | _ \<Rightarrow> None)"

text \<open>\<open>rlock\<close> and \<open>runlock\<close> of \<open>mrhqdlock\<close>, on the global lock.\<close>

definition hq_rlock :: "('e, 'w) hq_config \<Rightarrow> tid \<Rightarrow> ('e, 'w) hq_lock \<Rightarrow> ('e, 'w) hq_lock option" where
  "hq_rlock C t s =
     (let groups = cf_groups (hq_base_config C) in
      case hq_pc s t of
        HqRead (RdArrive b p) \<Rightarrow>
          Some (hq_goto t (HqRead (RdTest b p)) (s\<lparr>hq_readers := rg_arrive groups t (hq_readers s)\<rparr>))
      | HqRead (RdDepart b p) \<Rightarrow>
          Some (hq_goto t (HqRead (RdSpin b p)) (s\<lparr>hq_readers := rg_depart groups t (hq_readers s)\<rparr>))
      | HqRead (RdRaise p) \<Rightarrow>
          Some (hq_goto t (HqRead (RdSpin True (p + 1))) (s\<lparr>hq_barrier := hq_barrier s + 1\<rparr>))
      | HqRead RdLower \<Rightarrow> Some (hq_goto t (HqRead RdCrit) (s\<lparr>hq_barrier := hq_barrier s - 1\<rparr>))
      | _ \<Rightarrow> None)"

text \<open>
  The result of \<open>is_locked\<close> of the global lock: true while a thread is between the return of its
  locking call and its call of \<open>unlock\<close>, otherwise it is chosen.
\<close>

definition hq_may_see :: "bool \<Rightarrow> ('e, 'w) hq_lock \<Rightarrow> bool" where
  "hq_may_see b s =
     (case hq_global s of
        None \<Rightarrow> True
      | Some h \<Rightarrow> (case hq_pc s h of HqBase n \<Rightarrow> b | _ \<Rightarrow> True))"

definition hq_see :: "('e, 'w) hq_config \<Rightarrow> tid \<Rightarrow> bool \<Rightarrow> ('e, 'w) hq_lock \<Rightarrow> ('e, 'w) hq_lock option" where
  "hq_see C t locked s =
     (if \<not> hq_may_see locked s then None
      else case hq_pc s t of
        HqRead (RdTest b p) \<Rightarrow>
          Some (hq_goto t (HqRead (if locked then RdDepart b p else if b then RdLower else RdCrit)) s)
      | HqRead (RdSpin b p) \<Rightarrow>
          Some (hq_goto t (HqRead (if \<not> locked then RdArrive b p
                                   else if p = cf_patience (hq_base_config C) \<and> \<not> b then RdRaise p
                                   else RdSpin b (p + 1))) s)
      | _ \<Rightarrow> None)"

definition hq_runlock :: "('e, 'w) hq_config \<Rightarrow> tid \<Rightarrow> ('e, 'w) hq_lock \<Rightarrow> ('e, 'w) hq_lock" where
  "hq_runlock C t s =
     hq_goto t HqIdle (s\<lparr>hq_readers := rg_depart (cf_groups (hq_base_config C)) t (hq_readers s)\<rparr>)"

section \<open>The lock as a transition system\<close>

text \<open>
  The calls of a thread, the steps of the code of a node's lock, the calls of \<open>hierarchy_sync\<close> in it, and
  the steps outside it, on the processor \<open>cpu\<close>.
\<close>

datatype 'e hq_label =
    HqDelegate tid int 'e | HqLock tid | HqUnlock tid | HqRLock tid | HqRUnlock tid
  | HqNode "'e qd_label" | HqSync tid | HqDo tid int | HqSee tid bool

text \<open>The steps of the code of a node's lock between the calls of \<open>hierarchy_sync\<close>.\<close>

definition hq_inner :: "'e qd_label \<Rightarrow> 'e qd_pc \<Rightarrow> bool" where
  "hq_inner l p =
     (case l of
        QdDo t \<Rightarrow> (case p of HdGot h \<Rightarrow> False | HdUnlock \<Rightarrow> False | _ \<Rightarrow> True)
      | QdFail t \<Rightarrow> True
      | QdAccept t \<Rightarrow> True
      | QdReturn t st \<Rightarrow> True
      | QdFlush t a \<Rightarrow> True
      | _ \<Rightarrow> False)"

fun hq_step :: "('e, 'w) hq_config \<Rightarrow> 'e hq_label \<Rightarrow> ('e, 'w) hq_lock \<Rightarrow> ('e, 'w) hq_lock option" where
  "hq_step C (HqDelegate t cpu x) s = hq_delegate C t cpu x s"
| "hq_step C (HqLock t) s = (if hq_pc s t = HqIdle then Some (hq_goto t HqBarrier s) else None)"
| "hq_step C (HqUnlock t) s =
     (case hq_pc s t of
        HqBase n \<Rightarrow> if qd_pc (hq_qdlocks s n) t = HdRun UserLock then Some (hq_goto t (HqUserUnlock n) s) else None
      | _ \<Rightarrow> None)"
| "hq_step C (HqRLock t) s =
     (if cf_readers (hq_base_config C) \<and> hq_pc s t = HqIdle then Some (hq_goto t (HqRead (RdArrive False 0)) s) else None)"
| "hq_step C (HqRUnlock t) s = (if hq_pc s t = HqRead RdCrit then Some (hq_runlock C t s) else None)"
| "hq_step C (HqNode l) s =
     (case hq_pc s (qd_thread l) of
        HqBase n \<Rightarrow> if hq_inner l (qd_pc (hq_qdlocks s n) (qd_thread l)) then hq_base C n l s else None
      | _ \<Rightarrow> None)"
| "hq_step C (HqSync t) s = (case hq_pc s t of HqBase n \<Rightarrow> hq_hierarchy_sync t n s | _ \<Rightarrow> None)"
| "hq_step C (HqDo t cpu) s =
     (case hq_global_sync C t s of Some s' \<Rightarrow> Some s' | None \<Rightarrow>
     (case hq_lock_call C t cpu s of Some s' \<Rightarrow> Some s' | None \<Rightarrow>
     (case hq_unlock C t cpu s of Some s' \<Rightarrow> Some s' | None \<Rightarrow> hq_rlock C t s)))"
| "hq_step C (HqSee t b) s = hq_see C t b s"

section \<open>The code of a node does not depend on the data\<close>

lemma qd_world_queue_step:
  "qd_queue_step t ev p s = Some s' \<Longrightarrow> qd_world s' = qd_world s \<and>
   qd_queue_step t ev p (s\<lparr>qd_world := w\<rparr>) = Some (s'\<lparr>qd_world := w\<rparr>)"
  by (auto simp: qd_queue_step_def qd_goto_def)

lemma qd_world_acquire:
  "qd_acquire t h s = Some s' \<Longrightarrow> qd_world s' = qd_world s \<and>
   qd_acquire t h (s\<lparr>qd_world := w\<rparr>) = Some (s'\<lparr>qd_world := w\<rparr>)"
  "qd_acquire t h s = None \<Longrightarrow> qd_acquire t h (s\<lparr>qd_world := w\<rparr>) = None"
  by (auto simp: qd_acquire_def qd_goto_def split: if_splits)

lemma qd_world_try:
  "qd_try t h p s = Some s' \<Longrightarrow> qd_world s' = qd_world s \<and>
   qd_try t h p (s\<lparr>qd_world := w\<rparr>) = Some (s'\<lparr>qd_world := w\<rparr>)"
  by (auto simp: qd_try_def qd_acquire_def qd_goto_def split: if_splits)

lemma qd_wait_readers_world [simp]: "qd_wait_readers C h k (s\<lparr>qd_world := w\<rparr>) = qd_wait_readers C h k s"
  by (simp add: qd_wait_readers_def)

definition qd_indep where
  "qd_indep C l s s' w \<longleftrightarrow>
     qd_step C l (s\<lparr>qd_world := w\<rparr>) = Some (s'\<lparr>qd_world := fold (cf_exec C) (ds_order (qd_events s l)) w\<rparr>) \<and>
     qd_world s' = fold (cf_exec C) (ds_order (qd_events s l)) (qd_world s)"

lemma qd_events_world [simp]: "qd_events (s\<lparr>qd_world := w\<rparr>) l = qd_events s l"
  by (cases "(s, l)" rule: qd_events.cases) auto

lemma qd_indep_do:
  assumes st: "qd_step C (QdDo t) s = Some s'"
  shows "qd_indep C (QdDo t) s s' w"
proof (cases "qd_pc s t")
  case (HdGot h)
  then show ?thesis using st by (cases h) (auto simp: qd_indep_def qd_delegate_def qd_holder_def qd_goto_def)
next
  case (HdRun h)
  then show ?thesis using st
    by (cases h) (auto simp: qd_indep_def qd_delegate_def qd_holder_def qd_rlock_def qd_goto_def qd_execute_def)
qed (use st in \<open>auto simp: qd_indep_def qd_delegate_def qd_holder_def qd_rlock_def qd_goto_def
      dest: qd_world_queue_step [where w = w] qd_world_acquire [where w = w] qd_world_try [where w = w] split: if_splits option.splits\<close>)

lemma qd_step_indep:
  assumes st: "qd_step C l s = Some s'"
  shows "qd_indep C l s s' w"
proof (cases l)
  case (QdDo t)
  then show ?thesis using st qd_indep_do by simp
next
  case (QdFlush t a)
  then show ?thesis using st
    by (cases a) (auto simp: qd_indep_def qd_flush_def qd_execute_def dest: qd_world_queue_step [where w = w]
        split: if_splits list.splits)
next
  case (QdSee t b)
  then show ?thesis using st
    by (cases "qd_pc s t") (auto simp: qd_indep_def qd_see_def qd_may_see_def qd_goto_def split: if_splits option.splits)
next
  case (QdFail t)
  then show ?thesis using st by (cases "qd_pc s t") (auto simp: qd_indep_def qd_fail_def qd_goto_def)
next
  case (QdAccept t)
  then show ?thesis using st
    by (cases "qd_pc s t") (auto simp: qd_indep_def qd_accept_def dest: qd_world_queue_step [where w = w])
next
  case (QdReturn t v)
  then show ?thesis using st
    by (cases "qd_pc s t") (auto simp: qd_indep_def qd_try_enqueue_def dest: qd_world_queue_step [where w = w])
qed (use st in \<open>auto simp: qd_indep_def qd_goto_def qd_runlock_def split: if_splits\<close>)

section \<open>The invariant\<close>

text \<open>The node whose lock a thread has called, and what its program counters are there.\<close>

fun hq_where :: "'e hq_pc \<Rightarrow> nat option" where
  "hq_where (HqBase n) = Some n"
| "hq_where (HqGlobal n) = Some n"
| "hq_where (HqGot n) = Some n"
| "hq_where (HqGlobalUnlock n) = Some n"
| "hq_where (HqUserUnlock n) = Some n"
| "hq_where (HqGetQd n) = Some n"
| "hq_where _ = None"

fun hq_local :: "'e hq_pc \<Rightarrow> (nat \<Rightarrow> 'e qd_pc) \<Rightarrow> bool" where
  "hq_local (HqBase n) f = (f n \<noteq> QdIdle \<and> \<not> pc_reader (f n))"
| "hq_local (HqGlobal n) f = (\<exists>h. f n = HdGot h)"
| "hq_local (HqGot n) f = (\<exists>h. f n = HdGot h)"
| "hq_local (HqGlobalUnlock n) f = (f n = HdUnlock)"
| "hq_local (HqUserUnlock n) f = (f n = HdRun UserLock)"
| "hq_local (HqGetQd n) f = (f n = HdRun UserLock)"
| "hq_local (HqRead p) f = pc_reader p"
| "hq_local HqUndef f = (\<forall>n. f n = QdIdle \<or> f n = HdRun UserLock)"
| "hq_local _ f = True"

definition hq_pc_ok :: "'e hq_pc \<Rightarrow> (nat \<Rightarrow> 'e qd_pc) \<Rightarrow> bool" where
  "hq_pc_ok p f \<longleftrightarrow> (p \<noteq> HqUndef \<longrightarrow> (\<forall>n. f n \<noteq> QdIdle \<longrightarrow> hq_where p = Some n)) \<and> hq_local p f"

abbreviation hq_node_pc :: "('e, 'w) hq_lock \<Rightarrow> tid \<Rightarrow> nat \<Rightarrow> 'e qd_pc" where
  "hq_node_pc s t n \<equiv> qd_pc (hq_qdlocks s n) t"

text \<open>The thread that owns the global lock.\<close>

definition hq_holds :: "tid \<Rightarrow> ('e, 'w) hq_lock \<Rightarrow> bool" where
  "hq_holds t s =
     (case hq_pc s t of
        HqGot n \<Rightarrow> True | HqBase n \<Rightarrow> pc_crit (hq_node_pc s t n) | HqGlobalUnlock n \<Rightarrow> True
      | HqUserUnlock n \<Rightarrow> True | _ \<Rightarrow> False)"

text \<open>
  The readers see one lock: the global one, whose owner is, as far as they are concerned, where it is in
  the code of its node.
\<close>

definition hq_top :: "('e, 'w) hq_lock \<Rightarrow> ('e, 'w) qd_lock" where
  "hq_top s =
     \<lparr>qd_owner = hq_global s, qd_queue = tq_init, qd_world = hq_world s, qd_barrier = hq_barrier s,
      qd_readers = hq_readers s,
      qd_pc = (\<lambda>t. case hq_pc s t of HqBase n \<Rightarrow> hq_node_pc s t n | HqRead p \<Rightarrow> p | _ \<Rightarrow> QdIdle)\<rparr>"

definition hq_inv :: "('e, 'w) hq_config \<Rightarrow> ('e, 'w) hq_lock \<Rightarrow> bool" where
  "hq_inv C s \<longleftrightarrow> (\<forall>t. hq_pc_ok (hq_pc s t) (hq_node_pc s t)) \<and> owner_rel hq_holds s (hq_global s) \<and>
     rd_inv (hq_base_config C) (hq_top s)"

lemma hq_invD:
  assumes "hq_inv C s"
  shows "hq_pc_ok (hq_pc s t) (hq_node_pc s t)" "owner_rel hq_holds s (hq_global s)"
    "rd_inv (hq_base_config C) (hq_top s)"
  using assms by (auto simp: hq_inv_def)

lemma hq_idle:
  assumes "hq_inv C s" and "hq_where (hq_pc s t) = None" and "hq_pc s t \<noteq> HqUndef"
  shows "hq_node_pc s t n = QdIdle"
  using hq_invD(1) [OF assms(1), of t] assms(2,3) by (auto simp: hq_pc_ok_def)

text \<open>A step of thread \<open>t\<close> leaves the other threads where they are.\<close>

definition hq_frame :: "tid \<Rightarrow> ('e, 'w) hq_lock \<Rightarrow> ('e, 'w) hq_lock \<Rightarrow> bool" where
  "hq_frame t s s' \<longleftrightarrow> (\<forall>u. u \<noteq> t \<longrightarrow> hq_pc s' u = hq_pc s u \<and> (\<forall>n. hq_node_pc s' u n = hq_node_pc s u n))"

lemma hq_inv_move:
  assumes inv: "hq_inv C s" and fr: "hq_frame t s s'"
    and ok: "hq_pc_ok (hq_pc s' t) (hq_node_pc s' t)"
    and own: "hq_global s' = (if hq_holds t s' then Some t else if hq_holds t s then None else hq_global s)"
    and free: "hq_holds t s' \<Longrightarrow> hq_holds t s \<or> hq_global s = None"
    and rd: "rd_inv (hq_base_config C) (hq_top s')"
  shows "hq_inv C s'"
proof -
  note D = hq_invD [OF inv]
  have "hq_holds t s \<longleftrightarrow> hq_global s = Some t" using D(2) by (simp add: owner_rel_def)
  then have g: "next_owner hq_holds t s' (hq_global s) = hq_global s'" using own by (simp add: next_owner_def)
  have "owner_rel hq_holds s' (next_owner hq_holds t s' (hq_global s))"
    by (rule owner_rel_next [OF D(2)])
      (use fr free owner_rel_SomeD [OF D(2)] in \<open>auto simp: hq_frame_def hq_holds_def split: hq_pc.splits\<close>)
  moreover have "hq_pc_ok (hq_pc s' u) (hq_node_pc s' u)" for u
    using D(1) [of u] fr ok by (cases "u = t") (auto simp: hq_frame_def)
  ultimately show ?thesis using rd g by (simp add: hq_inv_def)
qed

lemma hq_top_pc: "hq_frame t s s' \<Longrightarrow> qd_pc (hq_top s') = (qd_pc (hq_top s))(t := qd_pc (hq_top s') t)"
  by (auto simp: hq_top_def hq_frame_def fun_eq_iff split: hq_pc.splits)

text \<open>The steps of threads that do not read and do not wait for readers.\<close>

lemma hq_top_quiet:
  assumes inv: "hq_inv C s" and fr: "hq_frame t s s'" and C: "cf_ok (hq_base_config C)"
    and same: "hq_readers s' = hq_readers s" "hq_barrier s' = hq_barrier s"
    and nr: "\<not> pc_reader (qd_pc (hq_top s) t)" "\<not> pc_reader (qd_pc (hq_top s') t)"
    and allows: "\<And>g. pc_allows g (qd_pc (hq_top s) t) \<Longrightarrow> pc_allows g (qd_pc (hq_top s') t)"
  shows "rd_inv (hq_base_config C) (hq_top s')"
proof (rule rd_inv_quiet [OF hq_invD(3) [OF inv] _ nr(1)])
  show "qd_quiet (hq_base_config C) t (hq_top s) (hq_top s')"
    by (rule qd_quietI [OF hq_top_pc [OF fr]]) (use same nr(2) allows in \<open>auto simp: hq_top_def\<close>)
qed (use C in \<open>simp add: cf_ok_def\<close>)

text \<open>A step of the code of a node.\<close>

lemma hq_baseE:
  assumes "hq_base C n l s = Some s'"
  obtains q where "qd_step (hq_base_config C) l (hq_view n s) = Some q"
    "s' = hq_goto (qd_thread l) (if qd_pc q (qd_thread l) = QdIdle then HqIdle else HqBase n)
            (s\<lparr>hq_world := qd_world q, hq_qdlocks := (hq_qdlocks s)(n := q)\<rparr>)"
  using assms by (auto simp: hq_base_def)

lemma hq_view_pc [simp]: "qd_pc (hq_view n s) = qd_pc (hq_qdlocks s n)" "qd_readers (hq_view n s) = hq_readers s"
  "qd_queue (hq_view n s) = qd_queue (hq_qdlocks s n)" "qd_owner (hq_view n s) = qd_owner (hq_qdlocks s n)"
  "qd_world (hq_view n s) = hq_world s"
  by (simp_all add: hq_view_def)

lemma hq_base_frame:
  assumes "hq_base C n l s = Some s'"
  shows "hq_frame (qd_thread l) s s'"
proof -
  obtain q where q: "qd_step (hq_base_config C) l (hq_view n s) = Some q"
    "s' = hq_goto (qd_thread l) (if qd_pc q (qd_thread l) = QdIdle then HqIdle else HqBase n)
            (s\<lparr>hq_world := qd_world q, hq_qdlocks := (hq_qdlocks s)(n := q)\<rparr>)"
    using assms by (rule hq_baseE)
  show ?thesis using qd_step_other [OF q(1)] q(2)
    by (auto simp: hq_frame_def hq_goto_def fun_eq_iff)
qed

text \<open>
  The steps in which a thread is, before and after, in the code of a node or in none, and the global
  lock changes hands accordingly.
\<close>

lemma hq_local_upd: "hq_pc_ok p f \<Longrightarrow> hq_where p = Some n \<Longrightarrow> p \<noteq> HqUndef \<Longrightarrow> m \<noteq> n \<Longrightarrow> f m = QdIdle"
  by (auto simp: hq_pc_ok_def)

lemma qd_step_not_reader:
  assumes "qd_step C l s = Some s'" and "\<not> pc_reader (qd_pc s (qd_thread l))" and "\<And>t. l \<noteq> QdRLock t"
  shows "\<not> pc_reader (qd_pc s' (qd_thread l))"
proof -
  obtain p where "qd_pc s' = (qd_pc s)(qd_thread l := p)" "\<not> pc_reader p"
    using qd_quiet_step [OF assms] unfolding qd_quiet_def by blast
  then show ?thesis by simp
qed

text \<open>Where the code of a node is inside the calls of \<open>hierarchy_sync\<close>.\<close>

lemma qd_crit_inner:
  assumes st: "qd_step C l s = Some s'" and i: "hq_inner l (qd_pc s (qd_thread l))"
  shows "pc_crit (qd_pc s' (qd_thread l)) = pc_crit (qd_pc s (qd_thread l))"
proof (cases l)
  case (QdDo t)
  show ?thesis
  proof (cases "qd_pc s t")
    case (HdRun h)
    then show ?thesis using st QdDo by (cases h) (auto simp: qd_delegate_def qd_holder_def qd_rlock_def qd_moves)
  next
    case (HdWait h k)
    then show ?thesis using st QdDo qd_wait_readers_pc [of C h k s]
      by (auto simp: qd_delegate_def qd_holder_def qd_rlock_def qd_moves)
  qed (use st i QdDo in \<open>auto simp: hq_inner_def qd_delegate_def qd_holder_def qd_rlock_def qd_moves qd_loop_def
       split: if_splits option.splits\<close>)
next
  case (QdFail t)
  then show ?thesis using st by (cases "qd_pc s t") (auto simp: qd_fail_def qd_moves qd_loop_def split: if_splits)
next
  case (QdAccept t)
  then show ?thesis using st by (cases "qd_pc s t") (auto simp: qd_accept_def qd_moves)
next
  case (QdReturn t v)
  then show ?thesis using st by (cases "qd_pc s t") (auto simp: qd_try_enqueue_def qd_moves split: if_splits)
next
  case (QdFlush t a)
  then show ?thesis using st
    by (cases a) (auto simp: qd_flush_def qd_moves split: if_splits list.splits)
qed (use i in \<open>auto simp: hq_inner_def\<close>)

text \<open>A step of the code of a node keeps the invariant, when the global lock fits to where it leads.\<close>

lemma hq_base_inv:
  assumes inv: "hq_inv C s" and C: "cf_ok (hq_base_config C)"
    and s1: "hq_qdlocks s1 = hq_qdlocks s" "hq_pc s1 = hq_pc s" "hq_readers s1 = hq_readers s"
      "hq_barrier s1 = hq_barrier s" "hq_world s1 = hq_world s"
    and st: "hq_base C n l s1 = Some s'" and t: "qd_thread l = t" and l: "\<And>t. l \<noteq> QdRLock t"
    and at: "hq_pc s t \<noteq> HqUndef" "hq_where (hq_pc s t) = Some n \<or> hq_pc s t = HqIdle"
    and top: "qd_pc (hq_top s) t = hq_node_pc s t n \<or> (\<forall>q g. qd_step (hq_base_config C) l (hq_view n s) = Some q \<longrightarrow> pc_allows g (qd_pc q t))"
    and own: "hq_global s' = (if hq_holds t s' then Some t else if hq_holds t s then None else hq_global s)"
    and free: "hq_holds t s' \<Longrightarrow> hq_holds t s \<or> hq_global s = None"
  shows "hq_inv C s'"
proof -
  let ?C = "hq_base_config C"
  have v: "hq_view n s1 = hq_view n s" using s1 by (simp add: hq_view_def)
  obtain q where q: "qd_step ?C l (hq_view n s) = Some q"
    and s': "s' = hq_goto t (if qd_pc q t = QdIdle then HqIdle else HqBase n)
            (s1\<lparr>hq_world := qd_world q, hq_qdlocks := (hq_qdlocks s1)(n := q)\<rparr>)"
    using hq_baseE [OF st] unfolding v t by blast
  have fr: "hq_frame t s s'" using hq_base_frame [OF st] s1 t by (simp add: hq_frame_def)
  note ok = hq_invD(1) [OF inv, of t]
  have nr: "\<not> pc_reader (hq_node_pc s t n)"
    using ok at by (cases "hq_pc s t") (auto simp: hq_pc_ok_def)
  have qr: "\<not> pc_reader (qd_pc q t)" using qd_step_not_reader [OF q _ l] nr t by simp
  have idle: "hq_node_pc s t m = QdIdle" if "m \<noteq> n" for m
    using ok at that by (auto simp: hq_pc_ok_def)
  have pc: "hq_pc_ok (hq_pc s' t) (hq_node_pc s' t)"
    using idle qr s1 by (auto simp: s' hq_goto_def hq_pc_ok_def)
  have tp: "qd_pc (hq_top s') t = qd_pc q t" by (simp add: s' hq_top_def hq_goto_def)
  have pcs: "qd_pc (hq_top s') = (qd_pc (hq_top s))(t := qd_pc q t)" using hq_top_pc [OF fr] tp by simp
  have tnr: "\<not> pc_reader (qd_pc (hq_top s) t)"
    using nr at by (cases "hq_pc s t") (auto simp: hq_top_def)
  have same: "qd_readers (hq_top s') = qd_readers (hq_top s)" "qd_barrier (hq_top s') = qd_barrier (hq_top s)"
    using s1 by (auto simp: s' hq_top_def hq_goto_def)
  have quiet: "qd_quiet ?C t (hq_top s) (hq_top s')"
  proof (cases "qd_pc (hq_top s) t = hq_node_pc s t n")
    case True
    obtain p where "qd_pc q = (qd_pc (hq_view n s))(t := p)" and
      p: "(\<forall>g. pc_allows g (hq_node_pc s t n) \<longrightarrow> pc_allows g p) \<or>
       (\<exists>h k. hq_node_pc s t n = HdWait h k \<and> p = qd_wait_readers ?C h k (hq_view n s))"
      using qd_quiet_step [OF q _ l] nr t by (auto simp: qd_quiet_def)
    then have "p = qd_pc q t" by simp
    moreover have "qd_wait_readers ?C h k (hq_view n s) = qd_wait_readers ?C h k (hq_top s)" for h k
      by (simp add: qd_wait_readers_def hq_top_def)
    ultimately show ?thesis unfolding qd_quiet_def using same pcs qr p True by metis
  next
    case False
    then show ?thesis using top q by (intro qd_quietI [OF pcs same qr]) auto
  qed
  have rd: "rd_inv ?C (hq_top s')"
    using C by (intro rd_inv_quiet [OF hq_invD(3) [OF inv] _ tnr quiet]) (simp add: cf_ok_def)
  show ?thesis by (rule hq_inv_move [OF inv fr pc own free rd])
qed

text \<open>The steps outside the code of the nodes.\<close>

lemma hq_get_qdE:
  assumes "hq_get_qd C t cpu s = (i, s1)"
  obtains f where "s1 = s\<lparr>hq_node_id := f\<rparr>" "i = hq_index C (hq_cpu C t cpu s)"
    "hq_pinning C = pinned_threads \<Longrightarrow> f = (hq_node_id s)(t := Some (hq_cpu C t cpu s))"
proof -
  have "\<exists>f. s1 = s\<lparr>hq_node_id := f\<rparr> \<and> (hq_pinning C = pinned_threads \<longrightarrow> f = (hq_node_id s)(t := Some (hq_cpu C t cpu s)))"
    using assms by (cases "hq_pinning C") (auto simp: hq_get_qd_def Let_def intro: exI [of _ "hq_node_id s"])
  then show ?thesis using assms by (auto simp: hq_get_qd_def Let_def intro: that)
qed

lemma hq_outer_inv:
  assumes inv: "hq_inv C s" and C: "cf_ok (hq_base_config C)"
    and s': "s' = hq_goto t p s1" and s1: "hq_pc s1 = hq_pc s" "hq_readers s1 = hq_readers s" "hq_barrier s1 = hq_barrier s"
      "\<And>u m. u \<noteq> t \<Longrightarrow> hq_node_pc s1 u m = hq_node_pc s u m"
    and ok: "hq_pc_ok p (hq_node_pc s1 t)"
    and nr: "\<And>q. hq_pc s t \<noteq> HqRead q" "\<And>q. p \<noteq> HqRead q"
    and allows: "\<And>g. pc_allows g (qd_pc (hq_top s') t)"
    and own: "hq_global s1 = (if hq_holds t s' then Some t else if hq_holds t s then None else hq_global s)"
    and free: "hq_holds t s' \<Longrightarrow> hq_holds t s \<or> hq_global s = None"
  shows "hq_inv C s'"
proof -
  have fr: "hq_frame t s s'" using s1 by (auto simp: hq_frame_def s' hq_goto_def)
  have pc: "hq_pc_ok (hq_pc s' t) (hq_node_pc s' t)" using ok by (simp add: s' hq_goto_def)
  have own': "hq_global s' = (if hq_holds t s' then Some t else if hq_holds t s then None else hq_global s)"
    using own by (simp add: s' hq_goto_def)
  have r: "\<not> pc_reader (qd_pc (hq_top s) t)"
    using hq_invD(1) [OF inv, of t] nr(1) by (cases "hq_pc s t") (auto simp: hq_top_def hq_pc_ok_def)
  have r': "\<not> pc_reader (qd_pc (hq_top s') t)"
    using ok nr(2) by (cases p) (auto simp: hq_top_def hq_pc_ok_def s' hq_goto_def)
  have rd: "rd_inv (hq_base_config C) (hq_top s')"
    by (rule hq_top_quiet [OF inv fr C _ _ r r' allows]) (use s1 in \<open>simp_all add: s' hq_goto_def\<close>)
  show ?thesis by (rule hq_inv_move [OF inv fr pc own' free rd])
qed

lemma hq_delegate_inv:
  assumes inv: "hq_inv C s" and C: "cf_ok (hq_base_config C)" and st: "hq_delegate C t cpu x s = Some s'"
  shows "hq_inv C s'"
proof -
  have pc: "hq_pc s t = HqIdle" using st by (auto simp: hq_delegate_def split: if_splits)
  obtain i s1 where g: "hq_get_qd C t cpu s = (i, s1)" by (cases "hq_get_qd C t cpu s")
  then obtain f where s1: "s1 = s\<lparr>hq_node_id := f\<rparr>" by (rule hq_get_qdE)
  show ?thesis
  proof (cases i)
    case None
    then have s': "s' = hq_goto t HqUndef s1" using st g pc by (simp add: hq_delegate_def)
    show ?thesis
      by (rule hq_outer_inv [OF inv C s']) (use pc s' hq_idle [OF inv, of t] in \<open>auto simp: s1 hq_pc_ok_def hq_top_def hq_holds_def hq_goto_def\<close>)
  next
    case (Some n)
    then have b: "hq_base C n (QdDelegate t x) s1 = Some s'" using st g pc by (simp add: hq_delegate_def)
    obtain q where q: "qd_step (hq_base_config C) (QdDelegate t x) (hq_view n s1) = Some q"
      "s' = hq_goto t (if qd_pc q t = QdIdle then HqIdle else HqBase n)
            (s1\<lparr>hq_world := qd_world q, hq_qdlocks := (hq_qdlocks s1)(n := q)\<rparr>)"
      using hq_baseE [OF b] by auto
    have p: "qd_pc q t = DlBarrier x" using q(1) by (auto simp: qd_goto_def split: if_splits)
    show ?thesis
      by (rule hq_base_inv [OF inv C _ _ _ _ _ b])
        (use pc p q(2) in \<open>auto simp: s1 hq_holds_def hq_goto_def hq_top_def qd_goto_def split: if_splits\<close>)
  qed
qed

lemma hq_hierarchy_sync_inv:
  assumes inv: "hq_inv C s" and C: "cf_ok (hq_base_config C)" and pc: "hq_pc s t = HqBase n"
    and st: "hq_hierarchy_sync t n s = Some s'"
  shows "hq_inv C s'"
proof -
  have ok: "hq_node_pc s t m \<noteq> QdIdle \<Longrightarrow> m = n" for m
    using hq_invD(1) [OF inv, of t] pc by (auto simp: hq_pc_ok_def)
  show ?thesis
  proof (cases "hq_node_pc s t n")
    case (HdGot h)
    then have s': "s' = hq_goto t (HqGlobal n) s" using st by (simp add: hq_hierarchy_sync_def)
    show ?thesis
      by (rule hq_outer_inv [OF inv C s']) (use pc HdGot ok s' in \<open>auto simp: hq_pc_ok_def hq_top_def hq_holds_def hq_goto_def\<close>)
  next
    case HdUnlock
    then have s': "s' = hq_goto t (HqGlobalUnlock n) s" using st by (simp add: hq_hierarchy_sync_def)
    show ?thesis
      by (rule hq_outer_inv [OF inv C s'])
        (use pc HdUnlock ok s' hq_invD(2) [OF inv] in \<open>auto simp: hq_pc_ok_def hq_top_def hq_holds_def hq_goto_def owner_rel_def\<close>)
  qed (use st in \<open>simp_all add: hq_hierarchy_sync_def\<close>)
qed

lemma hq_global_sync_inv:
  assumes inv: "hq_inv C s" and C: "cf_ok (hq_base_config C)" and st: "hq_global_sync C t s = Some s'"
  shows "hq_inv C s'"
proof (cases "hq_pc s t")
  note ok = hq_invD(1) [OF inv, of t]
  {
    case (HqGlobal n)
    then have "hq_global s = None" "s' = hq_goto t (HqGot n) (s\<lparr>hq_global := Some t\<rparr>)"
      using st by (auto simp: hq_global_sync_def split: if_splits)
    then show ?thesis using ok HqGlobal
      by (intro hq_outer_inv [OF inv C, of s' t "HqGot n" "s\<lparr>hq_global := Some t\<rparr>"])
        (auto simp: hq_pc_ok_def hq_top_def hq_holds_def hq_goto_def)
  next
    case (HqGot n)
    then have b: "hq_base C n (QdDo t) s = Some s'" using st by (simp add: hq_global_sync_def)
    obtain h where h: "hq_node_pc s t n = HdGot h" using ok HqGot by (auto simp: hq_pc_ok_def)
    obtain q where q: "qd_step (hq_base_config C) (QdDo t) (hq_view n s) = Some q"
      "s' = hq_goto t (if qd_pc q t = QdIdle then HqIdle else HqBase n)
            (s\<lparr>hq_world := qd_world q, hq_qdlocks := (hq_qdlocks s)(n := q)\<rparr>)"
      using hq_baseE [OF b] by auto
    have p: "qd_pc q t = HdWait h 0 \<or> (\<exists>x. qd_pc q t = HdOpen x)"
      using q(1) h by (cases h) (auto simp: qd_delegate_def qd_holder_def qd_goto_def)
    have g: "hq_global s = Some t" using owner_rel_SomeD [OF hq_invD(2) [OF inv], of t] HqGot by (simp add: hq_holds_def)
    show ?thesis
      by (rule hq_base_inv [OF inv C _ _ _ _ _ b])
        (use HqGot p q g in \<open>auto simp: hq_holds_def hq_goto_def\<close>)
  next
    case (HqGlobalUnlock n)
    let ?s1 = "s\<lparr>hq_global := None\<rparr>"
    have b: "hq_base C n (QdDo t) ?s1 = Some s'" using st HqGlobalUnlock by (simp add: hq_global_sync_def)
    have h: "hq_node_pc s t n = HdUnlock" using ok HqGlobalUnlock by (auto simp: hq_pc_ok_def)
    have v: "hq_view n ?s1 = hq_view n s" by (simp add: hq_view_def)
    obtain q where q: "qd_step (hq_base_config C) (QdDo t) (hq_view n s) = Some q"
      "s' = hq_goto t (if qd_pc q t = QdIdle then HqIdle else HqBase n)
            (?s1\<lparr>hq_world := qd_world q, hq_qdlocks := (hq_qdlocks ?s1)(n := q)\<rparr>)"
      using hq_baseE [OF b] unfolding v by auto
    have p: "qd_pc q t = HdRelease" using q(1) h by (auto simp: qd_delegate_def qd_holder_def qd_goto_def)
    show ?thesis
      by (rule hq_base_inv [OF inv C _ _ _ _ _ b])
        (use HqGlobalUnlock p q in \<open>auto simp: hq_holds_def hq_goto_def\<close>)
  }
qed (use st in \<open>simp_all add: hq_global_sync_def\<close>)

lemma hq_lock_call_inv:
  assumes inv: "hq_inv C s" and C: "cf_ok (hq_base_config C)" and st: "hq_lock_call C t cpu s = Some s'"
  shows "hq_inv C s'"
proof (cases "s' = s")
  case False
  have pc: "hq_pc s t = HqBarrier" using st by (auto simp: hq_lock_call_def split: hq_pc.splits)
  obtain i s1 where g: "hq_get_qd C t cpu s = (i, s1)" by (cases "hq_get_qd C t cpu s")
  then obtain f where s1: "s1 = s\<lparr>hq_node_id := f\<rparr>" by (rule hq_get_qdE)
  have idle: "hq_node_pc s t m = QdIdle" for m using hq_idle [OF inv, of t m] pc by simp
  show ?thesis
  proof (cases i)
    case None
    then have s': "s' = hq_goto t HqUndef s1" using st g pc False by (auto simp: hq_lock_call_def split: if_splits)
    show ?thesis
      by (rule hq_outer_inv [OF inv C s']) (use pc s' idle in \<open>auto simp: s1 hq_pc_ok_def hq_top_def hq_holds_def hq_goto_def\<close>)
  next
    case (Some n)
    then have s': "s' = hq_goto t (HqBase n) (s1\<lparr>hq_qdlocks := (hq_qdlocks s1)(n := qd_goto t UlLock (hq_qdlocks s1 n))\<rparr>)"
      using st g pc False by (auto simp: hq_lock_call_def split: if_splits)
    show ?thesis
      by (rule hq_outer_inv [OF inv C s'])
        (use pc s' idle in \<open>auto simp: s1 hq_pc_ok_def hq_top_def hq_holds_def hq_goto_def qd_goto_def\<close>)
  qed
qed (use inv in simp)

lemma hq_unlock_inv:
  assumes inv: "hq_inv C s" and C: "cf_ok (hq_base_config C)" and st: "hq_unlock C t cpu s = Some s'"
  shows "hq_inv C s'"
proof (cases "hq_pc s t")
  note ok = hq_invD(1) [OF inv, of t]
  {
    case (HqUserUnlock n)
    then have s': "s' = hq_goto t (HqGetQd n) (s\<lparr>hq_global := None\<rparr>)" using st by (simp add: hq_unlock_def)
    show ?thesis
      by (rule hq_outer_inv [OF inv C s'])
        (use HqUserUnlock ok s' in \<open>auto simp: hq_pc_ok_def hq_top_def hq_holds_def hq_goto_def\<close>)
  next
    case (HqGetQd n)
    obtain i s1 where g: "hq_get_qd C t cpu s = (i, s1)" by (cases "hq_get_qd C t cpu s")
    then obtain f where s1: "s1 = s\<lparr>hq_node_id := f\<rparr>" by (rule hq_get_qdE)
    have idle: "hq_node_pc s t k \<noteq> QdIdle \<Longrightarrow> k = n" for k using ok HqGetQd by (auto simp: hq_pc_ok_def)
    show ?thesis
    proof (cases "i = Some n")
      case False
      then consider (undef) "s' = hq_goto t HqUndef s1" | (other) m where "m \<noteq> n" "s' = hq_unlock_other t n m s1"
        using st g HqGetQd by (auto simp: hq_unlock_def split: option.splits node_mutex_t.splits if_splits)
      then show ?thesis
      proof cases
        case undef
        show ?thesis
          by (rule hq_outer_inv [OF inv C undef])
            (use HqGetQd undef ok in \<open>auto simp: s1 hq_pc_ok_def hq_top_def hq_holds_def hq_goto_def\<close>)
      next
        case other
        show ?thesis
          by (rule hq_outer_inv [OF inv C other(2) [unfolded hq_unlock_other_def]])
            (use HqGetQd other idle in \<open>auto simp: s1 hq_unlock_other_def hq_pc_ok_def hq_top_def hq_holds_def hq_goto_def qd_goto_def\<close>)
      qed
    next
      case True
      then have b: "hq_base C n (QdUnlock t) s1 = Some s'" using st g HqGetQd by (simp add: hq_unlock_def)
      obtain q where q: "qd_step (hq_base_config C) (QdUnlock t) (hq_view n s1) = Some q"
        "s' = hq_goto t (if qd_pc q t = QdIdle then HqIdle else HqBase n)
              (s1\<lparr>hq_world := qd_world q, hq_qdlocks := (hq_qdlocks s1)(n := q)\<rparr>)"
        using hq_baseE [OF b] by auto
      have p: "qd_pc q t = HdRelease" using q(1) by (auto simp: qd_goto_def split: if_splits)
      have v: "hq_view n s1 = hq_view n s" by (simp add: s1 hq_view_def)
      have al: "pc_allows g (qd_pc q t)" for g using p by simp
      show ?thesis
        by (rule hq_base_inv [OF inv C _ _ _ _ _ b])
          (use HqGetQd p q v al in \<open>auto simp: s1 hq_holds_def hq_goto_def\<close>)
    qed
  }
qed (use st in \<open>simp_all add: hq_unlock_def\<close>)

text \<open>Readers.\<close>

lemma hq_reader_inv:
  assumes inv: "hq_inv C s" and s': "s' = hq_goto t p s1" and s1: "hq_pc s1 = hq_pc s" "hq_qdlocks s1 = hq_qdlocks s"
      "hq_global s1 = hq_global s"
    and old: "(\<exists>q. hq_pc s t = HqRead q) \<or> hq_pc s t = HqIdle"
    and p: "p = HqIdle \<or> (\<exists>q. p = HqRead q \<and> pc_reader q \<and> cf_readers (hq_base_config C))"
    and mv: "rd_move (hq_base_config C) t (qd_pc (hq_top s') t) (hq_top s) (hq_top s')"
    and rd: "pc_reading (qd_pc (hq_top s') t) \<Longrightarrow> pc_reading (qd_pc (hq_top s) t) \<or> hq_may_see False s"
  shows "hq_inv C s'"
proof -
  note D = hq_invD [OF inv]
  have fr: "hq_frame t s s'" using s1 by (auto simp: hq_frame_def s' hq_goto_def)
  have pc: "hq_pc s' t = p" "hq_node_pc s' t = hq_node_pc s t" by (simp_all add: s' hq_goto_def s1)
  have ok: "hq_pc_ok (hq_pc s' t) (hq_node_pc s' t)"
    using D(1) [of t] old p by (auto simp: pc hq_pc_ok_def)
  have out: "\<not> hq_holds t s" "\<not> hq_holds t s'" using old p by (auto simp: hq_holds_def pc)
  have allow: "pc_allows g (qd_pc (hq_top s) u)" if see: "hq_may_see False s" for g u
  proof (rule ccontr)
    assume no: "\<not> pc_allows g (qd_pc (hq_top s) u)"
    then obtain n where n: "hq_pc s u = HqBase n"
      using D(1) [of u] by (cases "hq_pc s u"; cases "qd_pc (hq_top s) u") (auto simp: hq_top_def hq_pc_ok_def)
    moreover have "pc_crit (hq_node_pc s u n)" using no n by (cases "hq_node_pc s u n") (auto simp: hq_top_def)
    ultimately have "hq_global s = Some u" using owner_rel_SomeD [OF D(2), of u] by (simp add: hq_holds_def)
    then show False using see n by (simp add: hq_may_see_def)
  qed
  have rd: "rd_inv (hq_base_config C) (hq_top s')"
  proof (rule rd_inv_move [OF D(3) mv])
    show "cf_readers (hq_base_config C)" if "pc_reader (qd_pc (hq_top s') t)" using that p by (auto simp: hq_top_def pc)
    show "pc_allows g (qd_pc (hq_top s') t)" for g
      using p by (cases "qd_pc (hq_top s') t") (auto simp: hq_top_def pc)
    show "pc_reading (qd_pc (hq_top s') t) \<Longrightarrow> pc_reading (qd_pc (hq_top s) t) \<or> (\<forall>u g. pc_allows g (qd_pc (hq_top s) u))"
      using rd allow by blast
  qed
  show ?thesis by (rule hq_inv_move [OF inv fr ok _ _ rd]) (use out in \<open>simp_all add: s' hq_goto_def s1\<close>)
qed

lemma hq_reads:
  assumes "hq_inv C s" and "hq_pc s t = HqRead p"
  shows "pc_reader p" "cf_readers (hq_base_config C)"
proof -
  show p: "pc_reader p" using hq_invD(1) [OF assms(1), of t] assms(2) by (simp add: hq_pc_ok_def)
  have "qd_pc (hq_top s) t = p" using assms(2) by (simp add: hq_top_def)
  then show "cf_readers (hq_base_config C)" using rd_invD(5) [OF hq_invD(3) [OF assms(1)], of t] p by simp
qed

lemma hq_top_simps:
  "qd_pc (hq_top (hq_goto t p s)) = (qd_pc (hq_top s))(t := case p of HqBase n \<Rightarrow> hq_node_pc s t n | HqRead q \<Rightarrow> q | _ \<Rightarrow> QdIdle)"
  "qd_readers (hq_top s) = hq_readers s" "qd_barrier (hq_top s) = hq_barrier s"
  "hq_readers (hq_goto t p s) = hq_readers s" "hq_barrier (hq_goto t p s) = hq_barrier s"
  "qd_pc (hq_top (s\<lparr>hq_readers := r\<rparr>)) = qd_pc (hq_top s)" "qd_pc (hq_top (s\<lparr>hq_barrier := i\<rparr>)) = qd_pc (hq_top s)"
  by (auto simp: hq_top_def hq_goto_def fun_eq_iff split: hq_pc.splits)

lemma hq_rlock_inv:
  assumes inv: "hq_inv C s" and st: "hq_rlock C t s = Some s'"
  shows "hq_inv C s'"
proof -
  obtain p where pc: "hq_pc s t = HqRead p" using st by (auto simp: hq_rlock_def Let_def split: hq_pc.splits)
  note R = hq_reads [OF inv pc]
  have top: "qd_pc (hq_top s) t = p" using pc by (simp add: hq_top_def)
  show ?thesis
  proof (cases p)
    case (RdArrive b k)
    then have s': "s' = hq_goto t (HqRead (RdTest b k)) (s\<lparr>hq_readers := rg_arrive (cf_groups (hq_base_config C)) t (hq_readers s)\<rparr>)"
      using st pc by (simp add: hq_rlock_def Let_def)
    show ?thesis
      by (rule hq_reader_inv [OF inv s']) (use pc R top s' RdArrive in \<open>auto simp: rd_move_def hq_top_simps\<close>)
  next
    case (RdDepart b k)
    then have s': "s' = hq_goto t (HqRead (RdSpin b k)) (s\<lparr>hq_readers := rg_depart (cf_groups (hq_base_config C)) t (hq_readers s)\<rparr>)"
      using st pc by (simp add: hq_rlock_def Let_def)
    show ?thesis
      by (rule hq_reader_inv [OF inv s']) (use pc R top s' RdDepart in \<open>auto simp: rd_move_def hq_top_simps\<close>)
  next
    case (RdRaise k)
    then have s': "s' = hq_goto t (HqRead (RdSpin True (k + 1))) (s\<lparr>hq_barrier := hq_barrier s + 1\<rparr>)"
      using st pc by (simp add: hq_rlock_def Let_def)
    show ?thesis
      by (rule hq_reader_inv [OF inv s']) (use pc R top s' RdRaise in \<open>auto simp: rd_move_def hq_top_simps\<close>)
  next
    case RdLower
    then have s': "s' = hq_goto t (HqRead RdCrit) (s\<lparr>hq_barrier := hq_barrier s - 1\<rparr>)"
      using st pc by (simp add: hq_rlock_def Let_def)
    show ?thesis
      by (rule hq_reader_inv [OF inv s']) (use pc R top s' RdLower in \<open>auto simp: rd_move_def hq_top_simps\<close>)
  qed (use st pc in \<open>simp_all add: hq_rlock_def Let_def\<close>)
qed

lemma hq_see_inv:
  assumes inv: "hq_inv C s" and st: "hq_see C t b s = Some s'"
  shows "hq_inv C s'"
proof -
  have see: "hq_may_see b s" using st by (auto simp: hq_see_def split: if_splits)
  obtain p where pc: "hq_pc s t = HqRead p" using st by (auto simp: hq_see_def split: if_splits hq_pc.splits)
  note R = hq_reads [OF inv pc]
  have top: "qd_pc (hq_top s) t = p" using pc by (simp add: hq_top_def)
  define p' where "p' = (case p of
      RdTest c k \<Rightarrow> if b then RdDepart c k else if c then RdLower else RdCrit
    | RdSpin c k \<Rightarrow> if \<not> b then RdArrive c k
                  else if k = cf_patience (hq_base_config C) \<and> \<not> c then RdRaise k else RdSpin c (k + 1)
    | _ \<Rightarrow> p)"
  have s': "s' = hq_goto t (HqRead p') s" and p': "pc_reader p'" "pc_reading p' \<Longrightarrow> \<not> b"
      "pc_arrived p' = pc_arrived p" "pc_raised p' = pc_raised p"
    using st see pc by (cases p; auto simp: hq_see_def p'_def split: if_splits)+
  show ?thesis
    by (rule hq_reader_inv [OF inv s'])
      (use pc R top s' p' see in \<open>auto simp: rd_move_def hq_top_simps\<close>)
qed

lemma hq_node_inv:
  assumes inv: "hq_inv C s" and C: "cf_ok (hq_base_config C)" and st: "hq_step C (HqNode l) s = Some s'"
  shows "hq_inv C s'"
proof -
  let ?t = "qd_thread l"
  obtain n where pc: "hq_pc s ?t = HqBase n" and i: "hq_inner l (hq_node_pc s ?t n)" and b: "hq_base C n l s = Some s'"
    using st by (auto split: hq_pc.splits if_splits)
  obtain q where q: "qd_step (hq_base_config C) l (hq_view n s) = Some q"
    "s' = hq_goto ?t (if qd_pc q ?t = QdIdle then HqIdle else HqBase n)
            (s\<lparr>hq_world := qd_world q, hq_qdlocks := (hq_qdlocks s)(n := q)\<rparr>)"
    using hq_baseE [OF b] by auto
  have crit: "pc_crit (qd_pc q ?t) = pc_crit (hq_node_pc s ?t n)" using qd_crit_inner [OF q(1)] i by simp
  have l: "l \<noteq> QdRLock u" for u using i by (auto simp: hq_inner_def)
  have "hq_global s = Some ?t \<longleftrightarrow> pc_crit (hq_node_pc s ?t n)"
    using hq_invD(2) [OF inv, unfolded owner_rel_def, rule_format, of ?t] pc by (simp add: hq_holds_def)
  moreover have "hq_holds ?t s' = pc_crit (hq_node_pc s ?t n)" "hq_holds ?t s = pc_crit (hq_node_pc s ?t n)" "hq_global s' = hq_global s"
    using crit pc q(2) by (auto simp: hq_holds_def hq_goto_def)
  ultimately show ?thesis
    by (intro hq_base_inv [OF inv C _ _ _ _ _ b _ l]) (use pc in \<open>auto simp: hq_top_def\<close>)
qed

lemma hq_inv_step:
  assumes C: "cf_ok (hq_base_config C)" and inv: "hq_inv C s" and st: "hq_step C l s = Some s'"
  shows "hq_inv C s'"
proof (cases l)
  case (HqDelegate t cpu x)
  then show ?thesis using st hq_delegate_inv [OF inv C] by simp
next
  case (HqLock t)
  then have pc: "hq_pc s t = HqIdle" and s': "s' = hq_goto t HqBarrier s" using st by (auto split: if_splits)
  show ?thesis
    by (rule hq_outer_inv [OF inv C s'])
      (use pc s' hq_idle [OF inv, of t] in \<open>auto simp: hq_pc_ok_def hq_top_def hq_holds_def hq_goto_def\<close>)
next
  case (HqUnlock t)
  then obtain n where pc: "hq_pc s t = HqBase n" "hq_node_pc s t n = HdRun UserLock" and s': "s' = hq_goto t (HqUserUnlock n) s"
    using st by (auto split: hq_pc.splits if_splits)
  have idle: "hq_node_pc s t m \<noteq> QdIdle \<Longrightarrow> m = n" for m using hq_invD(1) [OF inv, of t] pc(1) by (auto simp: hq_pc_ok_def)
  have "hq_global s = Some t" using owner_rel_SomeD [OF hq_invD(2) [OF inv], of t] pc by (simp add: hq_holds_def)
  then show ?thesis
    by (intro hq_outer_inv [OF inv C s'])
      (use pc s' in \<open>auto simp: hq_pc_ok_def hq_top_def hq_holds_def hq_goto_def dest: idle\<close>)
next
  case (HqRLock t)
  then have pc: "hq_pc s t = HqIdle" "cf_readers (hq_base_config C)" and s': "s' = hq_goto t (HqRead (RdArrive False 0)) s"
    using st by (auto split: if_splits)
  have "qd_pc (hq_top s) t = QdIdle" using pc by (simp add: hq_top_def)
  then show ?thesis
    by (intro hq_reader_inv [OF inv s']) (use pc s' in \<open>auto simp: rd_move_def hq_top_simps\<close>)
next
  case (HqRUnlock t)
  then have pc: "hq_pc s t = HqRead RdCrit" and s': "s' = hq_goto t HqIdle (s\<lparr>hq_readers := rg_depart (cf_groups (hq_base_config C)) t (hq_readers s)\<rparr>)"
    using st by (auto simp: hq_runlock_def split: if_splits)
  have "qd_pc (hq_top s) t = RdCrit" using pc by (simp add: hq_top_def)
  then show ?thesis
    by (intro hq_reader_inv [OF inv s']) (use pc s' in \<open>auto simp: rd_move_def hq_top_simps\<close>)
next
  case (HqNode k)
  then show ?thesis using st hq_node_inv [OF inv C] by blast
next
  case (HqSync t)
  then show ?thesis using st hq_hierarchy_sync_inv [OF inv C] by (auto split: hq_pc.splits)
next
  case (HqDo t cpu)
  then show ?thesis
    using st hq_global_sync_inv [OF inv C] hq_lock_call_inv [OF inv C] hq_unlock_inv [OF inv C] hq_rlock_inv [OF inv]
    by (auto split: option.splits)
next
  case (HqSee t b)
  then show ?thesis using st hq_see_inv [OF inv] by simp
qed

lemma hq_inv_init:
  fixes C :: "('e, 'w) hq_config"
  shows "hq_inv C (hq_init w)"
proof -
  have "hq_top (hq_init w :: ('e, 'w) hq_lock) = qd_init w" by (simp add: hq_top_def hq_init_def qd_init_def)
  then have "rd_inv (hq_base_config C) (hq_top (hq_init w))" by (simp add: rd_inv_init)
  then show ?thesis
    by (simp add: hq_inv_def) (simp add: hq_init_def qd_init_def hq_pc_ok_def owner_rel_def hq_holds_def)
qed

lemma hq_invariant: "cf_ok (hq_base_config C) \<Longrightarrow> invariant_system (hq_step C) (hq_init w) (hq_inv C)"
  by unfold_locales (auto intro: hq_inv_init hq_inv_step)

end
