(* ===== verification/HQD_Delegation.thy ===== *)
theory HQD_Delegation
  imports HQD_Lock
begin

text \<open>
  What the hierarchical locks of HQD_Lock promise: they delegate like one queue delegation lock, and
  their critical sections exclude each other and the readers.
\<close>

section \<open>Every node delegates\<close>

text \<open>The events of a step, with the node at which they happen.\<close>

definition hq_events :: "('e, 'w) hq_config \<Rightarrow> ('e, 'w) hq_lock \<Rightarrow> 'e hq_label \<Rightarrow> (nat \<times> 'e ds_event) list" where
  "hq_events C s l =
     (case l of
        HqDelegate t cpu x \<Rightarrow> (case fst (hq_get_qd C t cpu s) of None \<Rightarrow> [] | Some n \<Rightarrow> [(n, DsCall t x)])
      | HqNode k \<Rightarrow> (case hq_pc s (qd_thread k) of HqBase n \<Rightarrow> map (Pair n) (qd_events (hq_qdlocks s n) k) | _ \<Rightarrow> [])
      | _ \<Rightarrow> [])"

definition at_node :: "nat \<Rightarrow> (nat \<times> 'e ds_event) list \<Rightarrow> 'e ds_event list" where
  "at_node n es = map snd (filter (\<lambda>e. fst e = n) es)"

lemma at_node_simps [simp]:
  "at_node n [] = []" "at_node n (e # es) = (if fst e = n then snd e # at_node n es else at_node n es)"
  "at_node n (es @ fs) = at_node n es @ at_node n fs"
  "at_node n (map (Pair m) as) = (if m = n then as else [])"
  by (auto simp: at_node_def filter_map comp_def)

text \<open>What the program counter of a thread at a node says of the thread.\<close>

lemma hq_only_node:
  assumes inv: "hq_inv C s" and pc: "hq_node_pc s t n \<noteq> QdIdle" "hq_node_pc s t n \<noteq> HdRun UserLock"
  shows "hq_where (hq_pc s t) = Some n" "hq_pc s t \<noteq> HqUndef" "m \<noteq> n \<Longrightarrow> hq_node_pc s t m = QdIdle"
proof -
  note ok = hq_invD(1) [OF inv, of t]
  show u: "hq_pc s t \<noteq> HqUndef" using ok pc by (auto simp: hq_pc_ok_def)
  then show w: "hq_where (hq_pc s t) = Some n" using ok pc by (auto simp: hq_pc_ok_def)
  then show "m \<noteq> n \<Longrightarrow> hq_node_pc s t m = QdIdle"
    using ok u by (cases "hq_node_pc s t m = QdIdle") (auto simp: hq_pc_ok_def)
qed

lemma hq_in_base:
  assumes inv: "hq_inv C s" and pc: "hq_node_pc s t n \<notin> {QdIdle, HdUnlock, HdRun UserLock}" "\<nexists>h. hq_node_pc s t n = HdGot h"
  shows "hq_pc s t = HqBase n"
  using hq_only_node(1) [OF inv, of t n] hq_invD(1) [OF inv, of t] pc
  by (cases "hq_pc s t") (auto simp: hq_pc_ok_def)

text \<open>
  The queue of a node, with a history of its own of the data, is related to the abstract object. Who owns
  the lock of the node does not matter for this: a thread is alone with the queue by the global lock.
\<close>

definition hq_node_rel :: "nat \<Rightarrow> ('e, 'w) hq_lock \<Rightarrow> ('e, 'w) delegation \<Rightarrow> bool" where
  "hq_node_rel n s d \<longleftrightarrow> qd_tracks ((hq_qdlocks s n)\<lparr>qd_world := ds_world d\<rparr>) d"

lemma qd_tracks_cong:
  assumes "qd_tracks s d" and "qd_queue s' = qd_queue s" "qd_world s' = qd_world s" "qd_pc s' = qd_pc s"
  shows "qd_tracks s' d"
  using assms unfolding qd_tracks_def by simp

lemma hq_alone:
  assumes inv: "hq_inv C s"
  shows "qd_alone t (hq_qdlocks s n)"
proof -
  have g: "hq_global s = Some u" if "pc_excludes (hq_node_pc s u n) \<or> pc_queue_used (hq_node_pc s u n)" for u
  proof -
    have crit: "pc_crit (hq_node_pc s u n)" and no: "hq_node_pc s u n \<notin> {QdIdle, HdUnlock, HdRun UserLock}" "\<nexists>h. hq_node_pc s u n = HdGot h"
      using that by (cases "hq_node_pc s u n"; auto)+
    from hq_in_base [OF inv no] show ?thesis
      using owner_rel_SomeD [OF hq_invD(2) [OF inv], of u] crit by (simp add: hq_holds_def)
  qed
  show ?thesis
    unfolding qd_alone_def
  proof (intro impI allI)
    fix u
    assume "pc_excludes (hq_node_pc s t n)" and "pc_queue_used (hq_node_pc s u n)"
    then have "hq_global s = Some t" "hq_global s = Some u" using g by blast+
    then show "u = t" by simp
  qed
qed

lemma hq_node_rel_same:
  "hq_node_rel n s d \<Longrightarrow> hq_qdlocks s' n = hq_qdlocks s n \<Longrightarrow> hq_node_rel n s' d"
  by (simp add: hq_node_rel_def)

lemma hq_goto_simps [simp]:
  "hq_qdlocks (hq_goto t p s) = hq_qdlocks s" "hq_world (hq_goto t p s) = hq_world s"
  "hq_global (hq_goto t p s) = hq_global s" "hq_node_id (hq_goto t p s) = hq_node_id s"
  by (simp_all add: hq_goto_def)

lemma hq_base_fieldsE:
  assumes "hq_base C n l s = Some s'"
  obtains q where "qd_step (hq_base_config C) l (hq_view n s) = Some q" "hq_world s' = qd_world q"
    "hq_qdlocks s' = (hq_qdlocks s)(n := q)"
  by (rule hq_baseE [OF assms], rule that) simp_all

lemma hq_base_sim:
  assumes inv: "hq_inv C s" and rel: "hq_node_rel n s d" and st: "hq_base C m l s1 = Some s'" and s1: "hq_qdlocks s1 = hq_qdlocks s"
  shows "\<exists>d'. run (ds_step (cf_exec (hq_base_config C))) (if m = n then qd_events (hq_qdlocks s n) l else []) d = Some d' \<and>
     hq_node_rel n s' d'"
proof -
  let ?C = "hq_base_config C"
  obtain q where q: "qd_step ?C l (hq_view m s1) = Some q" and s': "hq_qdlocks s' = (hq_qdlocks s)(m := q)"
    using st by (rule hq_base_fieldsE) (simp add: s1)
  show ?thesis
  proof (cases "m = n")
    case False
    then show ?thesis using hq_node_rel_same [OF rel, of s'] s' by simp
  next
    case True
    let ?w = "fold (cf_exec ?C) (ds_order (qd_events (hq_view n s1) l)) (ds_world d)"
    have ev: "qd_events (hq_view n s1) l = qd_events (hq_qdlocks s n) l"
      by (cases "(hq_view n s1, l)" rule: qd_events.cases) (auto simp: s1)
    have st': "qd_step ?C l ((hq_view n s1)\<lparr>qd_world := ds_world d\<rparr>) = Some (q\<lparr>qd_world := ?w\<rparr>)"
      using qd_step_indep [OF q] True by (simp add: qd_indep_def)
    have t: "qd_tracks ((hq_view n s1)\<lparr>qd_world := ds_world d\<rparr>) d"
      by (rule qd_tracks_cong [OF rel [unfolded hq_node_rel_def]]) (simp_all add: s1)
    have al: "qd_alone (qd_thread l) ((hq_view n s1)\<lparr>qd_world := ds_world d\<rparr>)"
      using hq_alone [OF inv, of "qd_thread l" n] by (simp add: qd_alone_def s1)
    from qd_tracks_step [OF t al st'] obtain d' where
      d': "run (ds_step (cf_exec ?C)) (qd_events (hq_qdlocks s n) l) d = Some d'" "qd_tracks (q\<lparr>qd_world := ?w\<rparr>) d'"
      by (auto simp: ev)
    have "ds_world d' = ?w" using qd_tracksD(1) [OF d'(2)] by simp
    then have "hq_node_rel n s' d'" using d'(2) s' True by (simp add: hq_node_rel_def)
    then show ?thesis using d'(1) True by auto
  qed
qed

text \<open>The call of \<open>lock\<close> brings a thread into the code of a node without an event.\<close>

lemma hq_node_rel_lock:
  assumes rel: "hq_node_rel n s d" and idle: "hq_node_pc s t m = QdIdle"
    and s': "hq_qdlocks s' = (hq_qdlocks s)(m := qd_goto t UlLock (hq_qdlocks s m))"
  shows "hq_node_rel n s' d"
proof (cases "m = n")
  case True
  have g: "qd_tracks (qd_goto t UlLock ((hq_qdlocks s n)\<lparr>qd_world := ds_world d\<rparr>)) d"
    by (rule qd_tracks_goto [OF rel [unfolded hq_node_rel_def]]) (use idle True in simp_all)
  show ?thesis unfolding hq_node_rel_def
    by (rule qd_tracks_cong [OF g]) (use s' True in \<open>simp_all add: qd_goto_def\<close>)
qed (use hq_node_rel_same [OF rel, of s'] s' in simp)

text \<open>A thread that unlocks the lock of another node leaves the code of its own, and the queues stay as they are.\<close>

lemma hq_node_rel_other:
  assumes rel: "hq_node_rel k s d" and pc: "hq_node_pc s t n = HdRun UserLock" and m: "m \<noteq> n"
    and s': "hq_qdlocks s' = (hq_qdlocks s)(n := qd_goto t QdIdle (hq_qdlocks s n), m := (hq_qdlocks s m)\<lparr>qd_owner := None\<rparr>)"
  shows "hq_node_rel k s' d"
proof (cases "k = n")
  case True
  have g: "qd_tracks (qd_goto t QdIdle ((hq_qdlocks s n)\<lparr>qd_world := ds_world d\<rparr>)) d"
    by (rule qd_tracks_goto) (use rel pc True in \<open>simp_all add: hq_node_rel_def\<close>)
  show ?thesis unfolding hq_node_rel_def
    by (rule qd_tracks_cong [OF g]) (use s' True m in \<open>simp_all add: qd_goto_def\<close>)
next
  case False
  show ?thesis unfolding hq_node_rel_def
    by (rule qd_tracks_cong [OF rel [unfolded hq_node_rel_def]]) (use s' False in \<open>cases "k = m"; simp\<close>)+
qed

text \<open>The other steps change no lock of a node and no data.\<close>

lemma hq_get_qd_same:
  assumes "hq_get_qd C t cpu s = (i, s1)"
  shows "hq_qdlocks s1 = hq_qdlocks s" "hq_world s1 = hq_world s" "hq_pc s1 = hq_pc s" "hq_global s1 = hq_global s"
  by (rule hq_get_qdE [OF assms], simp)+

lemma hq_base_world:
  assumes "hq_base C n l s = Some s'"
  shows "hq_world s' = fold (cf_exec (hq_base_config C)) (ds_order (qd_events (hq_qdlocks s n) l)) (hq_world s)"
proof -
  obtain q where q: "qd_step (hq_base_config C) l (hq_view n s) = Some q" and s': "hq_world s' = qd_world q"
    using assms by (rule hq_base_fieldsE)
  have "qd_events (hq_view n s) l = qd_events (hq_qdlocks s n) l"
    by (cases "(hq_view n s, l)" rule: qd_events.cases) auto
  then show ?thesis using qd_step_indep [OF q] s' by (simp add: qd_indep_def)
qed

text \<open>The steps by kind: in the code of a node, the call of \<open>lock\<close>, the \<open>unlock\<close> of another node, or none of them.\<close>

lemma hq_step_kinds:
  assumes inv: "hq_inv C s" and st: "hq_step C l s = Some s'"
  obtains (node) n k s1 where "hq_base C n k s1 = Some s'" "hq_qdlocks s1 = hq_qdlocks s" "hq_world s1 = hq_world s"
      "hq_events C s l = map (Pair n) (qd_events (hq_qdlocks s n) k)"
      "hq_where (hq_pc s (qd_thread k)) = Some n \<or> hq_where (hq_pc s (qd_thread k)) = None"
    | (enter) n t where "hq_qdlocks s' = (hq_qdlocks s)(n := qd_goto t UlLock (hq_qdlocks s n))" "hq_world s' = hq_world s"
      "hq_node_pc s t n = QdIdle" "hq_events C s l = []"
    | (other) n m t where
      "hq_qdlocks s' = (hq_qdlocks s)(n := qd_goto t QdIdle (hq_qdlocks s n), m := (hq_qdlocks s m)\<lparr>qd_owner := None\<rparr>)"
      "hq_world s' = hq_world s" "hq_node_pc s t n = HdRun UserLock" "m \<noteq> n" "hq_mutex C = flag_mutex" "hq_events C s l = []"
    | (outside) "hq_qdlocks s' = hq_qdlocks s" "hq_world s' = hq_world s" "hq_events C s l = []"
proof (cases l)
  case (HqDelegate t cpu x)
  obtain i s1 where g: "hq_get_qd C t cpu s = (i, s1)" by (cases "hq_get_qd C t cpu s")
  then show ?thesis using st HqDelegate hq_get_qd_same [OF g]
    by (cases i) (auto simp: hq_delegate_def hq_events_def split: if_splits intro: node outside)
next
  case (HqNode k)
  then obtain n where n: "hq_pc s (qd_thread k) = HqBase n" "hq_base C n k s = Some s'"
    using st by (auto split: hq_pc.splits if_splits)
  show ?thesis by (rule node [OF n(2)]) (use n HqNode in \<open>simp_all add: hq_events_def\<close>)
next
  case (HqSync t)
  then show ?thesis using st
    by (intro outside) (auto simp: hq_hierarchy_sync_def hq_events_def split: hq_pc.splits qd_pc.splits)
next
  case (HqDo t cpu)
  have ev: "hq_events C s l = []" by (simp add: hq_events_def HqDo)
  consider "hq_global_sync C t s = Some s'" | "hq_lock_call C t cpu s = Some s'" | "hq_unlock C t cpu s = Some s'"
    | "hq_rlock C t s = Some s'"
    using st HqDo by (auto split: option.splits)
  then show ?thesis
  proof cases
    case 1
    show ?thesis
    proof (cases "hq_pc s t")
      case (HqGlobal n)
      then show ?thesis using 1 ev by (intro outside) (auto simp: hq_global_sync_def split: if_splits)
    next
      case (HqGot n)
      then obtain h where h: "hq_node_pc s t n = HdGot h" using hq_invD(1) [OF inv, of t] by (auto simp: hq_pc_ok_def)
      have b: "hq_base C n (QdDo t) s = Some s'" using 1 HqGot by (simp add: hq_global_sync_def)
      show ?thesis by (rule node [OF b]) (use ev h HqGot in simp_all)
    next
      case (HqGlobalUnlock n)
      then have h: "hq_node_pc s t n = HdUnlock" using hq_invD(1) [OF inv, of t] by (auto simp: hq_pc_ok_def)
      have b: "hq_base C n (QdDo t) (s\<lparr>hq_global := None\<rparr>) = Some s'" using 1 HqGlobalUnlock by (simp add: hq_global_sync_def)
      show ?thesis by (rule node [OF b]) (use ev h HqGlobalUnlock in simp_all)
    qed (use 1 in \<open>simp_all add: hq_global_sync_def\<close>)
  next
    case 2
    then have pc: "hq_pc s t = HqBarrier" by (auto simp: hq_lock_call_def split: hq_pc.splits)
    have idle: "hq_node_pc s t m = QdIdle" for m using hq_idle [OF inv, of t m] pc by simp
    obtain i s1 where g: "hq_get_qd C t cpu s = (i, s1)" by (cases "hq_get_qd C t cpu s")
    show ?thesis
    proof (cases "s' = s")
      case False
      then show ?thesis using 2 pc g ev idle hq_get_qd_same [OF g]
        by (cases i) (auto simp: hq_lock_call_def split: if_splits intro: enter outside)
    qed (use ev in \<open>auto intro: outside\<close>)
  next
    case 3
    show ?thesis
    proof (cases "hq_pc s t")
      case (HqUserUnlock n)
      then show ?thesis using 3 ev by (intro outside) (auto simp: hq_unlock_def)
    next
      case (HqGetQd n)
      obtain i s1 where g: "hq_get_qd C t cpu s = (i, s1)" by (cases "hq_get_qd C t cpu s")
      note G = hq_get_qd_same [OF g]
      show ?thesis
      proof (cases "i = Some n")
        case True
        then have b: "hq_base C n (QdUnlock t) s1 = Some s'" using 3 g HqGetQd by (simp add: hq_unlock_def)
        show ?thesis by (rule node [OF b]) (use ev G HqGetQd in simp_all)
      next
        case False
        then consider (undef) "s' = hq_goto t HqUndef s1"
          | (flag) m where "m \<noteq> n" "s' = hq_unlock_other t n m s1" "hq_mutex C = flag_mutex"
          using 3 g HqGetQd by (auto simp: hq_unlock_def split: option.splits node_mutex_t.splits if_splits)
        then show ?thesis
        proof cases
          case undef
          then show ?thesis using ev G by (intro outside) simp_all
        next
          case flag
          have "hq_node_pc s t n = HdRun UserLock" using hq_invD(1) [OF inv, of t] HqGetQd by (simp add: hq_pc_ok_def)
          then show ?thesis using flag ev G by (intro other [of n t m]) (simp_all add: hq_unlock_other_def)
        qed
      qed
    qed (use 3 in \<open>simp_all add: hq_unlock_def\<close>)
  next
    case 4
    then show ?thesis using ev
      by (intro outside) (auto simp: hq_rlock_def Let_def split: hq_pc.splits qd_pc.splits)
  qed
next
  case (HqUnlock t)
  then show ?thesis using st by (intro outside) (auto simp: hq_events_def split: hq_pc.splits if_splits)
next
  case (HqSee t b)
  then show ?thesis using st
    by (intro outside) (auto simp: hq_see_def hq_events_def split: if_splits hq_pc.splits qd_pc.splits)
qed (use st in \<open>auto simp: hq_events_def hq_runlock_def split: if_splits intro!: outside\<close>)

lemma ds_order_append [simp]: "ds_order (es @ fs) = ds_order es @ ds_order fs"
  by (induction es rule: ds_order.induct) auto

lemma hq_step_world:
  assumes inv: "hq_inv C s" and st: "hq_step C l s = Some s'"
  shows "hq_world s' = fold (cf_exec (hq_base_config C)) (ds_order (map snd (hq_events C s l))) (hq_world s)"
  using inv st
proof (cases rule: hq_step_kinds)
  case (node n k s1)
  then show ?thesis using hq_base_world [OF node(1)] by (simp add: comp_def)
qed simp_all

lemma hq_sim_step:
  assumes inv: "hq_inv C s" and rel: "hq_node_rel n s d" and st: "hq_step C l s = Some s'"
  shows "\<exists>d'. run (ds_step (cf_exec (hq_base_config C))) (at_node n (hq_events C s l)) d = Some d' \<and> hq_node_rel n s' d'"
  using inv st
proof (cases rule: hq_step_kinds)
  case (node m k s1)
  then show ?thesis using hq_base_sim [OF inv rel node(1,2)] by (simp split: if_splits)
next
  case (enter m t)
  then show ?thesis using hq_node_rel_lock [OF rel enter(3,1)] by simp
next
  case (other k m t)
  then show ?thesis using hq_node_rel_other [OF rel other(3,4,1)] by simp
next
  case outside
  then show ?thesis using hq_node_rel_same [OF rel, of s'] by simp
qed

lemma hq_run_world:
  assumes "cf_ok (hq_base_config C)"
  shows "hq_inv C s \<Longrightarrow> run (hq_step C) ls s = Some s' \<Longrightarrow>
    hq_world s' = fold (cf_exec (hq_base_config C)) (ds_order (map snd (trace (hq_step C) (hq_events C) ls s))) (hq_world s)"
proof (induction ls arbitrary: s)
  case (Cons l ls)
  then obtain s1 where s1: "hq_step C l s = Some s1" "run (hq_step C) ls s1 = Some s'" by (auto split: option.splits)
  then show ?case
    using Cons.IH [OF hq_inv_step [OF assms Cons.prems(1) s1(1)] s1(2)] hq_step_world [OF Cons.prems(1) s1(1)] by simp
qed simp

lemma hq_reachable_inv:
  assumes ok: "cf_ok (hq_base_config C)" and r: "reachable (hq_step C) (hq_init w) s"
  shows "hq_inv C s" "\<exists>d. hq_node_rel n s d"
proof -
  show "hq_inv C s" using invariant_system.inv_reachable [OF hq_invariant [OF ok] r] .
  show "\<exists>d. hq_node_rel n s d"
    using r
  proof (induction rule: reachable.induct)
    case start
    show ?case using qd_relD(7) [OF qd_sim_init] by (intro exI [of _ "ds_init w"]) (simp add: hq_node_rel_def hq_init_def ds_init_def qd_init_def)
  next
    case (move s l s')
    have "hq_inv C s" using invariant_system.inv_reachable [OF hq_invariant [OF ok] move.hyps(1)] .
    then show ?case using move.IH hq_sim_step move.hyps(2) by blast
  qed
qed

text \<open>Where nobody can unlock the lock of another thread, each node's lock has one owner.\<close>

definition hq_owners :: "('e, 'w) hq_lock \<Rightarrow> bool" where
  "hq_owners s \<longleftrightarrow> (\<forall>n. owner_rel qd_holds (hq_qdlocks s n) (qd_owner (hq_qdlocks s n)))"

lemma hq_owners_step:
  assumes mutex: "hq_mutex C = queue_mutex" and inv: "hq_inv C s" and own: "hq_owners s" and st: "hq_step C l s = Some s'"
  shows "hq_owners s'"
  using inv st
proof (cases rule: hq_step_kinds)
  case (node n k s1)
  obtain q where q: "qd_step (hq_base_config C) k (hq_view n s1) = Some q" "hq_qdlocks s' = (hq_qdlocks s)(n := q)"
    using node(1) by (rule hq_base_fieldsE) (simp add: node(2))
  have "owner_rel qd_holds (hq_view n s1) (qd_owner (hq_view n s1))"
    using own node(2) by (simp add: hq_owners_def owner_rel_def qd_holds_def)
  from qd_owner_step [OF this q(1)] show ?thesis using own q(2) by (simp add: hq_owners_def)
next
  case (enter n t)
  have "\<not> pc_owns (hq_node_pc s t n)" using enter(3) by simp
  then have "qd_owner (hq_qdlocks s n) \<noteq> Some t" using own unfolding hq_owners_def owner_rel_def qd_holds_def by blast
  then have "owner_rel qd_holds (qd_goto t UlLock (hq_qdlocks s n)) (qd_owner (hq_qdlocks s n))"
    using own enter(3) unfolding hq_owners_def owner_rel_def by (auto simp: qd_holds_def qd_goto_def)
  then show ?thesis using own enter(1) by (simp add: hq_owners_def qd_goto_def)
next
  case (other n m t)
  then show ?thesis using mutex by simp
next
  case outside
  then show ?thesis using own by (simp add: hq_owners_def)
qed

lemma hq_node_owner:
  assumes ok: "cf_ok (hq_base_config C)" and mutex: "hq_mutex C = queue_mutex" and r: "reachable (hq_step C) (hq_init w) s"
    and pc: "pc_owns (hq_node_pc s t n)"
  shows "qd_owner (hq_qdlocks s n) = Some t"
proof -
  have "hq_owners s"
    using r
  proof (induction rule: reachable.induct)
    case start
    show ?case by (simp add: hq_owners_def hq_init_def qd_init_def owner_rel_def qd_holds_def)
  next
    case (move s l s')
    then show ?case using hq_owners_step [OF mutex hq_reachable_inv(1) [OF ok move.hyps(1)]] by blast
  qed
  then show ?thesis using pc unfolding hq_owners_def owner_rel_def by (simp add: qd_holds_def)
qed

section \<open>All nodes together\<close>

text \<open>
  A queue that is open or not empty belongs to the node whose holder has the global lock. So at most
  one queue is in use, although the locks of several nodes are held.
\<close>

lemma hq_queue_used:
  assumes inv: "hq_inv C s" and rel: "hq_node_rel n s d"
    and used: "tq_open (qd_queue (hq_qdlocks s n)) \<or> tq_pend (qd_queue (hq_qdlocks s n)) \<noteq> []"
  shows "\<exists>h. hq_global s = Some h \<and> hq_pc s h = HqBase n"
proof -
  obtain h where h: "pc_queue_used (hq_node_pc s h n)"
    using qd_tracksD(4) [OF rel [unfolded hq_node_rel_def]] used by auto
  have crit: "pc_crit (hq_node_pc s h n)" and no: "hq_node_pc s h n \<notin> {QdIdle, HdUnlock, HdRun UserLock}" "\<nexists>k. hq_node_pc s h n = HdGot k"
    using h by (cases "hq_node_pc s h n"; auto)+
  have "hq_pc s h = HqBase n" by (rule hq_in_base [OF inv no])
  moreover from this have "hq_global s = Some h"
    using owner_rel_SomeD [OF hq_invD(2) [OF inv], of h] crit by (simp add: hq_holds_def)
  ultimately show ?thesis by blast
qed

text \<open>The operations of a thread in the queue in use, and the one that it carries.\<close>

definition hq_pend :: "tid \<Rightarrow> ('e, 'w) hq_lock \<Rightarrow> 'e list" where
  "hq_pend t s =
     (case hq_global s of
        None \<Rightarrow> []
      | Some h \<Rightarrow> (case hq_pc s h of HqBase n \<Rightarrow> ops_of t (tq_pend (qd_queue (hq_qdlocks s n))) | _ \<Rightarrow> []))"

definition hq_carried :: "tid \<Rightarrow> ('e, 'w) hq_lock \<Rightarrow> 'e list" where
  "hq_carried t s = (case hq_where (hq_pc s t) of None \<Rightarrow> [] | Some n \<Rightarrow> pc_op (hq_node_pc s t n))"

lemma hq_carried_at:
  assumes "hq_inv C s" and "\<And>m. m \<noteq> n \<Longrightarrow> pc_op (hq_node_pc s t m) = []"
  shows "hq_carried t s = pc_op (hq_node_pc s t n)"
proof (cases "hq_where (hq_pc s t)")
  case None
  then have "hq_node_pc s t n \<in> {QdIdle, HdRun UserLock}"
    using hq_invD(1) [OF assms(1), of t] by (cases "hq_pc s t") (auto simp: hq_pc_ok_def)
  then show ?thesis using None by (auto simp: hq_carried_def)
next
  case (Some m)
  have "hq_node_pc s t n = QdIdle" if "m \<noteq> n"
    using hq_invD(1) [OF assms(1), of t] Some that by (cases "hq_pc s t") (auto simp: hq_pc_ok_def)
  then show ?thesis using Some assms(2) [of m] by (cases "m = n") (auto simp: hq_carried_def)
qed

lemma hq_carried_cong:
  assumes "hq_inv C s" "hq_inv C s'" and same: "\<And>n. pc_op (hq_node_pc s' t n) = pc_op (hq_node_pc s t n)"
  shows "hq_carried t s' = hq_carried t s"
proof (cases "\<exists>n. pc_op (hq_node_pc s t n) \<noteq> []")
  case True
  then obtain n where n: "pc_op (hq_node_pc s t n) \<noteq> []" by blast
  have "pc_op (hq_node_pc s t m) = []" if "m \<noteq> n" for m
  proof -
    have "hq_node_pc s t n \<noteq> QdIdle" "hq_node_pc s t n \<noteq> HdRun UserLock" using n by auto
    from hq_only_node(3) [OF assms(1) this \<open>m \<noteq> n\<close>] show ?thesis by simp
  qed
  then show ?thesis using hq_carried_at [OF assms(1), of n t] hq_carried_at [OF assms(2), of n t] same by simp
next
  case False
  then show ?thesis using hq_carried_at [OF assms(1), of 0 t] hq_carried_at [OF assms(2), of 0 t] same by simp
qed

definition hq_rels :: "('e, 'w) hq_lock \<Rightarrow> bool" where
  "hq_rels s \<longleftrightarrow> (\<forall>n. \<exists>d. hq_node_rel n s d)"

lemma hq_pend_at:
  assumes inv: "hq_inv C s" and rels: "hq_rels s" and others: "\<And>m. m \<noteq> n \<Longrightarrow> tq_pend (qd_queue (hq_qdlocks s m)) = []"
  shows "hq_pend t s = ops_of t (tq_pend (qd_queue (hq_qdlocks s n)))"
proof (cases "tq_pend (qd_queue (hq_qdlocks s n)) = []")
  case True
  then have "tq_pend (qd_queue (hq_qdlocks s m)) = []" for m using others by (cases "m = n") auto
  then show ?thesis by (auto simp: hq_pend_def split: option.splits hq_pc.splits)
next
  case False
  obtain d where "hq_node_rel n s d" using rels by (auto simp: hq_rels_def)
  from hq_queue_used [OF inv this] False show ?thesis by (auto simp: hq_pend_def)
qed

lemma hq_queue_unique:
  assumes inv: "hq_inv C s" and rels: "hq_rels s" and m: "tq_pend (qd_queue (hq_qdlocks s m)) \<noteq> []"
    and n: "tq_pend (qd_queue (hq_qdlocks s n)) \<noteq> []"
  shows "m = n"
proof -
  obtain dm dn where d: "hq_node_rel m s dm" "hq_node_rel n s dn" using rels unfolding hq_rels_def by blast
  obtain h where h: "hq_global s = Some h" "hq_pc s h = HqBase m" using hq_queue_used [OF inv d(1)] m by blast
  obtain k where k: "hq_global s = Some k" "hq_pc s k = HqBase n" using hq_queue_used [OF inv d(2)] n by blast
  show ?thesis using h k by simp
qed

lemma hq_pend_cong:
  assumes inv: "hq_inv C s" "hq_inv C s'" and rels: "hq_rels s" "hq_rels s'"
    and same: "\<And>n. tq_pend (qd_queue (hq_qdlocks s' n)) = tq_pend (qd_queue (hq_qdlocks s n))"
  shows "hq_pend t s' = hq_pend t s"
proof (cases "\<exists>n. tq_pend (qd_queue (hq_qdlocks s n)) \<noteq> []")
  case True
  then obtain n where n: "tq_pend (qd_queue (hq_qdlocks s n)) \<noteq> []" by blast
  have "tq_pend (qd_queue (hq_qdlocks s m)) = []" if "m \<noteq> n" for m
    using hq_queue_unique [OF inv(1) rels(1) _ n, of m] that by blast
  then show ?thesis using hq_pend_at [OF inv(1) rels(1), of n t] hq_pend_at [OF inv(2) rels(2), of n t] same by simp
next
  case False
  then show ?thesis using hq_pend_at [OF inv(1) rels(1), of 0 t] hq_pend_at [OF inv(2) rels(2), of 0 t] same by simp
qed

lemma ds_calls_other: "t \<noteq> qd_thread l \<Longrightarrow> ds_calls t (qd_events s l) = []"
  by (cases "(s, l)" rule: qd_events.cases) (auto split: qd_pc.splits hold.splits list.splits)

text \<open>An execution happens at the node whose queue is in use, if one is.\<close>

lemma hq_exec_alone:
  assumes inv: "hq_inv C s" and rels: "hq_rels s" and exec: "ds_execs t (qd_events (hq_qdlocks s n) k) \<noteq> []"
    and m: "tq_pend (qd_queue (hq_qdlocks s m)) \<noteq> []"
  shows "m = n"
proof (cases "tq_pend (qd_queue (hq_qdlocks s n)) = []")
  case False
  then show ?thesis using hq_queue_unique [OF inv rels m] by blast
next
  case True
  then obtain u h where u: "hq_node_pc s u n = HdRun h" "h \<noteq> UserLock"
    using exec by (cases "(hq_qdlocks s n, k)" rule: qd_events.cases) (auto split: qd_pc.splits hold.splits)
  have pc: "hq_pc s u = HqBase n"
    by (rule hq_in_base [OF inv]) (use u in auto)
  then have "hq_global s = Some u"
    using owner_rel_SomeD [OF hq_invD(2) [OF inv], of u] u by (simp add: hq_holds_def)
  moreover obtain d where "hq_node_rel m s d" using rels unfolding hq_rels_def by blast
  ultimately show ?thesis using hq_queue_used [OF inv _ disjI2 [OF m]] pc by fastforce
qed

lemma hq_rels_step:
  assumes "hq_inv C s" and "hq_rels s" and "hq_step C l s = Some s'"
  shows "hq_rels s'"
  using assms hq_sim_step unfolding hq_rels_def by blast

abbreviation hq_todo :: "tid \<Rightarrow> ('e, 'w) hq_lock \<Rightarrow> 'e list" where
  "hq_todo t s \<equiv> hq_pend t s @ hq_carried t s"

lemma hq_todo_base:
  assumes inv: "hq_inv C s" "hq_inv C s'" and rels: "hq_rels s" "hq_rels s'"
    and b: "hq_base C n k s1 = Some s'" and s1: "hq_qdlocks s1 = hq_qdlocks s"
    and at: "hq_where (hq_pc s (qd_thread k)) = Some n \<or> hq_where (hq_pc s (qd_thread k)) = None"
  defines "es \<equiv> qd_events (hq_qdlocks s n) k"
  shows "hq_todo t s @ ds_calls t es = ds_execs t es @ hq_todo t s'"
proof -
  let ?q = "\<lambda>s. tq_pend (qd_queue (hq_qdlocks s n))"
  obtain d where d: "hq_node_rel n s d" using rels(1) unfolding hq_rels_def by blast
  obtain d' where d': "run (ds_step (cf_exec (hq_base_config C))) es d = Some d'" "hq_node_rel n s' d'"
    using hq_base_sim [OF inv(1) d b s1] unfolding es_def by auto
  have T: "(ops_of t (?q s) @ pc_op (hq_node_pc s t n)) @ ds_calls t es =
      ds_execs t es @ ops_of t (?q s') @ pc_op (hq_node_pc s' t n)"
    using ds_run [OF d'(1), of t] qd_tracksD(2) [OF d [unfolded hq_node_rel_def], of t]
      qd_tracksD(2) [OF d'(2) [unfolded hq_node_rel_def], of t] by simp
  obtain q where q: "qd_step (hq_base_config C) k (hq_view n s1) = Some q" "hq_qdlocks s' = (hq_qdlocks s)(n := q)"
    using b by (rule hq_base_fieldsE) (simp add: s1)
  have other: "hq_qdlocks s' m = hq_qdlocks s m" if "m \<noteq> n" for m using q(2) that by simp
  have carried: "hq_carried t s = pc_op (hq_node_pc s t n) \<and> hq_carried t s' = pc_op (hq_node_pc s' t n) \<or>
      hq_carried t s' = hq_carried t s \<and> pc_op (hq_node_pc s t n) = [] \<and> pc_op (hq_node_pc s' t n) = [] \<and> ds_calls t es = []"
  proof (cases "\<forall>m. m \<noteq> n \<longrightarrow> pc_op (hq_node_pc s t m) = []")
    case True
    then show ?thesis using hq_carried_at [OF inv(1), of n t] hq_carried_at [OF inv(2), of n t] other
      by simp
  next
    case False
    then obtain m where m: "m \<noteq> n" "pc_op (hq_node_pc s t m) \<noteq> []" by blast
    then have "hq_node_pc s t m \<noteq> QdIdle" "hq_node_pc s t m \<noteq> HdRun UserLock" by auto
    note w = hq_only_node(1) [OF inv(1) this] hq_only_node(2) [OF inv(1) this] hq_only_node(3) [OF inv(1) this, of n]
    then have t: "t \<noteq> qd_thread k" using at m(1) w(1) by auto
    then have pcs: "hq_node_pc s' t i = hq_node_pc s t i" for i
      using qd_step_other [OF q(1), of t] q(2) s1 by (cases "i = n") auto
    have "hq_carried t s' = hq_carried t s" by (rule hq_carried_cong [OF inv]) (simp add: pcs)
    then show ?thesis using w(3) m(1) pcs [of n] ds_calls_other [OF t] by (auto simp: es_def)
  qed
  show ?thesis
  proof (cases "\<forall>m. m \<noteq> n \<longrightarrow> tq_pend (qd_queue (hq_qdlocks s m)) = []")
    case True
    then have "hq_pend t s = ops_of t (?q s)" "hq_pend t s' = ops_of t (?q s')"
      using hq_pend_at [OF inv(1) rels(1), of n] hq_pend_at [OF inv(2) rels(2), of n] other by auto
    with carried T show ?thesis by auto
  next
    case False
    then obtain m where m: "m \<noteq> n" "tq_pend (qd_queue (hq_qdlocks s m)) \<noteq> []" by blast
    have m': "tq_pend (qd_queue (hq_qdlocks s' m)) \<noteq> []" using m other by simp
    have none: "?q s = []" "?q s' = []"
      using hq_queue_unique [OF inv(1) rels(1) m(2), of n] hq_queue_unique [OF inv(2) rels(2) m', of n] m(1) by blast+
    have "tq_pend (qd_queue (hq_qdlocks s' i)) = tq_pend (qd_queue (hq_qdlocks s i))" for i
      using none other by (cases "i = n") simp_all
    then have pend: "hq_pend t s' = hq_pend t s" by (rule hq_pend_cong [OF inv rels])
    have execs: "ds_execs t es = []" using hq_exec_alone [OF inv(1) rels(1) _ m(2)] m(1) unfolding es_def by blast
    have T': "pc_op (hq_node_pc s t n) @ ds_calls t es = pc_op (hq_node_pc s' t n)"
      using T unfolding none execs by simp
    from carried show ?thesis
    proof
      assume "hq_carried t s = pc_op (hq_node_pc s t n) \<and> hq_carried t s' = pc_op (hq_node_pc s' t n)"
      then show ?thesis using T' pend execs by simp
    next
      assume "hq_carried t s' = hq_carried t s \<and> pc_op (hq_node_pc s t n) = [] \<and> pc_op (hq_node_pc s' t n) = [] \<and> ds_calls t es = []"
      then show ?thesis using pend execs by simp
    qed
  qed
qed

lemma hq_todo_step:
  assumes inv: "hq_inv C s" "hq_inv C s'" and rels: "hq_rels s" and st: "hq_step C l s = Some s'"
  shows "hq_todo t s @ ds_calls t (map snd (hq_events C s l)) = ds_execs t (map snd (hq_events C s l)) @ hq_todo t s'"
  using inv(1) st
proof (cases rule: hq_step_kinds)
  case (node n k s1)
  have "map snd (hq_events C s l) = qd_events (hq_qdlocks s n) k" using node(4) by (simp add: comp_def)
  then show ?thesis using hq_todo_base [OF inv rels hq_rels_step [OF inv(1) rels st] node(1,2,5)] by simp
next
  case (enter n u)
  have "hq_pend t s' = hq_pend t s"
    by (rule hq_pend_cong [OF inv rels hq_rels_step [OF inv(1) rels st]]) (simp add: enter(1) qd_goto_def)
  moreover have "hq_carried t s' = hq_carried t s"
    by (rule hq_carried_cong [OF inv]) (use enter(3) in \<open>simp add: enter(1) qd_goto_def\<close>)
  ultimately show ?thesis using enter(4) by simp
next
  case (other n m u)
  have "hq_pend t s' = hq_pend t s"
    by (rule hq_pend_cong [OF inv rels hq_rels_step [OF inv(1) rels st]]) (use other(4) in \<open>simp add: other(1) qd_goto_def\<close>)
  moreover have "hq_carried t s' = hq_carried t s"
    by (rule hq_carried_cong [OF inv]) (use other(3,4) in \<open>simp add: other(1) qd_goto_def\<close>)
  ultimately show ?thesis using other(6) by simp
next
  case outside
  have "hq_pend t s' = hq_pend t s"
    by (rule hq_pend_cong [OF inv rels hq_rels_step [OF inv(1) rels st]]) (simp add: outside(1))
  moreover have "hq_carried t s' = hq_carried t s" by (rule hq_carried_cong [OF inv]) (simp add: outside(1))
  ultimately show ?thesis using outside(3) by simp
qed

lemma ds_append:
  "ds_calls t (es @ fs) = ds_calls t es @ ds_calls t fs" "ds_execs t (es @ fs) = ds_execs t es @ ds_execs t fs"
  by (induction es rule: ds_calls.induct) auto

lemma hq_run_todo:
  assumes ok: "cf_ok (hq_base_config C)"
  shows "hq_inv C s \<Longrightarrow> hq_rels s \<Longrightarrow> run (hq_step C) ls s = Some s' \<Longrightarrow>
    hq_todo t s @ ds_calls t (map snd (trace (hq_step C) (hq_events C) ls s)) =
    ds_execs t (map snd (trace (hq_step C) (hq_events C) ls s)) @ hq_todo t s'"
proof (induction ls arbitrary: s)
  case (Cons l ls)
  then obtain s1 where s1: "hq_step C l s = Some s1" "run (hq_step C) ls s1 = Some s'" by (auto split: option.splits)
  note inv1 = hq_inv_step [OF ok Cons.prems(1) s1(1)]
  note rels1 = hq_rels_step [OF Cons.prems(1,2) s1(1)]
  show ?case
    using Cons.IH [OF inv1 rels1 s1(2)] hq_todo_step [OF Cons.prems(1) inv1 Cons.prems(2) s1(1), of t] s1(1)
    by (simp add: ds_append) (metis append.assoc)
qed simp

section \<open>Properties\<close>

text \<open>
  C7. The hierarchical locks delegate like one lock: in every run the data at the end is the result of
  executing operations one after the other, whatever their nodes; for each thread, the operations it
  has delegated, at one node or another, are those of it that were executed, followed by those in the queue
  of the node that has the global lock, followed by the one it still carries, in the order of its calls,
  none of them twice; and while nobody holds the global lock all queues are empty.
\<close>
theorem hierarchical_delegation_correct:
  fixes C :: "('e, 'w) hq_config"
  assumes ok: "cf_ok (hq_base_config C)" and r: "run (hq_step C) ls (hq_init w) = Some s"
  shows "\<exists>es. es = map snd (trace (hq_step C) (hq_events C) ls (hq_init w)) \<and>
    hq_world s = fold (cf_exec (hq_base_config C)) (ds_order es) w \<and>
    (\<forall>t. ds_calls t es = ds_execs t es @ hq_pend t s @ hq_carried t s) \<and>
    (hq_global s = None \<longrightarrow> (\<forall>n. tq_pend (qd_queue (hq_qdlocks s n)) = []))"
proof -
  let ?es = "map snd (trace (hq_step C) (hq_events C) ls (hq_init w))"
  have "hq_rels (hq_init w :: ('e, 'w) hq_lock)" using hq_reachable_inv(2) [OF ok reachable.start] by (simp add: hq_rels_def)
  from hq_run_todo [OF ok hq_inv_init this r]
  have todo: "ds_calls t ?es = ds_execs t ?es @ hq_pend t s @ hq_carried t s" for t
    by (simp add: hq_pend_def hq_carried_def hq_init_def)
  have world: "hq_world s = fold (cf_exec (hq_base_config C)) (ds_order ?es) w"
    using hq_run_world [OF ok hq_inv_init r] by (simp add: hq_init_def)
  have "tq_pend (qd_queue (hq_qdlocks s n)) = []" if "hq_global s = None" for n
  proof (rule ccontr)
    assume p: "tq_pend (qd_queue (hq_qdlocks s n)) \<noteq> []"
    obtain d where "hq_node_rel n s d" using hq_reachable_inv(2) [OF ok run_reachable [OF r]] by blast
    from hq_queue_used [OF hq_reachable_inv(1) [OF ok run_reachable [OF r]] this disjI2 [OF p]] that show False by simp
  qed
  then show ?thesis using todo world by blast
qed

text \<open>
  Two nodes; thread 0 runs on the first, thread 1 on the second. Both hold the lock of their node, thread
  1 gets the global lock first, and both operations are executed.
\<close>

definition hq_demo :: "bool \<Rightarrow> pinning_policy_t \<Rightarrow> (nat, nat list) hq_config" where
  "hq_demo readers pinning = hq_construct (qd_demo readers) pinning flag_mutex 2 (Some (2, int)) 0"

definition hq_execute_run :: "tid \<Rightarrow> nat hq_label list" where
  "hq_execute_run t = [HqDo t 0, HqDo t 0, HqNode (QdDo t), HqNode (QdDo t), HqSync t, HqDo t 0, HqNode (QdDo t)]"

definition hq_demo_run :: "nat hq_label list" where
  "hq_demo_run = [HqDelegate 0 0 10, HqDelegate 1 1 11, HqNode (QdDo 0), HqNode (QdDo 1), HqNode (QdDo 1), HqNode (QdDo 0),
     HqSync 1, HqSync 0] @ hq_execute_run 1 @ hq_execute_run 0"

lemmas hq_eval = hq_demo_def hq_construct_def hq_execute_run_def hq_demo_run_def hq_init_def hq_delegate_def
  hq_hierarchy_sync_def hq_global_sync_def hq_lock_call_def hq_unlock_def hq_unlock_other_def hq_rlock_def hq_may_see_def hq_see_def
  hq_runlock_def hq_inner_def hq_base_def hq_view_def hq_get_qd_def hq_index_def hq_cpu_def hq_goto_def

theorem hierarchical_delegation_correct_witness:
  "\<exists>s. run (hq_step (hq_demo False free_threads)) hq_demo_run (hq_init []) = Some s \<and> hq_world s = [11, 10] \<and>
     hq_global s = None \<and> (\<forall>n. tq_pend (qd_queue (hq_qdlocks s n)) = [])"
proof -
  have ok: "cf_ok (hq_base_config (hq_demo False free_threads))" by (simp add: hq_demo_def hq_construct_def cf_ok_def qd_demo_def)
  obtain s where s: "run (hq_step (hq_demo False free_threads)) hq_demo_run (hq_init []) = Some s" "hq_world s = [11, 10]"
    "hq_global s = None"
    by (simp add: hq_eval qd_eval)
  from hierarchical_delegation_correct [OF ok s(1)] s show ?thesis by blast
qed

fun hq_thread :: "'e hq_label \<Rightarrow> tid" where
  "hq_thread (HqDelegate t cpu x) = t"
| "hq_thread (HqLock t) = t"
| "hq_thread (HqUnlock t) = t"
| "hq_thread (HqRLock t) = t"
| "hq_thread (HqRUnlock t) = t"
| "hq_thread (HqNode l) = qd_thread l"
| "hq_thread (HqSync t) = t"
| "hq_thread (HqDo t cpu) = t"
| "hq_thread (HqSee t b) = t"

text \<open>
  C8. Mutual exclusion across the nodes: when the protected data changes, it is a step of a thread that
  owns the global lock, no other thread of any node is between the two calls of
  \<open>hierarchy_sync\<close>, and no reader is in its critical section. If the locks of the nodes are queue locks the
  thread owns the lock of its node as well; a flag may have been released by a thread that has moved.
\<close>
theorem nodes_exclude_each_other:
  assumes ok: "cf_ok (hq_base_config C)" and r: "reachable (hq_step C) (hq_init w) s"
    and st: "hq_step C l s = Some s'" and changed: "hq_world s' \<noteq> hq_world s"
  shows "\<exists>n. hq_pc s (hq_thread l) = HqBase n \<and> hq_global s = Some (hq_thread l) \<and>
     (hq_mutex C = queue_mutex \<longrightarrow> qd_owner (hq_qdlocks s n) = Some (hq_thread l)) \<and>
     (\<forall>u m. u \<noteq> hq_thread l \<longrightarrow> hq_pc s u = HqBase m \<longrightarrow> \<not> pc_crit (hq_node_pc s u m)) \<and>
     (\<forall>u. hq_pc s u \<noteq> HqRead RdCrit)"
proof -
  note inv = hq_reachable_inv(1) [OF ok r]
  have "ds_order (map snd (hq_events C s l)) \<noteq> []"
    using hq_step_world [OF inv st] changed by (metis fold_simps(1))
  then obtain k where l: "l = HqNode k"
    by (cases l) (auto simp: hq_events_def split: option.splits)
  let ?t = "qd_thread k"
  obtain n where n: "hq_pc s ?t = HqBase n" "hq_base C n k s = Some s'"
    using st l by (auto split: hq_pc.splits if_splits)
  obtain q where q: "qd_step (hq_base_config C) k (hq_view n s) = Some q" "hq_world s' = qd_world q"
    using n(2) by (rule hq_base_fieldsE)
  have pc: "hq_node_pc s ?t n = HdFlush \<or> (\<exists>h. hq_node_pc s ?t n = HdRun h)"
    using qd_change_pc [OF q(1)] q(2) changed by simp
  have own: "hq_mutex C = queue_mutex \<Longrightarrow> qd_owner (hq_qdlocks s n) = Some ?t"
    by (rule hq_node_owner [OF ok _ r]) (use pc in auto)
  have g: "hq_global s = Some ?t"
    using owner_rel_SomeD [OF hq_invD(2) [OF inv], of ?t] n pc by (auto simp: hq_holds_def)
  have crit: "\<not> pc_crit (hq_node_pc s u m)" if "u \<noteq> ?t" "hq_pc s u = HqBase m" for u m
    using owner_rel_SomeD [OF hq_invD(2) [OF inv], of u] that g by (auto simp: hq_holds_def)
  have rd: "hq_pc s u \<noteq> HqRead RdCrit" for u
    using rd_invD(4) [OF hq_invD(3) [OF inv], of u ?t] pc n by (auto simp: hq_top_def)
  show ?thesis using n(1) g own crit rd l by (intro exI [of _ n]) auto
qed

text \<open>A reader holds up thread 1, which has the global lock, and both hold up thread 0 at the other node.\<close>

definition hq_reader_run :: "nat hq_label list" where
  "hq_reader_run = [HqRLock 3, HqDo 3 0, HqSee 3 False, HqDelegate 0 0 10, HqDelegate 1 1 11,
     HqNode (QdDo 0), HqNode (QdDo 1), HqNode (QdDo 1), HqNode (QdDo 0), HqSync 1, HqSync 0, HqDo 1 0, HqDo 1 0,
     HqNode (QdDo 1), HqNode (QdDo 1), HqRUnlock 3, HqNode (QdDo 1), HqNode (QdDo 1), HqNode (QdDo 1)]"

theorem nodes_exclude_each_other_witness:
  "\<exists>s s'. run (hq_step (hq_demo True free_threads)) hq_reader_run (hq_init []) = Some s \<and>
     hq_step (hq_demo True free_threads) (HqNode (QdDo 1)) s = Some s' \<and> hq_world s' = [11] \<and>
     hq_global s = Some 1 \<and> hq_pc s 0 = HqGlobal 0 \<and> (\<forall>u. hq_pc s u \<noteq> HqRead RdCrit)"
proof -
  let ?C = "hq_demo True free_threads"
  have ok: "cf_ok (hq_base_config ?C)" by (simp add: hq_demo_def hq_construct_def cf_ok_def qd_demo_def)
  obtain s s' where s: "run (hq_step ?C) hq_reader_run (hq_init []) = Some s" "hq_step ?C (HqNode (QdDo 1)) s = Some s'"
    "hq_world s = []" "hq_world s' = [11]" "hq_pc s 0 = HqGlobal 0"
    by (simp add: hq_reader_run_def hq_eval qd_eval)
  from nodes_exclude_each_other [OF ok run_reachable [OF s(1)] s(2)] s show ?thesis by auto
qed

section \<open>Threads that move, and threads that do not\<close>

text \<open>
  A step of thread \<open>t\<close> changes the state of no other thread. It asks for its node (\<open>hq_get_qd\<close>), or keeps
  to the node that it has.
\<close>

definition hq_asks :: "('e, 'w) hq_config \<Rightarrow> tid \<Rightarrow> int \<Rightarrow> ('e, 'w) hq_lock \<Rightarrow> ('e, 'w) hq_lock \<Rightarrow> bool" where
  "hq_asks C t cpu s s' \<longleftrightarrow>
     (let (i, s1) = hq_get_qd C t cpu s in
      hq_node_id s' = hq_node_id s1 \<and>
      (case i of
         None \<Rightarrow> hq_pc s' t = HqUndef
       | Some n \<Rightarrow>
           (case hq_where (hq_pc s t) of
              None \<Rightarrow> hq_pc s' t \<in> {HqIdle, HqBase n}
            | Some m \<Rightarrow> hq_pc s' t \<in> (if m = n then {HqIdle, HqBase n} else {HqUndef, HqIdle}))))"

definition hq_stays :: "tid \<Rightarrow> ('e, 'w) hq_lock \<Rightarrow> ('e, 'w) hq_lock \<Rightarrow> bool" where
  "hq_stays t s s' \<longleftrightarrow> hq_node_id s' = hq_node_id s \<and> hq_pc s' t \<noteq> HqUndef \<and>
     (hq_where (hq_pc s' t) = None \<or> hq_where (hq_pc s' t) = hq_where (hq_pc s t))"

fun hq_label_cpu :: "'e hq_label \<Rightarrow> int option" where
  "hq_label_cpu (HqDelegate t cpu x) = Some cpu"
| "hq_label_cpu (HqDo t cpu) = Some cpu"
| "hq_label_cpu _ = None"

definition hq_moves :: "('e, 'w) hq_config \<Rightarrow> 'e hq_label \<Rightarrow> ('e, 'w) hq_lock \<Rightarrow> ('e, 'w) hq_lock \<Rightarrow> bool" where
  "hq_moves C l s s' \<longleftrightarrow> hq_frame (hq_thread l) s s' \<and>
     (hq_stays (hq_thread l) s s' \<or> (\<exists>cpu. hq_label_cpu l = Some cpu \<and> hq_asks C (hq_thread l) cpu s s'))"

lemma hq_frame_goto:
  "hq_pc s1 = hq_pc s \<Longrightarrow> (\<And>u n. u \<noteq> t \<Longrightarrow> hq_node_pc s1 u n = hq_node_pc s u n) \<Longrightarrow> hq_frame t s (hq_goto t p s1)"
  by (auto simp: hq_frame_def hq_goto_def)

lemma hq_base_moves:
  assumes b: "hq_base C n k s1 = Some s'" and s1: "hq_pc s1 = hq_pc s" "hq_qdlocks s1 = hq_qdlocks s"
  shows "hq_frame (qd_thread k) s s'" "hq_node_id s' = hq_node_id s1" "hq_pc s' (qd_thread k) \<in> {HqIdle, HqBase n}"
proof -
  show "hq_frame (qd_thread k) s s'" using hq_base_frame [OF b] s1 by (simp add: hq_frame_def)
  show "hq_node_id s' = hq_node_id s1" "hq_pc s' (qd_thread k) \<in> {HqIdle, HqBase n}"
    by (rule hq_baseE [OF b], simp add: hq_goto_def)+
qed

lemma hq_base_stays:
  assumes b: "hq_base C n k s1 = Some s'" and s1: "hq_pc s1 = hq_pc s" "hq_qdlocks s1 = hq_qdlocks s" "hq_node_id s1 = hq_node_id s"
    and w: "hq_where (hq_pc s (qd_thread k)) = Some n"
  shows "hq_frame (qd_thread k) s s' \<and> hq_stays (qd_thread k) s s'"
  using hq_base_moves [OF b s1(1,2)] s1(3) w by (auto simp: hq_stays_def)

lemma hq_step_moves:
  assumes st: "hq_step C l s = Some s'"
  shows "hq_moves C l s s'"
proof (cases l)
  case (HqDelegate t cpu x)
  obtain i s1 where g: "hq_get_qd C t cpu s = (i, s1)" by (cases "hq_get_qd C t cpu s")
  note G = hq_get_qd_same [OF g]
  have pc: "hq_pc s t = HqIdle" using st HqDelegate by (auto simp: hq_delegate_def split: if_splits)
  have "hq_frame t s s' \<and> hq_asks C t cpu s s'"
  proof (cases i)
    case None
    then have "s' = hq_goto t HqUndef s1" using st HqDelegate g pc by (simp add: hq_delegate_def)
    then show ?thesis using g G None by (simp add: hq_asks_def hq_frame_goto) (simp add: hq_goto_def)
  next
    case (Some n)
    then have b: "hq_base C n (QdDelegate t x) s1 = Some s'" using st HqDelegate g pc by (simp add: hq_delegate_def)
    show ?thesis using hq_base_moves [OF b G(3,1)] g pc Some by (simp add: hq_asks_def)
  qed
  then show ?thesis using HqDelegate by (simp add: hq_moves_def)
next
  case (HqNode k)
  then obtain n where n: "hq_pc s (qd_thread k) = HqBase n" "hq_base C n k s = Some s'"
    using st by (auto split: hq_pc.splits if_splits)
  from hq_base_stays [OF n(2)] n(1) show ?thesis using HqNode by (simp add: hq_moves_def)
next
  case (HqDo t cpu)
  consider "hq_global_sync C t s = Some s'" | "hq_lock_call C t cpu s = Some s'" | "hq_unlock C t cpu s = Some s'"
    | "hq_rlock C t s = Some s'"
    using st HqDo by (auto split: option.splits)
  then have "hq_frame t s s' \<and> (hq_stays t s s' \<or> hq_asks C t cpu s s')"
  proof cases
    case 1
    show ?thesis
    proof (cases "hq_pc s t")
      case (HqGlobal n)
      then have "s' = hq_goto t (HqGot n) (s\<lparr>hq_global := Some t\<rparr>)" using 1 by (auto simp: hq_global_sync_def split: if_splits)
      then show ?thesis using HqGlobal by (auto intro!: hq_frame_goto simp: hq_stays_def) (auto simp: hq_goto_def)
    next
      case (HqGot n)
      then have b: "hq_base C n (QdDo t) s = Some s'" using 1 by (simp add: hq_global_sync_def)
      from hq_base_stays [OF b] show ?thesis using HqGot by simp
    next
      case (HqGlobalUnlock n)
      then have b: "hq_base C n (QdDo t) (s\<lparr>hq_global := None\<rparr>) = Some s'" using 1 by (simp add: hq_global_sync_def)
      from hq_base_stays [OF b] show ?thesis using HqGlobalUnlock by simp
    qed (use 1 in \<open>simp_all add: hq_global_sync_def\<close>)
  next
    case 2
    then have pc: "hq_pc s t = HqBarrier" by (auto simp: hq_lock_call_def split: hq_pc.splits)
    obtain i s1 where g: "hq_get_qd C t cpu s = (i, s1)" by (cases "hq_get_qd C t cpu s")
    note G = hq_get_qd_same [OF g]
    show ?thesis
    proof (cases "cf_readers (hq_base_config C) \<and> 0 < hq_barrier s")
      case True
      then show ?thesis using 2 pc by (auto simp: hq_lock_call_def hq_frame_def hq_stays_def)
    next
      case False
      show ?thesis
      proof (cases i)
        case None
        then have "s' = hq_goto t HqUndef s1" using 2 False pc g by (auto simp: hq_lock_call_def split: if_splits)
        then show ?thesis using g G None by (auto intro!: hq_frame_goto simp: hq_asks_def) (auto simp: hq_goto_def)
      next
        case (Some n)
        then have "s' = hq_goto t (HqBase n) (s1\<lparr>hq_qdlocks := (hq_qdlocks s1)(n := qd_goto t UlLock (hq_qdlocks s1 n))\<rparr>)"
          using 2 False pc g by (auto simp: hq_lock_call_def split: if_splits)
        then show ?thesis using g G Some pc
          by (auto intro!: hq_frame_goto simp: hq_asks_def qd_goto_def) (auto simp: hq_goto_def)
      qed
    qed
  next
    case 3
    show ?thesis
    proof (cases "hq_pc s t")
      case (HqUserUnlock n)
      then have "s' = hq_goto t (HqGetQd n) (s\<lparr>hq_global := None\<rparr>)" using 3 by (auto simp: hq_unlock_def)
      then show ?thesis using HqUserUnlock by (auto intro!: hq_frame_goto simp: hq_stays_def) (auto simp: hq_goto_def)
    next
      case (HqGetQd n)
      obtain i s1 where g: "hq_get_qd C t cpu s = (i, s1)" by (cases "hq_get_qd C t cpu s")
      note G = hq_get_qd_same [OF g]
      show ?thesis
      proof (cases "i = Some n")
        case True
        then have b: "hq_base C n (QdUnlock t) s1 = Some s'" using 3 g HqGetQd by (simp add: hq_unlock_def)
        show ?thesis using hq_base_moves [OF b G(3,1)] g HqGetQd True by (simp add: hq_asks_def)
      next
        case False
        then have "s' = hq_goto t HqUndef s1 \<or> (\<exists>m. m \<noteq> n \<and> i = Some m \<and> s' = hq_unlock_other t n m s1)"
          using 3 g HqGetQd by (auto simp: hq_unlock_def split: option.splits node_mutex_t.splits if_splits)
        then show ?thesis using g G HqGetQd False unfolding hq_unlock_other_def
          by (auto intro!: hq_frame_goto simp: hq_asks_def qd_goto_def split: option.splits) (auto simp: hq_goto_def)
      qed
    qed (use 3 in \<open>simp_all add: hq_unlock_def\<close>)
  next
    case 4
    then obtain p s1 q where "s' = hq_goto t (HqRead p) s1" "hq_pc s1 = hq_pc s" "hq_qdlocks s1 = hq_qdlocks s" "hq_node_id s1 = hq_node_id s"
      "hq_pc s t = HqRead q"
      by (cases "hq_pc s t") (auto simp: hq_rlock_def Let_def split: qd_pc.splits)
    then show ?thesis by (auto intro!: hq_frame_goto simp: hq_stays_def) (auto simp: hq_goto_def)
  qed
  then show ?thesis using HqDo by (auto simp: hq_moves_def)
next
  case (HqSync t)
  then show ?thesis using st
    by (auto simp: hq_hierarchy_sync_def hq_moves_def hq_stays_def intro!: hq_frame_goto split: hq_pc.splits qd_pc.splits)
      (auto simp: hq_goto_def)
next
  case (HqLock t)
  then show ?thesis using st
    by (auto simp: hq_moves_def hq_stays_def intro!: hq_frame_goto split: if_splits) (auto simp: hq_goto_def)
next
  case (HqUnlock t)
  then show ?thesis using st
    by (auto simp: hq_moves_def hq_stays_def intro!: hq_frame_goto split: hq_pc.splits if_splits) (auto simp: hq_goto_def)
next
  case (HqRLock t)
  then show ?thesis using st
    by (auto simp: hq_moves_def hq_stays_def intro!: hq_frame_goto split: if_splits) (auto simp: hq_goto_def)
next
  case (HqRUnlock t)
  then show ?thesis using st
    by (auto simp: hq_moves_def hq_stays_def hq_runlock_def intro!: hq_frame_goto split: if_splits) (auto simp: hq_goto_def)
next
  case (HqSee t b)
  then show ?thesis using st
    by (auto simp: hq_see_def hq_moves_def hq_stays_def intro!: hq_frame_goto split: hq_pc.splits qd_pc.splits if_splits)
      (auto simp: hq_goto_def)
qed


text \<open>
  Threads 0, 1 and 2 lock, the first on processor 0, the others on processor 1. Thread 0 has released the global
  lock and moves to processor 1 before it asks for its node; thread 1 is in its critical section.
\<close>

definition hq_move_run :: "nat hq_label list" where
  "hq_move_run = [HqLock 0, HqDo 0 0, HqNode (QdDo 0), HqSync 0, HqDo 0 0, HqDo 0 0, HqNode (QdDo 0), HqUnlock 0, HqDo 0 1]"



text \<open>The processors that occur in a run are processors of the machine, and each has a node.\<close>

definition hq_machine_ok :: "('e, 'w) hq_config \<Rightarrow> bool" where
  "hq_machine_ok C \<longleftrightarrow> list_all (\<lambda>idx. 0 \<le> idx \<and> idx < hq_numanodes C) (hq_numa_mapping C)"

definition hq_on_machine :: "('e, 'w) hq_config \<Rightarrow> 'e hq_label \<Rightarrow> bool" where
  "hq_on_machine C l \<longleftrightarrow>
     (case hq_label_cpu l of None \<Rightarrow> True | Some cpu \<Rightarrow> 0 \<le> cpu \<and> cpu < int (length (hq_numa_mapping C)))"

lemma hq_index_valid:
  assumes "hq_machine_ok C" and "0 \<le> cpu" "cpu < int (length (hq_numa_mapping C))"
  shows "\<exists>n. hq_index C cpu = Some n"
proof -
  have "nat cpu < length (hq_numa_mapping C)" using assms(2,3) by simp
  then show ?thesis using assms by (simp add: hq_machine_ok_def list_all_length hq_index_def Let_def)
qed

definition hq_home :: "('e, 'w) hq_config \<Rightarrow> 'e hq_pc \<Rightarrow> int option \<Rightarrow> bool" where
  "hq_home C p i \<longleftrightarrow> p \<noteq> HqUndef \<and> (\<forall>c. i = Some c \<longrightarrow> (\<exists>n. hq_index C c = Some n)) \<and>
     (\<forall>n. hq_where p = Some n \<longrightarrow> (\<exists>c. i = Some c \<and> hq_index C c = Some n))"

definition hq_pinned_inv :: "('e, 'w) hq_config \<Rightarrow> ('e, 'w) hq_lock \<Rightarrow> bool" where
  "hq_pinned_inv C s \<longleftrightarrow> (\<forall>t. hq_home C (hq_pc s t) (hq_node_id s t))"

lemma hq_home_stays:
  "hq_home C p i \<Longrightarrow> q \<noteq> HqUndef \<Longrightarrow> hq_where q = None \<or> hq_where q = hq_where p \<Longrightarrow> hq_home C q i"
  by (auto simp: hq_home_def)

lemma hq_pinned_step:
  assumes pin: "hq_pinning C = pinned_threads" and M: "hq_machine_ok C" and inv: "hq_pinned_inv C s"
    and st: "hq_step C l s = Some s'" and l: "hq_on_machine C l"
  shows "hq_pinned_inv C s' \<and> (\<forall>t c. hq_node_id s t = Some c \<longrightarrow> hq_node_id s' t = Some c)"
proof -
  let ?t = "hq_thread l"
  have fr: "hq_frame ?t s s'" and mv: "hq_stays ?t s s' \<or> (\<exists>cpu. hq_label_cpu l = Some cpu \<and> hq_asks C ?t cpu s s')"
    using hq_step_moves [OF st] by (auto simp: hq_moves_def)
  from mv show ?thesis
  proof
    assume stay: "hq_stays ?t s s'"
    then have ids: "hq_node_id s' = hq_node_id s" and pc: "hq_pc s' ?t \<noteq> HqUndef"
      "hq_where (hq_pc s' ?t) = None \<or> hq_where (hq_pc s' ?t) = hq_where (hq_pc s ?t)"
      by (simp_all add: hq_stays_def)
    have "hq_home C (hq_pc s' u) (hq_node_id s' u)" for u
    proof (cases "u = ?t")
      case True
      have "hq_home C (hq_pc s ?t) (hq_node_id s ?t)" using inv by (simp add: hq_pinned_inv_def)
      from hq_home_stays [OF this pc] show ?thesis using True ids by simp
    next
      case False
      then show ?thesis using inv fr ids by (simp add: hq_frame_def hq_pinned_inv_def)
    qed
    then show ?thesis using ids by (simp add: hq_pinned_inv_def)
  next
    assume "\<exists>cpu. hq_label_cpu l = Some cpu \<and> hq_asks C ?t cpu s s'"
    then obtain cpu where cpu: "hq_label_cpu l = Some cpu" "hq_asks C ?t cpu s s'" by blast
    let ?c = "hq_cpu C ?t cpu s"
    have g: "hq_get_qd C ?t cpu s = (hq_index C ?c, s\<lparr>hq_node_id := (hq_node_id s)(?t := Some ?c)\<rparr>)"
      using pin by (simp add: hq_get_qd_def Let_def)
    have "\<exists>n. hq_index C ?c = Some n"
    proof (cases "hq_node_id s ?t")
      case None
      have "0 \<le> cpu" "cpu < int (length (hq_numa_mapping C))" using l cpu(1) by (simp_all add: hq_on_machine_def)
      from hq_index_valid [OF M this] None pin show ?thesis by (simp add: hq_cpu_def)
    next
      case (Some c)
      then show ?thesis using inv pin by (simp add: hq_cpu_def hq_pinned_inv_def hq_home_def)
    qed
    then obtain n where n: "hq_index C ?c = Some n" by blast
    have home: "m = n" if w: "hq_where (hq_pc s ?t) = Some m" for m
    proof -
      obtain c where "hq_node_id s ?t = Some c" "hq_index C c = Some m" using inv w unfolding hq_pinned_inv_def hq_home_def by blast
      then show ?thesis using n pin by (simp add: hq_cpu_def)
    qed
    have ids: "hq_node_id s' = (hq_node_id s)(?t := Some ?c)" and pc: "hq_pc s' ?t \<in> {HqIdle, HqBase n}"
      using cpu(2) g n home by (auto simp: hq_asks_def split: option.splits if_splits)
    have keep: "?c = c" if "hq_node_id s ?t = Some c" for c using that pin by (simp add: hq_cpu_def)
    have "hq_home C (hq_pc s' u) (hq_node_id s' u)" for u
    proof (cases "u = ?t")
      case True
      then show ?thesis using pc ids n by (auto simp: hq_home_def)
    next
      case False
      then show ?thesis using inv fr ids by (simp add: hq_frame_def hq_pinned_inv_def)
    qed
    then have "hq_pinned_inv C s'" by (simp add: hq_pinned_inv_def)
    then show ?thesis using ids keep by auto
  qed
qed

lemma hq_pinned_run:
  assumes "hq_pinning C = pinned_threads" and "hq_machine_ok C"
  shows "hq_pinned_inv C s \<Longrightarrow> list_all (hq_on_machine C) ls \<Longrightarrow> run (hq_step C) ls s = Some s' \<Longrightarrow> hq_pinned_inv C s'"
proof (induction ls arbitrary: s)
  case (Cons l ls)
  then obtain s1 where "hq_step C l s = Some s1" "run (hq_step C) ls s1 = Some s'" by (auto split: option.splits)
  then show ?case using Cons hq_pinned_step [OF assms] by auto
qed simp

text \<open>
  Pinned threads stay at home: on a machine whose processors all have a node, a thread of a pinned
  lock works at the node of the processor on which it first called the lock, every access to the array of
  nodes is inside it, and every \<open>unlock\<close> releases the lock that was locked.
\<close>
theorem pinned_threads_stay_at_home:
  assumes pin: "hq_pinning C = pinned_threads" and M: "hq_machine_ok C"
    and on: "list_all (hq_on_machine C) ls" and r: "run (hq_step C) ls (hq_init w) = Some s"
  shows "hq_pc s t \<noteq> HqUndef \<and>
     (\<forall>n. hq_where (hq_pc s t) = Some n \<longrightarrow> (\<exists>c. hq_node_id s t = Some c \<and> hq_index C c = Some n))"
proof -
  have "hq_pinned_inv C (hq_init w)" by (simp add: hq_pinned_inv_def hq_home_def hq_init_def)
  from hq_pinned_run [OF pin M this on r] show ?thesis by (simp add: hq_pinned_inv_def hq_home_def)
qed

theorem pinned_threads_stay_at_home_witness:
  "\<exists>s. run (hq_step (hq_demo False pinned_threads)) (hq_move_run @ [HqDo 0 1]) (hq_init []) = Some s \<and>
     hq_node_pc s 0 0 = HdRelease \<and> hq_pc s 0 \<noteq> HqUndef"
proof -
  let ?C = "hq_demo False pinned_threads"
  obtain s where s: "run (hq_step ?C) (hq_move_run @ [HqDo 0 1]) (hq_init []) = Some s" "hq_node_pc s 0 0 = HdRelease"
    by (simp add: hq_move_run_def hq_eval qd_eval)
  have C: "hq_pinning ?C = pinned_threads" "hq_machine_ok ?C" "list_all (hq_on_machine ?C) (hq_move_run @ [HqDo 0 1])"
    by (simp_all add: hq_demo_def hq_construct_def hq_machine_ok_def hq_on_machine_def hq_move_run_def numeral_2_eq_2)
  from pinned_threads_stay_at_home [OF C s(1), of 0] s show ?thesis by blast
qed

section \<open>Progress\<close>

text \<open>A thread that has the global lock in \<open>delegate\<close>, or has just released it, at node \<open>n\<close>.\<close>

fun hq_busy_at :: "nat \<Rightarrow> 'e hq_pc \<Rightarrow> 'e qd_pc \<Rightarrow> bool" where
  "hq_busy_at n (HqGot m) p = (m = n)"
| "hq_busy_at n (HqBase m) p = (m = n \<and> (pc_crit p \<or> p = HdRelease))"
| "hq_busy_at n (HqGlobalUnlock m) p = (m = n)"
| "hq_busy_at n _ p = False"

definition hq_busy :: "nat \<Rightarrow> tid \<Rightarrow> ('e, 'w) hq_lock \<Rightarrow> bool" where
  "hq_busy n t s \<longleftrightarrow> hq_busy_at n (hq_pc s t) (hq_node_pc s t n) \<and> \<not> pc_user (hq_node_pc s t n)"

definition hq_quiet :: "('e, 'w) hq_lock \<Rightarrow> bool" where
  "hq_quiet s \<longleftrightarrow> (\<forall>u p. hq_pc s u = HqRead p \<longrightarrow> \<not> pc_arrived p)"

definition hq_rest :: "('e, 'w) hq_config \<Rightarrow> tid \<Rightarrow> nat \<Rightarrow> ('e, 'w) hq_lock \<Rightarrow> nat" where
  "hq_rest C t n s =
     (if hq_pc s t = HqGlobalUnlock n then 2
      else qd_hold_rest (hq_base_config C) t (hq_view n s) + (if hq_node_pc s t n = HdRelease \<or> hq_node_pc s t n = QdIdle then 0 else 2))"

lemma hq_quiet_readers:
  assumes "hq_inv C s" and "hq_quiet s"
  shows "hq_readers s g = 0"
proof -
  have "\<not> pc_arrived (qd_pc (hq_top s) u)" for u
  proof (cases "hq_pc s u")
    case (HqBase n)
    then have "\<not> pc_reader (hq_node_pc s u n)" using hq_invD(1) [OF assms(1), of u] by (simp add: hq_pc_ok_def)
    then show ?thesis using HqBase not_reader_pc [of "hq_node_pc s u n"] by (simp add: hq_top_def)
  qed (use assms(2) in \<open>auto simp: hq_top_def hq_quiet_def\<close>)
  from no_readers_no_counts [OF hq_invD(3) [OF assms(1)] this] show ?thesis by (simp add: hq_top_def)
qed

lemma hq_view_rel:
  assumes "hq_node_rel n s d"
  shows "\<exists>d. qd_tracks (hq_view n s) d"
proof -
  have "qd_tracks (hq_view n s) (d\<lparr>ds_world := hq_world s\<rparr>)"
    using assms unfolding hq_node_rel_def qd_tracks_def by simp
  then show ?thesis by blast
qed

lemma hq_quiet_frame: "hq_quiet s \<Longrightarrow> hq_frame t s s' \<Longrightarrow> (\<And>p. hq_pc s' t \<noteq> HqRead p) \<Longrightarrow> hq_quiet s'"
  unfolding hq_quiet_def hq_frame_def by metis

lemma hq_hold_rest_view:
  "qd_pc q = qd_pc q' \<Longrightarrow> qd_queue q = qd_queue q' \<Longrightarrow> qd_hold_rest C t q = qd_hold_rest C t q'"
  by (simp add: qd_hold_rest_def)

text \<open>One step of the code of its node, seen from the whole lock.\<close>

lemma hq_base_progress:
  assumes inv: "hq_inv C s" and rels: "hq_rels s" and quiet: "hq_quiet s" and v: "hq_qdlocks s1 = hq_qdlocks s" "hq_readers s1 = hq_readers s"
    and own: "pc_owns (hq_node_pc s t n)" "\<not> pc_user (hq_node_pc s t n)"
  shows "\<exists>l q. (l = QdDo t \<or> (\<exists>a. l = QdFlush t a)) \<and> qd_step (hq_base_config C) l (hq_view n s1) = Some q \<and>
     qd_hold_rest (hq_base_config C) t q < qd_hold_rest (hq_base_config C) t (hq_view n s) \<and>
     (pc_owns (qd_pc q t) \<or> qd_owner q = None) \<and> \<not> pc_user (qd_pc q t)"
proof -
  obtain d where "hq_node_rel n s d" using rels unfolding hq_rels_def by blast
  then obtain d where "qd_tracks (hq_view n s1) d"
    using hq_view_rel [of n s1] v by (auto simp: hq_node_rel_def)
  moreover have "qd_alone t (hq_view n s1)" using hq_alone [OF inv, of t n] v by (simp add: qd_alone_def)
  moreover have "qd_readers (hq_view n s1) g = 0" for g using hq_quiet_readers [OF inv quiet] v by simp
  moreover have "qd_hold_rest (hq_base_config C) t (hq_view n s1) = qd_hold_rest (hq_base_config C) t (hq_view n s)"
    by (rule hq_hold_rest_view) (simp_all add: v)
  moreover have "pc_owns (qd_pc (hq_view n s1) t)" "\<not> pc_user (qd_pc (hq_view n s1) t)" using own v by simp_all
  ultimately show ?thesis using qd_holder_progress [of "hq_view n s1" d t "hq_base_config C"] by metis
qed

lemma qd_do_pcs:
  assumes st: "qd_step C (QdDo t) q = Some q'"
  shows "qd_pc q t = HdGot h \<Longrightarrow> pc_crit (qd_pc q' t)" "qd_pc q t = HdUnlock \<Longrightarrow> qd_pc q' t = HdRelease"
    "qd_pc q t = HdRelease \<Longrightarrow> qd_pc q' t = QdIdle \<and> qd_owner q' = None"
  using st by (cases h; auto simp: qd_delegate_def qd_holder_def qd_goto_def)+

definition hq_goes_on :: "('e, 'w) hq_config \<Rightarrow> nat \<Rightarrow> tid \<Rightarrow> ('e, 'w) hq_lock \<Rightarrow> ('e, 'w) hq_lock \<Rightarrow> bool" where
  "hq_goes_on C n t s s' \<longleftrightarrow> hq_rest C t n s' < hq_rest C t n s \<and> hq_quiet s' \<and>
     (hq_global s' = hq_global s \<or> hq_global s' = None) \<and>
     (hq_busy n t s' \<or> hq_pc s' t = HqIdle \<and> qd_owner (hq_qdlocks s' n) = None)"

lemma hq_busy_progress:
  assumes inv: "hq_inv C s" and rels: "hq_rels s" and quiet: "hq_quiet s" and busy: "hq_busy n t s"
  shows "\<exists>l s'. hq_thread l = t \<and> hq_step C l s = Some s' \<and> hq_goes_on C n t s s'"
proof -
  note ok = hq_invD(1) [OF inv, of t]
  have user: "\<not> pc_user (hq_node_pc s t n)" using busy by (simp add: hq_busy_def)
  consider (got) "hq_pc s t = HqGot n" | (unl) "hq_pc s t = HqGlobalUnlock n"
    | (sync) "hq_pc s t = HqBase n" "hq_node_pc s t n = HdUnlock"
    | (base) "hq_pc s t = HqBase n" "hq_node_pc s t n \<noteq> HdUnlock" "pc_crit (hq_node_pc s t n) \<or> hq_node_pc s t n = HdRelease"
    using busy unfolding hq_busy_def by (cases "hq_pc s t") auto
  then show ?thesis
  proof cases
    case sync
    then have "hq_step C (HqSync t) s = Some (hq_goto t (HqGlobalUnlock n) s)" by (simp add: hq_hierarchy_sync_def)
    moreover have "hq_quiet (hq_goto t (HqGlobalUnlock n) s)" using quiet by (auto simp: hq_quiet_def hq_goto_def)
    ultimately show ?thesis using sync user
      by (intro exI [of _ "HqSync t"]) (simp add: hq_goes_on_def hq_rest_def hq_busy_def qd_hold_rest_def hq_goto_def)
  next
    case got
    then obtain h where h: "hq_node_pc s t n = HdGot h" using ok by (auto simp: hq_pc_ok_def)
    have owns: "pc_owns (hq_node_pc s t n)" using h by simp
    obtain l q where q: "l = QdDo t \<or> (\<exists>a. l = QdFlush t a)" "qd_step (hq_base_config C) l (hq_view n s) = Some q"
      "qd_hold_rest (hq_base_config C) t q < qd_hold_rest (hq_base_config C) t (hq_view n s)" "\<not> pc_user (qd_pc q t)"
      using hq_base_progress [OF inv rels quiet refl refl owns user] by blast
    have l: "l = QdDo t" using q(1,2) h by (auto simp: qd_flush_def)
    have c: "pc_crit (qd_pc q t)" using qd_do_pcs(1) [OF q(2) [unfolded l]] h by simp
    let ?s' = "hq_goto t (HqBase n) (s\<lparr>hq_world := qd_world q, hq_qdlocks := (hq_qdlocks s)(n := q)\<rparr>)"
    have st: "hq_base C n l s = Some ?s'" using q(2) c l by (auto simp: hq_base_def)
    have "hq_step C (HqDo t 0) s = Some ?s'" using st got l by (simp add: hq_global_sync_def)
    moreover have "hq_quiet ?s'" by (rule hq_quiet_frame [OF quiet]) (use hq_base_frame [OF st] l in \<open>auto simp: hq_goto_def\<close>)
    moreover have "qd_hold_rest (hq_base_config C) t (hq_view n ?s') = qd_hold_rest (hq_base_config C) t q"
      by (rule hq_hold_rest_view) simp_all
    ultimately show ?thesis using got q(3,4) c h
      by (intro exI [of _ "HqDo t 0"] exI [of _ ?s']) (auto simp: hq_goes_on_def hq_rest_def hq_busy_def hq_goto_def)
  next
    case unl
    let ?s1 = "s\<lparr>hq_global := None\<rparr>"
    have h: "hq_node_pc s t n = HdUnlock" using ok unl by (auto simp: hq_pc_ok_def)
    have owns: "pc_owns (hq_node_pc s t n)" using h by simp
    obtain l q where q: "l = QdDo t \<or> (\<exists>a. l = QdFlush t a)" "qd_step (hq_base_config C) l (hq_view n ?s1) = Some q"
      "\<not> pc_user (qd_pc q t)"
      using hq_base_progress [OF inv rels quiet _ _ owns user, of ?s1] by auto
    have l: "l = QdDo t" using q(1,2) h by (auto simp: qd_flush_def)
    have c: "qd_pc q t = HdRelease" using qd_do_pcs(2) [OF q(2) [unfolded l]] h by simp
    let ?s' = "hq_goto t (HqBase n) (?s1\<lparr>hq_world := qd_world q, hq_qdlocks := (hq_qdlocks s)(n := q)\<rparr>)"
    have st: "hq_base C n l ?s1 = Some ?s'" using q(2) c l by (auto simp: hq_base_def)
    have "hq_step C (HqDo t 0) s = Some ?s'" using st unl l by (simp add: hq_global_sync_def)
    moreover have "hq_frame t s ?s'" using hq_base_frame [OF st] l by (simp add: hq_frame_def)
    from hq_quiet_frame [OF quiet this] have "hq_quiet ?s'" by (simp add: hq_goto_def)
    moreover have "hq_node_pc ?s' t n = HdRelease" "hq_pc ?s' t = HqBase n" using c by (simp_all add: hq_goto_def)
    ultimately show ?thesis using unl
      by (intro exI [of _ "HqDo t 0"] exI [of _ ?s']) (auto simp: hq_goes_on_def hq_rest_def hq_busy_def qd_hold_rest_def)
  next
    case base
    have owns: "pc_owns (hq_node_pc s t n)" using base(3) by (cases "hq_node_pc s t n") auto
    obtain l q where q: "l = QdDo t \<or> (\<exists>a. l = QdFlush t a)" "qd_step (hq_base_config C) l (hq_view n s) = Some q"
      "qd_hold_rest (hq_base_config C) t q < qd_hold_rest (hq_base_config C) t (hq_view n s)"
      "pc_owns (qd_pc q t) \<or> qd_owner q = None" "\<not> pc_user (qd_pc q t)"
      using hq_base_progress [OF inv rels quiet refl refl owns user] by blast
    have t: "qd_thread l = t" using q(1) by auto
    have ng: "hq_node_pc s t n \<noteq> HdGot h" for h using base(3) by auto
    have i: "hq_inner l (hq_node_pc s t n)" using q(1) base(2) ng by (auto simp: hq_inner_def split: qd_pc.splits)
    have crit: "pc_crit (qd_pc q t) = pc_crit (hq_node_pc s t n)" using qd_crit_inner [OF q(2)] i t by simp
    let ?s' = "hq_goto t (if qd_pc q t = QdIdle then HqIdle else HqBase n) (s\<lparr>hq_world := qd_world q, hq_qdlocks := (hq_qdlocks s)(n := q)\<rparr>)"
    have b: "hq_base C n l s = Some ?s'" using q(2) t by (auto simp: hq_base_def)
    have "hq_step C (HqNode l) s = Some ?s'" using b base(1) i t by simp
    moreover have "hq_quiet ?s'" by (rule hq_quiet_frame [OF quiet]) (use hq_base_frame [OF b] t in \<open>auto simp: hq_goto_def\<close>)
    moreover have "qd_hold_rest (hq_base_config C) t (hq_view n ?s') = qd_hold_rest (hq_base_config C) t q"
      by (rule hq_hold_rest_view) simp_all
    moreover have "pc_crit (hq_node_pc s t n) \<or> qd_pc q t = QdIdle \<and> qd_owner q = None"
    proof -
      have "l = QdDo t" if "hq_node_pc s t n = HdRelease" using q(1,2) that by (auto simp: qd_flush_def)
      then show ?thesis using base(3) qd_do_pcs(3) [of "hq_base_config C" t "hq_view n s" q] q(2) by auto
    qed
    ultimately show ?thesis using base q(3,5) crit t
      by (intro exI [of _ "HqNode l"] exI [of _ ?s']) (auto simp: hq_goes_on_def hq_rest_def hq_busy_def hq_goto_def)
  qed
qed

lemma hq_busy_run:
  assumes ok: "cf_ok (hq_base_config C)"
  shows "hq_inv C s \<Longrightarrow> hq_rels s \<Longrightarrow> hq_quiet s \<Longrightarrow> hq_busy n t s \<Longrightarrow>
    \<exists>ls s'. length ls \<le> hq_rest C t n s \<and> (\<forall>l \<in> set ls. hq_thread l = t) \<and> run (hq_step C) ls s = Some s' \<and>
      (hq_global s' = hq_global s \<or> hq_global s' = None) \<and> hq_pc s' t = HqIdle \<and> qd_owner (hq_qdlocks s' n) = None"
proof (induction "hq_rest C t n s" arbitrary: s rule: less_induct)
  case less
  obtain l s1 where l: "hq_thread l = t" "hq_step C l s = Some s1" and g: "hq_goes_on C n t s s1"
    using hq_busy_progress [OF less.prems] by blast
  show ?case
  proof (cases "hq_busy n t s1")
    case False
    then show ?thesis using l g by (intro exI [of _ "[l]"] exI [of _ s1]) (auto simp: hq_goes_on_def)
  next
    case True
    have lt: "hq_rest C t n s1 < hq_rest C t n s" and q: "hq_quiet s1" using g by (simp_all add: hq_goes_on_def)
    obtain ls s' where "length ls \<le> hq_rest C t n s1" "\<forall>l \<in> set ls. hq_thread l = t" "run (hq_step C) ls s1 = Some s'"
      "hq_global s' = hq_global s1 \<or> hq_global s' = None" "hq_pc s' t = HqIdle" "qd_owner (hq_qdlocks s' n) = None"
      using less.hyps [OF lt hq_inv_step [OF ok less.prems(1) l(2)] hq_rels_step [OF less.prems(1,2) l(2)] q True] by blast
    then show ?thesis using l lt g by (intro exI [of _ "l # ls"] exI [of _ s']) (auto simp: hq_goes_on_def)
  qed
qed

text \<open>
  C17. The holder of the global lock gets through: from every reachable state in which a thread owns the
  global lock in \<open>delegate\<close> and no reader is there, that thread alone executes what is in the queue of its
  node and releases both locks, after at most one step for each reader group and each operation in the queue,
  and eleven more.
\<close>
theorem hierarchical_holder_releases_locks:
  fixes C :: "('e, 'w) hq_config"
  assumes ok: "cf_ok (hq_base_config C)" and r: "reachable (hq_step C) (hq_init w) s"
    and own: "hq_global s = Some t" "hq_where (hq_pc s t) = Some n" "\<not> pc_user (hq_node_pc s t n)" and quiet: "hq_quiet s"
  shows "\<exists>ls s'. length ls \<le> cf_groups (hq_base_config C) + length (tq_pend (qd_queue (hq_qdlocks s n))) + 11 \<and>
      (\<forall>l \<in> set ls. hq_thread l = t) \<and> run (hq_step C) ls s = Some s' \<and>
      hq_global s' = None \<and> qd_owner (hq_qdlocks s' n) = None \<and> tq_pend (qd_queue (hq_qdlocks s' n)) = []"
proof -
  note inv = hq_reachable_inv(1) [OF ok r]
  have rels: "hq_rels s" using hq_reachable_inv(2) [OF ok r] by (simp add: hq_rels_def)
  have "hq_holds t s" using hq_invD(2) [OF inv] own(1) by (simp add: owner_rel_def)
  then have busy: "hq_busy n t s"
    using own(2,3) hq_invD(1) [OF inv, of t] by (cases "hq_pc s t") (auto simp: hq_busy_def hq_holds_def hq_pc_ok_def)
  have bound: "hq_rest C t n s \<le> cf_groups (hq_base_config C) + length (tq_pend (qd_queue (hq_qdlocks s n))) + 11"
    by (cases "hq_node_pc s t n") (auto simp: hq_rest_def qd_hold_rest_def Let_def)
  obtain ls s' where s': "length ls \<le> hq_rest C t n s" "\<forall>l \<in> set ls. hq_thread l = t" "run (hq_step C) ls s = Some s'"
    "hq_global s' = hq_global s \<or> hq_global s' = None" "hq_pc s' t = HqIdle" "qd_owner (hq_qdlocks s' n) = None"
    using hq_busy_run [OF ok inv rels quiet busy] by blast
  have r': "reachable (hq_step C) (hq_init w) s'" by (rule reachable_run [OF r s'(3)])
  note inv' = hq_reachable_inv(1) [OF ok r']
  have "\<not> hq_holds t s'" using s'(5) by (simp add: hq_holds_def)
  then have free: "hq_global s' = None" using hq_invD(2) [OF inv'] s'(4) own(1) by (auto simp: owner_rel_def)
  obtain d where "hq_node_rel n s' d" using hq_reachable_inv(2) [OF ok r'] by blast
  then have "tq_pend (qd_queue (hq_qdlocks s' n)) = []" using hq_queue_used [OF inv' _ disjI2] free by fastforce
  then show ?thesis using s' bound free by (intro exI [of _ ls] exI [of _ s']) auto
qed

theorem hierarchical_holder_releases_locks_witness:
  "\<exists>s ls s'. run (hq_step (hq_demo False free_threads)) (take 10 hq_demo_run) (hq_init []) = Some s \<and> hq_global s = Some 1 \<and>
     length ls \<le> 13 \<and> run (hq_step (hq_demo False free_threads)) ls s = Some s' \<and> hq_global s' = None"
proof -
  let ?C = "hq_demo False free_threads"
  obtain s where s: "run (hq_step ?C) (take 10 hq_demo_run) (hq_init []) = Some s" "hq_global s = Some 1"
    "hq_where (hq_pc s 1) = Some 1" "\<not> pc_user (hq_node_pc s 1 1)" "hq_quiet s" "tq_pend (qd_queue (hq_qdlocks s 1)) = []"
    by (simp add: hq_eval qd_eval hq_quiet_def)
  have C: "cf_ok (hq_base_config ?C)" and G: "cf_groups (hq_base_config ?C) = 2"
    by (simp_all add: hq_demo_def hq_construct_def cf_ok_def qd_demo_def)
  from hierarchical_holder_releases_locks [OF C run_reachable [OF s(1)] s(2,3,4,5), unfolded s(6) G]
  obtain ls s' where "length ls \<le> 13" "run (hq_step ?C) ls s = Some s'" "hq_global s' = None" by auto
  with s(1,2) show ?thesis by blast
qed

text \<open>
  Without libnuma the number of nodes is whatever the memory held: the constructor sets \<open>numanodes\<close> only
  when the library is used. If the value is positive all threads share the first node; otherwise the
  first call of any thread reaches for a lock that does not exist.
\<close>
theorem numanodes_uninitialised:
  assumes "0 \<le> cpu" "cpu < int num_cpus"
  shows "\<exists>s. hq_step (hq_construct C pinning mutex num_cpus None garbage) (HqDelegate t cpu x) (hq_init w) = Some s \<and>
    hq_pc s t = (if 0 < garbage then HqBase 0 else HqUndef)"
proof -
  have "nat cpu < num_cpus" using assms by simp
  then show ?thesis using assms
    by (cases pinning)
      (simp_all add: hq_construct_def hq_delegate_def hq_get_qd_def hq_cpu_def hq_index_def hq_base_def hq_view_def
        hq_init_def qd_init_def hq_goto_def qd_goto_def)
qed

theorem numanodes_uninitialised_witness:
  "\<exists>s. hq_step (hq_construct (qd_demo False) free_threads flag_mutex 4 None (-1)) (HqDelegate 0 3 7) (hq_init []) = Some s \<and> hq_pc s 0 = HqUndef"
  using numanodes_uninitialised [of 3 4 "qd_demo False" free_threads flag_mutex "-1" 0 7 "[]"] by simp

end
