(* ===== verification/Delegate_Api.thy ===== *)
theory Delegate_Api
  imports Delegated "HOL-Library.Sublist"
begin

text \<open>
  The functions \<open>delegate_n\<close>, \<open>delegate_f\<close>, \<open>delegate_p\<close> and \<open>delegate_fp\<close> of the four delegation locks
  (\<open>qdlock.hpp\<close>, \<open>mrqdlock.hpp\<close>, \<open>hqdlock.hpp\<close>): the call of \<open>qdlock_base::delegate\<close> that each makes,
  whether its arguments bind to the parameters, and the operation that it delegates.
\<close>

section \<open>Types and arguments\<close>

text \<open>
  The type of an object: that of \<open>nullptr\<close>, \<open>std::promise<R>\<close> (\<open>None\<close> is \<open>void\<close>), or a type of the user.
  An argument is an object with its type. Arguments are passed as rvalues.
\<close>

type_synonym ret = "nat option"

datatype cty = Nullptr | PromiseOf ret | UserType nat

type_synonym arg = "cty \<times> byte list"


text \<open>
  A call \<open>delegate<Function, f, Promise, RSync, HSync, Ps...>(result, ps...)\<close>: the function, \<open>None\<close> if it is
  \<open>nullptr\<close>, the type \<open>Promise\<close>, whether \<open>RSync\<close> and \<open>HSync\<close> are the empty classes or not, the types
  that are given explicitly for the pack \<open>Ps\<close>, and the arguments.
\<close>

record 'fn dcall =
  dc_template :: "'fn option"
  dc_promise :: cty
  dc_readers :: bool
  dc_hierarchy :: bool
  dc_pack :: "cty list"
  dc_result :: arg
  dc_args :: "arg list"






section \<open>\<open>qdlock_impl\<close>\<close>





section \<open>\<open>mrqdlock_impl\<close>\<close>





section \<open>\<open>hqdlock_impl\<close>; \<open>get_qd\<close> selects the lock whose \<open>delegate\<close> is called\<close>





section \<open>\<open>mrhqdlock_impl\<close>\<close>





section \<open>Properties\<close>





end
