(* ===== verification/Spec2Isabelle.thy ===== *)
theory Spec2Isabelle
  imports Tatas_Lock Futex_Lock Mutex_Lock Ticket_Lock MCS_Lock MCS_Futex_Lock Entry_Queue Dual_Buffer_Queue Buffer_Queue Simple_Locked_Queue Delegated Waiting_Future
    QD_Lock Linked_Lock Default_Lock Linked_Futures Waitable_Lock Padded Reader_Groups Thread_Id Composition HQD_Lock HQD_Delegation Delegate_Api
begin

text \<open>
  Verification library of the C++ queue delegation (QD) locking library. Paths are relative to the
  root of the repository.

  \<^bold>\<open>The program.\<close> A delegation lock protects data. A thread hands it an operation: \<open>delegate\<close>
  (\<open>qdlock_base.hpp\<close>) executes the operation at once if it gets the mutual exclusion lock \<open>MLock\<close>, and otherwise
  stores it in the delegation queue \<open>DQueue\<close>, which the thread that holds the lock, the helper, flushes
  before it releases the lock. The operation travels as bytes: \<open>enqueue\<close> writes the parameters and the
  promise of the result next to a pointer to a wrapper \<open>delegated_*\<close>, which unpacks them, calls the operation and
  sets the promise. \<open>mrqdlock.hpp\<close> adds readers, counted by \<open>readindicator/reader_groups.hpp\<close> in
  groups that the ids of \<open>threadid.hpp\<close> select. \<open>hqdlock.hpp\<close> has one such lock for each NUMA node and a
  global lock between them.

  \<^bold>\<open>How it is modelled.\<close> A concurrent component is a record of its shared state and of the place of
  each thread (a datatype with a constructor for each atomic access of the code), and an executable step
  function; a run is a list of labels that say which thread moves, and so is any interleaving. One step makes one atomic access
  to shared memory. The memory is sequentially consistent: the \<open>std::memory_order\<close> arguments are not
  modelled. \<open>None\<close> is a move that the thread cannot make (a blocked thread) or, where the
  text says so, an access outside of an array.

  \<^bold>\<open>Contracts.\<close> Each template parameter is an abstract machine, and a locale says that
  a component simulates it (\<open>forward_simulation\<close> and \<open>simulation\<close> of QD_Prelude); each locale is
  interpreted for the components that keep the contract.
  \<^item> Lock_Spec (\<open>lock_impl\<close>): a mutual exclusion lock has at most one owner, and \<open>is_locked\<close> is true while a critical section
    runs. Queue_Lock (\<open>queue_lock\<close>) extends it by the order in which threads enter.
  \<^item> Queue_Spec (\<open>tantrum_queue\<close>): \<open>enqueue\<close> stores an operation in one atomic step while the queue is
    open, or has no effect; \<open>flush\<close> executes what was stored, in order, and leaves the queue closed and empty.
  \<^item> QD_Lock has the abstract delegation object: called operations are executed one after the other, each once, those of a
    thread in the order of its calls.

  \<^bold>\<open>The theories.\<close>
  \<^item> QD_Prelude: runs, reachable states, traces, invariants and simulations.
  \<^item> Tatas_Lock, Futex_Lock, Ticket_Lock, Mutex_Lock, MCS_Lock, MCS_Futex_Lock: the locks of \<open>locks/\<close>,
    shown to keep the contract, with the order of service of the queueing ones, the absence of lost wake-ups of those that
    sleep, and bounds on the steps of \<open>unlock\<close>. Futex is the system call, a parameter \<open>K\<close> with its
    documented behaviour \<open>futex_ok\<close>; \<open>list_kernel\<close> is a kernel that has it. The system mutex of Mutex_Lock is
    a parameter likewise, and so are the addresses of the nodes of MCS_Futex_Lock, of which only alignment and distinctness are used.
  \<^item> Marshal: parameters as bytes, \<open>forwardall\<close> and \<open>sumsizes\<close> (\<open>util/type_tools.hpp\<close>) and their inverse.
  \<^item> Entry_Queue, Dual_Buffer_Queue: the queues of \<open>queues/\<close> with every byte they write. They
    keep the contract of a tantrum queue, never access memory outside of their arrays for operations that fit, and \<open>flush\<close> returns.
    Reservations has the consecutive reservations of a buffer. Their constructors leave the function pointers of the entries
    indeterminate, and \<open>flush\<close> takes a pointer that is not null for a published operation: the memory in which a queue is
    constructed is an argument \<open>M\<close> of the initial state, and the theorems that need null pointers there (static storage) have
    \<open>db_zeroed C M\<close> or \<open>eq_zeroed C M\<close> as hypothesis. What happens otherwise is the theorem \<open>dual_queue_uninitialised\<close>.
  \<^item> Function_Table, Buffer_Queue: the queue of \<open>queues/buffer_queue.hpp\<close>, with the three maps in which it numbers the
    functions. It keeps the contract while no thread uses a deleted map; that one can, and that an operation without
    parameters can be lost, are theorems.
  \<^item> Simple_Locked_Queue: the queue of \<open>queues/simple_locked_queue.hpp\<close>, which is always open, and
    what it does with operations that do not fit.
  \<^item> Delegated: the overloads of \<open>execute\<close> and \<open>enqueue\<close> and the \<open>delegated_*\<close> wrappers; running the wrapper on the
    bytes of the entry has the effect of executing the operation. The program of the user (what its functions do) is a parameter.
  \<^item> Waiting_Future: the futures that \<open>delegate_f\<close> returns, whose destructor waits for the operation.
  \<^item> QD_Lock: \<open>delegate\<close>, \<open>try_enqueue\<close>, \<open>helper\<close>, \<open>executor\<close>, and \<open>lock\<close>, \<open>unlock\<close>, \<open>rlock\<close>, \<open>runlock\<close> of
    \<open>mrqdlock\<close>, over a lock and a queue that keep their contracts. Delegation is correct, writers exclude readers, the
    holder releases the lock, and a call does not starve.
  \<^item> Linked_Lock, Default_Lock: the two locks that \<open>qd.hpp\<close> defines, \<open>qdlock\<close> and \<open>mrqdlock\<close>, linked from the parts: the threads take the
    single steps of the MCS lock of MCS_Futex_Lock and of the queue of Dual_Buffer_Queue, where QD_Lock has one step for each. Linked_Lock is for any lock
    with the interface \<open>callable_lock\<close> and shows that every run of the linked lock is one of QD_Lock; Default_Lock has the MCS lock as such
    a lock, and the properties: operations are executed once and in order, owners and readers exclude each other, and
    the locks do not deadlock.
  \<^item> Waitable_Lock: \<open>locks/waitable_lock.hpp\<close>, a lock with a condition variable of the standard library. Padded: the layout and the
    operators of \<open>padded.hpp\<close>.
  \<^item> Reader_Groups, Thread_Id: the reader indicator and the thread ids.
  \<^item> HQD_Lock, HQD_Delegation: the hierarchical locks, whose nodes are locks of QD_Lock; the first theory
    has the model and its invariant, the second the properties. A thread that has moved to another node unlocks the lock
    of that node. What this does depends on the class of the nodes' locks (\<open>node_mutex_t\<close>): a flag is free afterwards, although
    another thread holds it, and in an MCS lock the thread waits for ever. Delegation and exclusion hold all the same, by the
    global lock.
  \<^item> Delegate_Api: the \<open>delegate_n\<close>, \<open>_f\<close>, \<open>_p\<close> and \<open>_fp\<close> functions of the four classes: the call of
    \<open>delegate\<close> that each makes, how its arguments bind to the parameters, and what it delegates.
  \<^item> Composition, Linked_Futures and this theory: the wrappers in the default queue, and the promises and futures of operations
    that are delegated, to the lock of QD_Lock and to the linked locks.

  \<^bold>\<open>Bounds.\<close> Liveness is stated with a number of steps of the threads that have to move, and proved by a
  measure: flushing takes \<open>20 * ENTRIES\<close> steps plus 5 (default queue) or 8 (entry queue), once the entries that were
  reserved are written; the holder of a lock releases it within as many steps as there are reader groups and pending operations plus 9, or 11 for
  the hierarchical locks; a thread in the retry loop of \<open>delegate\<close> (512 rounds) leaves it within 2565 steps; \<open>unlock\<close> of
  the MCS locks takes at most 8 and 9 steps. The ticket lock is correct for less than \<open>2 ^ 30 - 1\<close> tickets; then
  its additions of type \<open>int\<close> overflow, which is undefined behaviour (\<open>ticket_overflows\<close>). The 32-bit counter of the default queue is at most \<open>ENTRIES + R * N\<close> for \<open>N\<close>
  threads and operations of at most \<open>R\<close> entries. Counters of 64 bits are natural numbers. The sizes of the default queue fit into
  32 bits, \<open>(ENTRIES + 1) * ENTRY_SIZE \<le> 2 ^ 32\<close>, so that its products do not wrap around.

  The buffer queue is correct for operations with at least one byte of parameters that fit into the buffer,
  and for less than \<open>2 ^ 32 - 1\<close> functions.

  \<^bold>\<open>Not modelled.\<close> Memory orders weaker than sequential consistency. \<open>qd_condition_variable.hpp\<close>, which no queue of the repository can
  instantiate: it calls \<open>flush_one\<close>, which only the simple locked queue has, and uses \<open>DQueue::status\<close>, which that queue does not
  have. \<open>util/pause.hpp\<close> (a hint to the processor) and the macros of \<open>qd.hpp\<close>. Operations that throw or that use the lock
  they are delegated to. Node locks of other classes than the two kinds above, in an \<open>unlock\<close> after a move. The static type checks of C++ beyond those in Delegate_Api. \<open>notify_one\<close> of the futex and ticket locks, which is private and which nothing calls.
\<close>

section \<open>Properties that span components\<close>

text \<open>
  C3. Delegated operations are executed: in a program in which the function pointers stored in the
  default queue are the instances of the wrappers that \<open>tbl\<close> names, and in which the queue was
  constructed in memory whose function pointers are null, the effect of a run of the queue,
  in which \<open>flush\<close> calls these pointers on the bytes it finds in the buffer, is that of executing
  operations directly, one after the other, and they are the operations that were accepted, in the
  order in which they were.
\<close>
theorem flush_executes_operations:
  assumes ok: "db_ok C" and zero: "db_zeroed C M" and sizes: "\<And>f. db_sizes C f = wrapper_sizes P (tbl f)"
    and wf: "\<And>f. wrapper_wf (tbl f)" and r: "run (db_step C) ls (db_init C M) = Some s"
  shows "\<exists>es todo. es = trace (db_step C) (db_events C) ls (db_init C M) \<and>
    accepted es = executed es @ todo \<and>
    queue_effect P tbl C ls (db_init C M) W =
      execute_all P (map (\<lambda>(f, ps). entry_op (tbl f) ps) (executed es)) W"
  using tantrum_queue.linearizable [OF dual_tantrum_queue [OF ok zero] r]
    queue_effect_executes [OF sizes wf r] by blast

text \<open>An operation adds the first byte of its parameter to a counter and returns the old value.\<close>

definition adder :: "(unit, nat, nat) program" where
  "adder = \<lparr>pr_call = (\<lambda>f ps d. (Some d, d + unat (hd (hd ps)))), pr_mem_call = (\<lambda>f ob ps d. (None, d)),
     pr_promise_size = 4\<rparr>"

definition adder_wrapper :: "unit wrapper" where
  "adder_wrapper = \<lparr>w_kind = ValueFuture, w_template = Some (), w_member = False, w_types = [4]\<rparr>"

theorem flush_executes_operations_witness:
  "queue_effect adder (\<lambda>_. adder_wrapper) (db_small use_fetch_and_add) db_demo_run
     (db_static_init (db_small use_fetch_and_add)) \<lparr>w_data = 40, w_results = (\<lambda>_. None)\<rparr> =
   Inr \<lparr>w_data = 41, w_results = (\<lambda>_. None)([5, 6, 7, 8] := Some (Some 40))\<rparr>"
proof -
  let ?C = "db_small use_fetch_and_add"
  obtain s where s: "run (db_step ?C) db_demo_run (db_static_init ?C) = Some s" by (simp add: db_eval)
  have ex: "executed (trace (db_step ?C) (db_events ?C) db_demo_run (db_static_init ?C)) = [(5, [[1, 2, 3, 4], [5, 6, 7, 8]])]"
    by (simp add: db_eval)
  have "db_sizes ?C f = wrapper_sizes adder adder_wrapper" for f
    by (simp add: db_small_def db_config_of_def wrapper_sizes_def adder_def adder_wrapper_def)
  moreover have "wrapper_wf adder_wrapper" by (simp add: wrapper_wf_def adder_wrapper_def)
  moreover have "execute adder (entry_op adder_wrapper [[1, 2, 3, 4], [5, 6, 7, 8]]) \<lparr>w_data = 40, w_results = (\<lambda>_. None)\<rparr> =
      Inr \<lparr>w_data = 41, w_results = (\<lambda>_. None)([5, 6, 7, 8] := Some (Some 40))\<rparr>"
    by (simp add: execute_def entry_op_def adder_def adder_wrapper_def execute_future_def call_operation_def set_value_def)
  ultimately show ?thesis
    using flush_executes_operations [OF db_small_ok db_static_zeroed _ _ s, of adder "\<lambda>_. adder_wrapper"
        "\<lparr>w_data = 40, w_results = (\<lambda>_. None)\<rparr>"] ex by auto
qed

lemma delegated_world:
  assumes exec: "cf_exec C = execute_on P" and r: "run (qd_step C) ls (qd_init (Inr W0)) = Some s"
    and typed: "\<And>x. x \<in> set (delegated_ops ls) \<Longrightarrow> op_typed P x"
    and distinct: "distinct (promises (delegated_ops ls))"
    and fresh: "\<And>p. p \<in> set (promises (delegated_ops ls)) \<Longrightarrow> w_results W0 p = None"
  shows "\<exists>W. qd_world s = Inr W \<and>
    (\<forall>p. w_results W p \<noteq> None \<longleftrightarrow> w_results W0 p \<noteq> None \<or>
       p \<in> set (promises (ds_order (trace (qd_step C) qd_events ls (qd_init (Inr W0))))))"
proof -
  let ?es = "trace (qd_step C) qd_events ls (qd_init (Inr W0))"
  obtain d where d: "run (ds_step (cf_exec C)) ?es (ds_init (Inr W0)) = Some d" "qd_rel s d"
    using delegation.run_simulated [OF r] by blast
  have sub: "mset (ds_order ?es) \<subseteq># mset (delegated_ops ls)"
    using ds_executed_once [OF d(1)] ds_called_trace [OF r] by simp
  obtain W where f: "fold (execute_on P) (ds_order ?es) (Inr W0) = Inr W" and
    W: "\<forall>p. w_results W p \<noteq> None \<longleftrightarrow> w_results W0 p \<noteq> None \<or> p \<in> set (promises (ds_order ?es))"
    using executions_fulfil_submset [OF sub typed distinct fresh] by blast
  have "qd_world s = Inr W"
    using ds_run [OF d(1), THEN conjunct2] qd_relD(2) [OF d(2)] exec f by (simp add: ds_init_def)
  with W show ?thesis by blast
qed

lemma returned_promises:
  assumes "run (qd_step C) ls (qd_init w) = Some s" and "QdDelegate t x \<in> set ls" "o_kind x \<noteq> NoFuture"
    and "qd_owner s = None" "pc_op (qd_pc s t) = []"
  shows "o_promise x \<in> set (promises (ds_order (trace (qd_step C) qd_events ls (qd_init w))))"
  using qd_all_executed [OF assms(1,4,5,2)] assms(3) by (auto simp: promises_def)

text \<open>
  C2. Futures are fulfilled: when every call of \<open>delegate\<close> has a promise of its own, and the operations
  return results of the types of their futures, no promise is ever set twice or with a wrong type
  (the world is not an error), a promise has a value exactly if its operation has been executed, and
  when a thread has returned from its calls and nobody holds the lock, all its futures are ready.
\<close>
theorem futures_are_fulfilled:
  assumes exec: "cf_exec C = execute_on P" and r: "run (qd_step C) ls (qd_init (Inr W0)) = Some s"
    and typed: "\<And>x. x \<in> set (delegated_ops ls) \<Longrightarrow> op_typed P x"
    and distinct: "distinct (promises (delegated_ops ls))"
    and fresh: "\<And>p. p \<in> set (promises (delegated_ops ls)) \<Longrightarrow> w_results W0 p = None"
  shows "\<exists>W es. qd_world s = Inr W \<and> es = trace (qd_step C) qd_events ls (qd_init (Inr W0)) \<and>
    (\<forall>p. w_results W p \<noteq> None \<longleftrightarrow> w_results W0 p \<noteq> None \<or> p \<in> set (promises (ds_order es))) \<and>
    (\<forall>t x. QdDelegate t x \<in> set ls \<and> o_kind x \<noteq> NoFuture \<and> qd_owner s = None \<and> pc_op (qd_pc s t) = [] \<longrightarrow>
       w_results W (o_promise x) \<noteq> None)"
proof -
  let ?es = "trace (qd_step C) qd_events ls (qd_init (Inr W0))"
  obtain W where w: "qd_world s = Inr W" and
    W: "\<forall>p. w_results W p \<noteq> None \<longleftrightarrow> w_results W0 p \<noteq> None \<or> p \<in> set (promises (ds_order ?es))"
    using delegated_world [OF exec r typed distinct fresh] by blast
  have ready: "w_results W (o_promise x) \<noteq> None"
    if x: "QdDelegate t x \<in> set ls" "o_kind x \<noteq> NoFuture" and q: "qd_owner s = None" "pc_op (qd_pc s t) = []"
    for t x
    using returned_promises [OF r x q] W by blast
  show ?thesis
    by (rule exI [of _ W], rule exI [of _ ?es], intro conjI allI impI, rule w, rule refl, rule spec [OF W],
        elim conjE, rule ready)
qed

text \<open>Thread 0 delegates two operations, with different promises.\<close>

definition counter_config :: "(unit operation, dl_error + (nat, nat) world) qd_config" where
  "counter_config = \<lparr>cf_exec = execute_on counter_program, cf_may_starve = False, cf_readers = False,
     cf_groups = 1, cf_patience = 1\<rparr>"

definition counter_run :: "unit operation qd_label list" where
  "counter_run = concat (map (\<lambda>p. QdDelegate 0 (counter_op\<lparr>o_promise := p\<rparr>) # replicate 7 (QdDo 0)) [[8], [9]])"

lemma counter_run_world:
  "\<exists>s W. run (qd_step counter_config) counter_run (qd_init (Inr \<lparr>w_data = 5, w_results = (\<lambda>_. None)\<rparr>)) = Some s \<and>
     qd_owner s = None \<and> qd_pc s 0 = QdIdle \<and> qd_world s = Inr W \<and> w_data W = 9 \<and>
     ds_order (trace (qd_step counter_config) qd_events counter_run (qd_init (Inr \<lparr>w_data = 5, w_results = (\<lambda>_. None)\<rparr>))) =
       [counter_op\<lparr>o_promise := [8]\<rparr>, counter_op\<lparr>o_promise := [9]\<rparr>]"
  by (simp add: counter_config_def counter_run_def qd_eval numeral_eq_Suc execute_def counter_op_def
      counter_program_def execute_future_def call_operation_def set_value_def)

lemma counter_run_ops:
  "delegated_ops counter_run = [counter_op\<lparr>o_promise := [8]\<rparr>, counter_op\<lparr>o_promise := [9]\<rparr>]"
  "promises (delegated_ops counter_run) = [[8], [9]]"
  "x \<in> set (delegated_ops counter_run) \<Longrightarrow> op_typed counter_program x"
  "cf_exec counter_config = execute_on counter_program"
  "QdDelegate 0 (counter_op\<lparr>o_promise := [8]\<rparr>) \<in> set counter_run" "o_kind counter_op \<noteq> NoFuture"
  by (auto simp: counter_run_def numeral_eq_Suc promises_def op_typed_def counter_op_def counter_program_def
      call_operation_def counter_config_def)

theorem futures_are_fulfilled_witness:
  "\<exists>s W. run (qd_step counter_config) counter_run (qd_init (Inr \<lparr>w_data = 5, w_results = (\<lambda>_. None)\<rparr>)) = Some s \<and>
     qd_world s = Inr W \<and> w_data W = 9 \<and> w_results W [8] \<noteq> None \<and> w_results W [9] \<noteq> None \<and> w_results W [7] = None"
proof -
  let ?W = "\<lparr>w_data = 5, w_results = (\<lambda>_. None)\<rparr> :: (nat, nat) world"
  obtain s W where s: "run (qd_step counter_config) counter_run (qd_init (Inr ?W)) = Some s"
      "qd_world s = Inr W" "w_data W = 9"
    "ds_order (trace (qd_step counter_config) qd_events counter_run (qd_init (Inr ?W))) =
       [counter_op\<lparr>o_promise := [8]\<rparr>, counter_op\<lparr>o_promise := [9]\<rparr>]"
    using counter_run_world by blast
  obtain W' where W': "qd_world s = Inr W'"
    "\<forall>p. w_results W' p \<noteq> None \<longleftrightarrow> p \<in> set (promises [counter_op\<lparr>o_promise := [8]\<rparr>, counter_op\<lparr>o_promise := [9]\<rparr>])"
    using futures_are_fulfilled [OF counter_run_ops(4) s(1) counter_run_ops(3)] s(4) by (auto simp: counter_run_ops(2))
  have r: "w_results W p \<noteq> None \<longleftrightarrow> p = [8] \<or> p = [9]" for p
    using W' s(2) by (simp add: promises_def counter_op_def)
  have "w_results W [8] \<noteq> None" "w_results W [9] \<noteq> None" "w_results W [7] = None"
    using r [of "[8]"] r [of "[9]"] r [of "[7]"] by simp_all
  with s(1,2,3) show ?thesis by blast
qed

text \<open>
  C26. The destructor of a future does not block for ever: when a thread has returned from its calls of \<open>delegate\<close> and
  nobody holds the lock, the destructor and \<open>get\<close> of every future of its operations return at once.
\<close>
theorem future_destructors_return:
  assumes exec: "cf_exec C = execute_on P" and r: "run (qd_step C) ls (qd_init (Inr W0)) = Some s"
    and typed: "\<And>x. x \<in> set (delegated_ops ls) \<Longrightarrow> op_typed P x"
    and distinct: "distinct (promises (delegated_ops ls))"
    and fresh: "\<And>p. p \<in> set (promises (delegated_ops ls)) \<Longrightarrow> w_results W0 p = None"
    and x: "QdDelegate t x \<in> set ls" "o_kind x \<noteq> NoFuture" and q: "qd_owner s = None" "pc_op (qd_pc s t) = []"
    and F: "qd_world s = Inr W" "wf_results F = w_results W" "wf_objects F v = Some (Some (o_promise x))"
  shows "wf_destroy v F = Returns (F\<lparr>wf_objects := (wf_objects F)(v := None)\<rparr>) \<and>
    wf_get v F = Returns (F\<lparr>wf_objects := (wf_objects F)(v \<mapsto> None)\<rparr>)"
proof -
  have "w_results W (o_promise x) \<noteq> None"
    using delegated_world [OF exec r typed distinct fresh] returned_promises [OF r x q] F(1) by auto
  then show ?thesis using F(2,3) by (auto simp: wf_destroy_def wf_get_def)
qed

theorem future_destructors_return_witness:
  "\<exists>s W. run (qd_step counter_config) counter_run (qd_init (Inr \<lparr>w_data = 5, w_results = (\<lambda>_. None)\<rparr>)) = Some s \<and>
     qd_world s = Inr W \<and>
     wf_destroy 3 \<lparr>wf_results = w_results W, wf_taken = {[8]}, wf_objects = [3 \<mapsto> Some [8]]\<rparr> =
       Returns \<lparr>wf_results = w_results W, wf_taken = {[8]}, wf_objects = (\<lambda>_. None)\<rparr>"
proof -
  let ?W = "\<lparr>w_data = 5, w_results = (\<lambda>_. None)\<rparr> :: (nat, nat) world"
  obtain s W where s: "run (qd_step counter_config) counter_run (qd_init (Inr ?W)) = Some s"
      "qd_owner s = None" "qd_pc s 0 = QdIdle" "qd_world s = Inr W"
    using counter_run_world by blast
  define F :: "nat futures" where "F = \<lparr>wf_results = w_results W, wf_taken = {[8]}, wf_objects = [3 \<mapsto> Some [8]]\<rparr>"
  have "wf_destroy 3 F = Returns (F\<lparr>wf_objects := (wf_objects F)(3 := None)\<rparr>)"
    by (rule future_destructors_return [OF counter_run_ops(4) s(1) counter_run_ops(3) _ _ counter_run_ops(5) _ s(2) _ s(4),
          THEN conjunct1]) (simp_all add: counter_run_ops(2,6) s(3) F_def)
  then show ?thesis using s(1,4) by (auto simp: F_def)
qed

end
